(* ===== verification/Cdc_Prelude.thy ===== *)
theory Cdc_Prelude
  imports Main "HOL-Library.Word"
begin

text \<open>
  Types, error codes and generic lemmas shared by the components of the bridge firmware.

  Bytes and machine integers of the C code keep their width: \<^verbatim>\<open>uint8_t\<close>, \<^verbatim>\<open>uint16_t\<close> and
  \<^verbatim>\<open>uint32_t\<close> are \<open>u8\<close>, \<open>u16\<close> and \<open>u32\<close> below, whose \<open>+\<close> wraps.  The microsecond clock
  \<^verbatim>\<open>esp_timer_get_time()\<close> is an \<open>int\<close> that every operation reading it takes as an argument
  (an \<^verbatim>\<open>int64_t\<close> of microseconds since boot does not overflow).  A NUL-terminated string is a
  \<open>string\<close> without the terminator; a \<^verbatim>\<open>char\<close> array that is stored as raw bytes is a list of
  \<open>u8\<close>.  Logging calls have no state the model keeps and are left out.
\<close>

unbundle bit_operations_syntax

type_synonym u8 = "8 word"
type_synonym u16 = "16 word"
type_synonym u32 = "32 word"

text \<open>
  The ESP-IDF error codes the firmware distinguishes.  \<open>ESP_ERR_OTHER\<close> carries any further code a
  driver returns and the firmware only passes on.
\<close>

datatype esp_err =
    ESP_OK | ESP_FAIL | ESP_ERR_NO_MEM | ESP_ERR_INVALID_ARG | ESP_ERR_INVALID_STATE
  | ESP_ERR_INVALID_SIZE | ESP_ERR_NOT_FOUND | ESP_ERR_NOT_SUPPORTED | ESP_ERR_TIMEOUT
  | ESP_ERR_INVALID_VERSION | ESP_ERR_NOT_ALLOWED | ESP_ERR_OTHER nat

text \<open>Facts that evaluate the executable definitions of one component each.\<close>

named_theorems frame_simps \<open>fields an operation leaves alone\<close>
named_theorems byte_simps \<open>encoders and decoders of byte strings\<close>

subsection \<open>Strings as bytes\<close>

definition byte_of_char :: "char \<Rightarrow> u8" where
  "byte_of_char c = of_nat (of_char c)"

definition char_of_byte :: "u8 \<Rightarrow> char" where
  "char_of_byte b = char_of (unat b)"

lemma char_of_byte_of_char [byte_simps, simp]: "char_of_byte (byte_of_char c) = c"
  using nat_of_char_less_256 [of c]
  by (simp add: char_of_byte_def byte_of_char_def unat_of_nat)

lemma byte_of_char_inj [simp]: "byte_of_char c = byte_of_char d \<longleftrightarrow> c = d"
  by (metis char_of_byte_of_char)

text \<open>The bytes of a string literal, and the C string a byte array holds (up to its first NUL).\<close>

definition bytes :: "string \<Rightarrow> u8 list" where
  "bytes s = map byte_of_char s"

definition cstr :: "u8 list \<Rightarrow> string" where
  "cstr bs = map char_of_byte (takeWhile (\<lambda>b. b \<noteq> 0) bs)"

lemma length_bytes [simp]: "length (bytes s) = length s"
  by (simp add: bytes_def)

definition no_nul :: "string \<Rightarrow> bool" where
  "no_nul s \<longleftrightarrow> list_all (\<lambda>c. byte_of_char c \<noteq> 0) s"

lemma no_nul_Cons [simp]: "no_nul (c # s) \<longleftrightarrow> byte_of_char c \<noteq> 0 \<and> no_nul s"
  by (simp add: no_nul_def)

lemma no_nul_Nil [simp]: "no_nul []"
  by (simp add: no_nul_def)

lemma cstr_bytes_pad [byte_simps]: "no_nul s \<Longrightarrow> cstr (bytes s @ 0 # zs) = s"
  by (induction s) (auto simp: cstr_def bytes_def no_nul_def)

text \<open>
  \<^verbatim>\<open>snprintf(dst, cap, "%s", s)\<close> keeps at most \<^verbatim>\<open>cap - 1\<close> characters.
\<close>

definition fmt_s :: "nat \<Rightarrow> string \<Rightarrow> string" where
  "fmt_s cap s = take (cap - 1) s"

lemma length_fmt_s: "0 < cap \<Longrightarrow> length (fmt_s cap s) < cap"
  by (simp add: fmt_s_def)

lemma fmt_s_id [simp]: "length s < cap \<Longrightarrow> fmt_s cap s = s"
  by (simp add: fmt_s_def)

subsection \<open>Integers as bytes\<close>

definition be32 :: "u32 \<Rightarrow> u8 list" where
  "be32 w = [ucast (drop_bit 24 w), ucast (drop_bit 16 w), ucast (drop_bit 8 w), ucast w]"

definition of_be32 :: "u8 \<Rightarrow> u8 \<Rightarrow> u8 \<Rightarrow> u8 \<Rightarrow> u32" where
  "of_be32 a b c d =
     push_bit 24 (ucast a) OR push_bit 16 (ucast b) OR push_bit 8 (ucast c) OR ucast d"

definition le32 :: "u32 \<Rightarrow> u8 list" where
  "le32 w = [ucast w, ucast (drop_bit 8 w), ucast (drop_bit 16 w), ucast (drop_bit 24 w)]"

lemma of_be32_be32 [byte_simps]:
  "of_be32 (ucast (drop_bit 24 w)) (ucast (drop_bit 16 w)) (ucast (drop_bit 8 w)) (ucast w) = w"
proof (rule bit_word_eqI)
  fix n
  assume "n < LENGTH(32)"
  then show "bit (of_be32 (ucast (drop_bit 24 w)) (ucast (drop_bit 16 w))
      (ucast (drop_bit 8 w)) (ucast w)) n = bit w n"
    by (cases "n < 8"; cases "n < 16"; cases "n < 24")
      (auto simp: of_be32_def bit_simps)
qed

lemma length_le32 [simp]: "length (le32 w) = 4"
  by (simp add: le32_def)

subsection \<open>Hexadecimal printing\<close>

definition hex_digit :: "nat \<Rightarrow> char" where
  "hex_digit d = ''0123456789ABCDEF'' ! (d mod 16)"

text \<open>\<^verbatim>\<open>"%04X"\<close> of a 16-bit value.\<close>

definition hex4 :: "u16 \<Rightarrow> string" where
  "hex4 w = map (\<lambda>k. hex_digit (unat w div 16 ^ k)) [3, 2, 1, 0]"

lemma length_hex4 [simp]: "length (hex4 w) = 4"
  by (simp add: hex4_def)

text \<open>\<^verbatim>\<open>"%u"\<close> and \<^verbatim>\<open>"%d"\<close> of a non-negative number.\<close>

fun dec :: "nat \<Rightarrow> string" where
  "dec n = (if n < 10 then [hex_digit n] else dec (n div 10) @ [hex_digit (n mod 10)])"

declare dec.simps [simp del]

lemma dec_digit: "n < 10 \<Longrightarrow> dec n = [hex_digit n]"
  by (simp add: dec.simps)

subsection \<open>Lists\<close>

text \<open>The last \<open>k\<close> elements of a list.\<close>

definition lastn :: "nat \<Rightarrow> 'a list \<Rightarrow> 'a list" where
  "lastn k xs = drop (length xs - k) xs"

lemma length_lastn [simp]: "length (lastn k xs) = min k (length xs)"
  by (simp add: lastn_def)

lemma lastn_all: "length xs \<le> k \<Longrightarrow> lastn k xs = xs"
  by (simp add: lastn_def)

lemma lastn_snoc_full:
  assumes "length xs = k" and "0 < k"
  shows "tl xs @ [x] = lastn k (xs @ [x])"
  using assms by (cases xs) (auto simp: lastn_def)

lemma lastn_lastn_append: "lastn k (lastn k xs @ ys) = lastn k (xs @ ys)"
  by (cases "k \<le> length xs") (simp_all add: lastn_def add.commute)

end
