(* ===== verification/Nvs.thy ===== *)
theory Nvs
  imports Cdc_Prelude
begin

text \<open>
  The key-value store of ESP-IDF (\<^verbatim>\<open>nvs.h\<close>) is not part of the repository.  The components
  that persist state take its calls as the parameter \<open>N\<close>, a record of functions over a flash
  state of type \<open>'w\<close>; a handle is the namespace it was opened with.  A getter returns \<open>Some\<close>
  exactly when the call returns \<^verbatim>\<open>ESP_OK\<close>, which is all its callers test.  \<open>nvs_laws\<close> collects
  the documented behaviour the components rely on, and \<open>nvs_ram\<close> is a concrete store that has
  it, for the closed instances.
\<close>

datatype nvs_mode = NVS_READONLY | NVS_READWRITE

record 'w nvs_api =
  nvs_open :: "string \<Rightarrow> nvs_mode \<Rightarrow> 'w \<Rightarrow> esp_err"
  nvs_get_u8 :: "string \<Rightarrow> string \<Rightarrow> 'w \<Rightarrow> u8 option"
  nvs_get_u16 :: "string \<Rightarrow> string \<Rightarrow> 'w \<Rightarrow> u16 option"
  nvs_get_u32 :: "string \<Rightarrow> string \<Rightarrow> 'w \<Rightarrow> u32 option"
  nvs_get_str :: "string \<Rightarrow> string \<Rightarrow> nat \<Rightarrow> 'w \<Rightarrow> string option"
  nvs_get_blob :: "string \<Rightarrow> string \<Rightarrow> nat \<Rightarrow> 'w \<Rightarrow> u8 list option"
  nvs_set_u8 :: "string \<Rightarrow> string \<Rightarrow> u8 \<Rightarrow> 'w \<Rightarrow> esp_err \<times> 'w"
  nvs_set_u16 :: "string \<Rightarrow> string \<Rightarrow> u16 \<Rightarrow> 'w \<Rightarrow> esp_err \<times> 'w"
  nvs_set_u32 :: "string \<Rightarrow> string \<Rightarrow> u32 \<Rightarrow> 'w \<Rightarrow> esp_err \<times> 'w"
  nvs_set_str :: "string \<Rightarrow> string \<Rightarrow> string \<Rightarrow> 'w \<Rightarrow> esp_err \<times> 'w"
  nvs_set_blob :: "string \<Rightarrow> string \<Rightarrow> u8 list \<Rightarrow> 'w \<Rightarrow> esp_err \<times> 'w"
  nvs_erase_key :: "string \<Rightarrow> string \<Rightarrow> 'w \<Rightarrow> esp_err \<times> 'w"
  nvs_commit :: "string \<Rightarrow> 'w \<Rightarrow> esp_err \<times> 'w"

text \<open>Everything that can be read under one key.\<close>

definition nvs_view where
  "nvs_view N w ns k =
     (nvs_get_u8 N ns k w, nvs_get_u16 N ns k w, nvs_get_u32 N ns k w,
      (\<lambda>cap. nvs_get_str N ns k cap w), (\<lambda>cap. nvs_get_blob N ns k cap w))"

text \<open>
  One write call: it changes nothing under another key, and a write that succeeded leaves the
  namespace open for reading.
\<close>

definition nvs_write_frame where
  "nvs_write_frame N ns k w r \<longleftrightarrow>
     (\<forall>ns' k'. (ns', k') \<noteq> (ns, k) \<longrightarrow> nvs_view N (snd r) ns' k' = nvs_view N w ns' k') \<and>
     (fst r = ESP_OK \<longrightarrow> nvs_open N ns NVS_READONLY (snd r) = ESP_OK)"

definition nvs_laws :: "'w nvs_api \<Rightarrow> bool" where
  "nvs_laws N \<longleftrightarrow>
     (\<forall>ns k v w. nvs_write_frame N ns k w (nvs_set_u8 N ns k v w) \<and>
        (fst (nvs_set_u8 N ns k v w) = ESP_OK \<longrightarrow>
           nvs_get_u8 N ns k (snd (nvs_set_u8 N ns k v w)) = Some v)) \<and>
     (\<forall>ns k v w. nvs_write_frame N ns k w (nvs_set_u16 N ns k v w) \<and>
        (fst (nvs_set_u16 N ns k v w) = ESP_OK \<longrightarrow>
           nvs_get_u16 N ns k (snd (nvs_set_u16 N ns k v w)) = Some v)) \<and>
     (\<forall>ns k v w. nvs_write_frame N ns k w (nvs_set_u32 N ns k v w) \<and>
        (fst (nvs_set_u32 N ns k v w) = ESP_OK \<longrightarrow>
           nvs_get_u32 N ns k (snd (nvs_set_u32 N ns k v w)) = Some v)) \<and>
     (\<forall>ns k v w cap. nvs_write_frame N ns k w (nvs_set_str N ns k v w) \<and>
        (fst (nvs_set_str N ns k v w) = ESP_OK \<longrightarrow> length v < cap \<longrightarrow>
           nvs_get_str N ns k cap (snd (nvs_set_str N ns k v w)) = Some v)) \<and>
     (\<forall>ns k v w cap. nvs_write_frame N ns k w (nvs_set_blob N ns k v w) \<and>
        (fst (nvs_set_blob N ns k v w) = ESP_OK \<longrightarrow> length v \<le> cap \<longrightarrow>
           nvs_get_blob N ns k cap (snd (nvs_set_blob N ns k v w)) = Some v)) \<and>
     (\<forall>ns ns' k w. nvs_view N (snd (nvs_commit N ns w)) ns' k = nvs_view N w ns' k) \<and>
     (\<forall>ns ns' m w. nvs_open N ns' m (snd (nvs_commit N ns w)) = nvs_open N ns' m w)"

lemma nvs_commitD:
  assumes "nvs_laws N"
  shows "nvs_view N (snd (nvs_commit N ns w)) ns' k = nvs_view N w ns' k"
    and "nvs_open N ns' m (snd (nvs_commit N ns w)) = nvs_open N ns' m w"
  using assms by (auto simp: nvs_laws_def)

lemma nvs_set_blobD:
  assumes "nvs_laws N" and "nvs_set_blob N ns k v w = (e, w')"
  shows "(ns', k') \<noteq> (ns, k) \<Longrightarrow> nvs_view N w' ns' k' = nvs_view N w ns' k'"
    and "e = ESP_OK \<Longrightarrow> nvs_open N ns NVS_READONLY w' = ESP_OK"
    and "e = ESP_OK \<Longrightarrow> length v \<le> cap \<Longrightarrow> nvs_get_blob N ns k cap w' = Some v"
proof -
  have "nvs_write_frame N ns k w (nvs_set_blob N ns k v w)"
    and got: "fst (nvs_set_blob N ns k v w) = ESP_OK \<Longrightarrow> length v \<le> cap \<Longrightarrow>
      nvs_get_blob N ns k cap (snd (nvs_set_blob N ns k v w)) = Some v"
    using assms(1) unfolding nvs_laws_def by blast+
  then show "(ns', k') \<noteq> (ns, k) \<Longrightarrow> nvs_view N w' ns' k' = nvs_view N w ns' k'"
    and "e = ESP_OK \<Longrightarrow> nvs_open N ns NVS_READONLY w' = ESP_OK"
    and "e = ESP_OK \<Longrightarrow> length v \<le> cap \<Longrightarrow> nvs_get_blob N ns k cap w' = Some v"
    using assms(2) by (auto simp: nvs_write_frame_def)
qed

lemma nvs_view_blob: "nvs_view N w ns k = nvs_view N w' ns k \<Longrightarrow>
    nvs_get_blob N ns k cap w = nvs_get_blob N ns k cap w'"
  by (simp add: nvs_view_def fun_eq_iff)

subsection \<open>A store in memory\<close>

datatype nvs_val = NvU8 u8 | NvU16 u16 | NvU32 u32 | NvStr string | NvBlob "u8 list"

type_synonym nvs_mem = "string \<times> string \<Rightarrow> nvs_val option"

definition nvs_ram :: "nvs_mem nvs_api" where
  "nvs_ram =
     \<lparr>nvs_open = (\<lambda>ns m w. ESP_OK),
      nvs_get_u8 = (\<lambda>ns k w. case w (ns, k) of Some (NvU8 v) \<Rightarrow> Some v | _ \<Rightarrow> None),
      nvs_get_u16 = (\<lambda>ns k w. case w (ns, k) of Some (NvU16 v) \<Rightarrow> Some v | _ \<Rightarrow> None),
      nvs_get_u32 = (\<lambda>ns k w. case w (ns, k) of Some (NvU32 v) \<Rightarrow> Some v | _ \<Rightarrow> None),
      nvs_get_str = (\<lambda>ns k cap w. case w (ns, k) of
         Some (NvStr v) \<Rightarrow> if length v < cap then Some v else None | _ \<Rightarrow> None),
      nvs_get_blob = (\<lambda>ns k cap w. case w (ns, k) of
         Some (NvBlob v) \<Rightarrow> if length v \<le> cap then Some v else None | _ \<Rightarrow> None),
      nvs_set_u8 = (\<lambda>ns k v w. (ESP_OK, w((ns, k) \<mapsto> NvU8 v))),
      nvs_set_u16 = (\<lambda>ns k v w. (ESP_OK, w((ns, k) \<mapsto> NvU16 v))),
      nvs_set_u32 = (\<lambda>ns k v w. (ESP_OK, w((ns, k) \<mapsto> NvU32 v))),
      nvs_set_str = (\<lambda>ns k v w. (ESP_OK, w((ns, k) \<mapsto> NvStr v))),
      nvs_set_blob = (\<lambda>ns k v w. (ESP_OK, w((ns, k) \<mapsto> NvBlob v))),
      nvs_erase_key = (\<lambda>ns k w. (if w (ns, k) = None then ESP_ERR_NOT_FOUND else ESP_OK,
         w((ns, k) := None))),
      nvs_commit = (\<lambda>ns w. (ESP_OK, w))\<rparr>"

lemma nvs_ram_open [simp]: "nvs_open nvs_ram ns m w = ESP_OK"
  by (simp add: nvs_ram_def)

lemma nvs_ram_laws: "nvs_laws nvs_ram"
  by (auto simp: nvs_laws_def nvs_write_frame_def nvs_view_def nvs_ram_def)

end
