(* ===== verification/SerialCfg.thy ===== *)
theory SerialCfg
  imports Nvs
begin

text \<open>
  \<^verbatim>\<open>serialcfg.c\<close>: the per-device line-coding store, eight NVS blobs \<^verbatim>\<open>scfg0\<close> to \<^verbatim>\<open>scfg7\<close> that
  each hold a device key and its line coding.  The functions below follow the C ones over the
  NVS parameter \<open>N\<close>; \<open>tbl\<close> is the abstract eight-slot table they implement, and the lemmas
  show that lookup, upsert, delete and list are the table's operations.  A pointer argument the
  C code tests against NULL is never NULL here.
\<close>

subsection \<open>Data\<close>

definition SERIALCFG_MAX :: nat where "SERIALCFG_MAX = 8"

definition SERIALCFG_KEY_LEN :: nat where "SERIALCFG_KEY_LEN = 33"

definition SERIALCFG_DEFAULT_BAUD :: u32 where "SERIALCFG_DEFAULT_BAUD = 115200"

record lc =
  baud :: u32
  bits :: u8
  parity :: u8
  stop :: u8

definition serialcfg_default :: lc where
  "serialcfg_default = \<lparr>baud = SERIALCFG_DEFAULT_BAUD, bits = 8, parity = 0, stop = 0\<rparr>"

record entry =
  e_ver :: u8
  e_used :: u8
  e_baud :: u32
  e_bits :: u8
  e_parity :: u8
  e_stop :: u8
  e_key :: "u8 list"

definition VER :: u8 where "VER = 1"

definition ENTRY_SIZE :: nat where "ENTRY_SIZE = 42"

text \<open>The packed struct, field by field; the target is little-endian.\<close>

definition entry_bytes :: "entry \<Rightarrow> u8 list" where
  "entry_bytes e =
     [e_ver e, e_used e] @ le32 (e_baud e) @ [e_bits e, e_parity e, e_stop e] @ e_key e"

definition entry_of_bytes :: "u8 list \<Rightarrow> entry" where
  "entry_of_bytes bs =
     \<lparr>e_ver = bs ! 0, e_used = bs ! 1,
      e_baud = of_be32 (bs ! 5) (bs ! 4) (bs ! 3) (bs ! 2),
      e_bits = bs ! 6, e_parity = bs ! 7, e_stop = bs ! 8, e_key = drop 9 bs\<rparr>"

definition entry_lc :: "entry \<Rightarrow> lc" where
  "entry_lc e = \<lparr>baud = e_baud e, bits = e_bits e, parity = e_parity e, stop = e_stop e\<rparr>"

subsection \<open>Slots\<close>

definition scfg_ns :: string where "scfg_ns = ''serialcfg''"

definition slot_name :: "nat \<Rightarrow> string" where
  "slot_name i = fmt_s 8 (''scfg'' @ dec i)"

definition load_slot :: "'w nvs_api \<Rightarrow> 'w \<Rightarrow> nat \<Rightarrow> entry option" where
  "load_slot N w i =
     (case nvs_get_blob N scfg_ns (slot_name i) ENTRY_SIZE w of
        None \<Rightarrow> None
      | Some bs \<Rightarrow>
          (let e = entry_of_bytes bs in
           if length bs \<noteq> ENTRY_SIZE \<or> e_ver e \<noteq> VER \<or> e_used e = 0 then None
           else Some (e\<lparr>e_key := (e_key e)[SERIALCFG_KEY_LEN - 1 := 0]\<rparr>)))"

definition store_slot :: "'w nvs_api \<Rightarrow> 'w \<Rightarrow> nat \<Rightarrow> entry \<Rightarrow> esp_err \<times> 'w" where
  "store_slot N w i e = nvs_set_blob N scfg_ns (slot_name i) (entry_bytes e) w"

text \<open>\<^verbatim>\<open>store_slot\<close> followed by \<^verbatim>\<open>nvs_commit\<close> when it succeeded.\<close>

definition store_commit :: "'w nvs_api \<Rightarrow> 'w \<Rightarrow> nat \<Rightarrow> entry \<Rightarrow> esp_err \<times> 'w" where
  "store_commit N w i e =
     (let (err, w') = store_slot N w i e
      in if err = ESP_OK then nvs_commit N scfg_ns w' else (err, w'))"

subsection \<open>Operations\<close>

fun lookup_scan :: "'w nvs_api \<Rightarrow> 'w \<Rightarrow> string \<Rightarrow> nat list \<Rightarrow> lc option" where
  "lookup_scan N w key [] = None"
| "lookup_scan N w key (i # is) =
     (case load_slot N w i of
        Some e \<Rightarrow> if cstr (e_key e) = key then Some (entry_lc e) else lookup_scan N w key is
      | None \<Rightarrow> lookup_scan N w key is)"

definition serialcfg_lookup :: "'w nvs_api \<Rightarrow> 'w \<Rightarrow> string \<Rightarrow> lc option" where
  "serialcfg_lookup N w key =
     (if key = [] then None
      else if nvs_open N scfg_ns NVS_READONLY w \<noteq> ESP_OK then None
      else lookup_scan N w key [0..<SERIALCFG_MAX])"

text \<open>The scan of \<^verbatim>\<open>serialcfg_upsert\<close>: (\<^verbatim>\<open>match\<close>, \<^verbatim>\<open>free_slot\<close>), \<open>None\<close> for -1.\<close>

fun upsert_scan ::
  "'w nvs_api \<Rightarrow> 'w \<Rightarrow> string \<Rightarrow> nat list \<Rightarrow> nat option \<Rightarrow> nat option \<times> nat option"
where
  "upsert_scan N w key [] free = (None, free)"
| "upsert_scan N w key (i # is) free =
     (case load_slot N w i of
        Some e \<Rightarrow>
          if cstr (e_key e) = key then (Some i, free) else upsert_scan N w key is free
      | None \<Rightarrow> upsert_scan N w key is (if free = None then Some i else free))"

definition upsert_slot :: "'w nvs_api \<Rightarrow> 'w \<Rightarrow> string \<Rightarrow> nat" where
  "upsert_slot N w key =
     (case upsert_scan N w key [0..<SERIALCFG_MAX] None of
        (Some m, _) \<Rightarrow> m
      | (None, Some f) \<Rightarrow> f
      | (None, None) \<Rightarrow> 0)"

text \<open>The key field: \<^verbatim>\<open>snprintf\<close> into an array the initialiser zeroed.\<close>

definition key_field :: "string \<Rightarrow> u8 list" where
  "key_field key =
     (let k = bytes (fmt_s SERIALCFG_KEY_LEN key)
      in k @ replicate (SERIALCFG_KEY_LEN - length k) 0)"

definition new_entry :: "string \<Rightarrow> lc \<Rightarrow> entry" where
  "new_entry key l =
     \<lparr>e_ver = VER, e_used = 1, e_baud = baud l, e_bits = bits l, e_parity = parity l,
      e_stop = stop l, e_key = key_field key\<rparr>"

definition serialcfg_upsert :: "'w nvs_api \<Rightarrow> string \<Rightarrow> lc \<Rightarrow> 'w \<Rightarrow> esp_err \<times> 'w" where
  "serialcfg_upsert N key l w =
     (if key = [] then (ESP_ERR_INVALID_ARG, w)
      else let err = nvs_open N scfg_ns NVS_READWRITE w in
        if err \<noteq> ESP_OK then (err, w)
        else store_commit N w (upsert_slot N w key) (new_entry key l))"

fun delete_scan :: "'w nvs_api \<Rightarrow> 'w \<Rightarrow> string \<Rightarrow> nat list \<Rightarrow> esp_err \<times> 'w" where
  "delete_scan N w key [] = (ESP_ERR_NOT_FOUND, w)"
| "delete_scan N w key (i # is) =
     (case load_slot N w i of
        Some e \<Rightarrow>
          if cstr (e_key e) = key then store_commit N w i (e\<lparr>e_used := 0\<rparr>)
          else delete_scan N w key is
      | None \<Rightarrow> delete_scan N w key is)"

definition serialcfg_delete :: "'w nvs_api \<Rightarrow> string \<Rightarrow> 'w \<Rightarrow> esp_err \<times> 'w" where
  "serialcfg_delete N key w =
     (if key = [] then (ESP_ERR_INVALID_ARG, w)
      else let err = nvs_open N scfg_ns NVS_READWRITE w in
        if err \<noteq> ESP_OK then (err, w)
        else delete_scan N w key [0..<SERIALCFG_MAX])"

fun list_scan :: "'w nvs_api \<Rightarrow> 'w \<Rightarrow> nat \<Rightarrow> nat list \<Rightarrow> (string \<times> lc) list" where
  "list_scan N w cap [] = []"
| "list_scan N w cap (i # is) =
     (if cap = 0 then []
      else case load_slot N w i of
        Some e \<Rightarrow>
          (fmt_s SERIALCFG_KEY_LEN (cstr (e_key e)), entry_lc e) # list_scan N w (cap - 1) is
      | None \<Rightarrow> list_scan N w cap is)"

definition serialcfg_list :: "'w nvs_api \<Rightarrow> 'w \<Rightarrow> nat \<Rightarrow> (string \<times> lc) list" where
  "serialcfg_list N w cap =
     (if cap = 0 then []
      else if nvs_open N scfg_ns NVS_READONLY w \<noteq> ESP_OK then []
      else list_scan N w cap [0..<SERIALCFG_MAX])"

lemma slots: "[0..<SERIALCFG_MAX] = [0, 1, 2, 3, 4, 5, 6, 7]"
  by (simp add: SERIALCFG_MAX_def upt_rec)

subsection \<open>The packed entry\<close>

lemma entry_of_bytes_entry_bytes [byte_simps]: "entry_of_bytes (entry_bytes e) = e"
  by (simp add: entry_of_bytes_def entry_bytes_def le32_def byte_simps)

lemma length_entry_bytes [simp]: "length (entry_bytes e) = 9 + length (e_key e)"
  by (simp add: entry_bytes_def)

lemma length_key_field [simp]: "length (key_field k) = SERIALCFG_KEY_LEN"
  by (simp add: key_field_def Let_def fmt_s_def SERIALCFG_KEY_LEN_def)

lemma cstr_key_field:
  assumes "no_nul k" and "length k < SERIALCFG_KEY_LEN"
  shows "cstr ((key_field k)[SERIALCFG_KEY_LEN - 1 := 0]) = k"
proof -
  let ?n = "SERIALCFG_KEY_LEN - length k - 1"
  have "SERIALCFG_KEY_LEN - length k = Suc ?n" using assms(2) by simp
  then have *: "key_field k = bytes k @ 0 # replicate ?n 0"
    using assms(2) by (simp add: key_field_def)
  have "\<exists>zs. (key_field k)[SERIALCFG_KEY_LEN - 1 := 0] = bytes k @ 0 # zs"
    unfolding * using assms(2)
    by (cases "SERIALCFG_KEY_LEN - 1 - length k") (auto simp: list_update_append)
  then show ?thesis using assms(1) by (auto simp: cstr_bytes_pad)
qed

lemma slot_name_inj:
  assumes "i < SERIALCFG_MAX" and "j < SERIALCFG_MAX"
  shows "slot_name i = slot_name j \<longleftrightarrow> i = j"
proof -
  have "i \<in> {0, 1, 2, 3, 4, 5, 6, 7}" and "j \<in> {0, 1, 2, 3, 4, 5, 6, 7}"
    using assms by (auto simp: SERIALCFG_MAX_def)
  moreover have "slot_name k = ''scfg'' @ [hex_digit k]" if "k < 8" for k
    using that by (simp add: slot_name_def dec_digit)
  ultimately show ?thesis by (auto simp: hex_digit_def)
qed

lemma load_after_store:
  assumes laws: "nvs_laws N" and i: "i < SERIALCFG_MAX" and j: "j < SERIALCFG_MAX"
    and st: "store_commit N w i e = (ESP_OK, w')" and len: "length (e_key e) = SERIALCFG_KEY_LEN"
  shows "load_slot N w' j =
    (if j = i then
       (if e_ver e \<noteq> VER \<or> e_used e = 0 then None
        else Some (e\<lparr>e_key := (e_key e)[SERIALCFG_KEY_LEN - 1 := 0]\<rparr>))
     else load_slot N w j)"
proof -
  obtain w1 where set1: "nvs_set_blob N scfg_ns (slot_name i) (entry_bytes e) w = (ESP_OK, w1)"
    and w': "w' = snd (nvs_commit N scfg_ns w1)"
    using st by (auto simp: store_commit_def store_slot_def split: prod.splits if_splits)
  have get_w': "nvs_get_blob N scfg_ns k c w' = nvs_get_blob N scfg_ns k c w1" for k c
    unfolding w' by (rule nvs_view_blob [OF nvs_commitD(1) [OF laws]])
  show ?thesis
  proof (cases "j = i")
    case True
    have "nvs_get_blob N scfg_ns (slot_name i) ENTRY_SIZE w1 = Some (entry_bytes e)"
      by (rule nvs_set_blobD(3) [OF laws set1 refl])
        (simp add: len ENTRY_SIZE_def SERIALCFG_KEY_LEN_def)
    then show ?thesis
      using True len
      by (simp add: load_slot_def get_w' byte_simps Let_def ENTRY_SIZE_def SERIALCFG_KEY_LEN_def)
  next
    case False
    then have "nvs_view N w1 scfg_ns (slot_name j) = nvs_view N w scfg_ns (slot_name j)"
      using i j by (intro nvs_set_blobD(1) [OF laws set1]) (simp add: slot_name_inj)
    then have "nvs_get_blob N scfg_ns (slot_name j) ENTRY_SIZE w1 =
        nvs_get_blob N scfg_ns (slot_name j) ENTRY_SIZE w"
      by (rule nvs_view_blob)
    then show ?thesis using False by (simp add: load_slot_def get_w')
  qed
qed

lemma store_commit_readable:
  assumes "nvs_laws N" and "store_commit N w i e = (ESP_OK, w')"
  shows "nvs_open N scfg_ns NVS_READONLY w' = ESP_OK"
proof -
  obtain w1 where set1: "nvs_set_blob N scfg_ns (slot_name i) (entry_bytes e) w = (ESP_OK, w1)"
    and w': "w' = snd (nvs_commit N scfg_ns w1)"
    using assms(2) by (auto simp: store_commit_def store_slot_def split: prod.splits if_splits)
  from nvs_set_blobD(2) [OF assms(1) set1 refl] show ?thesis
    unfolding w' using nvs_commitD(2) [OF assms(1)] by simp
qed

subsection \<open>The table the slots implement\<close>

type_synonym lc_tbl = "nat \<Rightarrow> (string \<times> lc) option"

definition tbl :: "'w nvs_api \<Rightarrow> 'w \<Rightarrow> lc_tbl" where
  "tbl N w i =
     (if i < SERIALCFG_MAX
      then map_option (\<lambda>e. (cstr (e_key e), entry_lc e)) (load_slot N w i) else None)"

definition tbl_find :: "lc_tbl \<Rightarrow> string \<Rightarrow> nat option" where
  "tbl_find t k = find (\<lambda>i. map_option fst (t i) = Some k) [0..<SERIALCFG_MAX]"

definition tbl_free :: "lc_tbl \<Rightarrow> nat option" where
  "tbl_free t = find (\<lambda>i. t i = None) [0..<SERIALCFG_MAX]"

definition tbl_lookup :: "lc_tbl \<Rightarrow> string \<Rightarrow> lc option" where
  "tbl_lookup t k = Option.bind (tbl_find t k) (\<lambda>i. map_option snd (t i))"

definition tbl_target :: "lc_tbl \<Rightarrow> string \<Rightarrow> nat" where
  "tbl_target t k =
     (case tbl_find t k of Some i \<Rightarrow> i
      | None \<Rightarrow> (case tbl_free t of Some i \<Rightarrow> i | None \<Rightarrow> 0))"

definition tbl_upsert :: "string \<Rightarrow> lc \<Rightarrow> lc_tbl \<Rightarrow> lc_tbl" where
  "tbl_upsert k l t = t(tbl_target t k := Some (k, l))"

definition tbl_delete :: "string \<Rightarrow> lc_tbl \<Rightarrow> lc_tbl" where
  "tbl_delete k t = (case tbl_find t k of None \<Rightarrow> t | Some i \<Rightarrow> t(i := None))"

text \<open>No key is stored twice.\<close>

definition tbl_inv :: "lc_tbl \<Rightarrow> bool" where
  "tbl_inv t \<longleftrightarrow>
     (\<forall>i j k. map_option fst (t i) = Some k \<longrightarrow> map_option fst (t j) = Some k \<longrightarrow> i = j) \<and>
     (\<forall>i. t i \<noteq> None \<longrightarrow> i < SERIALCFG_MAX)"

text \<open>The entry a full table gives up for a key it does not hold.\<close>

definition evicts :: "lc_tbl \<Rightarrow> string \<Rightarrow> string \<Rightarrow> bool" where
  "evicts t k k' \<longleftrightarrow>
     tbl_find t k = None \<and> tbl_free t = None \<and> map_option fst (t 0) = Some k'"

lemma tbl_findD:
  assumes "tbl_find t k = Some i"
  shows "i < SERIALCFG_MAX" and "\<exists>l. t i = Some (k, l)"
  using assms by (auto simp: tbl_find_def find_Some_iff)

lemma tbl_find_iff: "tbl_inv t \<Longrightarrow> tbl_find t k = Some i \<longleftrightarrow> map_option fst (t i) = Some k"
proof
  assume inv: "tbl_inv t" and i: "map_option fst (t i) = Some k"
  then have "i \<in> set [0..<SERIALCFG_MAX]" by (auto simp: tbl_inv_def)
  with i have "tbl_find t k \<noteq> None" by (auto simp: tbl_find_def find_None_iff)
  then obtain j where j: "tbl_find t k = Some j" by blast
  with inv i have "j = i" by (fastforce simp: tbl_inv_def dest: tbl_findD(2))
  with j show "tbl_find t k = Some i" by simp
next
  assume "tbl_find t k = Some i"
  then show "map_option fst (t i) = Some k" by (auto dest: tbl_findD(2))
qed

lemma tbl_find_None: "tbl_inv t \<Longrightarrow> tbl_find t k = None \<longleftrightarrow> (\<forall>i. map_option fst (t i) \<noteq> Some k)"
  by (metis not_None_eq tbl_find_iff)

lemma tbl_free_Some: "tbl_free t = Some i \<Longrightarrow> i < SERIALCFG_MAX \<and> t i = None"
  by (auto simp: tbl_free_def find_Some_iff)

lemma tbl_free_None: "tbl_free t = None \<longleftrightarrow> (\<forall>i<SERIALCFG_MAX. t i \<noteq> None)"
  by (auto simp: tbl_free_def find_None_iff)

lemma tbl_target_less: "tbl_target t k < SERIALCFG_MAX"
  by (auto simp: tbl_target_def SERIALCFG_MAX_def split: option.splits
      dest: tbl_findD(1) tbl_free_Some)

lemma tbl_inv_upsert:
  assumes "tbl_inv t"
  shows "tbl_inv (tbl_upsert k l t)"
proof -
  have "i = tbl_target t k" if "map_option fst (t i) = Some k" for i
    using that tbl_find_iff [OF assms, of k i] by (simp add: tbl_target_def)
  then show ?thesis
    using assms tbl_target_less [of t k]
    unfolding tbl_inv_def tbl_upsert_def fun_upd_def by (auto split: if_splits)
qed

lemma tbl_inv_delete: "tbl_inv t \<Longrightarrow> tbl_inv (tbl_delete k t)"
  unfolding tbl_inv_def tbl_delete_def by (auto split: option.splits if_splits)

lemma tbl_lookup_iff:
  "tbl_inv t \<Longrightarrow> tbl_lookup t k = Some l \<longleftrightarrow> (\<exists>i. t i = Some (k, l))"
  by (auto simp: tbl_lookup_def bind_eq_Some_conv tbl_find_iff)

lemma tbl_lookup_upsert:
  assumes "tbl_inv t"
  shows "tbl_lookup (tbl_upsert k l t) k' =
    (if k' = k then Some l else if evicts t k k' then None else tbl_lookup t k')"
proof (cases "k' = k")
  case True
  have "tbl_upsert k l t (tbl_target t k) = Some (k, l)" by (simp add: tbl_upsert_def)
  with True show ?thesis by (auto simp: tbl_lookup_iff tbl_inv_upsert assms)
next
  case False
  let ?m = "tbl_target t k"
  have lost: "map_option fst (t ?m) = Some k' \<longleftrightarrow> evicts t k k'"
    using False tbl_free_None [of t]
    by (auto simp: tbl_target_def evicts_def SERIALCFG_MAX_def split: option.splits
        dest: tbl_findD(2) tbl_free_Some)
  have "tbl_lookup (tbl_upsert k l t) k' = Some v \<longleftrightarrow>
      \<not> evicts t k k' \<and> tbl_lookup t k' = Some v" for v
  proof -
    have "(\<exists>i. tbl_upsert k l t i = Some (k', v)) \<longleftrightarrow> (\<exists>i. i \<noteq> ?m \<and> t i = Some (k', v))"
      using False by (auto simp: tbl_upsert_def)
    also have "\<dots> \<longleftrightarrow> \<not> evicts t k k' \<and> (\<exists>i. t i = Some (k', v))"
      unfolding lost [symmetric] using assms unfolding tbl_inv_def
      by (metis (no_types, lifting) fst_conv option.map(2))
    finally show ?thesis by (simp add: tbl_lookup_iff tbl_inv_upsert assms)
  qed
  then show ?thesis using False by (metis not_None_eq)
qed

lemma tbl_lookup_delete:
  assumes "tbl_inv t"
  shows "tbl_lookup (tbl_delete k t) k' = (if k' = k then None else tbl_lookup t k')"
proof -
  have "(\<exists>i. tbl_delete k t i = Some (k', v)) \<longleftrightarrow> k' \<noteq> k \<and> (\<exists>i. t i = Some (k', v))" for v
  proof (cases "tbl_find t k")
    case None
    then have "t i \<noteq> Some (k, v)" for i
      using tbl_find_iff [OF assms, of k i] by (intro notI) simp
    then have "k' \<noteq> k" if "t i = Some (k', v)" for i using that by blast
    with None show ?thesis by (auto simp: tbl_delete_def)
  next
    case (Some i)
    have only: "j = i" if "t j = Some (k, v)" for j v
      using that Some tbl_find_iff [OF assms, of k j] by simp
    obtain l where l: "t i = Some (k, l)" using Some tbl_findD(2) by blast
    have "(\<exists>j. tbl_delete k t j = Some (k', v)) \<longleftrightarrow> (\<exists>j. j \<noteq> i \<and> t j = Some (k', v))"
      using Some by (simp add: tbl_delete_def) (metis option.distinct(1))
    also have "\<dots> \<longleftrightarrow> k' \<noteq> k \<and> (\<exists>j. t j = Some (k', v))"
      using only l by (metis option.inject prod.inject)
    finally show ?thesis .
  qed
  then show ?thesis
    by (metis (no_types, opaque_lifting) assms not_None_eq tbl_inv_delete tbl_lookup_iff)
qed

subsection \<open>The C functions implement the table\<close>

lemma tbl_map_fst:
  "map_option fst (tbl N w i) = Some k \<longleftrightarrow>
    i < SERIALCFG_MAX \<and> (\<exists>e. load_slot N w i = Some e \<and> cstr (e_key e) = k)"
  by (auto simp: tbl_def)

lemma lookup_scan_eq:
  "lookup_scan N w key is =
    Option.bind (find (\<lambda>i. \<exists>e. load_slot N w i = Some e \<and> cstr (e_key e) = key) is)
      (\<lambda>i. map_option entry_lc (load_slot N w i))"
  by (induction "is") (auto split: option.splits)

lemma find_cong_set: "(\<And>x. x \<in> set xs \<Longrightarrow> P x = Q x) \<Longrightarrow> find P xs = find Q xs"
  by (induction xs) auto

lemma tbl_find_load:
  "tbl_find (tbl N w) key =
    find (\<lambda>i. \<exists>e. load_slot N w i = Some e \<and> cstr (e_key e) = key) [0..<SERIALCFG_MAX]"
  unfolding tbl_find_def by (rule find_cong_set) (auto simp: tbl_def)

lemma lookup_scan_tbl: "lookup_scan N w key [0..<SERIALCFG_MAX] = tbl_lookup (tbl N w) key"
proof (cases "tbl_find (tbl N w) key")
  case None
  then show ?thesis by (simp add: lookup_scan_eq tbl_lookup_def tbl_find_load)
next
  case (Some i)
  then have "i < SERIALCFG_MAX" by (rule tbl_findD(1))
  with Some show ?thesis
    by (simp add: lookup_scan_eq tbl_lookup_def tbl_find_load tbl_def option.map_comp comp_def)
qed

lemma upsert_scan_match:
  "fst (upsert_scan N w key is free) =
    find (\<lambda>i. \<exists>e. load_slot N w i = Some e \<and> cstr (e_key e) = key) is"
  by (induction "is" arbitrary: free) (auto split: option.splits)

lemma upsert_scan_free:
  "fst (upsert_scan N w key is free) = None \<Longrightarrow>
    snd (upsert_scan N w key is free) =
      (if free = None then find (\<lambda>i. load_slot N w i = None) is else free)"
  by (induction "is" arbitrary: free) (auto split: option.splits)

lemma upsert_slot_tbl: "upsert_slot N w key = tbl_target (tbl N w) key"
proof -
  have free: "find (\<lambda>i. load_slot N w i = None) [0..<SERIALCFG_MAX] = tbl_free (tbl N w)"
    unfolding tbl_free_def by (rule find_cong_set) (auto simp: tbl_def)
  show ?thesis
    using upsert_scan_match [of N w key "[0..<SERIALCFG_MAX]" None]
      upsert_scan_free [of N w key "[0..<SERIALCFG_MAX]" None]
    by (cases "upsert_scan N w key [0..<SERIALCFG_MAX] None")
      (auto simp: upsert_slot_def tbl_target_def free tbl_find_load split: option.splits)
qed

lemma delete_scan_eq:
  "delete_scan N w key is =
    (case find (\<lambda>i. \<exists>e. load_slot N w i = Some e \<and> cstr (e_key e) = key) is of
       None \<Rightarrow> (ESP_ERR_NOT_FOUND, w)
     | Some i \<Rightarrow> store_commit N w i ((the (load_slot N w i))\<lparr>e_used := 0\<rparr>))"
  by (induction "is") (auto split: option.splits)

lemma load_slot_key_len:
  "load_slot N w i = Some e \<Longrightarrow> length (e_key e) = SERIALCFG_KEY_LEN"
  by (auto simp: load_slot_def Let_def entry_of_bytes_def ENTRY_SIZE_def SERIALCFG_KEY_LEN_def
      split: option.splits if_splits)

text \<open>The device keys the store can hold unchanged.\<close>

definition valid_key :: "string \<Rightarrow> bool" where
  "valid_key k \<longleftrightarrow> k \<noteq> [] \<and> no_nul k \<and> length k < SERIALCFG_KEY_LEN"

definition scfg_inv :: "'w nvs_api \<times> 'w \<Rightarrow> bool" where
  "scfg_inv s \<longleftrightarrow> nvs_laws (fst s) \<and> tbl_inv (tbl (fst s) (snd s))"

lemma serialcfg_lookup_tbl:
  "serialcfg_lookup N w key =
    (if key = [] \<or> nvs_open N scfg_ns NVS_READONLY w \<noteq> ESP_OK then None
     else tbl_lookup (tbl N w) key)"
  by (simp add: serialcfg_lookup_def lookup_scan_tbl)

lemma upsert_tbl:
  assumes laws: "nvs_laws N" and key: "valid_key key"
    and ok: "serialcfg_upsert N key l w = (ESP_OK, w')"
  shows "tbl N w' = tbl_upsert key l (tbl N w)"
    and "nvs_open N scfg_ns NVS_READONLY w' = ESP_OK"
proof -
  let ?i = "tbl_target (tbl N w) key"
  have st: "store_commit N w ?i (new_entry key l) = (ESP_OK, w')"
    using ok key by (auto simp: serialcfg_upsert_def Let_def upsert_slot_tbl valid_key_def
        split: if_splits)
  have load: "load_slot N w' j =
      (if j = ?i then Some (new_entry key l\<lparr>e_key := (key_field key)[SERIALCFG_KEY_LEN - 1 := 0]\<rparr>)
       else load_slot N w j)" if "j < SERIALCFG_MAX" for j
    using load_after_store [OF laws tbl_target_less that st]
    by (simp add: new_entry_def VER_def)
  have "cstr ((key_field key)[SERIALCFG_KEY_LEN - 1 := 0]) = key"
    using key cstr_key_field [of key] by (simp add: valid_key_def)
  then show "tbl N w' = tbl_upsert key l (tbl N w)"
    using tbl_target_less [of "tbl N w" key]
    by (auto simp: fun_eq_iff tbl_def tbl_upsert_def load entry_lc_def new_entry_def)
  show "nvs_open N scfg_ns NVS_READONLY w' = ESP_OK"
    by (rule store_commit_readable [OF laws st])
qed

lemma delete_tbl:
  assumes laws: "nvs_laws N" and ok: "serialcfg_delete N key w = (ESP_OK, w')"
  shows "tbl N w' = tbl_delete key (tbl N w)"
    and "nvs_open N scfg_ns NVS_READONLY w' = ESP_OK"
proof -
  from ok obtain i where find: "tbl_find (tbl N w) key = Some i"
    and st: "store_commit N w i ((the (load_slot N w i))\<lparr>e_used := 0\<rparr>) = (ESP_OK, w')"
    by (auto simp: serialcfg_delete_def Let_def delete_scan_eq tbl_find_load
        split: if_splits option.splits)
  have i: "i < SERIALCFG_MAX" by (rule tbl_findD(1) [OF find])
  obtain e where e: "load_slot N w i = Some e"
    using tbl_findD(2) [OF find] i by (auto simp: tbl_def)
  have "load_slot N w' j = (if j = i then None else load_slot N w j)" if "j < SERIALCFG_MAX" for j
    using load_after_store [OF laws i that st] load_slot_key_len [OF e] e by simp
  then show "tbl N w' = tbl_delete key (tbl N w)"
    using i find by (auto simp: fun_eq_iff tbl_def tbl_delete_def)
  show "nvs_open N scfg_ns NVS_READONLY w' = ESP_OK"
    by (rule store_commit_readable [OF laws st])
qed

subsection \<open>What the sources rely on\<close>

text \<open>
  The contract of a line-coding store, as the sources and the web handlers use it: a value that
  was saved is the one looked up, a deleted key has none, and a save gives up another key only
  where the store says so.
\<close>

locale lc_store =
  fixes lookup :: "'s \<Rightarrow> string \<Rightarrow> 'v option"
    and upsert :: "string \<Rightarrow> 'v \<Rightarrow> 's \<Rightarrow> esp_err \<times> 's"
    and delete :: "string \<Rightarrow> 's \<Rightarrow> esp_err \<times> 's"
    and inv :: "'s \<Rightarrow> bool"
    and ok_key :: "string \<Rightarrow> bool"
    and victim :: "'s \<Rightarrow> string \<Rightarrow> string \<Rightarrow> bool"
  assumes upsert_inv: "inv s \<Longrightarrow> ok_key k \<Longrightarrow> upsert k v s = (ESP_OK, s') \<Longrightarrow> inv s'"
    and delete_inv: "inv s \<Longrightarrow> delete k s = (ESP_OK, s') \<Longrightarrow> inv s'"
    and lookup_upsert: "inv s \<Longrightarrow> ok_key k \<Longrightarrow> upsert k v s = (ESP_OK, s') \<Longrightarrow>
      lookup s' k = Some v"
    and lookup_upsert_other: "inv s \<Longrightarrow> ok_key k \<Longrightarrow> upsert k v s = (ESP_OK, s') \<Longrightarrow>
      k' \<noteq> k \<Longrightarrow> lookup s k' = Some u \<Longrightarrow> \<not> victim s k k' \<Longrightarrow> lookup s' k' = Some u"
    and lookup_delete: "inv s \<Longrightarrow> delete k s = (ESP_OK, s') \<Longrightarrow> lookup s' k = None"
    and lookup_delete_other: "inv s \<Longrightarrow> delete k s = (ESP_OK, s') \<Longrightarrow>
      k' \<noteq> k \<Longrightarrow> lookup s k' = Some u \<Longrightarrow> lookup s' k' = Some u"
begin

text \<open>The coding a source applies on open and on revert: the stored one or a default.\<close>

definition effective :: "'v \<Rightarrow> 's \<Rightarrow> string \<Rightarrow> 'v" where
  "effective d s k = (case lookup s k of Some v \<Rightarrow> v | None \<Rightarrow> d)"

text \<open>A sequence of writes that all succeeded, and none of which gave up \<open>k\<close>.\<close>

fun history :: "(string \<times> 'v option) list \<Rightarrow> string \<Rightarrow> 's \<Rightarrow> 's \<Rightarrow> bool" where
  "history [] k s s' \<longleftrightarrow> s' = s"
| "history ((x, Some v) # ops) k s s' \<longleftrightarrow>
     ok_key x \<and> \<not> (x \<noteq> k \<and> victim s x k) \<and>
     (\<exists>t. upsert x v s = (ESP_OK, t) \<and> history ops k t s')"
| "history ((x, None) # ops) k s s' \<longleftrightarrow>
     (\<exists>t. delete x s = (ESP_OK, t) \<and> history ops k t s')"

lemma history_inv: "inv s \<Longrightarrow> history ops k s s' \<Longrightarrow> inv s'"
  by (induction ops k s s' rule: history.induct) (auto dest: upsert_inv delete_inv)

lemma history_other:
  "inv s \<Longrightarrow> history ops k s s' \<Longrightarrow> k \<notin> fst ` set ops \<Longrightarrow> lookup s k = Some v \<Longrightarrow>
    lookup s' k = Some v"
proof (induction ops k s s' rule: history.induct)
  case (2 x u ops k s s')
  then obtain t where t: "upsert x u s = (ESP_OK, t)" "history ops k t s'" by auto
  then show ?case using 2 lookup_upsert_other [of s x u t k v] upsert_inv [of s x u t] by auto
next
  case (3 x ops k s s')
  then obtain t where t: "delete x s = (ESP_OK, t)" "history ops k t s'" by auto
  then show ?case using 3 lookup_delete_other [of s x t k v] delete_inv [of s x t] by auto
qed simp

lemma effective_saved:
  assumes "inv s" and "history (ops @ (k, Some v) # later) k s s'" and "k \<notin> fst ` set later"
  shows "effective d s' k = v"
  using assms
proof (induction ops arbitrary: s)
  case Nil
  then obtain t where t: "ok_key k" "upsert k v s = (ESP_OK, t)" "history later k t s'" by auto
  then have "inv t" and "lookup t k = Some v"
    using Nil(1) by (auto intro: upsert_inv lookup_upsert)
  then show ?case using history_other [OF _ t(3) Nil(3)] by (simp add: effective_def)
next
  case (Cons a ops)
  obtain x u where a: "a = (x, u)" by (cases a)
  show ?case
    using Cons a by (cases u) (auto dest: upsert_inv delete_inv)
qed

end

definition scfg_lookup :: "'w nvs_api \<times> 'w \<Rightarrow> string \<Rightarrow> lc option" where
  "scfg_lookup s k = serialcfg_lookup (fst s) (snd s) k"

definition scfg_upsert :: "string \<Rightarrow> lc \<Rightarrow> 'w nvs_api \<times> 'w \<Rightarrow> esp_err \<times> ('w nvs_api \<times> 'w)" where
  "scfg_upsert k l s = map_prod id (Pair (fst s)) (serialcfg_upsert (fst s) k l (snd s))"

definition scfg_delete :: "string \<Rightarrow> 'w nvs_api \<times> 'w \<Rightarrow> esp_err \<times> ('w nvs_api \<times> 'w)" where
  "scfg_delete k s = map_prod id (Pair (fst s)) (serialcfg_delete (fst s) k (snd s))"

definition scfg_victim :: "'w nvs_api \<times> 'w \<Rightarrow> string \<Rightarrow> string \<Rightarrow> bool" where
  "scfg_victim s = evicts (tbl (fst s) (snd s))"

lemma scfg_upsertD:
  assumes "scfg_inv s" and "valid_key k" and "scfg_upsert k v s = (ESP_OK, s')"
  shows "scfg_inv s'" and "scfg_lookup s' k' = (if k' = k then Some v else if k' = [] then None
    else if scfg_victim s k k' then None else tbl_lookup (tbl (fst s) (snd s)) k')"
proof -
  obtain N w w' where s: "s = (N, w)" "s' = (N, w')"
    and up: "serialcfg_upsert N k v w = (ESP_OK, w')"
    using assms(3) by (cases s) (auto simp: scfg_upsert_def map_prod_def split: prod.splits)
  have laws: "nvs_laws N" and inv: "tbl_inv (tbl N w)" using assms(1) s by (auto simp: scfg_inv_def)
  note t = upsert_tbl [OF laws assms(2) up]
  show "scfg_inv s'" using s laws inv t(1) by (simp add: scfg_inv_def tbl_inv_upsert)
  show "scfg_lookup s' k' = (if k' = k then Some v else if k' = [] then None
    else if scfg_victim s k k' then None else tbl_lookup (tbl (fst s) (snd s)) k')"
    using s t assms(2) tbl_lookup_upsert [OF inv]
    by (auto simp: scfg_lookup_def serialcfg_lookup_tbl valid_key_def scfg_victim_def)
qed

lemma scfg_deleteD:
  assumes "scfg_inv s" and "scfg_delete k s = (ESP_OK, s')"
  shows "scfg_inv s'" and "scfg_lookup s' k' = (if k' = k \<or> k' = [] then None
    else tbl_lookup (tbl (fst s) (snd s)) k')"
proof -
  obtain N w w' where s: "s = (N, w)" "s' = (N, w')"
    and de: "serialcfg_delete N k w = (ESP_OK, w')"
    using assms(2) by (cases s) (auto simp: scfg_delete_def map_prod_def split: prod.splits)
  have laws: "nvs_laws N" and inv: "tbl_inv (tbl N w)" using assms(1) s by (auto simp: scfg_inv_def)
  note t = delete_tbl [OF laws de]
  show "scfg_inv s'" using s laws inv t(1) by (simp add: scfg_inv_def tbl_inv_delete)
  show "scfg_lookup s' k' = (if k' = k \<or> k' = [] then None
    else tbl_lookup (tbl (fst s) (snd s)) k')"
    using s t tbl_lookup_delete [OF inv] by (auto simp: scfg_lookup_def serialcfg_lookup_tbl)
qed

lemma scfg_lookup_SomeD:
  "scfg_lookup s k = Some v \<Longrightarrow> k \<noteq> [] \<and> tbl_lookup (tbl (fst s) (snd s)) k = Some v"
  by (auto simp: scfg_lookup_def serialcfg_lookup_tbl split: if_splits)

interpretation scfg: lc_store scfg_lookup scfg_upsert scfg_delete scfg_inv valid_key scfg_victim
  by unfold_locales (auto simp: scfg_upsertD(2) scfg_deleteD(2) dest: scfg_lookup_SomeD
      intro: scfg_upsertD(1) scfg_deleteD(1))

subsection \<open>Properties\<close>

lemma tbl_empty_ram: "tbl nvs_ram Map.empty = (\<lambda>i. None)"
  by (auto simp: tbl_def load_slot_def nvs_ram_def)

lemma tbl_inv_empty: "tbl_inv (\<lambda>i. None)"
  by (simp add: tbl_inv_def)

lemma upsert_ram: "fst (serialcfg_upsert nvs_ram ''1A86:7523'' l w) = ESP_OK"
  by (simp add: serialcfg_upsert_def store_commit_def store_slot_def nvs_ram_def)

text \<open>C11: saving a line coding makes it the one looked up for its key, leaves every other key's
  coding as it was except the one entry a full table evicts, and never stores a key twice.\<close>

theorem serialcfg_upsert_lookup:
  assumes "nvs_laws N" and "tbl_inv (tbl N w)" and "valid_key k"
    and "serialcfg_upsert N k l w = (ESP_OK, w')"
  shows "tbl_inv (tbl N w') \<and>
    (\<forall>k'. serialcfg_lookup N w' k' =
      (if k' = k then Some l
       else if k' = [] \<or> evicts (tbl N w) k k' then None else tbl_lookup (tbl N w) k'))"
proof -
  have "scfg_inv (N, w)" using assms(1,2) by (simp add: scfg_inv_def)
  moreover have "scfg_upsert k l (N, w) = (ESP_OK, (N, w'))"
    using assms(4) by (simp add: scfg_upsert_def)
  ultimately show ?thesis
    using scfg_upsertD [of "(N, w)" k l "(N, w')"] assms(3)
    by (auto simp: scfg_inv_def scfg_lookup_def scfg_victim_def)
qed

lemma serialcfg_upsert_lookup_witness:
  "serialcfg_lookup nvs_ram (snd (serialcfg_upsert nvs_ram ''1A86:7523'' serialcfg_default Map.empty))
     ''1A86:7523'' = Some serialcfg_default"
  using serialcfg_upsert_lookup [OF nvs_ram_laws, of Map.empty "''1A86:7523''" serialcfg_default]
    upsert_ram [of serialcfg_default Map.empty]
  by (cases "serialcfg_upsert nvs_ram ''1A86:7523'' serialcfg_default Map.empty")
    (simp add: tbl_empty_ram tbl_inv_empty valid_key_def SERIALCFG_KEY_LEN_def byte_of_char_def)

text \<open>deleting a stored key succeeds only when the key was there, removes its coding and no
  other, and keeps the keys distinct; an absent key is reported as an error.\<close>

theorem serialcfg_delete_lookup:
  assumes "nvs_laws N" and "tbl_inv (tbl N w)" and "serialcfg_delete N k w = (err, w')"
    and "nvs_open N scfg_ns NVS_READWRITE w = ESP_OK" and "k \<noteq> []"
  shows "(tbl_lookup (tbl N w) k = None \<longrightarrow> err = ESP_ERR_NOT_FOUND \<and> w' = w) \<and>
    (err = ESP_OK \<longrightarrow> tbl_lookup (tbl N w) k \<noteq> None \<and> tbl_inv (tbl N w') \<and>
      (\<forall>k'. serialcfg_lookup N w' k' =
        (if k' = k \<or> k' = [] then None else tbl_lookup (tbl N w) k')))"
proof -
  have absent: "tbl_lookup (tbl N w) k = None \<longleftrightarrow> tbl_find (tbl N w) k = None"
    by (cases "tbl_find (tbl N w) k") (auto simp: tbl_lookup_def dest: tbl_findD(2))
  have eq: "(err, w') = (case tbl_find (tbl N w) k of None \<Rightarrow> (ESP_ERR_NOT_FOUND, w)
      | Some i \<Rightarrow> store_commit N w i ((the (load_slot N w i))\<lparr>e_used := 0\<rparr>))"
    using assms(3,4,5)
    by (simp add: serialcfg_delete_def delete_scan_eq tbl_find_load)
  have ok: "tbl_inv (tbl N w') \<and> (\<forall>k'. serialcfg_lookup N w' k' =
      (if k' = k \<or> k' = [] then None else tbl_lookup (tbl N w) k'))" if "err = ESP_OK"
    using scfg_deleteD [of "(N, w)" k "(N, w')"] assms(1,2,3) that
    by (auto simp: scfg_inv_def scfg_lookup_def scfg_delete_def)
  show ?thesis using eq ok absent by (auto split: option.splits)
qed

lemma delete_ram:
  assumes "k \<noteq> []" and "tbl_find (tbl nvs_ram w) k \<noteq> None"
  shows "fst (serialcfg_delete nvs_ram k w) = ESP_OK"
  using assms
  by (auto simp: serialcfg_delete_def delete_scan_eq tbl_find_load store_commit_def
      store_slot_def nvs_ram_def split: option.splits)

definition ram1 :: nvs_mem where
  "ram1 = snd (serialcfg_upsert nvs_ram ''1A86:7523'' serialcfg_default Map.empty)"

lemma tbl_ram1: "tbl nvs_ram ram1 = (\<lambda>i. None)(0 := Some (''1A86:7523'', serialcfg_default))"
proof -
  have "serialcfg_upsert nvs_ram ''1A86:7523'' serialcfg_default Map.empty = (ESP_OK, ram1)"
    using upsert_ram by (simp add: ram1_def prod_eq_iff)
  from upsert_tbl(1) [OF nvs_ram_laws _ this] show ?thesis
    by (simp add: tbl_empty_ram valid_key_def SERIALCFG_KEY_LEN_def byte_of_char_def
        tbl_upsert_def tbl_target_def tbl_find_def tbl_free_def slots)
qed

lemma serialcfg_delete_lookup_witness:
  "fst (serialcfg_delete nvs_ram ''1A86:7523'' ram1) = ESP_OK \<and>
    serialcfg_lookup nvs_ram (snd (serialcfg_delete nvs_ram ''1A86:7523'' ram1)) ''1A86:7523'' = None"
proof -
  have "tbl_find (tbl nvs_ram ram1) ''1A86:7523'' \<noteq> None" and "tbl_inv (tbl nvs_ram ram1)"
    by (simp_all add: tbl_ram1 tbl_find_def tbl_inv_def slots) (simp add: SERIALCFG_MAX_def)
  then show ?thesis
    using delete_ram [of "''1A86:7523''" ram1]
      serialcfg_delete_lookup [of nvs_ram ram1 "''1A86:7523''"
        "fst (serialcfg_delete nvs_ram ''1A86:7523'' ram1)"
        "snd (serialcfg_delete nvs_ram ''1A86:7523'' ram1)"]
    by (simp add: nvs_ram_laws prod_eq_iff)
qed

end
