(* ===== verification/Source.thy ===== *)
theory Source
  imports SerialCfg
begin

text \<open>
  \<^verbatim>\<open>source.h\<close>: the interface between a byte source (USB stick, UART module) and the bridge.  An
  operation table is a record of optional functions (a NULL entry is \<open>None\<close>) over the state
  \<open>'w\<close> of the whole device; a source pointer that may be NULL is an optional table.  The
  wrappers give a missing entry its documented result.  The locale \<open>line_port\<close> is the contract
  of the line-coding entries, as the RFC 2217 codec of the TCP sink uses them.
\<close>

record source_stats =
  st_connected :: bool
  st_vid :: u16
  st_pid :: u16
  st_manuf :: string
  st_product :: string
  st_rx_bytes :: u32
  st_tx_bytes :: u32

record source_serial_info =
  si_connected :: bool
  si_is_vcp :: bool
  si_vid :: u16
  si_pid :: u16
  si_serial :: string
  si_key :: string
  si_lc :: lc
  si_lc_source :: u8

definition zero_lc :: lc where
  "zero_lc = \<lparr>baud = 0, bits = 0, parity = 0, stop = 0\<rparr>"

definition zero_stats :: source_stats where
  "zero_stats = \<lparr>st_connected = False, st_vid = 0, st_pid = 0, st_manuf = [], st_product = [],
     st_rx_bytes = 0, st_tx_bytes = 0\<rparr>"

definition zero_serial_info :: source_serial_info where
  "zero_serial_info = \<lparr>si_connected = False, si_is_vcp = False, si_vid = 0, si_pid = 0,
     si_serial = [], si_key = [], si_lc = zero_lc, si_lc_source = 0\<rparr>"

record 'w source_ops =
  op_tx :: "(u8 list \<Rightarrow> 'w \<Rightarrow> esp_err \<times> 'w) option"
  op_ready :: "('w \<Rightarrow> bool) option"
  op_reset :: "('w \<Rightarrow> esp_err \<times> 'w) option"
  op_describe :: "('w \<Rightarrow> string) option"
  op_set_line_coding :: "(lc \<Rightarrow> 'w \<Rightarrow> esp_err \<times> 'w) option"
  op_revert_line_coding :: "('w \<Rightarrow> 'w) option"
  op_get_line_coding :: "('w \<Rightarrow> lc) option"
  op_get_stats :: "('w \<Rightarrow> source_stats) option"
  op_get_serial_info :: "('w \<Rightarrow> source_serial_info) option"
  op_apply_line_coding :: "(lc \<Rightarrow> u8 \<Rightarrow> 'w \<Rightarrow> esp_err \<times> 'w) option"

text \<open>An entry of a source that may be missing.\<close>

definition src_op :: "'w source_ops option \<Rightarrow> ('w source_ops \<Rightarrow> 'a option) \<Rightarrow> 'a option" where
  "src_op src f = Option.bind src f"

definition source_tx :: "'w source_ops option \<Rightarrow> u8 list \<Rightarrow> 'w \<Rightarrow> esp_err \<times> 'w" where
  "source_tx src d w =
     (case src_op src op_tx of Some f \<Rightarrow> f d w | None \<Rightarrow> (ESP_ERR_INVALID_STATE, w))"

definition source_ready :: "'w source_ops option \<Rightarrow> 'w \<Rightarrow> bool" where
  "source_ready src w = (case src_op src op_ready of Some f \<Rightarrow> f w | None \<Rightarrow> False)"

definition source_reset :: "'w source_ops option \<Rightarrow> 'w \<Rightarrow> esp_err \<times> 'w" where
  "source_reset src w =
     (case src_op src op_reset of Some f \<Rightarrow> f w | None \<Rightarrow> (ESP_ERR_NOT_SUPPORTED, w))"

definition source_describe :: "'w source_ops option \<Rightarrow> 'w \<Rightarrow> string" where
  "source_describe src w =
     (case src_op src op_describe of Some f \<Rightarrow> f w | None \<Rightarrow> ''no-source'')"

definition source_set_line_coding :: "'w source_ops option \<Rightarrow> lc \<Rightarrow> 'w \<Rightarrow> esp_err \<times> 'w" where
  "source_set_line_coding src l w =
     (case src_op src op_set_line_coding of Some f \<Rightarrow> f l w
      | None \<Rightarrow> (ESP_ERR_NOT_SUPPORTED, w))"

definition source_revert_line_coding :: "'w source_ops option \<Rightarrow> 'w \<Rightarrow> 'w" where
  "source_revert_line_coding src w =
     (case src_op src op_revert_line_coding of Some f \<Rightarrow> f w | None \<Rightarrow> w)"

text \<open>\<open>old\<close> is what the caller's output variables held: a source without the entry leaves them.\<close>

definition source_get_line_coding :: "'w source_ops option \<Rightarrow> lc \<Rightarrow> 'w \<Rightarrow> lc" where
  "source_get_line_coding src old w =
     (case src_op src op_get_line_coding of Some f \<Rightarrow> f w | None \<Rightarrow> old)"

definition source_get_stats :: "'w source_ops option \<Rightarrow> 'w \<Rightarrow> source_stats" where
  "source_get_stats src w =
     (case src_op src op_get_stats of Some f \<Rightarrow> f w | None \<Rightarrow> zero_stats)"

definition source_get_serial_info :: "'w source_ops option \<Rightarrow> 'w \<Rightarrow> source_serial_info" where
  "source_get_serial_info src w =
     (case src_op src op_get_serial_info of Some f \<Rightarrow> f w | None \<Rightarrow> zero_serial_info)"

definition source_apply_line_coding ::
  "'w source_ops option \<Rightarrow> lc \<Rightarrow> u8 \<Rightarrow> 'w \<Rightarrow> esp_err \<times> 'w" where
  "source_apply_line_coding src l lc_src w =
     (case src_op src op_apply_line_coding of Some f \<Rightarrow> f l lc_src w
      | None \<Rightarrow> (ESP_ERR_NOT_SUPPORTED, w))"

text \<open>The sink side: the operations of a sink are optional too.\<close>

record 'w sink_ops =
  sk_on_source_rx :: "(u8 list \<Rightarrow> 'w \<Rightarrow> 'w) option"
  sk_start :: "('w \<Rightarrow> esp_err \<times> 'w) option"
  sk_stop :: "('w \<Rightarrow> esp_err \<times> 'w) option"
  sk_on_source_down :: "('w \<Rightarrow> 'w) option"
  sk_describe :: "('w \<Rightarrow> string) option"

definition sink_on_source_rx :: "'w sink_ops option \<Rightarrow> u8 list \<Rightarrow> 'w \<Rightarrow> 'w" where
  "sink_on_source_rx s d w =
     (case Option.bind s sk_on_source_rx of Some f \<Rightarrow> f d w | None \<Rightarrow> w)"

definition sink_start :: "'w sink_ops option \<Rightarrow> 'w \<Rightarrow> esp_err \<times> 'w" where
  "sink_start s w = (case Option.bind s sk_start of Some f \<Rightarrow> f w | None \<Rightarrow> (ESP_OK, w))"

definition sink_stop :: "'w sink_ops option \<Rightarrow> 'w \<Rightarrow> esp_err \<times> 'w" where
  "sink_stop s w = (case Option.bind s sk_stop of Some f \<Rightarrow> f w | None \<Rightarrow> (ESP_OK, w))"

definition sink_on_source_down :: "'w sink_ops option \<Rightarrow> 'w \<Rightarrow> 'w" where
  "sink_on_source_down s w =
     (case Option.bind s sk_on_source_down of Some f \<Rightarrow> f w | None \<Rightarrow> w)"

definition sink_describe :: "'w sink_ops option \<Rightarrow> 'w \<Rightarrow> string" where
  "sink_describe s w = (case Option.bind s sk_describe of Some f \<Rightarrow> f w | None \<Rightarrow> ''no-sink'')"

subsection \<open>The line-coding contract\<close>

text \<open>
  What a client of the line-coding entries may rely on: a successful set is what the next get
  reads, and a failed one leaves the reading alone.
\<close>

locale line_port =
  fixes set_lc :: "lc \<Rightarrow> 's \<Rightarrow> esp_err \<times> 's"
    and get_lc :: "'s \<Rightarrow> lc"
    and lc_inv :: "'s \<Rightarrow> bool"
  assumes set_get: "lc_inv s \<Longrightarrow> set_lc l s = (ESP_OK, s') \<Longrightarrow> get_lc s' = l"
    and set_fail: "lc_inv s \<Longrightarrow> set_lc l s = (e, s') \<Longrightarrow> e \<noteq> ESP_OK \<Longrightarrow> get_lc s' = get_lc s"
    and set_inv: "lc_inv s \<Longrightarrow> set_lc l s = (e, s') \<Longrightarrow> lc_inv s'"
begin

text \<open>The coding read back after a set is the requested one or the former one.\<close>

lemma get_after_set:
  assumes "lc_inv s"
  shows "get_lc (snd (set_lc l s)) = (if fst (set_lc l s) = ESP_OK then l else get_lc s)"
  using assms by (cases "set_lc l s") (auto dest: set_get set_fail)

text \<open>After any sequence of sets the reading is the last one that succeeded.\<close>

fun set_all :: "lc list \<Rightarrow> 's \<Rightarrow> lc \<times> 's" where
  "set_all [] s = (get_lc s, s)"
| "set_all (l # ls) s = set_all ls (snd (set_lc l s))"

fun last_ok :: "lc \<Rightarrow> lc list \<Rightarrow> 's \<Rightarrow> lc" where
  "last_ok cur [] s = cur"
| "last_ok cur (l # ls) s =
     last_ok (if fst (set_lc l s) = ESP_OK then l else cur) ls (snd (set_lc l s))"

lemma set_all_last_ok:
  "lc_inv s \<Longrightarrow> fst (set_all ls s) = last_ok (get_lc s) ls s"
proof (induction ls arbitrary: s)
  case (Cons l ls)
  have "lc_inv (snd (set_lc l s))"
    using Cons.prems by (cases "set_lc l s") (auto dest: set_inv)
  then show ?case by (simp add: Cons get_after_set)
qed simp

end

end
