(* ===== verification/Bridge.thy ===== *)
theory Bridge
  imports Source
begin

text \<open>
  \<^verbatim>\<open>bridge.c\<close>: one source fanned out to at most eight sinks, and the TX lock that lets one sink at
  a time write to the source.  The static struct \<^verbatim>\<open>s_br\<close> is the record \<open>bridge\<close>; source and sink
  pointers are addresses, and \<open>E\<close> gives their operation tables.  Each section that runs under the
  mutex is one definition, and the public functions compose them in the order of the C code, so
  the same definitions serve the sequential theorems and the interleaved steps at the end.
\<close>

definition BRIDGE_MAX_SINKS :: nat where "BRIDGE_MAX_SINKS = 8"

definition BRIDGE_SINK_ID_MAXLEN :: nat where "BRIDGE_SINK_ID_MAXLEN = 16"

definition BRIDGE_TX_AUTO_IDLE_US :: int where "BRIDGE_TX_AUTO_IDLE_US = 5000000"

abbreviation BRIDGE_ERR_TX_LOCKED :: esp_err where "BRIDGE_ERR_TX_LOCKED \<equiv> ESP_ERR_NOT_ALLOWED"

datatype bridge_tx_mode = BRIDGE_TX_AUTO | BRIDGE_TX_PINNED

record bridge_stats =
  rx_bytes_total :: u32
  rx_pumps_total :: u32
  tx_bytes_total :: u32
  tx_dropped_not_ready :: u32
  tx_dropped_locked :: u32
  st_sink_count :: nat
  rx_last_us :: int

text \<open>
  \<open>sinks\<close> and \<open>sink_ids\<close> hold the first \<^verbatim>\<open>sink_count\<close> entries of their arrays.  \<open>rx_wired\<close> tells
  for each source object whether its \<^verbatim>\<open>rx_sink\<close> points to \<^verbatim>\<open>bridge_on_source_rx\<close>.
\<close>

record bridge =
  br_source :: "nat option"
  sinks :: "nat list"
  sink_ids :: "string list"
  stats :: bridge_stats
  tx_mode :: bridge_tx_mode
  tx_owner_idx :: int
  tx_last_us :: int
  tx_rej_lock :: "u32 list"
  tx_rej_lock_total :: u32
  rx_wired :: "nat \<Rightarrow> bool"

record bridge_tx_info =
  ti_mode :: bridge_tx_mode
  ti_owner_idx :: int
  ti_owner_id :: string
  ti_last_tx_us :: int
  ti_ids :: "string list"
  ti_slot_used :: "bool list"
  ti_rejected :: "u32 list"
  ti_rejected_total :: u32

record 'w br_env =
  env_source :: "nat \<Rightarrow> 'w source_ops option"
  env_sink :: "nat \<Rightarrow> 'w sink_ops option"

subsection \<open>Attaching\<close>

definition zero_bridge_stats :: bridge_stats where
  "zero_bridge_stats = \<lparr>rx_bytes_total = 0, rx_pumps_total = 0, tx_bytes_total = 0,
     tx_dropped_not_ready = 0, tx_dropped_locked = 0, st_sink_count = 0, rx_last_us = 0\<rparr>"

definition bridge_init :: bridge where
  "bridge_init = \<lparr>br_source = None, sinks = [], sink_ids = [], stats = zero_bridge_stats,
     tx_mode = BRIDGE_TX_AUTO, tx_owner_idx = -1, tx_last_us = 0,
     tx_rej_lock = replicate BRIDGE_MAX_SINKS 0, tx_rej_lock_total = 0,
     rx_wired = (\<lambda>a. False)\<rparr>"

fun index_of :: "'a \<Rightarrow> 'a list \<Rightarrow> nat \<Rightarrow> int" where
  "index_of x [] i = -1"
| "index_of x (y # ys) i = (if y = x then int i else index_of x ys (Suc i))"

definition find_sink_idx_locked :: "bridge \<Rightarrow> nat \<Rightarrow> int" where
  "find_sink_idx_locked b who = index_of who (sinks b) 0"

definition find_sink_id_locked :: "bridge \<Rightarrow> string \<Rightarrow> int" where
  "find_sink_id_locked b i = (if i = [] then -1 else index_of i (sink_ids b) 0)"

definition bridge_attach_source :: "nat option \<Rightarrow> bridge \<Rightarrow> bridge" where
  "bridge_attach_source src b =
     (case src of None \<Rightarrow> b
      | Some a \<Rightarrow>
          (let w = (case br_source b of
                      Some old \<Rightarrow> if old \<noteq> a then (rx_wired b)(old := False) else rx_wired b
                    | None \<Rightarrow> rx_wired b)
           in b\<lparr>br_source := Some a, rx_wired := w(a := True)\<rparr>))"

definition bridge_detach_source :: "nat option \<Rightarrow> bridge \<Rightarrow> bridge" where
  "bridge_detach_source src b =
     (case src of None \<Rightarrow> b
      | Some a \<Rightarrow>
          if br_source b = Some a
          then b\<lparr>rx_wired := (rx_wired b)(a := False), br_source := None\<rparr> else b)"

definition bridge_get_source :: "bridge \<Rightarrow> nat option" where
  "bridge_get_source b = br_source b"

definition bridge_attach_sink :: "nat option \<Rightarrow> string option \<Rightarrow> bridge \<Rightarrow> esp_err \<times> bridge" where
  "bridge_attach_sink sink short_id b =
     (case sink of None \<Rightarrow> (ESP_ERR_INVALID_ARG, b)
      | Some s \<Rightarrow>
          if length (sinks b) \<ge> BRIDGE_MAX_SINKS then (ESP_ERR_NO_MEM, b)
          else
            (let sid = (case short_id of
                  Some i \<Rightarrow> fmt_s BRIDGE_SINK_ID_MAXLEN i | None \<Rightarrow> [])
             in (ESP_OK, b\<lparr>sinks := sinks b @ [s], sink_ids := sink_ids b @ [sid],
                   stats := (stats b)\<lparr>st_sink_count := length (sinks b) + 1\<rparr>\<rparr>)))"

subsection \<open>From the source to the sinks\<close>

definition bridge_rx_account :: "int \<Rightarrow> nat \<Rightarrow> bridge \<Rightarrow> bridge" where
  "bridge_rx_account now len b =
     b\<lparr>stats := (stats b)\<lparr>rx_pumps_total := rx_pumps_total (stats b) + 1,
        rx_bytes_total := rx_bytes_total (stats b) + of_nat len, rx_last_us := now\<rparr>\<rparr>"

definition bridge_on_source_rx ::
  "'w br_env \<Rightarrow> int \<Rightarrow> u8 list \<Rightarrow> bridge \<times> 'w \<Rightarrow> bridge \<times> 'w" where
  "bridge_on_source_rx E now data bw =
     (case bw of (b, w) \<Rightarrow>
        if data = [] then (b, w)
        else (let snapshot = sinks b
              in (bridge_rx_account now (length data) b,
                  fold (\<lambda>s. sink_on_source_rx (env_sink E s) data) snapshot w)))"

definition bridge_notify_source_down :: "'w br_env \<Rightarrow> bridge \<times> 'w \<Rightarrow> bridge \<times> 'w" where
  "bridge_notify_source_down E bw =
     (case bw of (b, w) \<Rightarrow> (b, fold (\<lambda>s. sink_on_source_down (env_sink E s)) (sinks b) w))"

subsection \<open>From a sink to the source\<close>

text \<open>First section: the source pointer, and the ready test made under the mutex.\<close>

definition bridge_tx_snapshot :: "'w br_env \<Rightarrow> 'w \<Rightarrow> bridge \<Rightarrow> nat option \<times> bridge" where
  "bridge_tx_snapshot E w b =
     (case br_source b of
        Some a \<Rightarrow>
          if source_ready (env_source E a) w then (Some a, b)
          else (None, b\<lparr>stats := (stats b)\<lparr>tx_dropped_not_ready :=
                  tx_dropped_not_ready (stats b) + 1\<rparr>\<rparr>)
      | None \<Rightarrow> (None, b\<lparr>stats := (stats b)\<lparr>tx_dropped_not_ready :=
                  tx_dropped_not_ready (stats b) + 1\<rparr>\<rparr>))"

text \<open>Second section: the lock check, the AUTO claim or the accounting of a rejection.\<close>

definition bridge_tx_lock :: "int \<Rightarrow> nat \<Rightarrow> bridge \<Rightarrow> bool \<times> bridge" where
  "bridge_tx_lock now who b =
     (let my = find_sink_idx_locked b who;
          owner = tx_owner_idx b;
          idle = (owner < 0 \<or> now - tx_last_us b > BRIDGE_TX_AUTO_IDLE_US);
          allowed = (case tx_mode b of
              BRIDGE_TX_PINNED \<Rightarrow> my \<ge> 0 \<and> my = owner
            | BRIDGE_TX_AUTO \<Rightarrow> my \<ge> 0 \<and> (idle \<or> my = owner));
          b1 = (if tx_mode b = BRIDGE_TX_AUTO \<and> allowed \<and> my \<noteq> owner
                then b\<lparr>tx_owner_idx := my\<rparr> else b)
      in if allowed then (True, b1)
         else (False, b1\<lparr>
           tx_rej_lock := (if my \<ge> 0
              then (tx_rej_lock b)[nat my := tx_rej_lock b ! nat my + 1] else tx_rej_lock b),
           tx_rej_lock_total := tx_rej_lock_total b + 1,
           stats := (stats b)\<lparr>tx_dropped_locked := tx_dropped_locked (stats b) + 1\<rparr>\<rparr>))"

text \<open>Third section, after a successful \<^verbatim>\<open>source_tx\<close>.\<close>

definition bridge_tx_done :: "int \<Rightarrow> nat \<Rightarrow> bridge \<Rightarrow> bridge" where
  "bridge_tx_done now len b =
     b\<lparr>stats := (stats b)\<lparr>tx_bytes_total := tx_bytes_total (stats b) + of_nat len\<rparr>,
       tx_last_us := now\<rparr>"

text \<open>
  \<open>now1\<close> and \<open>now2\<close> are the clock at the lock check and after the transfer.  The caller \<open>None\<close> is
  the system, which bypasses the lock.
\<close>

definition bridge_tx_to_source ::
  "'w br_env \<Rightarrow> int \<Rightarrow> int \<Rightarrow> nat option \<Rightarrow> u8 list \<Rightarrow> bridge \<times> 'w \<Rightarrow> esp_err \<times> (bridge \<times> 'w)"
where
  "bridge_tx_to_source E now1 now2 who data bw =
     (case bw of (b, w) \<Rightarrow>
       (case bridge_tx_snapshot E w b of
          (None, b1) \<Rightarrow> (ESP_ERR_INVALID_STATE, (b1, w))
        | (Some a, b1) \<Rightarrow>
            (case (case who of None \<Rightarrow> (True, b1) | Some s \<Rightarrow> bridge_tx_lock now1 s b1) of
               (False, b2) \<Rightarrow> (BRIDGE_ERR_TX_LOCKED, (b2, w))
             | (True, b2) \<Rightarrow>
                 (case source_tx (env_source E a) data w of
                    (err, w1) \<Rightarrow>
                      (err, (if err = ESP_OK then bridge_tx_done now2 (length data) b2 else b2,
                             w1))))))"

definition bridge_set_tx_master :: "string option \<Rightarrow> bridge \<Rightarrow> esp_err \<times> bridge" where
  "bridge_set_tx_master id_or_auto b =
     (case id_or_auto of
        None \<Rightarrow> (ESP_OK, b\<lparr>tx_mode := BRIDGE_TX_AUTO, tx_owner_idx := -1\<rparr>)
      | Some i \<Rightarrow>
          if i = [] \<or> i = ''auto''
          then (ESP_OK, b\<lparr>tx_mode := BRIDGE_TX_AUTO, tx_owner_idx := -1\<rparr>)
          else (let idx = find_sink_id_locked b i
                in if idx < 0 then (ESP_ERR_NOT_FOUND, b)
                   else (ESP_OK, b\<lparr>tx_mode := BRIDGE_TX_PINNED, tx_owner_idx := idx\<rparr>)))"

definition pad_to :: "nat \<Rightarrow> 'a \<Rightarrow> 'a list \<Rightarrow> 'a list" where
  "pad_to n x xs = xs @ replicate (n - length xs) x"

definition bridge_get_tx_info :: "bridge \<Rightarrow> bridge_tx_info" where
  "bridge_get_tx_info b =
     \<lparr>ti_mode = tx_mode b, ti_owner_idx = tx_owner_idx b,
      ti_owner_id =
        (if tx_owner_idx b \<ge> 0 \<and> tx_owner_idx b < int (length (sinks b)) \<and>
            sink_ids b ! nat (tx_owner_idx b) \<noteq> []
         then fmt_s BRIDGE_SINK_ID_MAXLEN (sink_ids b ! nat (tx_owner_idx b)) else []),
      ti_last_tx_us = tx_last_us b,
      ti_ids = pad_to BRIDGE_MAX_SINKS [] (map (fmt_s BRIDGE_SINK_ID_MAXLEN) (sink_ids b)),
      ti_slot_used = pad_to BRIDGE_MAX_SINKS False (map (\<lambda>s. True) (sinks b)),
      ti_rejected = pad_to BRIDGE_MAX_SINKS 0 (take (length (sinks b)) (tx_rej_lock b)),
      ti_rejected_total = tx_rej_lock_total b\<rparr>"

definition bridge_get_stats :: "bridge \<Rightarrow> bridge_stats" where
  "bridge_get_stats b = stats b"

subsection \<open>Line coding\<close>

definition bridge_apply_line_coding :: "'w br_env \<Rightarrow> lc \<Rightarrow> bridge \<times> 'w \<Rightarrow> esp_err \<times> (bridge \<times> 'w)"
where
  "bridge_apply_line_coding E l bw =
     (case bw of (b, w) \<Rightarrow>
       (case br_source b of
          None \<Rightarrow> (ESP_ERR_INVALID_STATE, (b, w))
        | Some a \<Rightarrow> map_prod id (Pair b) (source_set_line_coding (env_source E a) l w)))"

definition bridge_src_ops :: "'w br_env \<Rightarrow> bridge \<Rightarrow> 'w source_ops option" where
  "bridge_src_ops E b = Option.bind (br_source b) (env_source E)"

definition bridge_revert_line_coding :: "'w br_env \<Rightarrow> bridge \<times> 'w \<Rightarrow> bridge \<times> 'w" where
  "bridge_revert_line_coding E bw =
     (case bw of (b, w) \<Rightarrow> (b, source_revert_line_coding (bridge_src_ops E b) w))"

definition bridge_get_line_coding :: "'w br_env \<Rightarrow> lc \<Rightarrow> bridge \<times> 'w \<Rightarrow> lc" where
  "bridge_get_line_coding E old bw =
     (case bw of (b, w) \<Rightarrow> source_get_line_coding (bridge_src_ops E b) old w)"

subsection \<open>Runs of bridge calls\<close>

datatype br_op =
    AttachSource "nat option"
  | DetachSource "nat option"
  | AttachSink "nat option" "string option"
  | SourceRx int "u8 list"
  | SourceDown
  | Tx int int "nat option" "u8 list"
  | SetMaster "string option"
  | ApplyLc lc
  | RevertLc

fun br_step :: "'w br_env \<Rightarrow> br_op \<Rightarrow> bridge \<times> 'w \<Rightarrow> bridge \<times> 'w" where
  "br_step E (AttachSource a) (b, w) = (bridge_attach_source a b, w)"
| "br_step E (DetachSource a) (b, w) = (bridge_detach_source a b, w)"
| "br_step E (AttachSink s i) (b, w) = (snd (bridge_attach_sink s i b), w)"
| "br_step E (SourceRx now d) (b, w) = bridge_on_source_rx E now d (b, w)"
| "br_step E SourceDown (b, w) = bridge_notify_source_down E (b, w)"
| "br_step E (Tx t1 t2 who d) (b, w) = snd (bridge_tx_to_source E t1 t2 who d (b, w))"
| "br_step E (SetMaster i) (b, w) = (snd (bridge_set_tx_master i b), w)"
| "br_step E (ApplyLc l) (b, w) = snd (bridge_apply_line_coding E l (b, w))"
| "br_step E RevertLc (b, w) = bridge_revert_line_coding E (b, w)"

definition br_run :: "'w br_env \<Rightarrow> br_op list \<Rightarrow> bridge \<times> 'w \<Rightarrow> bridge \<times> 'w" where
  "br_run E = fold (br_step E)"

lemma br_run_simps [simp]:
  "br_run E [] bw = bw"
  "br_run E (op # ops) bw = br_run E ops (br_step E op bw)"
  by (simp_all add: br_run_def)

text \<open>
  One call of \<open>bridge_tx_to_source\<close> on the bridge part of the state: a rejected one only counts,
  an accepted one went through the lock section and, if the source took the bytes, the third
  section.
\<close>

lemma tx_bridge_cases:
  assumes "bridge_tx_to_source E t1 t2 who d (b, w) = (err, (b', w'))"
  obtains (not_ready) "err = ESP_ERR_INVALID_STATE" "w' = w"
      "b' = b\<lparr>stats := (stats b)\<lparr>tx_dropped_not_ready := tx_dropped_not_ready (stats b) + 1\<rparr>\<rparr>"
  | (locked) s where "who = Some s" "err = BRIDGE_ERR_TX_LOCKED" "w' = w"
      "bridge_tx_lock t1 s b = (False, b')"
  | (sent) a b2 where "br_source b = Some a"
      "(case who of None \<Rightarrow> (True, b) | Some s \<Rightarrow> bridge_tx_lock t1 s b) = (True, b2)"
      "source_tx (env_source E a) d w = (err, w')"
      "b' = (if err = ESP_OK then bridge_tx_done t2 (length d) b2 else b2)"
  using assms
  by (auto simp: bridge_tx_to_source_def bridge_tx_snapshot_def
      split: option.splits if_splits prod.splits bool.splits)

lemma index_of_cases:
  "index_of x ys i = -1 \<and> x \<notin> set ys \<or>
    (\<exists>k<length ys. ys ! k = x \<and> index_of x ys i = int (i + k))"
proof (induction ys arbitrary: i)
  case (Cons y ys)
  show ?case
  proof (cases "y = x")
    case True
    then show ?thesis by (intro disjI2 exI [of _ 0]) simp
  next
    case False
    with Cons.IH [of "Suc i"] show ?thesis
    proof (elim disjE exE conjE)
      fix k assume "k < length ys" "ys ! k = x" "index_of x ys (Suc i) = int (Suc i + k)"
      with False show ?thesis by (intro disjI2 exI [of _ "Suc k"]) simp
    qed simp
  qed
qed simp

lemma index_of_range: "-1 \<le> index_of x ys 0 \<and> index_of x ys 0 < int (length ys)"
  using index_of_cases [of x ys 0] by auto

lemma index_of_nth: "index_of x ys 0 \<ge> 0 \<Longrightarrow> ys ! nat (index_of x ys 0) = x"
  using index_of_cases [of x ys 0] by auto

lemma index_of_append:
  "index_of x ys i \<ge> 0 \<Longrightarrow> index_of x (ys @ zs) i = index_of x ys i"
  by (induction ys arbitrary: i) auto

subsection \<open>The invariant of the bridge\<close>

definition br_inv :: "bridge \<Rightarrow> bool" where
  "br_inv b \<longleftrightarrow>
     length (sinks b) \<le> BRIDGE_MAX_SINKS \<and> length (sink_ids b) = length (sinks b) \<and>
     st_sink_count (stats b) = length (sinks b) \<and>
     length (tx_rej_lock b) = BRIDGE_MAX_SINKS \<and>
     (\<forall>i\<in>set (sink_ids b). length i < BRIDGE_SINK_ID_MAXLEN) \<and>
     -1 \<le> tx_owner_idx b \<and> tx_owner_idx b < int (length (sinks b)) \<and>
     (tx_mode b = BRIDGE_TX_PINNED \<longrightarrow> 0 \<le> tx_owner_idx b) \<and>
     tx_dropped_locked (stats b) = tx_rej_lock_total b \<and>
     (\<forall>a. rx_wired b a \<longleftrightarrow> br_source b = Some a)"

lemma br_inv_init: "br_inv bridge_init"
  by (simp add: br_inv_def bridge_init_def zero_bridge_stats_def)

lemma br_inv_attach_source: "br_inv b \<Longrightarrow> br_inv (bridge_attach_source a b)"
  by (auto simp: br_inv_def bridge_attach_source_def Let_def split: option.splits)

lemma br_inv_detach_source: "br_inv b \<Longrightarrow> br_inv (bridge_detach_source a b)"
  by (auto simp: br_inv_def bridge_detach_source_def split: option.splits)

lemma br_inv_attach_sink: "br_inv b \<Longrightarrow> br_inv (snd (bridge_attach_sink s i b))"
  by (auto simp: br_inv_def bridge_attach_sink_def Let_def BRIDGE_SINK_ID_MAXLEN_def
      split: option.splits intro: length_fmt_s)

lemma br_inv_tx_lock: "br_inv b \<Longrightarrow> br_inv (snd (bridge_tx_lock now who b))"
  using index_of_range [of who "sinks b"]
  by (auto simp: br_inv_def bridge_tx_lock_def Let_def find_sink_idx_locked_def
      split: bridge_tx_mode.splits)

lemma br_inv_frame:
  "br_inv b \<Longrightarrow> br_inv (bridge_tx_done now len b)"
  "br_inv b \<Longrightarrow> br_inv (bridge_rx_account now len b)"
  "br_inv b \<Longrightarrow> br_inv (b\<lparr>stats := (stats b)\<lparr>tx_dropped_not_ready := n\<rparr>\<rparr>)"
  by (simp_all add: br_inv_def bridge_tx_done_def bridge_rx_account_def)

lemma br_inv_set_tx_master: "br_inv b \<Longrightarrow> br_inv (snd (bridge_set_tx_master i b))"
  using index_of_range [of _ "sink_ids b"]
  by (auto simp: br_inv_def bridge_set_tx_master_def Let_def find_sink_id_locked_def
      split: option.splits)

lemma br_inv_tx:
  assumes "br_inv b"
  shows "br_inv (fst (snd (bridge_tx_to_source E t1 t2 who d (b, w))))"
proof -
  obtain err b' w' where tx: "bridge_tx_to_source E t1 t2 who d (b, w) = (err, (b', w'))"
    by (metis prod.collapse)
  from tx have "br_inv b'"
  proof (cases rule: tx_bridge_cases)
    case (locked s)
    then show ?thesis using br_inv_tx_lock [OF assms, of t1 s] by simp
  next
    case (sent a b2)
    have "br_inv b2"
      using sent(2) assms br_inv_tx_lock [OF assms, of t1] by (cases who) (auto, metis snd_conv)
    then show ?thesis using sent(4) by (simp add: br_inv_frame)
  qed (simp add: assms br_inv_frame)
  then show ?thesis using tx by simp
qed

lemma bridge_lc_frame:
  "fst (snd (bridge_apply_line_coding E l (b, w))) = b"
  "fst (bridge_revert_line_coding E (b, w)) = b"
  by (auto simp: bridge_apply_line_coding_def bridge_revert_line_coding_def split: option.splits)

lemma br_inv_step: "br_inv (fst bw) \<Longrightarrow> br_inv (fst (br_step E op bw))"
  by (cases op; cases bw)
    (auto simp: br_inv_attach_source br_inv_detach_source br_inv_attach_sink br_inv_tx
      br_inv_set_tx_master bridge_on_source_rx_def bridge_notify_source_down_def br_inv_frame
      bridge_lc_frame Let_def)

lemma br_inv_run: "br_inv (fst bw) \<Longrightarrow> br_inv (fst (br_run E ops bw))"
  by (induction ops arbitrary: bw) (simp_all add: br_inv_step)

subsection \<open>Who may write\<close>

text \<open>
  The sink that holds the lock at time \<open>now\<close>: the pinned one, or in AUTO mode the last claimant
  until its last successful transfer is more than five seconds old.
\<close>

definition tx_holder :: "int \<Rightarrow> bridge \<Rightarrow> int option" where
  "tx_holder now b =
     (if tx_mode b = BRIDGE_TX_PINNED then Some (tx_owner_idx b)
      else if tx_owner_idx b < 0 \<or> now - tx_last_us b > BRIDGE_TX_AUTO_IDLE_US then None
      else Some (tx_owner_idx b))"

lemma tx_lock_holder:
  "fst (bridge_tx_lock now who b) \<longleftrightarrow>
    find_sink_idx_locked b who \<ge> 0 \<and>
    (tx_holder now b = None \<or> tx_holder now b = Some (find_sink_idx_locked b who))"
  by (auto simp: bridge_tx_lock_def tx_holder_def Let_def split: bridge_tx_mode.splits)

text \<open>\<open>held i t0 b\<close>: sink \<open>i\<close> holds the lock at every time up to five seconds after \<open>t0\<close>.\<close>

definition held :: "int \<Rightarrow> int \<Rightarrow> bridge \<Rightarrow> bool" where
  "held i t0 b \<longleftrightarrow> tx_owner_idx b = i \<and> 0 \<le> i \<and> i < int (length (sinks b)) \<and>
     (tx_mode b = BRIDGE_TX_PINNED \<or> t0 \<le> tx_last_us b)"

text \<open>A pinned lock has no end.\<close>

definition lasts :: "int \<Rightarrow> int \<Rightarrow> bridge \<Rightarrow> bool" where
  "lasts t0 now b \<longleftrightarrow> tx_mode b = BRIDGE_TX_PINNED \<or> now \<le> t0 + BRIDGE_TX_AUTO_IDLE_US"

lemma held_lock:
  assumes "held i t0 b" and "lasts t0 now b"
  shows "fst (bridge_tx_lock now who b) \<longleftrightarrow> find_sink_idx_locked b who = i"
    and "held i t0 (snd (bridge_tx_lock now who b))"
    and "tx_mode (snd (bridge_tx_lock now who b)) = tx_mode b \<and> sinks (snd (bridge_tx_lock now who b)) = sinks b"
  using assms
  by (auto simp: held_def lasts_def bridge_tx_lock_def Let_def split: bridge_tx_mode.splits)

text \<open>A transfer that ran alone leaves its sink with the lock.\<close>

lemma tx_takes_lock:
  assumes "bridge_tx_to_source E t1 t2 (Some who) data (b0, w0) = (ESP_OK, (b, w))"
  shows "held (find_sink_idx_locked b0 who) t2 b \<and> sinks b = sinks b0 \<and> tx_mode b = tx_mode b0"
  using assms index_of_range [of who "sinks b0"]
  by (cases rule: tx_bridge_cases)
    (auto simp: held_def bridge_tx_lock_def bridge_tx_done_def Let_def find_sink_idx_locked_def
      split: bridge_tx_mode.splits if_splits)

subsection \<open>Concurrent transmitters\<close>

text \<open>
  Each caller runs \<open>bridge_tx_to_source\<close> in its own task, several tasks may call for one sink (every client of the
  TCP sink has a task), and the system calls without one.  The sections under the mutex and the transfer itself
  interleave: a task is idle, has the source pointer, is inside \<open>source_tx\<close>, or is behind a successful one and before
  the accounting.  The other calls of the bridge, the clock and the world below go their own ways in between;
  \<^verbatim>\<open>bridge_set_tx_master\<close>, which nothing in the firmware calls, is not among them.
\<close>

datatype tx_phase = TIdle | TSnapped "nat option" nat | TSending "nat option" nat | TSent nat

type_synonym 'w tx_state = "int \<times> bridge \<times> 'w \<times> (nat \<Rightarrow> tx_phase)"

fun lockless_op :: "br_op \<Rightarrow> bool" where
  "lockless_op (SetMaster i) \<longleftrightarrow> False"
| "lockless_op (Tx t1 t2 who d) \<longleftrightarrow> False"
| "lockless_op op \<longleftrightarrow> True"

inductive tx_step :: "'w br_env \<Rightarrow> 'w tx_state \<Rightarrow> 'w tx_state \<Rightarrow> bool" for E where
  tick: "t \<le> t' \<Longrightarrow> tx_step E (t, b, w, p) (t', b, w, p)"
| below: "tx_step E (t, b, w, p) (t, b, w', p)"
| other_call: "lockless_op op \<Longrightarrow> br_step E op (b, w) = (b', w') \<Longrightarrow> tx_step E (t, b, w, p) (t, b', w', p)"
| snapshot: "p k = TIdle \<Longrightarrow> bridge_tx_snapshot E w b = (Some a, b') \<Longrightarrow>
    tx_step E (t, b, w, p) (t, b', w, p(k := TSnapped who a))"
| not_ready: "p k = TIdle \<Longrightarrow> bridge_tx_snapshot E w b = (None, b') \<Longrightarrow>
    tx_step E (t, b, w, p) (t, b', w, p)"
| system_in: "p k = TSnapped None a \<Longrightarrow> tx_step E (t, b, w, p) (t, b, w, p(k := TSending None a))"
| locked_out: "p k = TSnapped (Some s) a \<Longrightarrow> bridge_tx_lock t s b = (False, b') \<Longrightarrow>
    tx_step E (t, b, w, p) (t, b', w, p(k := TIdle))"
| let_in: "p k = TSnapped (Some s) a \<Longrightarrow> bridge_tx_lock t s b = (True, b') \<Longrightarrow>
    tx_step E (t, b, w, p) (t, b', w, p(k := TSending (Some s) a))"
| transfer: "p k = TSending who a \<Longrightarrow> source_tx (env_source E a) d w = (err, w') \<Longrightarrow>
    tx_step E (t, b, w, p) (t, b, w', p(k := if err = ESP_OK then TSent (length d) else TIdle))"
| account: "p k = TSent n \<Longrightarrow> tx_step E (t, b, w, p) (t, bridge_tx_done t n b, w, p(k := TIdle))"

inductive tx_steps :: "'w br_env \<Rightarrow> 'w tx_state \<Rightarrow> 'w tx_state \<Rightarrow> bool" for E where
  tx_refl: "tx_steps E s s"
| tx_trans: "tx_step E s s' \<Longrightarrow> tx_steps E s' s'' \<Longrightarrow> tx_steps E s s''"

inductive_cases tx_stepE: "tx_step E (t, b, w, p) s'"

lemma br_inv_tx_step: "tx_step E st st' \<Longrightarrow> br_inv (fst (snd st)) \<Longrightarrow> br_inv (fst (snd st'))"
proof (induction rule: tx_step.induct)
  case (other_call op b w b' w' t p)
  then show ?case using br_inv_step [of "(b, w)" E op] by simp
next
  case (locked_out p k s a t b b' w)
  then show ?case using br_inv_tx_lock [of b t s] by simp
next
  case (let_in p k s a t b b' w)
  then show ?case using br_inv_tx_lock [of b t s] by simp
qed (auto simp: br_inv_frame bridge_tx_snapshot_def split: option.splits if_splits)

text \<open>Every sink inside a transfer is the sink \<open>i\<close>, which holds the lock.\<close>

definition only_sender :: "int \<Rightarrow> bridge \<Rightarrow> (nat \<Rightarrow> tx_phase) \<Rightarrow> bool" where
  "only_sender i b p \<longleftrightarrow> (\<forall>k s a. p k = TSending (Some s) a \<longrightarrow> find_sink_idx_locked b s = i)"

definition held_state :: "int \<Rightarrow> int \<Rightarrow> bridge_tx_mode \<Rightarrow> 'w tx_state \<Rightarrow> bool" where
  "held_state i t0 m st \<longleftrightarrow> (case st of (t, b, w, p) \<Rightarrow>
     tx_mode b = m \<and> t0 \<le> t \<and> (lasts t0 t b \<longrightarrow> held i t0 b \<and> only_sender i b p))"

lemma only_sender_upd:
  "only_sender i b p \<Longrightarrow> (\<And>s a. x = TSending (Some s) a \<Longrightarrow> find_sink_idx_locked b s = i) \<Longrightarrow> only_sender i b (p(k := x))"
  by (auto simp: only_sender_def)

lemma only_sender_sinks: "sinks b' = sinks b \<Longrightarrow> only_sender i b' p = only_sender i b p"
  by (simp add: only_sender_def find_sink_idx_locked_def)

lemma lasts_mode: "tx_mode b' = tx_mode b \<Longrightarrow> lasts t0 t b' = lasts t0 t b"
  by (simp add: lasts_def)

lemma held_frame:
  "sinks b' = sinks b \<Longrightarrow> tx_mode b' = tx_mode b \<Longrightarrow> tx_owner_idx b' = tx_owner_idx b \<Longrightarrow>
   tx_last_us b' = tx_last_us b \<Longrightarrow> held i t0 b' = held i t0 b"
  by (simp add: held_def)

lemma tx_snapshot_frame:
  "bridge_tx_snapshot E w b = (r, b') \<Longrightarrow>
    sinks b' = sinks b \<and> tx_mode b' = tx_mode b \<and> tx_owner_idx b' = tx_owner_idx b \<and> tx_last_us b' = tx_last_us b"
  by (auto simp: bridge_tx_snapshot_def split: option.splits if_splits)

lemma lockless_frame:
  assumes "lockless_op op" and "br_step E op (b, w) = (b', w')"
  shows "\<exists>ss. sinks b' = sinks b @ ss" "tx_mode b' = tx_mode b" "tx_owner_idx b' = tx_owner_idx b"
    "tx_last_us b' = tx_last_us b"
  using assms
  by (cases op; force simp: bridge_attach_source_def bridge_detach_source_def bridge_lc_frame bridge_attach_sink_def
      bridge_on_source_rx_def bridge_notify_source_down_def bridge_rx_account_def bridge_apply_line_coding_def
      bridge_revert_line_coding_def Let_def split: option.splits if_splits)+

lemma held_other:
  assumes "lockless_op op" "br_step E op (b, w) = (b', w')" "held i t0 b" "only_sender i b p"
  shows "held i t0 b' \<and> only_sender i b' p"
proof -
  obtain ss where ss: "sinks b' = sinks b @ ss" using lockless_frame(1) [OF assms(1,2)] by blast
  have "index_of s (sinks b @ ss) 0 = i" if "index_of s (sinks b) 0 = i" for s
    using that assms(3) index_of_append [of s "sinks b" 0 ss] by (simp add: held_def)
  then show ?thesis
    using assms(3,4) ss lockless_frame(2-4) [OF assms(1,2)]
    by (auto simp: held_def only_sender_def find_sink_idx_locked_def)
qed

lemma held_state_step: "tx_step E st st' \<Longrightarrow> held_state i t0 m st \<Longrightarrow> held_state i t0 m st'"
proof (induction rule: tx_step.induct)
  case (other_call op b w b' w' t p)
  then show ?case
    using held_other [OF other_call.hyps, of i t0 p] lockless_frame(2) [OF other_call.hyps]
    by (simp add: held_state_def lasts_def)
next
  case (snapshot p k w b a b' t who)
  then show ?case
    using tx_snapshot_frame [OF snapshot.hyps(2)]
    by (auto simp: held_state_def lasts_mode [of b' b] held_frame [of b' b] only_sender_sinks [of b' b] intro: only_sender_upd)
next
  case (not_ready p k w b b' t)
  then show ?case
    using tx_snapshot_frame [OF not_ready.hyps(2)]
    by (simp add: held_state_def lasts_mode [of b' b] held_frame [of b' b] only_sender_sinks [of b' b])
next
  case (locked_out p k s a t b b' w)
  have m: "tx_mode b' = tx_mode b" using locked_out.hyps by (auto simp: bridge_tx_lock_def Let_def split: if_splits)
  show ?case
  proof (cases "lasts t0 t b")
    case True
    then have h: "held i t0 b" "only_sender i b p" using locked_out.prems by (simp_all add: held_state_def)
    note l = held_lock [OF h(1) True, of s, unfolded locked_out.hyps(2) fst_conv snd_conv]
    have "only_sender i b' (p(k := TIdle))"
      using h(2) l by (auto simp: only_sender_sinks [of b' b] intro: only_sender_upd)
    then show ?thesis using l locked_out.prems m by (simp add: held_state_def)
  qed (use locked_out.prems m in \<open>simp add: held_state_def lasts_def\<close>)
next
  case (let_in p k s a t b b' w)
  have m: "tx_mode b' = tx_mode b" using let_in.hyps by (auto simp: bridge_tx_lock_def Let_def split: if_splits)
  show ?case
  proof (cases "lasts t0 t b")
    case True
    then have h: "held i t0 b" "only_sender i b p" using let_in.prems by (simp_all add: held_state_def)
    note l = held_lock [OF h(1) True, of s, unfolded let_in.hyps(2) fst_conv snd_conv]
    have "only_sender i b' (p(k := TSending (Some s) a))"
      using h(2) l by (auto simp: only_sender_sinks [of b' b] intro: only_sender_upd)
    then show ?thesis using l let_in.prems m by (simp add: held_state_def)
  qed (use let_in.prems m in \<open>simp add: held_state_def lasts_def\<close>)
next
  case (account p k n t b w)
  then show ?case
    by (auto simp: held_state_def lasts_def held_def only_sender_def bridge_tx_done_def find_sink_idx_locked_def)
qed (auto simp: held_state_def lasts_def only_sender_def)

lemma held_state_steps: "tx_steps E st st' \<Longrightarrow> held_state i t0 m st \<Longrightarrow> held_state i t0 m st'"
  by (induction rule: tx_steps.induct) (auto intro: held_state_step)

subsection \<open>Properties\<close>

text \<open>C39: whatever sequence of calls the tasks make after the bridge was initialised, the sink
  tables stay within their arrays, the owner index names an attached sink (and a pinned lock
  always has one), every lock rejection is counted once, and the RX hook of a source is set
  exactly while it is the attached one.\<close>

theorem bridge_invariant: "br_inv (fst (br_run E ops (bridge_init, w)))"
  by (rule br_inv_run) (simp add: br_inv_init)


text \<open>received bytes go to every attached sink exactly once and to no other, when each sink
  only touches its own part of the state; an empty delivery goes to none.\<close>

theorem bridge_fanout_once:
  fixes w :: "nat \<Rightarrow> 's"
  assumes "\<And>s. env_sink E s = Some (sk s)"
    and "\<And>s. sk_on_source_rx (sk s) = Some (\<lambda>d w. w(s := f s d (w s)))"
    and "distinct (sinks b)"
  shows "snd (bridge_on_source_rx E now data (b, w)) s =
    (if data \<noteq> [] \<and> s \<in> set (sinks b) then f s data (w s) else w s)"
proof -
  have "fold (\<lambda>s. sink_on_source_rx (env_sink E s) data) ss w s =
      (if s \<in> set ss then f s data (w s) else w s)" if "distinct ss" for ss and w :: "nat \<Rightarrow> 's"
    using that by (induction ss arbitrary: w) (auto simp: sink_on_source_rx_def assms(1,2))
  then show ?thesis using assms(3) by (simp add: bridge_on_source_rx_def Let_def)
qed

text \<open>An idle lock does not keep two sinks apart.  The lock section renews no timestamp when a sink claims an
  idle lock, so until the claimant's first transfer has finished the lock still counts as idle:
  two sinks can be inside \<open>source_tx\<close> at once.\<close>

theorem bridge_auto_overlap:
  assumes "tx_mode b = BRIDGE_TX_AUTO" and "t - tx_last_us b > BRIDGE_TX_AUTO_IDLE_US"
    and "br_source b = Some a" and "source_ready (env_source E a) w"
    and "find_sink_idx_locked b s1 \<ge> 0" and "find_sink_idx_locked b s2 \<ge> 0" and "s1 \<noteq> s2"
  shows "\<exists>b' p'. tx_steps E (t, b, w, \<lambda>s. TIdle) (t, b', w, p') \<and>
    p' s1 = TSending (Some s1) a \<and> p' s2 = TSending (Some s2) a"
proof -
  let ?p0 = "(\<lambda>s. TIdle) :: nat \<Rightarrow> tx_phase"
  let ?p1 = "?p0(s1 := TSnapped (Some s1) a)" and ?p2 = "?p0(s1 := TSnapped (Some s1) a, s2 := TSnapped (Some s2) a)"
  let ?p3 = "?p2(s1 := TSending (Some s1) a)" and ?p4 = "?p2(s1 := TSending (Some s1) a, s2 := TSending (Some s2) a)"
  have snap: "bridge_tx_snapshot E w b = (Some a, b)"
    using assms(3,4) by (simp add: bridge_tx_snapshot_def)
  obtain b1 where l1: "bridge_tx_lock t s1 b = (True, b1)"
    and b1: "tx_mode b1 = BRIDGE_TX_AUTO" "tx_last_us b1 = tx_last_us b" "sinks b1 = sinks b"
    using assms(1,2,5) by (auto simp: bridge_tx_lock_def Let_def)
  obtain b2 where l2: "bridge_tx_lock t s2 b1 = (True, b2)"
    using assms(2,6) b1 by (auto simp: bridge_tx_lock_def Let_def find_sink_idx_locked_def)
  have 1: "tx_step E (t, b, w, ?p0) (t, b, w, ?p1)" by (rule tx_step.snapshot) (simp_all add: snap)
  have 2: "tx_step E (t, b, w, ?p1) (t, b, w, ?p2)"
    by (rule tx_step.snapshot) (use assms(7) in \<open>simp_all add: snap\<close>)
  have 3: "tx_step E (t, b, w, ?p2) (t, b1, w, ?p3)"
    by (rule tx_step.let_in [OF _ l1]) (use assms(7) in simp)
  have 4: "tx_step E (t, b1, w, ?p3) (t, b2, w, ?p4)"
    by (rule tx_step.let_in [OF _ l2]) (use assms(7) in simp)
  show ?thesis
    by (intro exI conjI, rule tx_trans [OF 1 tx_trans [OF 2 tx_trans [OF 3 tx_trans [OF 4 tx_refl]]]])
      (use assms(7) in auto)
qed

subsection \<open>Closed instances\<close>

definition demo_ops :: "u8 list source_ops" where
  "demo_ops = \<lparr>op_tx = Some (\<lambda>d w. (ESP_OK, w @ d)), op_ready = Some (\<lambda>w. True), op_reset = None,
     op_describe = None, op_set_line_coding = None, op_revert_line_coding = None,
     op_get_line_coding = None, op_get_stats = None, op_get_serial_info = None,
     op_apply_line_coding = None\<rparr>"

definition demo_env :: "u8 list br_env" where
  "demo_env = \<lparr>env_source = (\<lambda>a. Some demo_ops), env_sink = (\<lambda>a. None)\<rparr>"

definition demo_bridge :: bridge where
  "demo_bridge = fst (br_run demo_env
     [AttachSource (Some 7), AttachSink (Some 1) (Some ''raw''), AttachSink (Some 2) (Some ''cmd'')]
     (bridge_init, []))"

lemmas demo_simps =
  demo_bridge_def demo_env_def demo_ops_def bridge_init_def bridge_attach_source_def
  bridge_attach_sink_def BRIDGE_MAX_SINKS_def BRIDGE_SINK_ID_MAXLEN_def find_sink_idx_locked_def
  zero_bridge_stats_def BRIDGE_TX_AUTO_IDLE_US_def


lemma bridge_fanout_once_witness:
  "snd (bridge_on_source_rx
     \<lparr>env_source = (\<lambda>a. None), env_sink = (\<lambda>s. Some \<lparr>sk_on_source_rx = Some (\<lambda>d w. w(s := w s @ d)),
        sk_start = None, sk_stop = None, sk_on_source_down = None, sk_describe = None\<rparr>)\<rparr>
     0 [1, 2] (demo_bridge, \<lambda>s. [0])) 2 = [0, 1, 2]"
  by (subst bridge_fanout_once [where f = "\<lambda>s d x. x @ d" and
        sk = "\<lambda>s. \<lparr>sk_on_source_rx = Some (\<lambda>d w. w(s := w s @ d)),
          sk_start = None, sk_stop = None, sk_on_source_down = None, sk_describe = None\<rparr>"])
    (simp_all add: demo_simps Let_def)

lemma bridge_auto_overlap_witness:
  "\<exists>b' p'. tx_steps demo_env (10000000, demo_bridge, [], \<lambda>s. TIdle) (10000000, b', [], p') \<and>
    p' 1 = TSending (Some 1) 7 \<and> p' 2 = TSending (Some 2) 7"
  by (rule bridge_auto_overlap)
    (simp_all add: demo_simps Let_def source_ready_def src_op_def)

subsection \<open>The passthrough keeps the line-coding contract\<close>

text \<open>A bridge with an attached source whose line-coding entries keep the contract.\<close>

locale attached_port = line_port set_lc get_lc lc_inv
  for set_lc :: "lc \<Rightarrow> 'w \<Rightarrow> esp_err \<times> 'w" and get_lc :: "'w \<Rightarrow> lc" and lc_inv :: "'w \<Rightarrow> bool" +
  fixes E :: "'w br_env" and b :: bridge and a :: nat and ops :: "'w source_ops"
  assumes attached: "br_source b = Some a" "env_source E a = Some ops"
    and set_entry: "op_set_line_coding ops = Some set_lc"
    and get_entry: "op_get_line_coding ops = Some get_lc"
begin

definition via_set :: "lc \<Rightarrow> 'w \<Rightarrow> esp_err \<times> 'w" where
  "via_set l w = map_prod id snd (bridge_apply_line_coding E l (b, w))"

definition via_get :: "'w \<Rightarrow> lc" where
  "via_get w = bridge_get_line_coding E zero_lc (b, w)"

lemma via_set_eq: "via_set = set_lc"
  by (auto simp: fun_eq_iff via_set_def bridge_apply_line_coding_def attached set_entry
      source_set_line_coding_def src_op_def map_prod_def split: prod.splits)

lemma via_get_eq: "via_get = get_lc"
  by (auto simp: fun_eq_iff via_get_def bridge_get_line_coding_def bridge_src_ops_def attached
      get_entry source_get_line_coding_def src_op_def)

end

sublocale attached_port \<subseteq> bridged: line_port via_set via_get lc_inv
  unfolding via_set_eq via_get_eq by (rule line_port_axioms)

end
