(* ===== verification/Telnet.thy ===== *)
theory Telnet
  imports Source
begin

text \<open>
  \<^verbatim>\<open>sink_tcp.c\<close>, first part: the per-client telnet and RFC 2217 codec that runs in each client's
  task.  \<open>sink\<close> is the static struct \<^verbatim>\<open>S\<close> with the replay buffer; clients are indexed as in
  \<^verbatim>\<open>S.clients\<close>, and a client pointer is its index.  Sockets (lwIP) and the bridge are the
  parameter \<open>E\<close> over a world \<open>'w\<close>; a state is the pair of the sink and the world.
\<close>

subsection \<open>Protocol constants\<close>

abbreviation TC_IAC :: u8 where "TC_IAC \<equiv> 0xFF"

abbreviation TC_DONT :: u8 where "TC_DONT \<equiv> 0xFE"

abbreviation TC_DO :: u8 where "TC_DO \<equiv> 0xFD"

abbreviation TC_WONT :: u8 where "TC_WONT \<equiv> 0xFC"

abbreviation TC_WILL :: u8 where "TC_WILL \<equiv> 0xFB"

abbreviation TC_SB :: u8 where "TC_SB \<equiv> 0xFA"

abbreviation TC_SE :: u8 where "TC_SE \<equiv> 0xF0"

abbreviation TOPT_BINARY :: u8 where "TOPT_BINARY \<equiv> 0x00"

abbreviation TOPT_ECHO :: u8 where "TOPT_ECHO \<equiv> 0x01"

abbreviation TOPT_SGA :: u8 where "TOPT_SGA \<equiv> 0x03"

abbreviation TOPT_COMPORT :: u8 where "TOPT_COMPORT \<equiv> 0x2C"

abbreviation CPO_SERVER_BASE :: u8 where "CPO_SERVER_BASE \<equiv> 100"

definition SINK_TCP_MAX_CLIENTS :: nat where "SINK_TCP_MAX_CLIENTS = 4"

definition SB_SIZE :: nat where "SB_SIZE = 40"

definition OUT_SIZE :: nat where "OUT_SIZE = 256"

definition FW_VERSION_STRING :: string where "FW_VERSION_STRING = ''0.2.296''"

subsection \<open>State\<close>

datatype tstate = TS_SNIFF | TS_RAW | TS_DATA | TS_IAC | TS_NEG | TS_SB | TS_SBIAC

text \<open>\<open>sb\<close> is the used part of the C array, so \<^verbatim>\<open>sb_len\<close> is its length.\<close>

record tcp_client =
  sock :: int
  ip :: u32
  cport :: u16
  active :: bool
  tstate :: tstate
  telnet :: bool
  is_controller :: bool
  neg_cmd :: u8
  sb :: "u8 list"

record tcp_stats =
  active_clients :: int
  total_accepts :: u32
  total_disconnects :: u32
  rx_bytes_from_clients :: u32
  tx_bytes_to_clients :: u32
  tx_dropped_eagain :: u32

record sink =
  port :: u16
  listen_sock :: int
  clients :: "nat \<Rightarrow> tcp_client"
  ctrl_client :: "nat option"
  tcp_stats :: tcp_stats
  replay :: "u8 list"
  replay_until_us :: int

text \<open>The result of \<^verbatim>\<open>send(..., MSG_DONTWAIT)\<close>: a count, EAGAIN, or another error.\<close>

datatype send_res = Sent nat | SendAgain | SendErr

record 'w tcp_env =
  sk_send :: "int \<Rightarrow> u8 list \<Rightarrow> 'w \<Rightarrow> send_res \<times> 'w"
  sk_shutdown :: "int \<Rightarrow> 'w \<Rightarrow> 'w"
  sk_close :: "int \<Rightarrow> 'w \<Rightarrow> 'w"
  sk_delay :: "'w \<Rightarrow> 'w"
  br_tx :: "u8 list \<Rightarrow> 'w \<Rightarrow> esp_err \<times> 'w"
  br_apply :: "lc \<Rightarrow> 'w \<Rightarrow> esp_err \<times> 'w"
  br_revert :: "'w \<Rightarrow> 'w"
  br_get :: "lc \<Rightarrow> 'w \<Rightarrow> lc"
  br_ready :: "'w \<Rightarrow> bool"

definition upd_client :: "nat \<Rightarrow> (tcp_client \<Rightarrow> tcp_client) \<Rightarrow> sink \<Rightarrow> sink" where
  "upd_client i f S = S\<lparr>clients := (clients S)(i := f (clients S i))\<rparr>"

abbreviation set_tstate :: "nat \<Rightarrow> tstate \<Rightarrow> sink \<Rightarrow> sink" where
  "set_tstate i t \<equiv> upd_client i (tstate_update (\<lambda>_. t))"

subsection \<open>Sending\<close>

definition to_source :: "'w tcp_env \<Rightarrow> u8 list \<Rightarrow> sink \<times> 'w \<Rightarrow> sink \<times> 'w" where
  "to_source E d sw =
     (case sw of (S, w) \<Rightarrow>
       if d = [] then (S, w)
       else (S\<lparr>tcp_stats := (tcp_stats S)\<lparr>rx_bytes_from_clients :=
                 rx_bytes_from_clients (tcp_stats S) + of_nat (length d)\<rparr>\<rparr>,
             snd (br_tx E d w)))"

text \<open>The loop of \<^verbatim>\<open>tn_send\<close>: a partial write is continued, fifty stalls in a row give up.\<close>

function tn_send_loop :: "'w tcp_env \<Rightarrow> int \<Rightarrow> u8 list \<Rightarrow> nat \<Rightarrow> 'w \<Rightarrow> 'w" where
  "tn_send_loop E fd bs stalls w =
     (if bs = [] then w
      else case sk_send E fd bs w of
        (Sent n, w1) \<Rightarrow>
          if n > 0 then tn_send_loop E fd (drop n bs) 0 w1 else sk_shutdown E fd w1
      | (SendAgain, w1) \<Rightarrow>
          if stalls + 1 > 50 then sk_shutdown E fd w1
          else tn_send_loop E fd bs (stalls + 1) (sk_delay E w1)
      | (SendErr, w1) \<Rightarrow> sk_shutdown E fd w1)"
  by pat_completeness auto

termination
  by (relation "measures [\<lambda>(E, fd, bs, stalls, w). length bs, \<lambda>(E, fd, bs, stalls, w). 51 - stalls]")
    auto

declare tn_send_loop.simps [simp del]

definition tn_send :: "'w tcp_env \<Rightarrow> tcp_client \<Rightarrow> u8 list \<Rightarrow> 'w \<Rightarrow> 'w" where
  "tn_send E c bs w = (if sock c < 0 then w else tn_send_loop E (sock c) bs 0 w)"

subsection \<open>Negotiation\<close>

definition comport_acquire :: "nat \<Rightarrow> sink \<Rightarrow> sink" where
  "comport_acquire i S =
     (if ctrl_client S = None
      then upd_client i (is_controller_update (\<lambda>_. True)) (S\<lparr>ctrl_client := Some i\<rparr>) else S)"

definition tn_commit :: "nat \<Rightarrow> sink \<Rightarrow> sink" where
  "tn_commit i S = upd_client i (telnet_update (\<lambda>_. True)) S"

text \<open>The reply to WILL, DO, WONT or DONT, if there is one.\<close>

definition neg_reply :: "u8 \<Rightarrow> u8 \<Rightarrow> u8 option" where
  "neg_reply cmd opt =
     (if opt = TOPT_COMPORT \<or> opt = TOPT_SGA \<or> opt = TOPT_BINARY then
        (if cmd = TC_WILL then Some TC_DO else if cmd = TC_DO then Some TC_WILL else None)
      else if opt = TOPT_ECHO then
        (if cmd = TC_DO then Some TC_WONT else if cmd = TC_WILL then Some TC_DONT else None)
      else
        (if cmd = TC_WILL then Some TC_DONT else if cmd = TC_DO then Some TC_WONT else None))"

definition tn_negotiate :: "'w tcp_env \<Rightarrow> nat \<Rightarrow> u8 \<Rightarrow> u8 \<Rightarrow> sink \<times> 'w \<Rightarrow> sink \<times> 'w" where
  "tn_negotiate E i cmd opt sw =
     (case sw of (S, w) \<Rightarrow>
       (case neg_reply cmd opt of
          None \<Rightarrow> (S, w)
        | Some r \<Rightarrow>
            (let w1 = tn_send E (clients S i) [TC_IAC, r, opt] w
             in (if opt = TOPT_COMPORT then comport_acquire i S else S, w1))))"

subsection \<open>COM-PORT-OPTION\<close>

definition rfc_to_cdc_parity :: "u8 \<Rightarrow> u8" where
  "rfc_to_cdc_parity r = (if r \<ge> 1 \<and> r \<le> 5 then r - 1 else 0)"

definition cdc_to_rfc_parity :: "u8 \<Rightarrow> u8" where
  "cdc_to_rfc_parity c = c + 1"

definition rfc_to_cdc_stop :: "u8 \<Rightarrow> u8" where
  "rfc_to_cdc_stop r = (if r = 2 then 2 else if r = 3 then 1 else 0)"

definition cdc_to_rfc_stop :: "u8 \<Rightarrow> u8" where
  "cdc_to_rfc_stop c = (if c = 2 then 2 else if c = 1 then 3 else 1)"

text \<open>The payload loop of \<^verbatim>\<open>cpo_reply\<close>; \<open>k\<close> is the fill level of its 72-byte frame.\<close>

fun cpo_payload :: "u8 list \<Rightarrow> nat \<Rightarrow> u8 list" where
  "cpo_payload [] k = []"
| "cpo_payload (v # vs) k =
     (if k < 72 - 3
      then (if v = TC_IAC then [v, TC_IAC] @ cpo_payload vs (k + 2) else v # cpo_payload vs (k + 1))
      else [])"

definition cpo_frame :: "u8 \<Rightarrow> u8 list \<Rightarrow> u8 list" where
  "cpo_frame resp val =
     [TC_IAC, TC_SB, TOPT_COMPORT, resp] @ cpo_payload val 4 @ [TC_IAC, TC_SE]"

definition cpo_reply :: "'w tcp_env \<Rightarrow> tcp_client \<Rightarrow> u8 \<Rightarrow> u8 list \<Rightarrow> 'w \<Rightarrow> 'w" where
  "cpo_reply E c resp val w = tn_send E c (cpo_frame resp val) w"

text \<open>
  A setting command: \<open>req\<close> is the coding it asks for, if it asks for one; only the controller's
  request reaches the wire.  The result is the coding to report.
\<close>

definition cpo_set :: "'w tcp_env \<Rightarrow> bool \<Rightarrow> lc \<Rightarrow> lc option \<Rightarrow> 'w \<Rightarrow> lc \<times> 'w" where
  "cpo_set E ctrl cur req w =
     (case req of
        Some l \<Rightarrow>
          if ctrl then (case br_apply E l w of (e, w1) \<Rightarrow> (if e = ESP_OK then l else cur, w1))
          else (cur, w)
      | None \<Rightarrow> (cur, w))"

definition control_answer :: "u8 \<Rightarrow> u8" where
  "control_answer req =
     (if req \<le> 3 then 1 else if req \<le> 6 then 6 else if req \<le> 9 then 8
      else if req \<le> 12 then 11 else 1)"

text \<open>
  The cases of the switch: the coding a setting command asks for (a value of zero is a query), and
  the payload of the reply, given the coding after the request.
\<close>

definition cpo_request :: "u8 \<Rightarrow> u8 list \<Rightarrow> lc \<Rightarrow> lc option" where
  "cpo_request cmd val cur =
     (if cmd = 1 \<and> length val \<ge> 4 \<and> of_be32 (val ! 0) (val ! 1) (val ! 2) (val ! 3) \<noteq> 0
      then Some (cur\<lparr>baud := of_be32 (val ! 0) (val ! 1) (val ! 2) (val ! 3)\<rparr>)
      else if cmd \<in> {2, 3, 4} \<and> length val \<ge> 1 \<and> val ! 0 \<noteq> 0
      then Some (if cmd = 2 then cur\<lparr>bits := val ! 0\<rparr>
                 else if cmd = 3 then cur\<lparr>parity := rfc_to_cdc_parity (val ! 0)\<rparr>
                 else cur\<lparr>stop := rfc_to_cdc_stop (val ! 0)\<rparr>)
      else None)"

definition cpo_answer :: "u8 \<Rightarrow> u8 list \<Rightarrow> lc \<Rightarrow> u8 list option" where
  "cpo_answer cmd val l =
     (if cmd = 0 then Some (bytes (''CDC2NET '' @ FW_VERSION_STRING))
      else if cmd = 1 then Some (be32 (baud l))
      else if cmd = 2 then Some [bits l]
      else if cmd = 3 then Some [cdc_to_rfc_parity (parity l)]
      else if cmd = 4 then Some [cdc_to_rfc_stop (stop l)]
      else if cmd = 5 then Some [control_answer (if length val \<ge> 1 then val ! 0 else 0)]
      else if cmd = 12 then Some [if length val \<ge> 1 then val ! 0 else 0]
      else if cmd = 10 \<or> cmd = 11 then Some [0]
      else None)"

definition tn_subneg :: "'w tcp_env \<Rightarrow> nat \<Rightarrow> sink \<times> 'w \<Rightarrow> sink \<times> 'w" where
  "tn_subneg E i sw =
     (case sw of (S, w) \<Rightarrow>
       let c = clients S i in
       if length (sb c) < 1 \<or> sb c ! 0 \<noteq> TOPT_COMPORT then (S, w)
       else
         let cmd = (if length (sb c) \<ge> 2 then sb c ! 1 else 0xFF);
             val = drop 2 (sb c);
             cur = br_get E zero_lc w
         in case cpo_set E (is_controller c) cur (cpo_request cmd val cur) w of
              (l, w1) \<Rightarrow>
                (S, (case cpo_answer cmd val l of
                       None \<Rightarrow> w1
                     | Some v \<Rightarrow> cpo_reply E c (CPO_SERVER_BASE + cmd) v w1)))"

subsection \<open>The receive state machine\<close>

definition flush_out :: "'w tcp_env \<Rightarrow> u8 list \<Rightarrow> sink \<times> 'w \<Rightarrow> sink \<times> 'w" where
  "flush_out E out sw = (if out \<noteq> [] then to_source E out sw else sw)"

text \<open>A data byte into the coalescing buffer, which is flushed when it is full.\<close>

definition put_out :: "'w tcp_env \<Rightarrow> u8 \<Rightarrow> u8 list \<times> (sink \<times> 'w) \<Rightarrow> u8 list \<times> (sink \<times> 'w)" where
  "put_out E b os =
     (case os of (out, sw) \<Rightarrow>
       let out' = out @ [b]
       in if length out' = OUT_SIZE then ([], to_source E out' sw) else (out', sw))"

definition on_sink :: "(sink \<Rightarrow> sink) \<Rightarrow> sink \<times> 'w \<Rightarrow> sink \<times> 'w" where
  "on_sink f sw = (f (fst sw), snd sw)"

definition sb_put :: "nat \<Rightarrow> u8 \<Rightarrow> sink \<Rightarrow> sink" where
  "sb_put i b S =
     upd_client i (\<lambda>c. if length (sb c) < SB_SIZE then c\<lparr>sb := sb c @ [b]\<rparr> else c) S"

text \<open>The body of the loop for the byte \<open>b\<close>; the flag says that the byte is processed again.\<close>

definition rx_byte ::
  "'w tcp_env \<Rightarrow> nat \<Rightarrow> u8 \<Rightarrow> u8 list \<times> (sink \<times> 'w) \<Rightarrow> bool \<times> (u8 list \<times> (sink \<times> 'w))" where
  "rx_byte E i b os =
     (case os of (out, sw) \<Rightarrow>
       (case tstate (clients (fst sw) i) of
          TS_SNIFF \<Rightarrow>
            if b \<noteq> TC_IAC then (True, (out, on_sink (set_tstate i TS_RAW) sw))
            else (False, (out, on_sink (set_tstate i TS_IAC \<circ> tn_commit i) sw))
        | TS_RAW \<Rightarrow> (False, (out, sw))
        | TS_DATA \<Rightarrow>
            if b = TC_IAC then (False, ([], on_sink (set_tstate i TS_IAC) (flush_out E out sw)))
            else (False, put_out E b (out, sw))
        | TS_IAC \<Rightarrow>
            if b = TC_IAC then
              (False, apsnd (on_sink (set_tstate i TS_DATA)) (put_out E TC_IAC (out, sw)))
            else if b = TC_SB then
              (False, (out, on_sink (set_tstate i TS_SB \<circ> upd_client i (sb_update (\<lambda>_. []))) sw))
            else if b = TC_WILL \<or> b = TC_WONT \<or> b = TC_DO \<or> b = TC_DONT then
              (False, (out, on_sink (set_tstate i TS_NEG \<circ> upd_client i (neg_cmd_update (\<lambda>_. b))) sw))
            else (False, (out, on_sink (set_tstate i TS_DATA) sw))
        | TS_NEG \<Rightarrow>
            (False, (out, on_sink (set_tstate i TS_DATA)
               (tn_negotiate E i (neg_cmd (clients (fst sw) i)) b sw)))
        | TS_SB \<Rightarrow>
            if b = TC_IAC then (False, (out, on_sink (set_tstate i TS_SBIAC) sw))
            else (False, (out, on_sink (sb_put i b) sw))
        | TS_SBIAC \<Rightarrow>
            if b = TC_IAC then (False, (out, on_sink (set_tstate i TS_SB \<circ> sb_put i TC_IAC) sw))
            else (b \<noteq> TC_SE, (out, on_sink (set_tstate i TS_DATA) (tn_subneg E i sw)))))"

definition again :: "tstate \<Rightarrow> nat" where
  "again t = (if t = TS_SNIFF \<or> t = TS_SBIAC then 1 else 0)"

lemma clients_upd_client [simp]:
  "clients (upd_client i f S) = (clients S)(i := f (clients S i))"
  by (simp add: upd_client_def)

lemma rx_byte_again:
  "rx_byte E i b (out, sw) = (True, (out', sw')) \<Longrightarrow>
    again (tstate (clients (fst sw) i)) = 1 \<and> again (tstate (clients (fst sw') i)) = 0"
  by (auto simp: rx_byte_def again_def on_sink_def split: tstate.splits if_splits)

function process_loop ::
  "'w tcp_env \<Rightarrow> nat \<Rightarrow> u8 list \<Rightarrow> u8 list \<times> (sink \<times> 'w) \<Rightarrow> sink \<times> 'w" where
  "process_loop E i [] (out, sw) = flush_out E out sw"
| "process_loop E i (b # bs) (out, sw) =
     (if tstate (clients (fst sw) i) = TS_RAW
      then to_source E (b # bs) (flush_out E out sw)
      else case rx_byte E i b (out, sw) of
        (True, os) \<Rightarrow> process_loop E i (b # bs) os
      | (False, os) \<Rightarrow> process_loop E i bs os)"
  by pat_completeness auto

termination
proof (relation "measure (\<lambda>(E, i, bs, out, sw).
    2 * length bs + again (tstate (clients (fst sw) i)))", goal_cases)
  case (2 E i b bs out sw r os)
  then show ?case using rx_byte_again [of E i b out sw "fst os" "snd os"]
    by (cases os) auto
next
  case (3 E i b bs out sw r os)
  then show ?case by (cases os) (auto simp: again_def)
qed simp

declare process_loop.simps [simp del]

definition process_rx :: "'w tcp_env \<Rightarrow> nat \<Rightarrow> u8 list \<Rightarrow> sink \<times> 'w \<Rightarrow> sink \<times> 'w" where
  "process_rx E i buf sw = process_loop E i buf ([], sw)"

subsection \<open>The data stream of a client\<close>

text \<open>
  The decoder the state machine stands for: the payload bytes of a stream, and the state after
  it, whatever the chunks it arrives in.
\<close>

fun tn_dec :: "tstate \<Rightarrow> u8 list \<Rightarrow> u8 list \<times> tstate" where
  "tn_dec t [] = ([], t)"
| "tn_dec TS_SNIFF (b # bs) = (if b \<noteq> TC_IAC then (b # bs, TS_RAW) else tn_dec TS_IAC bs)"
| "tn_dec TS_RAW (b # bs) = (b # bs, TS_RAW)"
| "tn_dec TS_DATA (b # bs) =
     (if b = TC_IAC then tn_dec TS_IAC bs else apfst (Cons b) (tn_dec TS_DATA bs))"
| "tn_dec TS_IAC (b # bs) =
     (if b = TC_IAC then apfst (Cons b) (tn_dec TS_DATA bs)
      else if b = TC_SB then tn_dec TS_SB bs
      else if b = TC_WILL \<or> b = TC_WONT \<or> b = TC_DO \<or> b = TC_DONT then tn_dec TS_NEG bs
      else tn_dec TS_DATA bs)"
| "tn_dec TS_NEG (b # bs) = tn_dec TS_DATA bs"
| "tn_dec TS_SB (b # bs) = tn_dec (if b = TC_IAC then TS_SBIAC else TS_SB) bs"
| "tn_dec TS_SBIAC (b # bs) =
     (if b = TC_IAC then tn_dec TS_SB bs
      else if b = TC_SE then tn_dec TS_DATA bs else apfst (Cons b) (tn_dec TS_DATA bs))"

lemma tn_dec_RAW [simp]: "tn_dec TS_RAW bs = (bs, TS_RAW)"
  by (cases bs) simp_all

lemma tn_dec_append:
  "tn_dec t (xs @ ys) =
    (fst (tn_dec t xs) @ fst (tn_dec (snd (tn_dec t xs)) ys), snd (tn_dec (snd (tn_dec t xs)) ys))"
  by (induction t xs rule: tn_dec.induct) (auto simp: apfst_def map_prod_def split: prod.splits)

text \<open>The same environment, recording the chunks handed to the bridge.\<close>

definition lift_log :: "('w \<Rightarrow> 'a \<times> 'w) \<Rightarrow> 'w \<times> 'l \<Rightarrow> 'a \<times> ('w \<times> 'l)" where
  "lift_log f wl = (case f (fst wl) of (r, w) \<Rightarrow> (r, (w, snd wl)))"

definition traced :: "'w tcp_env \<Rightarrow> ('w \<times> u8 list list) tcp_env" where
  "traced E =
     \<lparr>sk_send = (\<lambda>fd d. lift_log (sk_send E fd d)),
      sk_shutdown = (\<lambda>fd. apfst (sk_shutdown E fd)),
      sk_close = (\<lambda>fd. apfst (sk_close E fd)),
      sk_delay = apfst (sk_delay E),
      br_tx = (\<lambda>d wl. case br_tx E d (fst wl) of (e, w) \<Rightarrow> (e, (w, snd wl @ [d]))),
      br_apply = (\<lambda>c. lift_log (br_apply E c)),
      br_revert = apfst (br_revert E),
      br_get = (\<lambda>old wl. br_get E old (fst wl)),
      br_ready = (\<lambda>wl. br_ready E (fst wl))\<rparr>"

lemma tn_send_loop_traced:
  "tn_send_loop (traced E) fd bs n (w, l) = (tn_send_loop E fd bs n w, l)"
proof (induction E fd bs n w rule: tn_send_loop.induct)
  case (1 E fd bs n w)
  show ?case
  proof (cases "sk_send E fd bs w")
    case (Pair r w1)
    then show ?thesis
      using 1 by (subst (1 2) tn_send_loop.simps) (cases r; simp add: traced_def lift_log_def)
  qed
qed

lemma tn_send_traced: "tn_send (traced E) c bs (w, l) = (tn_send E c bs w, l)"
  by (simp add: tn_send_def tn_send_loop_traced)

text \<open>Dropping the record.\<close>

definition erase :: "sink \<times> ('w \<times> 'l) \<Rightarrow> sink \<times> 'w" where
  "erase sw = (fst sw, fst (snd sw))"

definition tlog :: "sink \<times> ('w \<times> 'l) \<Rightarrow> 'l" where
  "tlog sw = snd (snd sw)"

lemma to_source_traced:
  "erase (to_source (traced E) d sw) = to_source E d (erase sw)"
  "concat (tlog (to_source (traced E) d sw)) = concat (tlog sw) @ d"
  "d \<noteq> [] \<Longrightarrow> tlog (to_source (traced E) d sw) = tlog sw @ [d]"
  "clients (fst (to_source E' d sw')) = clients (fst sw')"
  by (auto simp: to_source_def erase_def tlog_def traced_def split: prod.splits)

lemma tn_negotiate_traced:
  "erase (tn_negotiate (traced E) i cmd opt sw) = tn_negotiate E i cmd opt (erase sw)"
  "tlog (tn_negotiate (traced E) i cmd opt sw) = tlog sw"
  by (cases sw; cases "snd sw";
      auto simp: tn_negotiate_def erase_def tlog_def tn_send_traced Let_def split: option.splits)+

lemma cpo_set_traced:
  "cpo_set (traced E) ctrl cur req (w, l) =
    (case cpo_set E ctrl cur req w of (c, w1) \<Rightarrow> (c, (w1, l)))"
  by (auto simp: cpo_set_def traced_def lift_log_def split: option.splits prod.splits)

lemma br_get_traced [simp]: "br_get (traced E) old wl = br_get E old (fst wl)"
  by (simp add: traced_def)

lemma tn_subneg_traced:
  "tn_subneg (traced E) i (S, (w, l)) = (case tn_subneg E i (S, w) of (S', w') \<Rightarrow> (S', (w', l)))"
  by (simp add: tn_subneg_def Let_def cpo_reply_def tn_send_traced cpo_set_traced
      split: prod.splits option.splits)

lemma tn_subneg_traced':
  "erase (tn_subneg (traced E) i sw) = tn_subneg E i (erase sw)"
  "tlog (tn_subneg (traced E) i sw) = tlog sw"
  by (cases sw; cases "snd sw"; auto simp: erase_def tlog_def tn_subneg_traced split: prod.splits)+

lemma tn_subneg_state [frame_simps, simp]: "fst (tn_subneg E i sw) = fst sw"
  by (cases sw) (auto simp: tn_subneg_def Let_def split: prod.splits)

lemma on_sink_traced [simp]:
  "erase (on_sink f sw) = on_sink f (erase sw)" "tlog (on_sink f sw) = tlog sw"
  "fst (on_sink f sw') = f (fst sw')"
  by (simp_all add: on_sink_def erase_def tlog_def)

lemma fst_erase [simp]: "fst (erase sw) = fst sw"
  by (simp add: erase_def)

lemma flush_out_traced:
  "erase (flush_out (traced E) out sw) = flush_out E out (erase sw)"
  "concat (tlog (flush_out (traced E) out sw)) = concat (tlog sw) @ out"
  "clients (fst (flush_out E' out sw')) = clients (fst sw')"
  by (simp_all add: flush_out_def to_source_traced)

lemma put_out_traced:
  "map_prod id erase (put_out (traced E) b (out, sw)) = put_out E b (out, erase sw)"
  "concat (tlog (snd (put_out (traced E) b (out, sw)))) @ fst (put_out (traced E) b (out, sw)) =
    concat (tlog sw) @ out @ [b]"
  "clients (fst (snd (put_out E' b (out, sw')))) = clients (fst sw')"
  by (simp_all add: put_out_def Let_def to_source_traced)

lemma tn_negotiate_frame: "fst (tn_negotiate E i cmd opt sw) = fst sw \<or>
    fst (tn_negotiate E i cmd opt sw) = comport_acquire i (fst sw)"
  by (cases sw) (auto simp: tn_negotiate_def Let_def split: option.splits)

lemma comport_acquire_tstate [simp]:
  "tstate (clients (comport_acquire i S) j) = tstate (clients S j)"
  "sb (clients (comport_acquire i S) j) = sb (clients S j)"
  "telnet (clients (comport_acquire i S) j) = telnet (clients S j)"
  by (simp_all add: comport_acquire_def)

lemma tn_negotiate_client [simp]:
  "tstate (clients (fst (tn_negotiate E i cmd opt sw)) j) = tstate (clients (fst sw) j)"
  "sb (clients (fst (tn_negotiate E i cmd opt sw)) j) = sb (clients (fst sw) j)"
  "telnet (clients (fst (tn_negotiate E i cmd opt sw)) j) = telnet (clients (fst sw) j)"
  using tn_negotiate_frame [of E i cmd opt sw] by auto

lemma rx_byte_erase:
  "map_prod id (map_prod id erase) (rx_byte (traced E) i b (out, sw)) = rx_byte E i b (out, erase sw)"
  using put_out_traced(1) [of E b out sw] put_out_traced(1) [of E TC_IAC out sw]
  by (cases "put_out (traced E) b (out, sw)"; cases "put_out (traced E) TC_IAC (out, sw)")
    (auto simp: rx_byte_def flush_out_traced tn_negotiate_traced tn_subneg_traced'
      split: tstate.splits dest: sym)

lemma rx_byte_dec:
  assumes "rx_byte (traced E) i b (out, sw) = (r, (out', sw'))"
    and "tstate (clients (fst sw) i) \<noteq> TS_RAW"
  shows "\<exists>x. concat (tlog sw') @ out' = concat (tlog sw) @ out @ x \<and>
    tn_dec (tstate (clients (fst sw) i)) (b # bs) =
      apfst ((@) x) (tn_dec (tstate (clients (fst sw') i)) (if r then b # bs else bs))"
  using assms put_out_traced(2) [of E b out sw] put_out_traced(2) [of E TC_IAC out sw]
    put_out_traced(3) [of "traced E" b out sw]
  by (cases "put_out (traced E) b (out, sw)"; cases "put_out (traced E) TC_IAC (out, sw)";
      cases "tstate (clients (fst sw) i)")
    (auto simp: rx_byte_def flush_out_traced put_out_traced(3) tn_negotiate_traced
      tn_subneg_traced' sb_put_def tn_commit_def apfst_def map_prod_def split: if_splits prod.splits)

lemma process_loop_traced:
  "erase (process_loop (traced E) i bs (out, sw)) = process_loop E i bs (out, erase sw) \<and>
   concat (tlog (process_loop (traced E) i bs (out, sw))) =
     concat (tlog sw) @ out @ fst (tn_dec (tstate (clients (fst sw) i)) bs) \<and>
   tstate (clients (fst (process_loop (traced E) i bs (out, sw))) i) =
     snd (tn_dec (tstate (clients (fst sw) i)) bs)"
proof (induction "traced E" i bs "(out, sw)" arbitrary: out sw rule: process_loop.induct)
  case (1 i out sw)
  then show ?case by (simp add: process_loop.simps flush_out_traced)
next
  case (2 i b bs out sw)
  show ?case
  proof (cases "tstate (clients (fst sw) i) = TS_RAW")
    case True
    then show ?thesis by (simp add: process_loop.simps to_source_traced flush_out_traced)
  next
    case False
    obtain r out' sw' where rb: "rx_byte (traced E) i b (out, sw) = (r, (out', sw'))"
      by (metis prod.collapse)
    have er: "rx_byte E i b (out, erase sw) = (r, (out', erase sw'))"
      using rx_byte_erase [of E i b out sw] rb by simp
    obtain x where x: "concat (tlog sw') @ out' = concat (tlog sw) @ out @ x"
      "tn_dec (tstate (clients (fst sw) i)) (b # bs) =
        apfst ((@) x) (tn_dec (tstate (clients (fst sw') i)) (if r then b # bs else bs))"
      using rx_byte_dec [OF rb False] by blast
    have x': "concat (tlog sw') @ out' @ ys = concat (tlog sw) @ out @ x @ ys" for ys
      using x(1) by (metis append.assoc)
    show ?thesis
    proof (cases r)
      case True
      then show ?thesis
        using 2(1) [OF False] False rb er x x'
        by (simp add: process_loop.simps apfst_def map_prod_def split: prod.splits)
    next
      case r: False
      then show ?thesis
        using 2(2) [OF False] False rb er x x'
        by (simp add: process_loop.simps apfst_def map_prod_def split: prod.splits)
    qed
  qed
qed

subsection \<open>What a client's task may change\<close>

text \<open>A client's state is coherent: telnet framing is on exactly in the telnet states, only a
  telnet client is the controller, and the subnegotiation buffer holds at most forty bytes.\<close>

definition client_ok :: "tcp_client \<Rightarrow> bool" where
  "client_ok c \<longleftrightarrow> (telnet c \<longleftrightarrow> tstate c \<notin> {TS_SNIFF, TS_RAW}) \<and>
     (is_controller c \<longrightarrow> telnet c) \<and> length (sb c) \<le> SB_SIZE"

definition same_conn :: "tcp_client \<Rightarrow> tcp_client \<Rightarrow> bool" where
  "same_conn c c' \<longleftrightarrow> sock c' = sock c \<and> ip c' = ip c \<and> cport c' = cport c \<and> active c' = active c"

definition task_rel :: "nat \<Rightarrow> sink \<Rightarrow> sink \<Rightarrow> bool" where
  "task_rel i S S' \<longleftrightarrow>
     (\<forall>j. j \<noteq> i \<longrightarrow> clients S' j = clients S j) \<and>
     same_conn (clients S i) (clients S' i) \<and>
     replay S' = replay S \<and> replay_until_us S' = replay_until_us S \<and>
     port S' = port S \<and> listen_sock S' = listen_sock S \<and>
     active_clients (tcp_stats S') = active_clients (tcp_stats S) \<and>
     (ctrl_client S' = ctrl_client S \<and>
        is_controller (clients S' i) = is_controller (clients S i) \<or>
      ctrl_client S = None \<and> ctrl_client S' = Some i \<and> is_controller (clients S' i)) \<and>
     (client_ok (clients S i) \<longrightarrow> client_ok (clients S' i))"

lemma task_rel_refl [simp]: "task_rel i S S"
  by (simp add: task_rel_def same_conn_def)

lemma task_rel_trans: "task_rel i S S' \<Longrightarrow> task_rel i S' S'' \<Longrightarrow> task_rel i S S''"
  unfolding task_rel_def same_conn_def by (elim conjE, intro conjI) auto

lemma task_rel_to_source: "task_rel i (fst sw) (fst (to_source E d sw))"
  by (cases sw) (simp add: to_source_def task_rel_def same_conn_def)

lemma task_rel_flush: "task_rel i (fst sw) (fst (flush_out E d sw))"
  by (simp add: flush_out_def task_rel_to_source)

lemma task_rel_put: "task_rel i (fst sw) (fst (snd (put_out E b (out, sw))))"
  by (simp add: put_out_def Let_def task_rel_to_source)

lemma task_rel_upd:
  "same_conn (clients S i) (f (clients S i)) \<Longrightarrow>
   is_controller (f (clients S i)) = is_controller (clients S i) \<Longrightarrow>
   (client_ok (clients S i) \<longrightarrow> client_ok (f (clients S i))) \<Longrightarrow> task_rel i S (upd_client i f S)"
  by (simp add: task_rel_def upd_client_def)

lemma task_rel_acquire: "telnet (clients S i) \<Longrightarrow> task_rel i S (comport_acquire i S)"
  by (auto simp: comport_acquire_def task_rel_def upd_client_def same_conn_def client_ok_def)

lemma put_out_clients: "clients (fst (snd (put_out E b (out, sw)))) = clients (fst sw)"
  by (rule put_out_traced(3))

text \<open>A step from a coherent client; the two updates of one byte are one change.\<close>

lemma rx_byte_rel:
  assumes "rx_byte E i b (out, sw) = (r, (out', sw'))" and "client_ok (clients (fst sw) i)"
    and "tstate (clients (fst sw) i) \<noteq> TS_RAW"
  shows "task_rel i (fst sw) (fst sw')"
proof -
  have upd: "task_rel i S (upd_client i f S)"
    if "same_conn (clients S i) (f (clients S i))" "client_ok (f (clients S i))"
      "is_controller (f (clients S i)) = is_controller (clients S i)" for S f
    using that by (simp add: task_rel_upd)
  have mid: "task_rel i (fst sw) (set_tstate i t S1)"
    if "task_rel i (fst sw) S1" "clients S1 i = clients (fst sw) i"
      "t \<notin> {TS_SNIFF, TS_RAW}" "telnet (clients (fst sw) i)" for S1 t
    by (rule task_rel_trans [OF that(1) upd])
      (use that assms(2) in \<open>auto simp: same_conn_def client_ok_def\<close>)
  have two: "upd_client i f (upd_client i g S) = upd_client i (f \<circ> g) S" for f g S
    by (simp add: upd_client_def)
  show ?thesis
  proof (cases "tstate (clients (fst sw) i)")
    case TS_SNIFF
    then show ?thesis using assms
      by (auto simp: rx_byte_def two tn_commit_def client_ok_def same_conn_def
          intro!: upd split: if_splits)
  next
    case TS_DATA
    then have tel: "telnet (clients (fst sw) i)" using assms(2) by (simp add: client_ok_def)
    show ?thesis
      using assms TS_DATA mid [OF task_rel_flush [of i sw E out]] tel
        task_rel_put [of i sw E b out]
      by (auto simp: rx_byte_def flush_out_traced(3) split: if_splits)
  next
    case TS_IAC
    then have tel: "telnet (clients (fst sw) i)" using assms(2) by (simp add: client_ok_def)
    show ?thesis
    proof (cases "b = TC_IAC")
      case True
      then show ?thesis
        using assms(1) TS_IAC tel mid [OF task_rel_put [of i sw E TC_IAC out]]
        by (cases "put_out E TC_IAC (out, sw)")
          (use put_out_clients [of E TC_IAC out sw] in \<open>auto simp: rx_byte_def\<close>)
    next
      case False
      then show ?thesis using assms TS_IAC tel
        by (auto simp: rx_byte_def two client_ok_def same_conn_def intro!: upd split: if_splits)
    qed
  next
    case TS_NEG
    then have tel: "telnet (clients (fst sw) i)" using assms(2) by (simp add: client_ok_def)
    let ?S1 = "fst (tn_negotiate E i (neg_cmd (clients (fst sw) i)) b sw)"
    have r1: "task_rel i (fst sw) ?S1"
      using tn_negotiate_frame [of E i "neg_cmd (clients (fst sw) i)" b sw] task_rel_acquire [OF tel]
      by auto
    then have "client_ok (clients ?S1 i)" using assms(2) by (simp add: task_rel_def)
    then have "task_rel i ?S1 (set_tstate i TS_DATA ?S1)"
      by (intro upd) (use tel in \<open>auto simp: client_ok_def same_conn_def\<close>)
    then show ?thesis using assms(1) TS_NEG task_rel_trans [OF r1] by (auto simp: rx_byte_def)
  next
    case TS_SB
    then show ?thesis using assms
      by (auto simp: rx_byte_def sb_put_def client_ok_def same_conn_def intro!: upd split: if_splits)
  next
    case TS_SBIAC
    then show ?thesis using assms
      by (auto simp: rx_byte_def sb_put_def two client_ok_def same_conn_def
          intro!: upd split: if_splits)
  qed (use assms in simp)
qed

lemma process_loop_rel:
  "client_ok (clients (fst sw) i) \<Longrightarrow> task_rel i (fst sw) (fst (process_loop E i bs (out, sw)))"
proof (induction E i bs "(out, sw)" arbitrary: out sw rule: process_loop.induct)
  case (1 E i out sw)
  then show ?case by (simp add: process_loop.simps task_rel_flush)
next
  case (2 E i b bs out sw)
  show ?case
  proof (cases "tstate (clients (fst sw) i) = TS_RAW")
    case True
    then show ?thesis
      using task_rel_trans [OF task_rel_flush [of i sw E out] task_rel_to_source [of i _ E "b # bs"]]
      by (simp add: process_loop.simps)
  next
    case False
    obtain r out' sw' where rb: "rx_byte E i b (out, sw) = (r, (out', sw'))"
      by (metis prod.collapse)
    have rel: "task_rel i (fst sw) (fst sw')" by (rule rx_byte_rel [OF rb 2(3) False])
    then have ok: "client_ok (clients (fst sw') i)" using 2(3) by (simp add: task_rel_def)
    show ?thesis
      using 2(1) [OF False] 2(2) [OF False] rb ok task_rel_trans [OF rel] False
      by (cases r) (auto simp: process_loop.simps)
  qed
qed

lemma process_rx_rel:
  "client_ok (clients (fst sw) i) \<Longrightarrow> task_rel i (fst sw) (fst (process_rx E i buf sw))"
  by (simp add: process_rx_def process_loop_rel)

subsection \<open>Reply frames\<close>

lemma cpo_payload_length: "k \<le> 70 \<Longrightarrow> k + length (cpo_payload vs k) \<le> 70"
  by (induction vs k rule: cpo_payload.induct) auto

lemma cpo_frame_length: "length (cpo_frame resp val) \<le> 72"
  using cpo_payload_length [of 4 val] by (simp add: cpo_frame_def)

text \<open>How a compliant peer reads a subnegotiation after IAC SB: the payload up to IAC SE, and the
  rest of the stream.\<close>

fun sb_parse :: "u8 list \<Rightarrow> (u8 list \<times> u8 list) option" where
  "sb_parse (b # bs) =
     (if b \<noteq> TC_IAC then map_option (apfst (Cons b)) (sb_parse bs)
      else case bs of
        [] \<Rightarrow> None
      | c # cs \<Rightarrow>
          if c = TC_SE then Some ([], cs)
          else if c = TC_IAC then map_option (apfst (Cons TC_IAC)) (sb_parse cs) else None)"
| "sb_parse [] = None"

lemma sb_parse_payload:
  "\<exists>n. sb_parse (cpo_payload vs k @ TC_IAC # TC_SE # rest) = Some (take n vs, rest) \<and>
    (k + 2 * length vs \<le> 70 \<longrightarrow> n = length vs)"
proof (induction vs k rule: cpo_payload.induct)
  case (2 v vs k)
  show ?case
  proof (cases "k < 69")
    case True
    with 2 obtain n where n: "sb_parse (cpo_payload vs (if v = TC_IAC then k + 2 else k + 1) @
        TC_IAC # TC_SE # rest) = Some (take n vs, rest)"
      "k + 2 + 2 * length vs \<le> 70 \<longrightarrow> n = length vs"
      by (cases "v = TC_IAC") force+
    then show ?thesis using True
      by (cases "v = TC_IAC") (intro exI [of _ "Suc n"]; simp)+
  qed simp
qed simp

lemma cpo_answer_none [simp]: "cpo_answer 0xFF val l = None"
  by (simp add: cpo_answer_def)

lemma cpo_set_not_ctrl [simp]: "cpo_set E False cur req w = (cur, w)"
  by (simp add: cpo_set_def split: option.splits)

lemma tn_subneg_not_controller:
  assumes "\<not> is_controller (clients S i)"
  shows "tn_subneg E i (S, w) = (S, w) \<or>
    (\<exists>v. tn_subneg E i (S, w) =
      (S, tn_send E (clients S i) (cpo_frame (CPO_SERVER_BASE + sb (clients S i) ! 1) v) w))"
  using assms
  by (cases "length (sb (clients S i)) \<ge> 2")
    (simp_all add: tn_subneg_def Let_def cpo_reply_def split: option.split, metis)

lemma process_rx_fold:
  "erase (fold (process_rx (traced E) i) chunks sw) = fold (process_rx E i) chunks (erase sw) \<and>
   concat (tlog (fold (process_rx (traced E) i) chunks sw)) =
     concat (tlog sw) @ fst (tn_dec (tstate (clients (fst sw) i)) (concat chunks)) \<and>
   tstate (clients (fst (fold (process_rx (traced E) i) chunks sw)) i) =
     snd (tn_dec (tstate (clients (fst sw) i)) (concat chunks))"
proof (induction chunks arbitrary: sw)
  case (Cons c chunks)
  then show ?case
    using process_loop_traced [of E i c "[]" sw] by (simp add: process_rx_def tn_dec_append)
qed simp

lemma process_rx_fold_ok:
  "client_ok (clients (fst sw) i) \<Longrightarrow> client_ok (clients (fst (fold (process_rx E i) cs sw)) i)"
proof (induction cs arbitrary: sw)
  case (Cons c cs)
  have "client_ok (clients (fst (process_rx E i c sw)) i)"
    using process_rx_rel [OF Cons.prems, of E c] Cons.prems by (simp add: task_rel_def)
  then show ?case by (simp add: Cons.IH)
qed simp

subsection \<open>Properties\<close>

text \<open>C4: the payload a client's bytes deliver to the bridge is the decoded stream, and the
  client's state the decoder's, however the stream is cut into \<open>recv\<close> chunks; the recording
  environment behaves as the plain one.\<close>

theorem telnet_stream:
  "let r = fold (process_rx (traced E) i) chunks (S, (w, [])) in
     erase r = fold (process_rx E i) chunks (S, w) \<and>
     concat (tlog r) = fst (tn_dec (tstate (clients S i)) (concat chunks)) \<and>
     tstate (clients (fst r) i) = snd (tn_dec (tstate (clients S i)) (concat chunks))"
  using process_rx_fold [of E i chunks "(S, (w, []))"]
  by (simp add: Let_def tlog_def erase_def)

text \<open>a client whose first byte is not 0xFF is passed through byte for byte for as long as it
  is connected, whatever it sends later, and never gets telnet framing.\<close>

theorem raw_transparent:
  assumes "tstate (clients S i) = TS_SNIFF" and "client_ok (clients S i)"
    and "concat chunks = b # bs" and "b \<noteq> TC_IAC"
  shows "concat (tlog (fold (process_rx (traced E) i) chunks (S, (w, [])))) = b # bs \<and>
    \<not> telnet (clients (fst (fold (process_rx (traced E) i) chunks (S, (w, [])))) i)"
proof -
  let ?r = "fold (process_rx (traced E) i) chunks (S, (w, []))"
  have "client_ok (clients (fst ?r) i)" by (rule process_rx_fold_ok) (simp add: assms(2))
  moreover have "concat (tlog ?r) = b # bs" and "tstate (clients (fst ?r) i) = TS_RAW"
    using process_rx_fold [of E i chunks "(S, (w, []))"] assms by (simp_all add: tlog_def)
  ultimately show ?thesis by (simp add: client_ok_def)
qed

text \<open>every COM-PORT reply fits its 72-byte frame, is never cut inside an escaped byte or before
  its terminator, and a compliant peer reads back the option, the response code and the value (all
  of it, up to 33 bytes) and continues right after it.\<close>

theorem cpo_frame_parse:
  assumes "resp \<noteq> TC_IAC"
  shows "length (cpo_frame resp val) \<le> 72 \<and> take 2 (cpo_frame resp val) = [TC_IAC, TC_SB] \<and>
    (\<exists>n. sb_parse (drop 2 (cpo_frame resp val) @ rest) =
        Some (TOPT_COMPORT # resp # take n val, rest) \<and>
      (length val \<le> 33 \<longrightarrow> n = length val))"
proof -
  obtain n where "sb_parse (cpo_payload val 4 @ TC_IAC # TC_SE # rest) = Some (take n val, rest)"
    and "4 + 2 * length val \<le> 70 \<longrightarrow> n = length val"
    using sb_parse_payload by blast
  then show ?thesis
    using assms cpo_frame_length [of resp val] by (auto simp: cpo_frame_def)
qed

subsection \<open>Closed instances\<close>

definition echo_env :: "unit tcp_env" where
  "echo_env =
     \<lparr>sk_send = (\<lambda>fd d w. (Sent (length d), w)), sk_shutdown = (\<lambda>fd w. w), sk_close = (\<lambda>fd w. w),
      sk_delay = (\<lambda>w. w), br_tx = (\<lambda>d w. (ESP_OK, w)), br_apply = (\<lambda>c w. (ESP_OK, w)),
      br_revert = (\<lambda>w. w), br_get = (\<lambda>old w. old), br_ready = (\<lambda>w. True)\<rparr>"

definition fresh_client :: tcp_client where
  "fresh_client = \<lparr>sock = 5, ip = 0, cport = 0, active = True, tstate = TS_SNIFF, telnet = False,
     is_controller = False, neg_cmd = 0, sb = []\<rparr>"

definition fresh_sink :: sink where
  "fresh_sink = \<lparr>port = 2329, listen_sock = 3, clients = (\<lambda>i. fresh_client), ctrl_client = None,
     tcp_stats = \<lparr>active_clients = 1, total_accepts = 1, total_disconnects = 0,
       rx_bytes_from_clients = 0, tx_bytes_to_clients = 0, tx_dropped_eagain = 0\<rparr>,
     replay = [], replay_until_us = 0\<rparr>"

lemma raw_transparent_witness:
  "concat (tlog (fold (process_rx (traced echo_env) 0) [[86], [255, 250]] (fresh_sink, ((), [])))) =
    [86, 255, 250]"
  using raw_transparent [of fresh_sink 0 "[[86], [255, 250]]" 86 "[255, 250]" echo_env "()"]
  by (simp add: fresh_sink_def fresh_client_def client_ok_def)

lemma cpo_frame_parse_witness:
  "sb_parse (drop 2 (cpo_frame 101 [0, 255, 1, 2]) @ [7]) =
    Some ([TOPT_COMPORT, 101, 0, 255, 1, 2], [7])"
  using cpo_frame_parse [of 101 "[0, 255, 1, 2]" "[7]"] by auto

end
