(* ===== verification/SinkTcp.thy ===== *)
theory SinkTcp
  imports Telnet
begin

text \<open>
  \<^verbatim>\<open>sink_tcp.c\<close>, second part: connection slots, the accept and client tasks, the fan-out of source
  bytes to the clients, the replay buffer and the sink's hooks.  One accepted connection, one
  received chunk, one hang-up and one hook call are each one step (\<open>tcp_step\<close>): the code keeps them
  apart with the sink mutex and with one task per client.
\<close>

subsection \<open>Slots\<close>

definition find_free_slot :: "sink \<Rightarrow> nat option" where
  "find_free_slot S = find (\<lambda>i. \<not> active (clients S i)) [0..<SINK_TCP_MAX_CLIENTS]"

definition upd_stats :: "(tcp_stats \<Rightarrow> tcp_stats) \<Rightarrow> sink \<Rightarrow> sink" where
  "upd_stats f S = S\<lparr>tcp_stats := f (tcp_stats S)\<rparr>"

definition close_client :: "'w tcp_env \<Rightarrow> nat \<Rightarrow> sink \<times> 'w \<Rightarrow> sink \<times> 'w" where
  "close_client E i sw =
     (case sw of (S, w) \<Rightarrow>
       if \<not> active (clients S i) then (S, w)
       else
         let w1 = (if sock (clients S i) \<ge> 0
                   then sk_close E (sock (clients S i)) (sk_shutdown E (sock (clients S i)) w) else w);
             S1 = upd_client i (\<lambda>c. c\<lparr>sock := if sock c \<ge> 0 then -1 else sock c, active := False\<rparr>) S
         in (upd_stats (\<lambda>t. t\<lparr>total_disconnects := total_disconnects t + 1,
               active_clients := active_clients t - 1\<rparr>) S1, w1))"

subsection \<open>Sending to a client\<close>

text \<open>One \<^verbatim>\<open>send\<close> with its accounting; the flag says whether the caller may go on.\<close>

definition send_counted :: "'w tcp_env \<Rightarrow> int \<Rightarrow> u8 list \<Rightarrow> sink \<times> 'w \<Rightarrow> bool \<times> (sink \<times> 'w)" where
  "send_counted E fd d sw =
     (case sw of (S, w) \<Rightarrow>
       (case sk_send E fd d w of
          (Sent n, w1) \<Rightarrow>
            (True, (upd_stats (\<lambda>t. t\<lparr>tx_bytes_to_clients := tx_bytes_to_clients t + of_nat n\<rparr>) S, w1))
        | (SendAgain, w1) \<Rightarrow>
            (False, (upd_stats (\<lambda>t. t\<lparr>tx_dropped_eagain := tx_dropped_eagain t + 1\<rparr>) S, w1))
        | (SendErr, w1) \<Rightarrow> (False, (S, sk_shutdown E fd w1))))"

definition ESC_SIZE :: nat where "ESC_SIZE = 256"

definition esc_byte :: "u8 \<Rightarrow> u8 list" where
  "esc_byte b = (if b = TC_IAC then [b, TC_IAC] else [b])"

fun esc_loop :: "'w tcp_env \<Rightarrow> int \<Rightarrow> u8 list \<Rightarrow> u8 list \<Rightarrow> sink \<times> 'w \<Rightarrow> sink \<times> 'w" where
  "esc_loop E fd [] esc sw = (if esc \<noteq> [] then snd (send_counted E fd esc sw) else sw)"
| "esc_loop E fd (b # bs) esc sw =
     (if length esc + 2 > ESC_SIZE
      then (case send_counted E fd esc sw of
              (True, sw1) \<Rightarrow> esc_loop E fd bs (esc_byte b) sw1
            | (False, sw1) \<Rightarrow> sw1)
      else esc_loop E fd bs (esc @ esc_byte b) sw)"

definition client_send :: "'w tcp_env \<Rightarrow> nat \<Rightarrow> u8 list \<Rightarrow> sink \<times> 'w \<Rightarrow> sink \<times> 'w" where
  "client_send E i data sw =
     (let c = clients (fst sw) i
      in if \<not> telnet c then snd (send_counted E (sock c) data sw)
         else esc_loop E (sock c) data [] sw)"

subsection \<open>The replay buffer\<close>

definition REPLAY_BUF_SZ :: nat where "REPLAY_BUF_SZ = 512"

definition REPLAY_WINDOW_MS :: int where "REPLAY_WINDOW_MS = 8000"

definition replay_arm :: "int \<Rightarrow> sink \<Rightarrow> sink" where
  "replay_arm now S = S\<lparr>replay := [], replay_until_us := now + REPLAY_WINDOW_MS * 1000\<rparr>"

definition replay_push :: "u8 list \<Rightarrow> u8 \<Rightarrow> u8 list" where
  "replay_push r b = (if length r < REPLAY_BUF_SZ then r @ [b] else tl r @ [b])"

definition replay_capture :: "int \<Rightarrow> u8 list \<Rightarrow> sink \<Rightarrow> sink" where
  "replay_capture now data S =
     (if replay_until_us S = 0 then S
      else if now > replay_until_us S then S\<lparr>replay_until_us := 0, replay := []\<rparr>
      else S\<lparr>replay := foldl replay_push (replay S) data\<rparr>)"

definition replay_flush_to :: "'w tcp_env \<Rightarrow> int \<Rightarrow> nat \<Rightarrow> sink \<times> 'w \<Rightarrow> sink \<times> 'w" where
  "replay_flush_to E now i sw =
     (let S = fst sw
      in if replay_until_us S = 0 \<or> replay S = [] then sw
         else let sw1 = (if now \<le> replay_until_us S then client_send E i (replay S) sw else sw)
              in on_sink (\<lambda>S. S\<lparr>replay_until_us := 0, replay := []\<rparr>) sw1)"

subsection \<open>Tasks\<close>

text \<open>The end of \<open>client_task\<close>, after its receive loop.\<close>

definition client_cleanup :: "'w tcp_env \<Rightarrow> nat \<Rightarrow> sink \<times> 'w \<Rightarrow> sink \<times> 'w" where
  "client_cleanup E i sw =
     (let S = fst sw;
          was_ctrl = (ctrl_client S = Some i);
          S1 = (if was_ctrl
                then upd_client i (is_controller_update (\<lambda>_. False)) (S\<lparr>ctrl_client := None\<rparr>)
                else S);
          sw2 = close_client E i (S1, snd sw)
      in if was_ctrl then apsnd (br_revert E) sw2 else sw2)"

text \<open>One connection that \<^verbatim>\<open>accept\<close> returned.\<close>

definition accept_conn ::
  "'w tcp_env \<Rightarrow> int \<Rightarrow> int \<Rightarrow> u32 \<Rightarrow> u16 \<Rightarrow> sink \<times> 'w \<Rightarrow> sink \<times> 'w" where
  "accept_conn E now cs addr prt sw =
     (case sw of (S, w) \<Rightarrow>
       if \<not> br_ready E w then (S, sk_close E cs w)
       else
         let S1 = upd_stats (\<lambda>t. t\<lparr>total_accepts := total_accepts t + 1\<rparr>) S
         in case find_free_slot S1 of
              None \<Rightarrow> (S1, sk_close E cs w)
            | Some i \<Rightarrow>
                let S2 = upd_client i (\<lambda>c. c\<lparr>sock := cs, ip := addr, cport := prt, tstate := TS_SNIFF,
                      telnet := False, is_controller := False, neg_cmd := 0, sb := [],
                      active := True\<rparr>) S1;
                    S3 = upd_stats (\<lambda>t. t\<lparr>active_clients := active_clients t + 1\<rparr>) S2
                in replay_flush_to E now i (S3, w))"

subsection \<open>Hooks\<close>

definition slots4 :: "nat list" where "slots4 = [0..<SINK_TCP_MAX_CLIENTS]"

definition live :: "sink \<Rightarrow> nat \<Rightarrow> bool" where
  "live S i \<longleftrightarrow> active (clients S i) \<and> sock (clients S i) \<ge> 0"

fun fan_loop :: "'w tcp_env \<Rightarrow> u8 list \<Rightarrow> nat list \<Rightarrow> nat \<Rightarrow> sink \<times> 'w \<Rightarrow> nat \<times> (sink \<times> 'w)" where
  "fan_loop E data [] n sw = (n, sw)"
| "fan_loop E data (i # is) n sw =
     (if \<not> live (fst sw) i then fan_loop E data is n sw
      else fan_loop E data is (n + 1) (client_send E i data sw))"

definition on_rx :: "'w tcp_env \<Rightarrow> int \<Rightarrow> u8 list \<Rightarrow> sink \<times> 'w \<Rightarrow> sink \<times> 'w" where
  "on_rx E now data sw =
     (if data = [] then sw
      else case fan_loop E data slots4 0 sw of
        (fanned, sw1) \<Rightarrow> if fanned = 0 then on_sink (replay_capture now data) sw1 else sw1)"

fun drop_loop :: "'w tcp_env \<Rightarrow> nat list \<Rightarrow> nat \<Rightarrow> sink \<times> 'w \<Rightarrow> nat \<times> (sink \<times> 'w)" where
  "drop_loop E [] n sw = (n, sw)"
| "drop_loop E (i # is) n sw =
     (let S = upd_client i (is_controller_update (\<lambda>_. False)) (fst sw)
      in if live S i then drop_loop E is (n + 1) (S, sk_shutdown E (sock (clients S i)) (snd sw))
         else drop_loop E is n (S, snd sw))"

definition drop_all_clients_locked :: "'w tcp_env \<Rightarrow> sink \<times> 'w \<Rightarrow> nat \<times> (sink \<times> 'w)" where
  "drop_all_clients_locked E sw =
     drop_loop E slots4 0 (on_sink (\<lambda>S. S\<lparr>ctrl_client := None\<rparr>) sw)"

definition sink_tcp_drop_clients :: "'w tcp_env \<Rightarrow> int \<Rightarrow> sink \<times> 'w \<Rightarrow> sink \<times> 'w" where
  "sink_tcp_drop_clients E now sw = on_sink (replay_arm now) (snd (drop_all_clients_locked E sw))"

definition on_source_down :: "'w tcp_env \<Rightarrow> sink \<times> 'w \<Rightarrow> sink \<times> 'w" where
  "on_source_down E sw =
     snd (drop_loop E slots4 0 (on_sink (\<lambda>S. S\<lparr>ctrl_client := None\<rparr>) sw))"

definition zero_tcp_stats :: tcp_stats where
  "zero_tcp_stats = \<lparr>active_clients = 0, total_accepts = 0, total_disconnects = 0,
     rx_bytes_from_clients = 0, tx_bytes_to_clients = 0, tx_dropped_eagain = 0\<rparr>"

definition SINK_TCP_DEFAULT_PORT :: u16 where "SINK_TCP_DEFAULT_PORT = 2329"

definition sink_tcp_init :: "u16 \<Rightarrow> sink" where
  "sink_tcp_init p =
     \<lparr>port = if p \<noteq> 0 then p else SINK_TCP_DEFAULT_PORT, listen_sock = -1,
      clients = (\<lambda>i. \<lparr>sock = -1, ip = 0, cport = 0, active = False, tstate = TS_SNIFF,
        telnet = False, is_controller = False, neg_cmd = 0, sb = []\<rparr>),
      ctrl_client = None, tcp_stats = zero_tcp_stats, replay = [], replay_until_us = 0\<rparr>"

definition sink_tcp_get_stats :: "sink \<Rightarrow> u16 \<times> tcp_stats" where
  "sink_tcp_get_stats S = (port S, tcp_stats S)"

subsection \<open>Runs\<close>

datatype tcp_ev =
    Accept int int u32 u16
  | Recv nat "u8 list"
  | Hangup nat
  | OnRx int "u8 list"
  | Down
  | DropAll int

text \<open>A client's task runs while its slot is active; its receive buffer has 256 bytes.\<close>

fun tcp_step :: "'w tcp_env \<Rightarrow> tcp_ev \<Rightarrow> sink \<times> 'w \<Rightarrow> sink \<times> 'w" where
  "tcp_step E (Accept now cs addr prt) sw = (if cs < 0 then sw else accept_conn E now cs addr prt sw)"
| "tcp_step E (Recv i buf) sw =
     (if i < SINK_TCP_MAX_CLIENTS \<and> live (fst sw) i \<and> buf \<noteq> [] \<and> length buf \<le> 256
      then process_rx E i buf sw else sw)"
| "tcp_step E (Hangup i) sw =
     (if i < SINK_TCP_MAX_CLIENTS \<and> active (clients (fst sw) i) then client_cleanup E i sw else sw)"
| "tcp_step E (OnRx now d) sw = on_rx E now d sw"
| "tcp_step E Down sw = on_source_down E sw"
| "tcp_step E (DropAll now) sw = sink_tcp_drop_clients E now sw"

definition tcp_run :: "'w tcp_env \<Rightarrow> tcp_ev list \<Rightarrow> sink \<times> 'w \<Rightarrow> sink \<times> 'w" where
  "tcp_run E = fold (tcp_step E)"

subsection \<open>The invariant of the sink\<close>

definition sink_inv :: "sink \<Rightarrow> bool" where
  "sink_inv S \<longleftrightarrow>
     (\<forall>i<SINK_TCP_MAX_CLIENTS. client_ok (clients S i)) \<and>
     (\<forall>i<SINK_TCP_MAX_CLIENTS. is_controller (clients S i) \<longleftrightarrow> ctrl_client S = Some i) \<and>
     (\<forall>i. ctrl_client S = Some i \<longrightarrow> i < SINK_TCP_MAX_CLIENTS \<and> active (clients S i)) \<and>
     active_clients (tcp_stats S) = int (card {i. i < SINK_TCP_MAX_CLIENTS \<and> active (clients S i)}) \<and>
     length (replay S) \<le> REPLAY_BUF_SZ"

lemma sink_inv_init: "sink_inv (sink_tcp_init p)"
  by (simp add: sink_inv_def sink_tcp_init_def client_ok_def zero_tcp_stats_def)

text \<open>What sending changes in the sink: counters only.\<close>

definition same_but_counts :: "sink \<Rightarrow> sink \<Rightarrow> bool" where
  "same_but_counts S S' \<longleftrightarrow> clients S' = clients S \<and> ctrl_client S' = ctrl_client S \<and>
     replay S' = replay S \<and> replay_until_us S' = replay_until_us S \<and>
     active_clients (tcp_stats S') = active_clients (tcp_stats S)"

lemma same_but_counts_refl [simp]: "same_but_counts S S"
  by (simp add: same_but_counts_def)

lemma same_but_counts_trans:
  "same_but_counts S S' \<Longrightarrow> same_but_counts S' S'' \<Longrightarrow> same_but_counts S S''"
  by (simp add: same_but_counts_def)

lemma same_but_counts_inv: "same_but_counts S S' \<Longrightarrow> sink_inv S' \<longleftrightarrow> sink_inv S"
  by (simp add: same_but_counts_def sink_inv_def)

lemma send_counted_same: "same_but_counts (fst sw) (fst (snd (send_counted E fd d sw)))"
  by (auto simp: send_counted_def upd_stats_def same_but_counts_def split: prod.splits send_res.splits)

lemma esc_loop_same: "same_but_counts (fst sw) (fst (esc_loop E fd bs esc sw))"
proof (induction E fd bs esc sw rule: esc_loop.induct)
  case (1 E fd esc sw)
  then show ?case by (simp add: send_counted_same)
next
  case (2 E fd b bs esc sw)
  show ?case
  proof (cases "length esc + 2 > ESC_SIZE")
    case True
    then show ?thesis
      using 2(1) [OF True] send_counted_same [of sw E fd esc] same_but_counts_trans
      by (auto split: prod.splits bool.splits)
  qed (use 2(2) in simp)
qed

lemma client_send_same: "same_but_counts (fst sw) (fst (client_send E i d sw))"
  by (simp add: client_send_def Let_def send_counted_same esc_loop_same)

lemma fan_loop_same: "same_but_counts (fst sw) (fst (snd (fan_loop E d is n sw)))"
proof (induction E d "is" n sw rule: fan_loop.induct)
  case (2 E d i "is" n sw)
  then show ?case
    using client_send_same [of sw E i d] same_but_counts_trans by (cases "live (fst sw) i") auto
qed simp

lemma length_replay_push: "length r \<le> REPLAY_BUF_SZ \<Longrightarrow> length (foldl replay_push r d) \<le> REPLAY_BUF_SZ"
  by (induction d arbitrary: r) (auto simp: replay_push_def REPLAY_BUF_SZ_def)

lemma sink_inv_capture: "sink_inv S \<Longrightarrow> sink_inv (replay_capture now d S)"
  by (simp add: replay_capture_def sink_inv_def length_replay_push)

lemma sink_inv_on_rx: "sink_inv (fst sw) \<Longrightarrow> sink_inv (fst (on_rx E now d sw))"
  using same_but_counts_inv [OF fan_loop_same [of sw E d slots4 0]]
  by (auto simp: on_rx_def sink_inv_capture split: prod.splits)

lemma sink_inv_flush: "sink_inv (fst sw) \<Longrightarrow> sink_inv (fst (replay_flush_to E now i sw))"
  using same_but_counts_inv [OF client_send_same [of sw E i "replay (fst sw)"]]
  by (auto simp: replay_flush_to_def Let_def sink_inv_def)

lemma drop_loop_fst:
  "fst (snd (drop_loop E is n sw)) =
    fold (\<lambda>i. upd_client i (is_controller_update (\<lambda>_. False))) is (fst sw)"
  by (induction "is" arbitrary: n sw) (simp_all add: Let_def)

lemma fold_clear_controller:
  "clients (fold (\<lambda>i. upd_client i (is_controller_update (\<lambda>_. False))) is S) j =
    (if j \<in> set is then clients S j\<lparr>is_controller := False\<rparr> else clients S j)"
  "ctrl_client (fold (\<lambda>i. upd_client i (is_controller_update (\<lambda>_. False))) is S) = ctrl_client S"
  "tcp_stats (fold (\<lambda>i. upd_client i (is_controller_update (\<lambda>_. False))) is S) = tcp_stats S"
  "replay (fold (\<lambda>i. upd_client i (is_controller_update (\<lambda>_. False))) is S) = replay S"
  by (induction "is" arbitrary: S) (auto simp: upd_client_def)

lemma sink_inv_drop:
  "sink_inv (fst sw) \<Longrightarrow>
    sink_inv (fst (snd (drop_loop E slots4 0 (on_sink (\<lambda>S. S\<lparr>ctrl_client := None\<rparr>) sw))))"
  unfolding drop_loop_fst
  by (simp add: sink_inv_def fold_clear_controller slots4_def client_ok_def) (metis (no_types, lifting))

lemma sink_inv_cleanup:
  assumes inv: "sink_inv (fst sw)" and i: "i < SINK_TCP_MAX_CLIENTS" "active (clients (fst sw) i)"
  shows "sink_inv (fst (client_cleanup E i sw))"
proof -
  let ?S = "fst sw" and ?S' = "fst (client_cleanup E i sw)"
  let ?c = "clients ?S i\<lparr>sock := if sock (clients ?S i) \<ge> 0 then -1 else sock (clients ?S i),
    active := False, is_controller := False\<rparr>"
  have nc: "ctrl_client ?S \<noteq> Some i \<Longrightarrow> \<not> is_controller (clients ?S i)"
    using inv i by (simp add: sink_inv_def)
  have cl: "clients ?S' = (clients ?S)(i := ?c)"
    and ct: "ctrl_client ?S' = (if ctrl_client ?S = Some i then None else ctrl_client ?S)"
    and st: "active_clients (tcp_stats ?S') = active_clients (tcp_stats ?S) - 1"
    and re: "replay ?S' = replay ?S"
    using i nc
    by (auto simp: client_cleanup_def close_client_def Let_def upd_client_def upd_stats_def)
  have "{j. j < SINK_TCP_MAX_CLIENTS \<and> active (clients ?S' j)} =
      {j. j < SINK_TCP_MAX_CLIENTS \<and> active (clients ?S j)} - {i}"
    unfolding cl by auto
  moreover have "card {j. j < SINK_TCP_MAX_CLIENTS \<and> active (clients ?S j)} > 0"
    using i by (auto simp: card_gt_0_iff)
  ultimately have card: "active_clients (tcp_stats ?S') =
      int (card {j. j < SINK_TCP_MAX_CLIENTS \<and> active (clients ?S' j)})"
    using inv i by (simp add: st sink_inv_def of_nat_diff)
  show ?thesis
    using inv i card unfolding sink_inv_def re ct cl
    by (auto simp: client_ok_def)
qed

lemma sink_inv_accept:
  assumes inv: "sink_inv (fst sw)"
  shows "sink_inv (fst (accept_conn E now cs addr prt sw))"
proof -
  obtain S w where sw: "sw = (S, w)" by (cases sw)
  show ?thesis
  proof (cases "br_ready E w \<and> find_free_slot S \<noteq> None")
    case False
    then show ?thesis using inv
      by (auto simp: sw accept_conn_def Let_def upd_stats_def sink_inv_def find_free_slot_def)
  next
    case True
    then obtain i where i: "find_free_slot S = Some i" by blast
    then have i': "i < SINK_TCP_MAX_CLIENTS" "\<not> active (clients S i)"
      by (auto simp: find_free_slot_def find_Some_iff)
    let ?c = "clients S i\<lparr>sock := cs, ip := addr, cport := prt, tstate := TS_SNIFF,
      telnet := False, is_controller := False, neg_cmd := 0, sb := [], active := True\<rparr>"
    let ?S3 = "S\<lparr>clients := (clients S)(i := ?c),
      tcp_stats := (tcp_stats S)\<lparr>total_accepts := total_accepts (tcp_stats S) + 1,
        active_clients := active_clients (tcp_stats S) + 1\<rparr>\<rparr>"
    have set: "{j. j < SINK_TCP_MAX_CLIENTS \<and> active (((clients S)(i := ?c)) j)} =
        insert i {j. j < SINK_TCP_MAX_CLIENTS \<and> active (clients S j)}"
      using i' by auto
    have "active_clients (tcp_stats ?S3) =
        int (card {j. j < SINK_TCP_MAX_CLIENTS \<and> active (clients ?S3 j)})"
      using inv i' by (simp add: sw sink_inv_def set del: fun_upd_apply)
    then have "sink_inv ?S3"
      using inv i' unfolding sw sink_inv_def by (auto simp: client_ok_def)
    moreover have "accept_conn E now cs addr prt sw = replay_flush_to E now i (?S3, w)"
      using True i by (simp add: sw accept_conn_def Let_def upd_stats_def upd_client_def
          find_free_slot_def)
    ultimately show ?thesis using sink_inv_flush [of "(?S3, w)" E now i] by simp
  qed
qed

lemma sink_inv_process:
  assumes inv: "sink_inv (fst sw)" and i: "i < SINK_TCP_MAX_CLIENTS" "live (fst sw) i"
  shows "sink_inv (fst (process_rx E i buf sw))"
proof -
  let ?S = "fst sw" and ?S' = "fst (process_rx E i buf sw)"
  have "client_ok (clients ?S i)" using inv i by (simp add: sink_inv_def)
  then have rel: "task_rel i ?S ?S'" by (rule process_rx_rel)
  then have act: "active (clients ?S' j) = active (clients ?S j)" for j
    by (cases "j = i") (auto simp: task_rel_def same_conn_def)
  have "client_ok (clients ?S' j)" if "j < SINK_TCP_MAX_CLIENTS" for j
    using rel inv that by (cases "j = i") (auto simp: task_rel_def sink_inv_def)
  moreover have "is_controller (clients ?S' j) \<longleftrightarrow> ctrl_client ?S' = Some j"
    if "j < SINK_TCP_MAX_CLIENTS" for j
    using rel inv that i(1) by (cases "j = i") (auto simp: task_rel_def sink_inv_def)
  moreover have "j < SINK_TCP_MAX_CLIENTS \<and> active (clients ?S' j)" if "ctrl_client ?S' = Some j" for j
    using rel inv that i act by (auto simp: task_rel_def sink_inv_def live_def)
  ultimately show ?thesis
    using rel inv act unfolding sink_inv_def task_rel_def by simp
qed

lemma sink_inv_step: "sink_inv (fst sw) \<Longrightarrow> sink_inv (fst (tcp_step E ev sw))"
proof (cases ev)
  case (DropAll now)
  assume "sink_inv (fst sw)"
  then show ?thesis
    using sink_inv_drop [of sw E] DropAll
    by (auto simp: sink_tcp_drop_clients_def drop_all_clients_locked_def replay_arm_def sink_inv_def)
qed (simp_all add: sink_inv_accept sink_inv_process sink_inv_cleanup sink_inv_on_rx
    sink_inv_drop on_source_down_def)

lemma sink_inv_run: "sink_inv (fst sw) \<Longrightarrow> sink_inv (fst (tcp_run E evs sw))"
  by (induction evs arbitrary: sw) (simp_all add: tcp_run_def sink_inv_step)

subsection \<open>What reaches a client\<close>

definition tn_escape :: "u8 list \<Rightarrow> u8 list" where
  "tn_escape d = concat (map esc_byte d)"

lemma tn_dec_escape: "tn_dec TS_DATA (tn_escape d) = (d, TS_DATA)"
  by (induction d) (auto simp: tn_escape_def esc_byte_def apfst_def map_prod_def)

text \<open>The environment that records what each \<^verbatim>\<open>send\<close> accepted.\<close>

definition recording :: "'w tcp_env \<Rightarrow> ('w \<times> (int \<times> u8 list) list) tcp_env" where
  "recording E =
     \<lparr>sk_send = (\<lambda>fd d wl. case sk_send E fd d (fst wl) of (r, w) \<Rightarrow>
        (r, (w, case r of Sent n \<Rightarrow> snd wl @ [(fd, take n d)] | _ \<Rightarrow> snd wl))),
      sk_shutdown = (\<lambda>fd. apfst (sk_shutdown E fd)),
      sk_close = (\<lambda>fd. apfst (sk_close E fd)),
      sk_delay = apfst (sk_delay E),
      br_tx = (\<lambda>d. lift_log (br_tx E d)),
      br_apply = (\<lambda>c. lift_log (br_apply E c)),
      br_revert = apfst (br_revert E),
      br_get = (\<lambda>old wl. br_get E old (fst wl)),
      br_ready = (\<lambda>wl. br_ready E (fst wl))\<rparr>"

definition sends_all :: "'w tcp_env \<Rightarrow> bool" where
  "sends_all E \<longleftrightarrow> (\<forall>fd d w. fst (sk_send E fd d w) = Sent (length d))"

lemma send_counted_recording:
  assumes "sends_all E"
  shows "fst (send_counted (recording E) fd d sw)"
    and "tlog (snd (send_counted (recording E) fd d sw)) = tlog sw @ [(fd, d)]"
proof -
  obtain S w l where sw: "sw = (S, (w, l))" by (cases sw) auto
  obtain w1 where "sk_send E fd d w = (Sent (length d), w1)"
    using assms by (metis sends_all_def prod.collapse)
  then show "fst (send_counted (recording E) fd d sw)"
    and "tlog (snd (send_counted (recording E) fd d sw)) = tlog sw @ [(fd, d)]"
    by (simp_all add: sw send_counted_def recording_def tlog_def)
qed

lemma esc_byte_size: "length (esc_byte b) \<le> ESC_SIZE"
  by (simp add: esc_byte_def ESC_SIZE_def)

lemma esc_loop_sends:
  assumes "sends_all E"
  shows "length esc \<le> ESC_SIZE \<Longrightarrow>
    \<exists>cs. tlog (esc_loop (recording E) fd bs esc sw) = tlog sw @ map (Pair fd) cs \<and>
      concat cs = esc @ tn_escape bs \<and> (\<forall>c\<in>set cs. length c \<le> ESC_SIZE)"
proof (induction bs arbitrary: esc sw)
  case Nil
  show ?case
  proof (cases "esc = []")
    case True
    then show ?thesis by (intro exI [of _ "[]"]) (simp add: tn_escape_def)
  next
    case False
    then show ?thesis using Nil send_counted_recording(2) [OF assms, of fd esc sw]
      by (intro exI [of _ "[esc]"]) (simp add: tn_escape_def)
  qed
next
  case (Cons b bs)
  show ?case
  proof (cases "length esc + 2 > ESC_SIZE")
    case True
    let ?r = "send_counted (recording E) fd esc sw"
    obtain sw1 where r: "?r = (True, sw1)" "tlog sw1 = tlog sw @ [(fd, esc)]"
      using send_counted_recording [OF assms, of fd esc sw] by (cases ?r) auto
    obtain cs where "tlog (esc_loop (recording E) fd bs (esc_byte b) sw1) = tlog sw1 @ map (Pair fd) cs"
      "concat cs = esc_byte b @ tn_escape bs" "\<forall>c\<in>set cs. length c \<le> ESC_SIZE"
      using Cons.IH [OF esc_byte_size, of b sw1] by blast
    then show ?thesis using True r Cons.prems
      by (intro exI [of _ "esc # cs"]) (simp add: tn_escape_def)
  next
    case False
    then have "length (esc @ esc_byte b) \<le> ESC_SIZE" by (auto simp: esc_byte_def)
    then obtain cs where "tlog (esc_loop (recording E) fd bs (esc @ esc_byte b) sw) =
        tlog sw @ map (Pair fd) cs"
      "concat cs = (esc @ esc_byte b) @ tn_escape bs" "\<forall>c\<in>set cs. length c \<le> ESC_SIZE"
      using Cons.IH by blast
    then show ?thesis using False by (intro exI [of _ cs]) (simp add: tn_escape_def)
  qed
qed

lemma foldl_replay_push:
  "length r \<le> REPLAY_BUF_SZ \<Longrightarrow> foldl replay_push r d = lastn REPLAY_BUF_SZ (r @ d)"
proof (induction d arbitrary: r)
  case Nil
  then show ?case by (simp add: lastn_all)
next
  case (Cons b d)
  have push: "replay_push r b = lastn REPLAY_BUF_SZ (r @ [b])"
  proof (cases "length r < REPLAY_BUF_SZ")
    case True
    then show ?thesis by (simp add: replay_push_def lastn_all)
  next
    case False
    then have "length r = REPLAY_BUF_SZ" using Cons.prems by simp
    then show ?thesis using lastn_snoc_full [of r REPLAY_BUF_SZ b]
      by (simp add: replay_push_def REPLAY_BUF_SZ_def)
  qed
  show ?case
    using Cons.IH [of "replay_push r b"] lastn_lastn_append [of REPLAY_BUF_SZ "r @ [b]" d]
    by (simp add: push)
qed

text \<open>Bytes captured one after the other at times inside the window.\<close>

definition capture_all :: "(int \<times> u8 list) list \<Rightarrow> sink \<Rightarrow> sink" where
  "capture_all evs = fold (\<lambda>(t, d). replay_capture t d) evs"

lemma capture_all_lastn:
  assumes "replay_until_us S \<noteq> 0" and "length (replay S) \<le> REPLAY_BUF_SZ"
    and "\<forall>e\<in>set evs. fst e \<le> replay_until_us S"
  shows "capture_all evs S =
    S\<lparr>replay := lastn REPLAY_BUF_SZ (replay S @ concat (map snd evs))\<rparr>"
  using assms
proof (induction evs arbitrary: S)
  case Nil
  then show ?case by (simp add: capture_all_def lastn_all)
next
  case (Cons e evs)
  obtain t d where e: "e = (t, d)" by (cases e)
  let ?S = "S\<lparr>replay := lastn REPLAY_BUF_SZ (replay S @ d)\<rparr>"
  have "replay_capture t d S = ?S"
    using Cons.prems by (auto simp: replay_capture_def foldl_replay_push e)
  then have "capture_all (e # evs) S = capture_all evs ?S" by (simp add: capture_all_def e)
  then show ?case
    using Cons.IH [of ?S] Cons.prems lastn_lastn_append [of REPLAY_BUF_SZ "replay S @ d"]
    by (simp add: e)
qed

lemma drop_loop_world:
  "distinct is \<Longrightarrow> snd (snd (drop_loop E is n sw)) =
    fold (\<lambda>i. sk_shutdown E (sock (clients (fst sw) i))) (filter (live (fst sw)) is) (snd sw)"
proof (induction "is" arbitrary: n sw)
  case (Cons i "is")
  let ?S = "upd_client i (is_controller_update (\<lambda>_. False)) (fst sw)"
  have "live ?S = live (fst sw)"
    and "(\<lambda>j. sk_shutdown E (sock (clients ?S j))) = (\<lambda>j. sk_shutdown E (sock (clients (fst sw) j)))"
    and "sock (clients ?S i) = sock (clients (fst sw) i)"
    by (auto simp: live_def fun_eq_iff)
  then show ?case using Cons by (simp add: Let_def del: clients_upd_client)
qed simp

lemma esc_loop_fill:
  "length esc + length xs + 1 \<le> ESC_SIZE \<Longrightarrow> TC_IAC \<notin> set xs \<Longrightarrow>
    esc_loop E fd (xs @ ys) esc sw = esc_loop E fd ys (esc @ xs) sw"
  by (induction xs arbitrary: esc) (auto simp: esc_byte_def)

subsection \<open>Properties\<close>

text \<open>C5: after any sequence of accepted connections, received chunks, hang-ups, deliveries and
  drops, the sink is consistent: at most one client is the RFC 2217 controller, it is an active
  telnet client and the one the sink names; \<^verbatim>\<open>active_clients\<close> counts the active slots; telnet framing
  is on exactly for telnet clients; the subnegotiation and replay buffers stay within their sizes.\<close>

theorem tcp_invariant: "sink_inv (fst (tcp_run E evs (sink_tcp_init p, w)))"
  by (rule sink_inv_run) (simp add: sink_inv_init)

lemma client_send_log:
  assumes "sends_all E"
  shows "\<exists>cs. tlog (client_send (recording E) i data (S, (w, l))) =
      l @ map (Pair (sock (clients S i))) cs \<and>
    (if telnet (clients S i)
     then concat cs = tn_escape data \<and> tn_dec TS_DATA (concat cs) = (data, TS_DATA) \<and>
       (\<forall>c\<in>set cs. length c \<le> ESC_SIZE)
     else cs = [data])"
proof (cases "telnet (clients S i)")
  case True
  obtain cs where "tlog (esc_loop (recording E) (sock (clients S i)) data [] (S, (w, l))) =
      tlog (S, (w, l)) @ map (Pair (sock (clients S i))) cs"
    "concat cs = [] @ tn_escape data" "\<forall>c\<in>set cs. length c \<le> ESC_SIZE"
    using esc_loop_sends [OF assms, of "[]" "sock (clients S i)" data "(S, (w, l))"] by auto
  then show ?thesis using True
    by (intro exI [of _ cs]) (simp add: client_send_def tn_dec_escape tlog_def)
next
  case False
  then show ?thesis using send_counted_recording(2) [OF assms, of "sock (clients S i)" data "(S, (w, l))"]
    by (intro exI [of _ "[data]"]) (simp add: client_send_def tlog_def)
qed

text \<open>as long as the socket takes what it is given, the bytes a client receives for one delivery
  are the source's bytes, unchanged for a raw client and with every 0xFF doubled for a telnet client,
  which decodes them back to the source's bytes; no write exceeds the 256-byte escape buffer.\<close>

theorem client_send_delivers:
  assumes "sends_all E"
  shows "\<exists>cs. tlog (client_send (recording E) i data (S, (w, l))) =
      l @ map (Pair (sock (clients S i))) cs \<and>
    (if telnet (clients S i)
     then concat cs = tn_escape data \<and> tn_dec TS_DATA (concat cs) = (data, TS_DATA) \<and>
       (\<forall>c\<in>set cs. length c \<le> ESC_SIZE)
     else cs = [data])"
  using assms by (rule client_send_log)

text \<open>what the source sends while no client is connected, in the eight seconds after the clients
  were dropped, is kept for the next one, newest bytes first choice: the replay buffer holds the last
  512 of these bytes, and the flush to the next client sends exactly them once and closes the window.\<close>

theorem replay_holds_tail:
  assumes "t0 \<ge> 0" and "\<forall>e\<in>set evs. fst e \<le> t0 + 8000000" and "t \<le> t0 + 8000000"
    and "concat (map snd evs) \<noteq> []"
  shows "replay (capture_all evs (replay_arm t0 S)) = lastn 512 (concat (map snd evs)) \<and>
    replay_flush_to E t i (capture_all evs (replay_arm t0 S), w) =
      on_sink (\<lambda>S. S\<lparr>replay_until_us := 0, replay := []\<rparr>)
        (client_send E i (lastn 512 (concat (map snd evs))) (capture_all evs (replay_arm t0 S), w))"
proof -
  let ?S = "replay_arm t0 S"
  have "capture_all evs ?S = ?S\<lparr>replay := lastn REPLAY_BUF_SZ (replay ?S @ concat (map snd evs))\<rparr>"
    using assms(1,2)
    by (intro capture_all_lastn) (auto simp: replay_arm_def REPLAY_WINDOW_MS_def)
  moreover have "lastn 512 (concat (map snd evs)) \<noteq> []"
    using assms(4) by (metis length_greater_0_conv length_lastn min_less_iff_conj zero_less_numeral)
  ultimately show ?thesis
    using assms(1,3)
    by (simp add: replay_arm_def REPLAY_WINDOW_MS_def REPLAY_BUF_SZ_def replay_flush_to_def Let_def)
qed

text \<open>a new connection is closed at once while no source is ready or all four slots are taken;
  otherwise it gets a free slot with a fresh protocol state, and no other client is touched.\<close>

theorem accept_outcome:
  assumes "sink_inv S"
  shows "(\<not> br_ready E w \<longrightarrow> accept_conn E now cs addr prt (S, w) = (S, sk_close E cs w)) \<and>
    (br_ready E w \<and> (\<forall>i<SINK_TCP_MAX_CLIENTS. active (clients S i)) \<longrightarrow>
      clients (fst (accept_conn E now cs addr prt (S, w))) = clients S \<and>
      snd (accept_conn E now cs addr prt (S, w)) = sk_close E cs w) \<and>
    (br_ready E w \<and> active_clients (tcp_stats S) < int SINK_TCP_MAX_CLIENTS \<longrightarrow>
      (\<exists>i<SINK_TCP_MAX_CLIENTS. \<not> active (clients S i) \<and>
        clients (fst (accept_conn E now cs addr prt (S, w))) =
          (clients S)(i := \<lparr>sock = cs, ip = addr, cport = prt, active = True, tstate = TS_SNIFF,
             telnet = False, is_controller = False, neg_cmd = 0, sb = []\<rparr>)))"
proof (intro conjI impI)
  assume *: "br_ready E w \<and> (\<forall>i<SINK_TCP_MAX_CLIENTS. active (clients S i))"
  then have "find_free_slot (upd_stats f S) = None" for f
    by (auto simp: find_free_slot_def upd_stats_def find_None_iff)
  with * show "clients (fst (accept_conn E now cs addr prt (S, w))) = clients S"
    and "snd (accept_conn E now cs addr prt (S, w)) = sk_close E cs w"
    by (simp_all add: accept_conn_def Let_def) (simp add: upd_stats_def)
next
  assume *: "br_ready E w \<and> active_clients (tcp_stats S) < int SINK_TCP_MAX_CLIENTS"
  have "\<exists>i<SINK_TCP_MAX_CLIENTS. \<not> active (clients S i)"
  proof (rule ccontr)
    assume "\<not> ?thesis"
    then have "{i. i < SINK_TCP_MAX_CLIENTS \<and> active (clients S i)} = {..<SINK_TCP_MAX_CLIENTS}"
      by auto
    then show False using * assms by (simp add: sink_inv_def)
  qed
  then obtain i where i: "find_free_slot S = Some i"
    by (fastforce simp: find_free_slot_def find_None_iff)
  then have i': "i < SINK_TCP_MAX_CLIENTS" "\<not> active (clients S i)"
    by (auto simp: find_free_slot_def find_Some_iff)
  have free: "find_free_slot (upd_stats f S) = Some i" for f
    using i by (simp add: find_free_slot_def upd_stats_def)
  have flush: "clients (fst (replay_flush_to E now i sw)) = clients (fst sw)" for sw
    using client_send_same [of sw E i "replay (fst sw)"]
    by (simp add: replay_flush_to_def Let_def same_but_counts_def)
  from i' * show "\<exists>i<SINK_TCP_MAX_CLIENTS. \<not> active (clients S i) \<and>
      clients (fst (accept_conn E now cs addr prt (S, w))) =
        (clients S)(i := \<lparr>sock = cs, ip = addr, cport = prt, active = True, tstate = TS_SNIFF,
           telnet = False, is_controller = False, neg_cmd = 0, sb = []\<rparr>)"
    by (intro exI [of _ i], cases "clients S i")
      (simp add: accept_conn_def Let_def free flush, simp add: upd_stats_def)
qed (simp add: accept_conn_def)

text \<open>when a client's connection ends, its slot is freed and its socket closed, and the line
  coding is reverted to the device's default exactly when that client was the controller; when the
  source goes away every live client is shut down, no client stays controller, and no revert is made.\<close>

theorem hangup_and_down:
  assumes "sink_inv S" and "i < SINK_TCP_MAX_CLIENTS" and "live S i"
  shows "(let fd = sock (clients S i); r = client_cleanup E i (S, w) in
      \<not> active (clients (fst r) i) \<and> sock (clients (fst r) i) = -1 \<and>
      (if is_controller (clients S i)
       then ctrl_client (fst r) = None \<and> snd r = br_revert E (sk_close E fd (sk_shutdown E fd w))
       else ctrl_client (fst r) = ctrl_client S \<and> snd r = sk_close E fd (sk_shutdown E fd w))) \<and>
    (ctrl_client (fst (on_source_down E (S, w))) = None \<and>
      (\<forall>j<SINK_TCP_MAX_CLIENTS. \<not> is_controller (clients (fst (on_source_down E (S, w))) j)) \<and>
      snd (on_source_down E (S, w)) =
        fold (\<lambda>j. sk_shutdown E (sock (clients S j))) (filter (live S) [0..<SINK_TCP_MAX_CLIENTS]) w)"
proof (rule conjI)
  show "let fd = sock (clients S i); r = client_cleanup E i (S, w) in
      \<not> active (clients (fst r) i) \<and> sock (clients (fst r) i) = -1 \<and>
      (if is_controller (clients S i)
       then ctrl_client (fst r) = None \<and> snd r = br_revert E (sk_close E fd (sk_shutdown E fd w))
       else ctrl_client (fst r) = ctrl_client S \<and> snd r = sk_close E fd (sk_shutdown E fd w))"
    using assms
    by (auto simp: client_cleanup_def close_client_def Let_def upd_client_def upd_stats_def
        sink_inv_def live_def)
  have "live (S\<lparr>ctrl_client := None\<rparr>) = live S" by (auto simp: live_def)
  then show "ctrl_client (fst (on_source_down E (S, w))) = None \<and>
      (\<forall>j<SINK_TCP_MAX_CLIENTS. \<not> is_controller (clients (fst (on_source_down E (S, w))) j)) \<and>
      snd (on_source_down E (S, w)) =
        fold (\<lambda>j. sk_shutdown E (sock (clients S j))) (filter (live S) [0..<SINK_TCP_MAX_CLIENTS]) w"
    by (simp add: on_source_down_def drop_loop_fst drop_loop_world fold_clear_controller slots4_def
        on_sink_def)
qed

subsection \<open>A short write\<close>

text \<open>A socket that takes at most ten bytes of each write and records what it took.\<close>

definition stingy_env :: "(int \<times> u8 list) list tcp_env" where
  "stingy_env =
     \<lparr>sk_send = (\<lambda>fd d w. (Sent (min 10 (length d)), w @ [(fd, take 10 d)])),
      sk_shutdown = (\<lambda>fd w. w), sk_close = (\<lambda>fd w. w), sk_delay = (\<lambda>w. w),
      br_tx = (\<lambda>d w. (ESP_OK, w)), br_apply = (\<lambda>c w. (ESP_OK, w)), br_revert = (\<lambda>w. w),
      br_get = (\<lambda>old w. old), br_ready = (\<lambda>w. True)\<rparr>"

definition gap_data :: "u8 list" where
  "gap_data = replicate 255 65 @ replicate 45 66"

lemma gap_esc:
  "snd (esc_loop stingy_env fd gap_data [] (S, [])) =
    [(fd, replicate 10 65), (fd, replicate 10 66)]"
proof -
  let ?A = "replicate 255 65 :: u8 list"
  have "esc_loop stingy_env fd gap_data [] (S, []) =
      esc_loop stingy_env fd (66 # replicate 44 66) ?A (S, [])"
    using esc_loop_fill [of "[]" ?A stingy_env fd "66 # replicate 44 66" "(S, [])"]
    by (simp add: gap_data_def ESC_SIZE_def replicate_Suc [symmetric] del: replicate_Suc)
  also have "\<dots> = esc_loop stingy_env fd (replicate 44 66) (esc_byte 66)
      (snd (send_counted stingy_env fd ?A (S, [])))"
    by (simp add: ESC_SIZE_def send_counted_def stingy_env_def)
  also have "\<dots> = esc_loop stingy_env fd [] (replicate 45 66)
      (snd (send_counted stingy_env fd ?A (S, [])))"
    using esc_loop_fill [of "esc_byte 66" "replicate 44 66" stingy_env fd "[]"
        "snd (send_counted stingy_env fd ?A (S, []))"]
    by (simp add: ESC_SIZE_def esc_byte_def replicate_Suc [symmetric] del: replicate_Suc)
  finally show ?thesis
    by (simp add: send_counted_def stingy_env_def take_replicate min_def)
qed

text \<open>after a short write to a telnet client the rest of the delivery is not dropped: the next
  escape chunk is sent although the tail of the previous one was lost, so the client's stream gets a
  hole in its middle instead of a missing end.\<close>

theorem client_send_gap:
  "let S = upd_client 0 (telnet_update (\<lambda>_. True)) (sink_tcp_init 0);
       got = concat (map snd (snd (client_send stingy_env 0 gap_data (S, []))))
   in got = replicate 10 65 @ replicate 10 66 \<and> got \<noteq> take (length got) (tn_escape gap_data)"
proof -
  have "take 20 (tn_escape gap_data) = replicate 20 65"
  proof -
    have "tn_escape (replicate n 65 @ ys) = replicate n 65 @ tn_escape ys" for n ys
      by (induction n) (auto simp: tn_escape_def esc_byte_def)
    then show ?thesis by (simp add: gap_data_def)
  qed
  moreover have "(replicate 10 65 @ replicate 10 66 :: u8 list) \<noteq> replicate 20 65"
  proof
    assume "(replicate 10 65 @ replicate 10 66 :: u8 list) = replicate 20 65"
    then have "(66 :: u8) \<in> set (replicate 20 65)"
      by (metis Un_iff in_set_replicate set_append zero_neq_numeral)
    then show False by simp
  qed
  ultimately show ?thesis
    by (simp add: Let_def client_send_def gap_esc)
qed

subsection \<open>Closed instances\<close>

lemma client_send_delivers_witness:
  "\<exists>cs. tlog (client_send (recording echo_env) 0 [1, 255, 2] (sink_tcp_init 0, ((), []))) =
    map (Pair (-1)) cs \<and> cs = [[1, 255, 2]]"
  using client_send_delivers [of echo_env 0 "[1, 255, 2]" "sink_tcp_init 0" "()" "[]"]
  by (simp add: sends_all_def echo_env_def sink_tcp_init_def)

lemma replay_holds_tail_witness:
  "replay (capture_all [(5, [1, 2]), (7, [3])] (replay_arm 0 (sink_tcp_init 0))) = lastn 512 [1, 2, 3]"
  using replay_holds_tail [of 0 "[(5, [1, 2]), (7, [3])]" 9 "sink_tcp_init 0" echo_env 0 "()"]
  by simp

lemma accept_outcome_witness:
  "\<exists>i<SINK_TCP_MAX_CLIENTS.
    clients (fst (accept_conn echo_env 0 5 1 2 (sink_tcp_init 0, ()))) =
      (clients (sink_tcp_init 0))(i := \<lparr>sock = 5, ip = 1, cport = 2, active = True,
        tstate = TS_SNIFF, telnet = False, is_controller = False, neg_cmd = 0, sb = []\<rparr>)"
  using accept_outcome [OF sink_inv_init [of 0], of echo_env "()" 0 5 1 2]
  by (auto simp: echo_env_def sink_tcp_init_def zero_tcp_stats_def SINK_TCP_MAX_CLIENTS_def)

definition one_client :: sink where
  "one_client = fst (accept_conn echo_env 0 5 1 2 (sink_tcp_init 0, ()))"

lemma one_client_eq:
  "clients one_client 0 = \<lparr>sock = 5, ip = 1, cport = 2, active = True, tstate = TS_SNIFF,
    telnet = False, is_controller = False, neg_cmd = 0, sb = []\<rparr>"
  by (simp add: one_client_def accept_conn_def echo_env_def find_free_slot_def sink_tcp_init_def
      upd_stats_def upd_client_def SINK_TCP_MAX_CLIENTS_def upt_rec Let_def replay_flush_to_def)

lemma hangup_and_down_witness: "\<not> active (clients (fst (client_cleanup echo_env 0 (one_client, ()))) 0)"
proof -
  have "sink_inv one_client"
    unfolding one_client_def by (rule sink_inv_accept) (simp add: sink_inv_init)
  from hangup_and_down [OF this, of 0 echo_env "()"] show ?thesis
    by (simp add: one_client_eq live_def SINK_TCP_MAX_CLIENTS_def Let_def)
qed

end
