(* ===== verification/SourceUart.thy ===== *)
theory SourceUart
  imports Bridge "HOL-Library.Sublist"
begin

text \<open>
  \<^verbatim>\<open>source_uart.c\<close>: the UART source of the EUL, TUL and Zigbee boards.  The module profile chosen by
  the build flags is a record \<open>P\<close>; the UART and GPIO drivers are the parameter \<open>U\<close> and the
  line-coding store \<open>N\<close>, both over a world \<open>'w\<close>.  A state is the pair of the static struct \<^verbatim>\<open>S\<close> and
  the world.  The scanner for the radio's ROM banner is proved against an occurrence count on the
  whole stream, and the source is an instance of the line-coding contract \<open>line_port\<close>.
\<close>

subsection \<open>Profiles\<close>

record uart_profile =
  p_name :: string
  p_label :: string
  p_key :: string
  p_def :: lc
  p_zb :: bool
  p_rst :: "nat option"
  p_set :: "nat option"

definition profile_tcm515 :: uart_profile where
  "profile_tcm515 = \<lparr>p_name = ''TCM515'', p_label = ''EUL TCM515 (UART)'', p_key = ''tcm515'',
     p_def = \<lparr>baud = 460800, bits = 8, parity = 0, stop = 0\<rparr>, p_zb = False,
     p_rst = Some 3, p_set = Some 2\<rparr>"

definition profile_ncn5130 :: uart_profile where
  "profile_ncn5130 = \<lparr>p_name = ''NCN5130'', p_label = ''TUL NCN5130 (UART)'', p_key = ''ncn5130'',
     p_def = \<lparr>baud = 38400, bits = 8, parity = 2, stop = 0\<rparr>, p_zb = False,
     p_rst = None, p_set = None\<rparr>"

definition profile_zb_ncp :: "u32 \<Rightarrow> uart_profile" where
  "profile_zb_ncp ncp_baud = \<lparr>p_name = ''ZB-NCP'', p_label = ''ESP32-H2 Zigbee NCP (UART)'',
     p_key = ''zbncp'', p_def = \<lparr>baud = ncp_baud, bits = 8, parity = 0, stop = 0\<rparr>, p_zb = True,
     p_rst = None, p_set = None\<rparr>"

subsection \<open>Drivers and state\<close>

datatype uart_parity = UART_PARITY_DISABLE | UART_PARITY_ODD | UART_PARITY_EVEN

datatype uart_stop_bits = UART_STOP_BITS_1 | UART_STOP_BITS_2

record uart_config =
  uc_baud_rate :: u32
  uc_data_bits :: nat
  uc_parity :: uart_parity
  uc_stop_bits :: uart_stop_bits

record 'w uart_api =
  uart_set_baudrate :: "u32 \<Rightarrow> 'w \<Rightarrow> esp_err \<times> 'w"
  uart_set_word_length :: "nat \<Rightarrow> 'w \<Rightarrow> esp_err \<times> 'w"
  uart_set_parity :: "uart_parity \<Rightarrow> 'w \<Rightarrow> esp_err \<times> 'w"
  uart_set_stop_bits :: "uart_stop_bits \<Rightarrow> 'w \<Rightarrow> esp_err \<times> 'w"
  uart_write_bytes :: "u8 list \<Rightarrow> 'w \<Rightarrow> int \<times> 'w"
  uart_driver_install :: "'w \<Rightarrow> esp_err \<times> 'w"
  uart_param_config :: "uart_config \<Rightarrow> 'w \<Rightarrow> esp_err \<times> 'w"
  uart_set_pin :: "'w \<Rightarrow> esp_err \<times> 'w"
  uart_flush_input :: "'w \<Rightarrow> 'w"
  gpio_output :: "nat \<Rightarrow> 'w \<Rightarrow> 'w"
  gpio_set_level :: "nat \<Rightarrow> nat \<Rightarrow> 'w \<Rightarrow> 'w"
  task_delay_ms :: "nat \<Rightarrow> 'w \<Rightarrow> 'w"

text \<open>\<open>u_matched\<close> and \<open>u_last_hit_us\<close> are the static variables of the banner scanner.\<close>

record uart_state =
  u_ready :: bool
  u_lc :: lc
  u_lc_source :: u8
  u_rx_bytes :: u32
  u_tx_bytes :: u32
  u_matched :: nat
  u_last_hit_us :: int

subsection \<open>The ROM banner\<close>

definition ROM_BANNER :: "u8 list" where "ROM_BANNER = bytes ''ESP-ROM:''"

definition ROM_BANNER_LEN :: nat where "ROM_BANNER_LEN = 8"

definition REBOOT_DEBOUNCE_US :: int where "REBOOT_DEBOUNCE_US = 2000 * 1000"

text \<open>
  One byte: the matched count, and whether the banner is complete.  Then the scan of a chunk read
  at time \<open>now\<close>: the static variables and how often the clients are dropped.
\<close>

definition scan_match :: "nat \<Rightarrow> u8 \<Rightarrow> nat \<times> bool" where
  "scan_match m b =
     (if b = ROM_BANNER ! m
      then (if m + 1 < ROM_BANNER_LEN then (m + 1, False) else (0, True))
      else (if b = ROM_BANNER ! 0 then 1 else 0, False))"

fun scan_for_radio_reboot :: "int \<Rightarrow> u8 list \<Rightarrow> nat \<times> int \<Rightarrow> nat \<times> (nat \<times> int)" where
  "scan_for_radio_reboot now [] (m, hit) = (0, (m, hit))"
| "scan_for_radio_reboot now (b # bs) (m, hit) =
     (case scan_match m b of
        (m', False) \<Rightarrow> scan_for_radio_reboot now bs (m', hit)
      | (m', True) \<Rightarrow>
          if now - hit < REBOOT_DEBOUNCE_US then scan_for_radio_reboot now bs (m', hit)
          else apfst Suc (scan_for_radio_reboot now bs (m', now)))"

subsection \<open>Line coding\<close>

definition to_word_len :: "u8 \<Rightarrow> nat" where
  "to_word_len b = (if b = 5 then 5 else if b = 6 then 6 else if b = 7 then 7 else 8)"

definition to_parity :: "u8 \<Rightarrow> uart_parity" where
  "to_parity p = (if p = 1 then UART_PARITY_ODD else if p = 2 then UART_PARITY_EVEN
     else UART_PARITY_DISABLE)"

definition to_stop :: "u8 \<Rightarrow> uart_stop_bits" where
  "to_stop s = (if s = 2 then UART_STOP_BITS_2 else UART_STOP_BITS_1)"

text \<open>\<^verbatim>\<open>if (err == ESP_OK) err = f(...)\<close>\<close>

definition and_then :: "esp_err \<times> 'w \<Rightarrow> ('w \<Rightarrow> esp_err \<times> 'w) \<Rightarrow> esp_err \<times> 'w" where
  "and_then r f = (if fst r = ESP_OK then f (snd r) else r)"

definition apply_lc :: "'w uart_api \<Rightarrow> lc \<Rightarrow> u8 \<Rightarrow> uart_state \<times> 'w \<Rightarrow> esp_err \<times> (uart_state \<times> 'w)" where
  "apply_lc U l src sw =
     (let r = and_then (and_then (and_then
            (uart_set_baudrate U (baud l) (snd sw))
            (uart_set_word_length U (to_word_len (bits l))))
            (uart_set_parity U (to_parity (parity l))))
            (uart_set_stop_bits U (to_stop (stop l)))
      in (fst r, (if fst r = ESP_OK then (fst sw)\<lparr>u_lc := l, u_lc_source := src\<rparr> else fst sw, snd r)))"

subsection \<open>Source operations\<close>

definition uart_op_tx :: "'w uart_api \<Rightarrow> u8 list \<Rightarrow> uart_state \<times> 'w \<Rightarrow> esp_err \<times> (uart_state \<times> 'w)" where
  "uart_op_tx U d sw =
     (if d = [] then (ESP_ERR_INVALID_ARG, sw)
      else if \<not> u_ready (fst sw) then (ESP_ERR_INVALID_STATE, sw)
      else case uart_write_bytes U d (snd sw) of
        (wrote, w1) \<Rightarrow>
          (if wrote = int (length d) then ESP_OK else ESP_FAIL,
           (if wrote = int (length d)
            then (fst sw)\<lparr>u_tx_bytes := u_tx_bytes (fst sw) + of_nat (length d)\<rparr> else fst sw, w1)))"

definition uart_op_reset :: "'w uart_api \<Rightarrow> uart_profile \<Rightarrow> uart_state \<times> 'w \<Rightarrow> esp_err \<times> (uart_state \<times> 'w)"
where
  "uart_op_reset U P sw =
     (case p_rst P of
        Some pin \<Rightarrow>
          (ESP_OK, (fst sw, task_delay_ms U 250 (gpio_set_level U pin 1
             (task_delay_ms U 10 (gpio_set_level U pin 0 (snd sw))))))
      | None \<Rightarrow> (ESP_ERR_NOT_SUPPORTED, sw))"

definition parity_char :: "u8 \<Rightarrow> char" where
  "parity_char p = ''NOEMS'' ! (if p \<le> 4 then unat p else 0)"

definition uart_op_describe :: "uart_profile \<Rightarrow> uart_state \<times> 'w \<Rightarrow> string" where
  "uart_op_describe P sw =
     (let l = u_lc (fst sw)
      in fmt_s 48 (''UART '' @ p_name P @ '' '' @ dec (unat (baud l)) @ '' '' @ dec (unat (bits l)) @
           [parity_char (parity l)] @ (if stop l = 0 then ''1'' else ''2'') @ '' '' @
           (if u_ready (fst sw) then ''ready'' else ''init'')))"

definition uart_op_set_line_coding ::
  "'w uart_api \<Rightarrow> lc \<Rightarrow> uart_state \<times> 'w \<Rightarrow> esp_err \<times> (uart_state \<times> 'w)" where
  "uart_op_set_line_coding U l sw = apply_lc U l 2 sw"

text \<open>The stored coding of the module, or the default of its profile, with its provenance.\<close>

definition uart_resolve :: "'w nvs_api \<Rightarrow> uart_profile \<Rightarrow> 'w \<Rightarrow> lc \<times> u8" where
  "uart_resolve N P w =
     (case serialcfg_lookup N w (p_key P) of Some l \<Rightarrow> (l, 1) | None \<Rightarrow> (p_def P, 0))"

definition uart_op_revert_line_coding ::
  "'w uart_api \<Rightarrow> 'w nvs_api \<Rightarrow> uart_profile \<Rightarrow> uart_state \<times> 'w \<Rightarrow> uart_state \<times> 'w" where
  "uart_op_revert_line_coding U N P sw =
     (case uart_resolve N P (snd sw) of (l, src) \<Rightarrow> snd (apply_lc U l src sw))"

definition uart_op_get_line_coding :: "uart_state \<times> 'w \<Rightarrow> lc" where
  "uart_op_get_line_coding sw = u_lc (fst sw)"

definition uart_op_get_stats :: "uart_profile \<Rightarrow> uart_state \<times> 'w \<Rightarrow> source_stats" where
  "uart_op_get_stats P sw = zero_stats\<lparr>st_connected := u_ready (fst sw),
     st_rx_bytes := u_rx_bytes (fst sw), st_tx_bytes := u_tx_bytes (fst sw),
     st_manuf := ''busware'', st_product := fmt_s 48 (p_label P)\<rparr>"

definition uart_op_get_serial_info :: "uart_profile \<Rightarrow> uart_state \<times> 'w \<Rightarrow> source_serial_info" where
  "uart_op_get_serial_info P sw = zero_serial_info\<lparr>si_connected := u_ready (fst sw),
     si_is_vcp := True, si_lc := u_lc (fst sw), si_lc_source := u_lc_source (fst sw),
     si_key := fmt_s SERIALCFG_KEY_LEN (p_key P)\<rparr>"

definition uart_ops :: "'w uart_api \<Rightarrow> 'w nvs_api \<Rightarrow> uart_profile \<Rightarrow> (uart_state \<times> 'w) source_ops" where
  "uart_ops U N P =
     \<lparr>op_tx = Some (uart_op_tx U), op_ready = Some (\<lambda>sw. u_ready (fst sw)),
      op_reset = Some (uart_op_reset U P), op_describe = Some (uart_op_describe P),
      op_set_line_coding = Some (uart_op_set_line_coding U),
      op_revert_line_coding = Some (uart_op_revert_line_coding U N P),
      op_get_line_coding = Some uart_op_get_line_coding,
      op_get_stats = Some (uart_op_get_stats P),
      op_get_serial_info = Some (uart_op_get_serial_info P),
      op_apply_line_coding = Some (apply_lc U)\<rparr>"

text \<open>
  One chunk of \<^verbatim>\<open>uart_rx_task\<close>.  \<open>drop_cl\<close> is \<^verbatim>\<open>sink_tcp_drop_clients\<close> and \<open>deliver\<close> the RX hook of the
  source, if it is set.
\<close>

definition uart_rx_chunk ::
  "uart_profile \<Rightarrow> ('w \<Rightarrow> 'w) \<Rightarrow> (u8 list \<Rightarrow> 'w \<Rightarrow> 'w) option \<Rightarrow> int \<Rightarrow> u8 list \<Rightarrow>
   uart_state \<times> 'w \<Rightarrow> uart_state \<times> 'w" where
  "uart_rx_chunk P drop_cl deliver now buf sw =
     (if buf = [] then sw
      else
        let S1 = (fst sw)\<lparr>u_rx_bytes := u_rx_bytes (fst sw) + of_nat (length buf)\<rparr>;
            (n, (m, hit)) = (if p_zb P
              then scan_for_radio_reboot now buf (u_matched S1, u_last_hit_us S1)
              else (0, (u_matched S1, u_last_hit_us S1)));
            w1 = (drop_cl ^^ n) (snd sw)
        in (S1\<lparr>u_matched := m, u_last_hit_us := hit\<rparr>,
            case deliver of Some f \<Rightarrow> f buf w1 | None \<Rightarrow> w1))"

subsection \<open>Bring-up\<close>

definition radio_bringup :: "'w uart_api \<Rightarrow> uart_profile \<Rightarrow> 'w \<Rightarrow> 'w" where
  "radio_bringup U P w =
     (let w1 = (case p_set P of None \<Rightarrow> w | Some pin \<Rightarrow> gpio_set_level U pin 0 (gpio_output U pin w))
      in case p_rst P of
           None \<Rightarrow> w1
         | Some pin \<Rightarrow> task_delay_ms U 250 (gpio_set_level U pin 1 (task_delay_ms U 10
             (gpio_set_level U pin 0 (gpio_output U pin w1)))))"

text \<open>\<^verbatim>\<open>ESP_ERROR_CHECK\<close> aborts: \<open>None\<close>.\<close>

definition source_uart_init ::
  "'w uart_api \<Rightarrow> 'w nvs_api \<Rightarrow> uart_profile \<Rightarrow> nat \<times> int \<Rightarrow> 'w \<Rightarrow> (uart_state \<times> 'w) option" where
  "source_uart_init U N P statics w =
     (case uart_resolve N P w of (l, src) \<Rightarrow>
       (let w1 = radio_bringup U P w;
            uc = \<lparr>uc_baud_rate = baud l, uc_data_bits = to_word_len (bits l),
                  uc_parity = to_parity (parity l), uc_stop_bits = to_stop (stop l)\<rparr>;
            r = and_then (and_then (uart_driver_install U w1) (uart_param_config U uc)) (uart_set_pin U)
        in if fst r \<noteq> ESP_OK then None
           else Some (\<lparr>u_ready = True, u_lc = l, u_lc_source = src, u_rx_bytes = 0, u_tx_bytes = 0,
                  u_matched = fst statics, u_last_hit_us = snd statics\<rparr>,
                uart_flush_input U (snd r))))"

subsection \<open>The banner scanner finds every occurrence\<close>

lemma banner: "ROM_BANNER = [69, 83, 80, 45, 82, 79, 77, 58]"
  by (simp add: ROM_BANNER_def bytes_def byte_of_char_def)

lemma length_banner [simp]: "length ROM_BANNER = 8"
  by (simp add: banner)

lemma less8: "k < 8 \<longleftrightarrow> k \<in> {0, 1, 2, 3, 4, 5, 6, 7 :: nat}"
  by auto

text \<open>The first character occurs nowhere else, so a failed match can only restart at it.\<close>

lemma banner_head: "k < 8 \<Longrightarrow> ROM_BANNER ! k = ROM_BANNER ! 0 \<longleftrightarrow> k = 0"
  by (auto simp: less8 banner)

definition scan_inv :: "u8 list \<Rightarrow> nat \<Rightarrow> bool" where
  "scan_inv xs m \<longleftrightarrow> m < 8 \<and> suffix (take m ROM_BANNER) xs \<and>
     (\<forall>k<8. suffix (take k ROM_BANNER) xs \<longrightarrow> k \<le> m)"

lemma suffix_take_snoc:
  "k < 8 \<Longrightarrow> suffix (take (Suc k) ROM_BANNER) (xs @ [b]) \<longleftrightarrow>
    suffix (take k ROM_BANNER) xs \<and> ROM_BANNER ! k = b"
  by (auto simp: take_Suc_conv_app_nth)

text \<open>The banner has no border: a shorter prefix that also fits would repeat its first character.\<close>

lemma no_border:
  assumes "suffix (take j ROM_BANNER) xs" and "suffix (take m ROM_BANNER) xs" and "j < m" and "m \<le> 8"
  shows "j = 0"
proof (rule ccontr)
  assume "j \<noteq> 0"
  have len: "length (take k ROM_BANNER) = k" if "k \<le> 8" for k using that by simp
  have "suffix (take j ROM_BANNER) (take m ROM_BANNER)"
    using suffix_length_suffix [OF assms(1,2)] assms(3,4) by simp
  then obtain zs where zs: "take m ROM_BANNER = zs @ take j ROM_BANNER" by (auto simp: suffix_def)
  have "m = length zs + j"
    using arg_cong [OF zs, of length] len [of j] len [of m] assms(3,4) by simp
  then have "take j ROM_BANNER ! 0 = take m ROM_BANNER ! (m - j)"
    unfolding zs by (simp add: nth_append)
  then have "ROM_BANNER ! (m - j) = ROM_BANNER ! 0"
    using assms(3,4) \<open>j \<noteq> 0\<close> by simp
  then show False using banner_head [of "m - j"] assms(3,4) \<open>j \<noteq> 0\<close> by simp
qed

definition banner_end :: "u8 list \<Rightarrow> bool" where
  "banner_end xs \<longleftrightarrow> suffix ROM_BANNER xs"

lemma scan_match_inv:
  assumes inv: "scan_inv xs m"
  shows "scan_inv (xs @ [b]) (fst (scan_match m b))"
    and "snd (scan_match m b) \<longleftrightarrow> banner_end (xs @ [b])"
proof -
  have m: "m < 8" and suf: "suffix (take m ROM_BANNER) xs"
    and max: "\<And>k. k < 8 \<Longrightarrow> suffix (take k ROM_BANNER) xs \<Longrightarrow> k \<le> m"
    using inv by (auto simp: scan_inv_def)
  have next1: "suffix (take (Suc k) ROM_BANNER) (xs @ [b]) \<longleftrightarrow>
      (k = m \<or> k = 0) \<and> ROM_BANNER ! k = b" if "k < 8" for k
    using suffix_take_snoc [OF that, of xs b] max [OF that] suf no_border [OF _ suf, of k] m that
    by (auto simp: le_less)
  have hit: "suffix ROM_BANNER (xs @ [b]) \<longleftrightarrow> m = 7 \<and> ROM_BANNER ! 7 = b"
    using next1 [of 7] m by simp
  have smaller: "k \<le> n" if "k < 8" "suffix (take k ROM_BANNER) (xs @ [b])"
    "\<And>i. i < 8 \<Longrightarrow> i = m \<or> i = 0 \<Longrightarrow> ROM_BANNER ! i = b \<Longrightarrow> Suc i < 8 \<Longrightarrow> Suc i \<le> n" for k n
    using that next1 [of "k - 1"] by (cases k) auto
  show "snd (scan_match m b) \<longleftrightarrow> banner_end (xs @ [b])"
    using m unfolding banner_end_def hit by (cases "m = 7") (auto simp: scan_match_def ROM_BANNER_LEN_def)
  show "scan_inv (xs @ [b]) (fst (scan_match m b))"
  proof (cases "b = ROM_BANNER ! m")
    case True
    show ?thesis
    proof (cases "m + 1 < 8")
      case less: True
      have "suffix (take (Suc m) ROM_BANNER) (xs @ [b])" using next1 [of m] True m by simp
      moreover have "k \<le> Suc m" if "k < 8" "suffix (take k ROM_BANNER) (xs @ [b])" for k
        by (rule smaller [OF that]) auto
      ultimately show ?thesis using True less by (simp add: scan_match_def ROM_BANNER_LEN_def scan_inv_def)
    next
      case False
      then have m7: "m = 7" using m by simp
      have "k \<le> 0" if "k < 8" "suffix (take k ROM_BANNER) (xs @ [b])" for k
        by (rule smaller [OF that]) (use True m7 banner_head [of 7] in auto)
      then show ?thesis using True m7 by (auto simp: scan_match_def ROM_BANNER_LEN_def scan_inv_def)
    qed
  next
    case False
    let ?n = "if b = ROM_BANNER ! 0 then 1 else 0 :: nat"
    have "suffix (take ?n ROM_BANNER) (xs @ [b])" using next1 [of 0] by auto
    moreover have "k \<le> ?n" if "k < 8" "suffix (take k ROM_BANNER) (xs @ [b])" for k
      by (rule smaller [OF that]) (use False in auto)
    ultimately show ?thesis using False by (auto simp: scan_match_def scan_inv_def)
  qed
qed

text \<open>
  The specification: the times of the bytes that complete an occurrence of the banner in the whole
  stream, thinned out by the debounce interval.
\<close>

definition occurrence_times :: "u8 list \<Rightarrow> (int \<times> u8) list \<Rightarrow> int list" where
  "occurrence_times past evs =
     map (\<lambda>p. fst (evs ! p))
       (filter (\<lambda>p. banner_end (past @ map snd (take (Suc p) evs))) [0..<length evs])"

fun debounce :: "int \<Rightarrow> int list \<Rightarrow> int list" where
  "debounce hit [] = []"
| "debounce hit (t # ts) =
     (if t - hit < REBOOT_DEBOUNCE_US then debounce hit ts else t # debounce t ts)"

lemma occurrence_times_Nil [simp]: "occurrence_times past [] = []"
  by (simp add: occurrence_times_def)

lemma occurrence_times_Cons:
  "occurrence_times past ((t, b) # evs) =
    (if banner_end (past @ [b]) then [t] else []) @ occurrence_times (past @ [b]) evs"
  by (simp add: occurrence_times_def upt_conv_Cons map_Suc_upt [symmetric] filter_map comp_def
      del: upt_Suc)

text \<open>A stream read in chunks: the time of each chunk belongs to its bytes.\<close>

definition stamp :: "(int \<times> u8 list) list \<Rightarrow> (int \<times> u8) list" where
  "stamp chunks = concat (map (\<lambda>(t, bs). map (Pair t) bs) chunks)"

fun scan_chunks :: "(int \<times> u8 list) list \<Rightarrow> nat \<times> int \<Rightarrow> nat \<times> (nat \<times> int)" where
  "scan_chunks [] st = (0, st)"
| "scan_chunks ((t, bs) # cs) st =
     (case scan_for_radio_reboot t bs st of (n, st1) \<Rightarrow> apfst ((+) n) (scan_chunks cs st1))"

lemma scan_chunk_debounce:
  "scan_inv past m \<Longrightarrow>
   \<exists>m' hit'. scan_for_radio_reboot t bs (m, hit) = (length (debounce hit
       (occurrence_times past (map (Pair t) bs))), (m', hit')) \<and>
     scan_inv (past @ bs) m' \<and>
     (\<forall>ts. debounce hit (occurrence_times past (map (Pair t) bs) @ ts) =
       debounce hit (occurrence_times past (map (Pair t) bs)) @ debounce hit' ts)"
proof (induction bs arbitrary: past m hit)
  case (Cons b bs)
  note step = scan_match_inv [OF Cons.prems, of b]
  obtain m1 f where f: "scan_match m b = (m1, f)" by (cases "scan_match m b")
  let ?hit = "if f \<and> \<not> t - hit < REBOOT_DEBOUNCE_US then t else hit"
  obtain m' hit' where ih: "scan_for_radio_reboot t bs (m1, ?hit) = (length (debounce ?hit
       (occurrence_times (past @ [b]) (map (Pair t) bs))), (m', hit'))"
     "scan_inv (past @ b # bs) m'"
     "\<And>ts. debounce ?hit (occurrence_times (past @ [b]) (map (Pair t) bs) @ ts) =
       debounce ?hit (occurrence_times (past @ [b]) (map (Pair t) bs)) @ debounce hit' ts"
    using Cons.IH [of "past @ [b]" m1 ?hit] step(1) f by auto
  show ?case
    using f step(2) ih
    by (intro exI [of _ m'] exI [of _ hit']) (cases f; simp add: occurrence_times_Cons split: if_splits)
qed (auto simp: scan_inv_def)

lemma occurrence_times_append:
  "occurrence_times past (xs @ ys) = occurrence_times past xs @ occurrence_times (past @ map snd xs) ys"
  by (induction xs arbitrary: past) (auto simp: occurrence_times_Cons)

lemma scan_chunks_debounce:
  "scan_inv past m \<Longrightarrow>
    fst (scan_chunks cs (m, hit)) = length (debounce hit (occurrence_times past (stamp cs)))"
proof (induction cs arbitrary: past m hit)
  case (Cons c cs)
  obtain t bs where c: "c = (t, bs)" by (cases c)
  obtain m' hit' where *: "scan_for_radio_reboot t bs (m, hit) = (length (debounce hit
       (occurrence_times past (map (Pair t) bs))), (m', hit'))" "scan_inv (past @ bs) m'"
     "\<And>ts. debounce hit (occurrence_times past (map (Pair t) bs) @ ts) =
       debounce hit (occurrence_times past (map (Pair t) bs)) @ debounce hit' ts"
    using scan_chunk_debounce [OF Cons.prems] by blast
  show ?case
    using Cons.IH [OF *(2), of hit'] *
    by (simp add: c stamp_def occurrence_times_append comp_def split: prod.splits)
qed (simp add: stamp_def)

subsection \<open>The line-coding contract\<close>

interpretation uart: line_port "uart_op_set_line_coding U" uart_op_get_line_coding "\<lambda>_. True"
  for U
  by unfold_locales
    (auto simp: uart_op_set_line_coding_def uart_op_get_line_coding_def apply_lc_def Let_def
      split: if_splits)

lemma apply_lc_state:
  "fst (snd (apply_lc U l src sw)) =
    (if fst (apply_lc U l src sw) = ESP_OK then (fst sw)\<lparr>u_lc := l, u_lc_source := src\<rparr> else fst sw)"
  by (simp add: apply_lc_def Let_def)

text \<open>
  A driver that accepts everything and keeps what it was told; its write calls are recorded.  The
  NVS store is in the first part of the world.
\<close>

record uart_wire =
  w_baud :: u32
  w_bits :: nat
  w_parity :: uart_parity
  w_stop :: uart_stop_bits
  w_sent :: "u8 list"

definition uart_sim :: "(nvs_mem \<times> uart_wire) uart_api" where
  "uart_sim =
     \<lparr>uart_set_baudrate = (\<lambda>b w. (ESP_OK, apsnd (w_baud_update (\<lambda>_. b)) w)),
      uart_set_word_length = (\<lambda>b w. (ESP_OK, apsnd (w_bits_update (\<lambda>_. b)) w)),
      uart_set_parity = (\<lambda>p w. (ESP_OK, apsnd (w_parity_update (\<lambda>_. p)) w)),
      uart_set_stop_bits = (\<lambda>p w. (ESP_OK, apsnd (w_stop_update (\<lambda>_. p)) w)),
      uart_write_bytes = (\<lambda>d w. (int (length d), apsnd (w_sent_update (\<lambda>l. l @ d)) w)),
      uart_driver_install = (\<lambda>w. (ESP_OK, w)),
      uart_param_config = (\<lambda>c w. (ESP_OK, apsnd (\<lambda>u. u\<lparr>w_baud := uc_baud_rate c,
        w_bits := uc_data_bits c, w_parity := uc_parity c, w_stop := uc_stop_bits c\<rparr>) w)),
      uart_set_pin = (\<lambda>w. (ESP_OK, w)), uart_flush_input = (\<lambda>w. w),
      gpio_output = (\<lambda>p w. w), gpio_set_level = (\<lambda>p l w. w), task_delay_ms = (\<lambda>n w. w)\<rparr>"

definition uart_demo :: uart_state where
  "uart_demo = \<lparr>u_ready = True, u_lc = p_def profile_tcm515, u_lc_source = 0, u_rx_bytes = 0,
     u_tx_bytes = 0, u_matched = 0, u_last_hit_us = 0\<rparr>"

definition wire_demo :: uart_wire where
  "wire_demo = \<lparr>w_baud = 0, w_bits = 8, w_parity = UART_PARITY_DISABLE, w_stop = UART_STOP_BITS_1,
     w_sent = []\<rparr>"

text \<open>The RX path with a world that counts the drops and collects the bytes delivered.\<close>

definition uart_feed ::
  "uart_profile \<Rightarrow> int \<Rightarrow> u8 list \<Rightarrow> uart_state \<times> (nat \<times> u8 list) \<Rightarrow> uart_state \<times> (nat \<times> u8 list)" where
  "uart_feed P t bs = uart_rx_chunk P (apfst Suc) (Some (\<lambda>d. apsnd (\<lambda>l. l @ d))) t bs"

lemma apfst_Suc_pow: "(apfst Suc ^^ k) (n, out) = (n + k, out)"
  by (induction k) simp_all

lemma uart_feed_Nil: "uart_feed P t [] sw = sw"
  by (simp add: uart_feed_def uart_rx_chunk_def)

lemma uart_feed_zb:
  "p_zb P \<Longrightarrow> bs \<noteq> [] \<Longrightarrow>
    scan_for_radio_reboot t bs (u_matched S, u_last_hit_us S) = (k, (m, hit)) \<Longrightarrow>
    uart_feed P t bs (S, (n, out)) =
      (S\<lparr>u_rx_bytes := u_rx_bytes S + of_nat (length bs), u_matched := m, u_last_hit_us := hit\<rparr>,
       (n + k, out @ bs))"
  by (simp add: uart_feed_def uart_rx_chunk_def Let_def apfst_Suc_pow)

lemma uart_feed_plain:
  "\<not> p_zb P \<Longrightarrow> bs \<noteq> [] \<Longrightarrow>
    uart_feed P t bs (S, (n, out)) =
      (S\<lparr>u_rx_bytes := u_rx_bytes S + of_nat (length bs)\<rparr>, (n, out @ bs))"
  by (simp add: uart_feed_def uart_rx_chunk_def Let_def)

lemma uart_fold_zb:
  "p_zb P \<Longrightarrow> scan_inv past (u_matched S) \<Longrightarrow>
    \<exists>S'. fold (case_prod (uart_feed P)) cs (S, (n, out)) =
      (S', (n + length (debounce (u_last_hit_us S) (occurrence_times past (stamp cs))),
            out @ concat (map snd cs))) \<and>
      u_rx_bytes S' = u_rx_bytes S + of_nat (length (concat (map snd cs)))"
proof (induction cs arbitrary: S n out past)
  case (Cons c cs)
  obtain t bs where c: "c = (t, bs)" by (cases c)
  show ?case
  proof (cases "bs = []")
    case True
    then show ?thesis using Cons.IH [OF Cons.prems] by (simp add: c uart_feed_Nil stamp_def)
  next
    case False
    let ?k = "length (debounce (u_last_hit_us S) (occurrence_times past (map (Pair t) bs)))"
    obtain m' hit' where *: "scan_for_radio_reboot t bs (u_matched S, u_last_hit_us S) = (?k, (m', hit'))"
      "scan_inv (past @ bs) m'"
      "\<And>ts. debounce (u_last_hit_us S) (occurrence_times past (map (Pair t) bs) @ ts) =
        debounce (u_last_hit_us S) (occurrence_times past (map (Pair t) bs)) @ debounce hit' ts"
      using scan_chunk_debounce [OF Cons.prems(2)] by blast
    let ?S = "S\<lparr>u_rx_bytes := u_rx_bytes S + of_nat (length bs), u_matched := m',
      u_last_hit_us := hit'\<rparr>"
    show ?thesis
      using Cons.IH [OF Cons.prems(1), of "past @ bs" ?S "n + ?k" "out @ bs"] *(2,3)
      by (simp add: c uart_feed_zb [OF Cons.prems(1) False *(1)] stamp_def occurrence_times_append
          comp_def add.assoc)
  qed
qed (simp add: stamp_def)

lemma uart_fold_plain:
  "\<not> p_zb P \<Longrightarrow> \<exists>S'. fold (case_prod (uart_feed P)) cs (S, (n, out)) =
      (S', (n, out @ concat (map snd cs))) \<and>
      u_rx_bytes S' = u_rx_bytes S + of_nat (length (concat (map snd cs)))"
proof (induction cs arbitrary: S n out)
  case (Cons c cs)
  obtain t bs where c: "c = (t, bs)" by (cases c)
  show ?case
    using Cons.IH [OF Cons.prems, of "S\<lparr>u_rx_bytes := u_rx_bytes S + of_nat (length bs)\<rparr>" n "out @ bs"]
      Cons.IH [OF Cons.prems, of S n out] Cons.prems
    by (cases "bs = []") (simp_all add: c uart_feed_Nil uart_feed_plain add.assoc)
qed simp

subsection \<open>Properties\<close>

text \<open>C25: the UART source hands every received byte to the bridge unchanged and in order, and on the
  Zigbee board it drops the clients once for each occurrence of the radio's boot banner in the byte
  stream, wherever the reads cut it, except for occurrences within two seconds of the last drop.\<close>

theorem uart_rx_stream:
  assumes "u_matched S = 0"
  shows "let r = fold (case_prod (uart_feed P)) cs (S, (0, [])) in
       snd (snd r) = concat (map snd cs) \<and>
       u_rx_bytes (fst r) = u_rx_bytes S + of_nat (length (concat (map snd cs))) \<and>
       fst (snd r) = (if p_zb P
         then length (debounce (u_last_hit_us S) (occurrence_times [] (stamp cs))) else 0)"
proof -
  have "scan_inv [] (u_matched S)"
    using assms by (simp add: scan_inv_def banner)
  then show ?thesis
    using uart_fold_zb [of P "[]" S cs 0 "[]"] uart_fold_plain [of P cs S 0 "[]"]
    by (cases "p_zb P") (auto simp: Let_def)
qed

lemma uart_rx_stream_witness:
  "fst (snd (fold (case_prod (uart_feed (profile_zb_ncp 115200)))
      [(5000000, [69, 69, 83, 80, 45]), (5000100, [82, 79, 77, 58])] (uart_demo, (0, [])))) = 1"
proof -
  let ?cs = "[(5000000, [69, 69, 83, 80, 45]), (5000100, [82, 79, 77, 58])] :: (int \<times> u8 list) list"
  have "debounce 0 (occurrence_times [] (stamp ?cs)) = [5000100]"
    by (simp add: stamp_def occurrence_times_Cons banner_end_def banner suffix_def
        REBOOT_DEBOUNCE_US_def)
  then show ?thesis
    using uart_rx_stream [of uart_demo "profile_zb_ncp 115200" ?cs]
    by (simp add: Let_def uart_demo_def profile_zb_ncp_def)
qed

text \<open>mark and space parity, which RFC 2217 clients may ask for, are accepted and reported as
  applied, but the wire runs without parity.\<close>

theorem uart_mark_parity:
  assumes "p = 3 \<or> p = 4"
  shows "fst (uart_op_set_line_coding uart_sim (l\<lparr>parity := p\<rparr>) sw) = ESP_OK \<and>
    parity (uart_op_get_line_coding (snd (uart_op_set_line_coding uart_sim (l\<lparr>parity := p\<rparr>) sw))) = p \<and>
    w_parity (snd (snd (snd (uart_op_set_line_coding uart_sim (l\<lparr>parity := p\<rparr>) sw)))) =
      UART_PARITY_DISABLE"
  using assms
  by (auto simp: uart_op_set_line_coding_def apply_lc_def and_then_def uart_sim_def Let_def
      uart_op_get_line_coding_def to_parity_def)

lemma uart_mark_parity_witness:
  "parity (uart_op_get_line_coding (snd (uart_op_set_line_coding uart_sim
     (serialcfg_default\<lparr>parity := 3\<rparr>) (uart_demo, (Map.empty, wire_demo))))) = 3"
  using uart_mark_parity [of 3 serialcfg_default "(uart_demo, (Map.empty, wire_demo))"] by simp

text \<open>releasing the line coding re-applies what the store holds for the module, or the profile's
  default, with the provenance recorded; if the driver refuses, the shadow is unchanged.  In
  particular, a coding that was just saved for the module is the one in force after the revert.\<close>

theorem uart_revert_effective:
  assumes "nvs_laws N" and "tbl_inv (tbl N w)" and "valid_key (p_key P)"
    and "serialcfg_upsert N (p_key P) l w = (ESP_OK, w')"
    and "fst (apply_lc U l 1 (S, w')) = ESP_OK"
  shows "uart_op_get_line_coding (uart_op_revert_line_coding U N P (S, w')) = l \<and>
    u_lc_source (fst (uart_op_revert_line_coding U N P (S, w'))) = 1"
proof -
  have inv: "scfg_inv (N, w)" using assms(1,2) by (simp add: scfg_inv_def)
  have "scfg_upsert (p_key P) l (N, w) = (ESP_OK, (N, w'))"
    using assms(4) by (simp add: scfg_upsert_def)
  from scfg.lookup_upsert [OF inv assms(3) this] have "uart_resolve N P w' = (l, 1)"
    by (simp add: uart_resolve_def scfg_lookup_def)
  then show ?thesis
    using assms(5) by (simp add: uart_op_revert_line_coding_def uart_op_get_line_coding_def apply_lc_state)
qed

text \<open>An NVS store in the first part of a larger world.\<close>

definition nvs_fst :: "'w nvs_api \<Rightarrow> ('w \<times> 'v) nvs_api" where
  "nvs_fst N =
     \<lparr>nvs_open = (\<lambda>ns m w. nvs_open N ns m (fst w)),
      nvs_get_u8 = (\<lambda>ns k w. nvs_get_u8 N ns k (fst w)),
      nvs_get_u16 = (\<lambda>ns k w. nvs_get_u16 N ns k (fst w)),
      nvs_get_u32 = (\<lambda>ns k w. nvs_get_u32 N ns k (fst w)),
      nvs_get_str = (\<lambda>ns k c w. nvs_get_str N ns k c (fst w)),
      nvs_get_blob = (\<lambda>ns k c w. nvs_get_blob N ns k c (fst w)),
      nvs_set_u8 = (\<lambda>ns k v w. map_prod id (\<lambda>x. (x, snd w)) (nvs_set_u8 N ns k v (fst w))),
      nvs_set_u16 = (\<lambda>ns k v w. map_prod id (\<lambda>x. (x, snd w)) (nvs_set_u16 N ns k v (fst w))),
      nvs_set_u32 = (\<lambda>ns k v w. map_prod id (\<lambda>x. (x, snd w)) (nvs_set_u32 N ns k v (fst w))),
      nvs_set_str = (\<lambda>ns k v w. map_prod id (\<lambda>x. (x, snd w)) (nvs_set_str N ns k v (fst w))),
      nvs_set_blob = (\<lambda>ns k v w. map_prod id (\<lambda>x. (x, snd w)) (nvs_set_blob N ns k v (fst w))),
      nvs_erase_key = (\<lambda>ns k w. map_prod id (\<lambda>x. (x, snd w)) (nvs_erase_key N ns k (fst w))),
      nvs_commit = (\<lambda>ns w. map_prod id (\<lambda>x. (x, snd w)) (nvs_commit N ns (fst w)))\<rparr>"

lemma nvs_fst_ram_laws: "nvs_laws (nvs_fst nvs_ram)"
  by (auto simp: nvs_laws_def nvs_write_frame_def nvs_view_def nvs_ram_def nvs_fst_def)

lemma tbl_empty_fst: "tbl (nvs_fst nvs_ram) (Map.empty, v) = (\<lambda>i. None)"
  by (auto simp: tbl_def load_slot_def nvs_ram_def nvs_fst_def)

lemma upsert_fst: "k \<noteq> [] \<Longrightarrow> fst (serialcfg_upsert (nvs_fst nvs_ram) k l w) = ESP_OK"
  by (simp add: serialcfg_upsert_def store_commit_def store_slot_def nvs_ram_def nvs_fst_def)

lemma uart_revert_effective_witness:
  "uart_op_get_line_coding (uart_op_revert_line_coding uart_sim (nvs_fst nvs_ram) profile_tcm515
     (uart_demo, snd (serialcfg_upsert (nvs_fst nvs_ram) ''tcm515'' serialcfg_default
        (Map.empty, wire_demo)))) = serialcfg_default"
proof -
  let ?r = "serialcfg_upsert (nvs_fst nvs_ram) ''tcm515'' serialcfg_default (Map.empty, wire_demo)"
  have r: "?r = (ESP_OK, snd ?r)" using upsert_fst [of "''tcm515''"] by (simp add: prod_eq_iff)
  have "fst (apply_lc uart_sim serialcfg_default 1 (uart_demo, snd ?r)) = ESP_OK"
    by (simp add: apply_lc_def and_then_def uart_sim_def Let_def)
  then show ?thesis
    using uart_revert_effective [OF nvs_fst_ram_laws, of "(Map.empty, wire_demo)" profile_tcm515
        serialcfg_default "snd ?r" uart_sim uart_demo] r
    by (simp add: tbl_empty_fst tbl_inv_empty valid_key_def SERIALCFG_KEY_LEN_def
        byte_of_char_def profile_tcm515_def)
qed

end
