(* ===== verification/SourceUsb.thy ===== *)
theory SourceUsb
  imports Source
begin

text \<open>
  \<^verbatim>\<open>source_usb.c\<close>: the USB host source for CDC-ACM sticks and the FTDI, CH34x and CP210x bridges.  The
  class drivers are the parameter \<open>D\<close> and the line-coding store \<open>N\<close>, over a world \<open>'w\<close>.  The static
  struct \<^verbatim>\<open>S\<close> is the record \<open>usb_state\<close>; its two binary semaphores are flags, its mutex is the field
  \<open>y_tx\<close> of the system, which also holds the transmission that owns it.  The callbacks, the operations
  and the pieces of \<^verbatim>\<open>stick_task\<close> between two blocking calls are functions; \<open>usb_step\<close> interleaves
  them, and a log records the sessions and the handles the transmissions use.
\<close>

subsection \<open>State and drivers\<close>

datatype usb_kind = FTDI | CH34x | CP210x | CDC_ACM

fun kind_name :: "usb_kind \<Rightarrow> string" where
  "kind_name FTDI = ''FTDI''"
| "kind_name CH34x = ''CH34x''"
| "kind_name CP210x = ''CP210x''"
| "kind_name CDC_ACM = ''CDC-ACM''"

record usb_state =
  us_cdc :: "nat option"
  us_disc_sem :: bool
  us_conn_sem :: bool
  us_ready :: bool
  us_connected :: bool
  us_vid :: u16
  us_pid :: u16
  us_manuf :: string
  us_product :: string
  us_serial :: string
  us_key :: string
  us_is_vcp :: bool
  us_kind :: "usb_kind option"
  us_lc :: lc
  us_lc_source :: u8
  us_rx_bytes :: u32
  us_tx_bytes :: u32

text \<open>Opening gives an error code and, if that is \<open>ESP_OK\<close>, a handle.\<close>

record 'w cdc_api =
  cdc_open :: "usb_kind \<Rightarrow> u16 \<Rightarrow> u16 \<Rightarrow> 'w \<Rightarrow> (esp_err \<times> nat) \<times> 'w"
  cdc_lc_set :: "nat \<Rightarrow> lc \<Rightarrow> 'w \<Rightarrow> esp_err \<times> 'w"
  cdc_ctrl_lines :: "nat \<Rightarrow> 'w \<Rightarrow> esp_err \<times> 'w"
  cdc_tx :: "nat \<Rightarrow> u8 list \<Rightarrow> 'w \<Rightarrow> esp_err \<times> 'w"
  cdc_close :: "nat \<Rightarrow> 'w \<Rightarrow> 'w"

subsection \<open>Callbacks\<close>

definition usb_data_cb :: "(u8 list \<Rightarrow> 'w \<Rightarrow> 'w) option \<Rightarrow> u8 list \<Rightarrow> usb_state \<times> 'w \<Rightarrow> usb_state \<times> 'w" where
  "usb_data_cb rx d sw =
     ((fst sw)\<lparr>us_rx_bytes := us_rx_bytes (fst sw) + of_nat (length d)\<rparr>,
      case rx of Some f \<Rightarrow> f d (snd sw) | None \<Rightarrow> snd sw)"

datatype cdc_event = CDC_ACM_HOST_ERROR | CDC_ACM_HOST_DEVICE_DISCONNECTED | CDC_ACM_HOST_SERIAL_STATE

definition usb_event_cb :: "cdc_event \<Rightarrow> usb_state \<Rightarrow> usb_state" where
  "usb_event_cb ev S =
     (case ev of
        CDC_ACM_HOST_DEVICE_DISCONNECTED \<Rightarrow> S\<lparr>us_ready := False, us_connected := False, us_disc_sem := True\<rparr>
      | _ \<Rightarrow> S)"

text \<open>A string descriptor: \<^verbatim>\<open>bLength\<close> and the words \<^verbatim>\<open>wData\<close> behind it.\<close>

type_synonym str_desc = "nat \<times> u16 list"

definition str_desc_ascii :: "str_desc option \<Rightarrow> nat \<Rightarrow> string" where
  "str_desc_ascii sd cap =
     (case sd of
        None \<Rightarrow> []
      | Some (bLength, wData) \<Rightarrow>
          if bLength < 2 then []
          else map (\<lambda>c. if 0x20 \<le> c \<and> c < 0x7F then char_of_byte (ucast c) else CHR ''?'')
                 (take (cap - 1) (takeWhile (\<lambda>c. c \<noteq> 0) (take ((bLength - 2) div 2) wData))))"

text \<open>What the host library knows of a new device: the ids and the three strings, either may be missing.\<close>

record usb_new_dev =
  nd_desc :: "(u16 \<times> u16) option"
  nd_info :: "(str_desc option \<times> str_desc option \<times> str_desc option) option"

definition usb_new_dev_cb :: "usb_new_dev \<Rightarrow> usb_state \<Rightarrow> usb_state" where
  "usb_new_dev_cb d S =
     (if us_connected S then S
      else
        let S1 = (case nd_desc d of Some (v, p) \<Rightarrow> S\<lparr>us_vid := v, us_pid := p\<rparr> | None \<Rightarrow> S);
            S2 = (case nd_info d of
                Some (m, p, s) \<Rightarrow> S1\<lparr>us_manuf := str_desc_ascii m 48, us_product := str_desc_ascii p 48,
                  us_serial := str_desc_ascii s SERIALCFG_KEY_LEN\<rparr>
              | None \<Rightarrow> S1)
        in S2\<lparr>us_conn_sem := True\<rparr>)"

subsection \<open>Opening a device\<close>

definition dispatch_kind :: "u16 \<Rightarrow> usb_kind" where
  "dispatch_kind vid =
     (if vid = 0x0403 then FTDI else if vid = 0x1A86 then CH34x else if vid = 0x10C4 then CP210x
      else CDC_ACM)"

definition open_dispatch ::
  "'w cdc_api \<Rightarrow> u16 \<Rightarrow> u16 \<Rightarrow> 'w \<Rightarrow> (esp_err \<times> nat) \<times> usb_kind \<times> bool \<times> 'w" where
  "open_dispatch D vid pid w =
     (case cdc_open D (dispatch_kind vid) vid pid w of
        (r, w1) \<Rightarrow> (r, dispatch_kind vid, dispatch_kind vid \<noteq> CDC_ACM, w1))"

definition key_char :: "char \<Rightarrow> char" where
  "key_char c =
     (let n = of_char c :: nat
      in if 65 \<le> n \<and> n \<le> 90 \<or> 97 \<le> n \<and> n \<le> 122 \<or> 48 \<le> n \<and> n \<le> 57 \<or> c = CHR ''.'' \<or>
            c = CHR ''_'' \<or> c = CHR ''-'' then c else CHR ''_'')"

definition derive_key :: "string \<Rightarrow> u16 \<Rightarrow> u16 \<Rightarrow> nat \<Rightarrow> string" where
  "derive_key serial vid pid cap =
     (if serial \<noteq> [] then map key_char (take (cap - 1) serial)
      else fmt_s cap (hex4 vid @ '':'' @ hex4 pid))"

subsection \<open>Line coding\<close>

definition usb_apply_lc :: "'w cdc_api \<Rightarrow> lc \<Rightarrow> u8 \<Rightarrow> usb_state \<times> 'w \<Rightarrow> esp_err \<times> (usb_state \<times> 'w)" where
  "usb_apply_lc D l src sw =
     (case (case us_cdc (fst sw) of
              Some h \<Rightarrow> if us_is_vcp (fst sw) then cdc_lc_set D h l (snd sw) else (ESP_OK, snd sw)
            | None \<Rightarrow> (ESP_OK, snd sw)) of
        (e, w1) \<Rightarrow>
          (e, (if e = ESP_OK then (fst sw)\<lparr>us_lc := l, us_lc_source := src\<rparr> else fst sw, w1)))"

definition usb_resolve :: "'w nvs_api \<Rightarrow> string \<Rightarrow> 'w \<Rightarrow> lc \<times> u8" where
  "usb_resolve N key w =
     (case (if key = [] then None else serialcfg_lookup N w key) of
        Some l \<Rightarrow> (l, 1) | None \<Rightarrow> (serialcfg_default, 0))"

subsection \<open>Source operations\<close>

definition usb_op_tx :: "'w cdc_api \<Rightarrow> u8 list \<Rightarrow> usb_state \<times> 'w \<Rightarrow> esp_err \<times> (usb_state \<times> 'w)" where
  "usb_op_tx D d sw =
     (if d = [] then (ESP_ERR_INVALID_ARG, sw)
      else case us_cdc (fst sw) of
        None \<Rightarrow> (ESP_ERR_INVALID_STATE, sw)
      | Some h \<Rightarrow>
          (case cdc_tx D h d (snd sw) of
             (e, w1) \<Rightarrow>
               (e, (if e = ESP_OK
                    then (fst sw)\<lparr>us_tx_bytes := us_tx_bytes (fst sw) + of_nat (length d)\<rparr> else fst sw, w1))))"

definition usb_op_set_line_coding ::
  "'w cdc_api \<Rightarrow> lc \<Rightarrow> usb_state \<times> 'w \<Rightarrow> esp_err \<times> (usb_state \<times> 'w)" where
  "usb_op_set_line_coding D l sw = usb_apply_lc D l 2 sw"

definition usb_op_revert_line_coding ::
  "'w cdc_api \<Rightarrow> 'w nvs_api \<Rightarrow> usb_state \<times> 'w \<Rightarrow> usb_state \<times> 'w" where
  "usb_op_revert_line_coding D N sw =
     (case usb_resolve N (fmt_s SERIALCFG_KEY_LEN (us_key (fst sw))) (snd sw) of
        (l, src) \<Rightarrow> snd (usb_apply_lc D l src sw))"

definition usb_op_get_line_coding :: "usb_state \<times> 'w \<Rightarrow> lc" where
  "usb_op_get_line_coding sw = us_lc (fst sw)"

definition usb_op_reset :: "usb_state \<times> 'w \<Rightarrow> esp_err \<times> (usb_state \<times> 'w)" where
  "usb_op_reset sw = (ESP_ERR_NOT_SUPPORTED, sw)"

definition usb_op_describe :: "usb_state \<times> 'w \<Rightarrow> string" where
  "usb_op_describe sw =
     (let S = fst sw
      in fmt_s 48 ((case us_kind S of Some k \<Rightarrow> kind_name k | None \<Rightarrow> ''USB'') @ '' '' @ hex4 (us_vid S) @
           '':'' @ hex4 (us_pid S) @ '' '' @ (if us_connected S then ''open'' else ''closed'')))"

definition usb_op_get_stats :: "usb_state \<times> 'w \<Rightarrow> source_stats" where
  "usb_op_get_stats sw =
     (let S = fst sw
      in \<lparr>st_connected = us_connected S, st_vid = us_vid S, st_pid = us_pid S,
          st_manuf = fmt_s 48 (us_manuf S), st_product = fmt_s 48 (us_product S),
          st_rx_bytes = us_rx_bytes S, st_tx_bytes = us_tx_bytes S\<rparr>)"

definition usb_op_get_serial_info :: "usb_state \<times> 'w \<Rightarrow> source_serial_info" where
  "usb_op_get_serial_info sw =
     (let S = fst sw
      in \<lparr>si_connected = us_connected S, si_is_vcp = us_is_vcp S, si_vid = us_vid S, si_pid = us_pid S,
          si_serial = fmt_s SERIALCFG_KEY_LEN (us_serial S), si_key = fmt_s SERIALCFG_KEY_LEN (us_key S),
          si_lc = us_lc S, si_lc_source = us_lc_source S\<rparr>)"

definition usb_ops :: "'w cdc_api \<Rightarrow> 'w nvs_api \<Rightarrow> (usb_state \<times> 'w) source_ops" where
  "usb_ops D N =
     \<lparr>op_tx = Some (usb_op_tx D), op_ready = Some (\<lambda>sw. us_ready (fst sw)),
      op_reset = Some usb_op_reset, op_describe = Some usb_op_describe,
      op_set_line_coding = Some (usb_op_set_line_coding D),
      op_revert_line_coding = Some (usb_op_revert_line_coding D N),
      op_get_line_coding = Some usb_op_get_line_coding,
      op_get_stats = Some usb_op_get_stats, op_get_serial_info = Some usb_op_get_serial_info,
      op_apply_line_coding = Some (usb_apply_lc D)\<rparr>"

subsection \<open>The stick task\<close>

text \<open>
  Where \<^verbatim>\<open>stick_task\<close> stands: at a blocking call or before the statements behind it.  The handle and the
  driver path of the open device are its local variables.
\<close>

datatype stick_pc =
    AtConnect
  | AtOpen u16 u16
  | AtRetry
  | AtPublish u16 u16 nat usb_kind bool
  | AtApply nat bool
  | AtReady nat
  | AtDisconnect nat
  | AtClose nat

text \<open>
  The log of a run: the task takes up a device, opens and closes it, notifies the sinks; a transmission ends; the driver
  reports that the device is gone.
\<close>

datatype usb_log = LogWake | LogOpen nat string | LogClose nat | LogDown | LogTx nat | LogLost

record 'w usb_sys =
  y_S :: usb_state
  y_w :: 'w
  y_pc :: stick_pc
  y_tx :: "(nat \<times> u8 list) option"
  y_log :: "usb_log list"

definition stick_publish :: "u16 \<Rightarrow> u16 \<Rightarrow> nat \<Rightarrow> usb_kind \<Rightarrow> bool \<Rightarrow> usb_state \<Rightarrow> usb_state" where
  "stick_publish vid pid h kind vcp S =
     S\<lparr>us_cdc := Some h, us_connected := True, us_is_vcp := vcp, us_kind := Some kind,
       us_key := derive_key (us_serial S) vid pid SERIALCFG_KEY_LEN\<rparr>"

definition stick_apply :: "'w cdc_api \<Rightarrow> 'w nvs_api \<Rightarrow> nat \<Rightarrow> bool \<Rightarrow> usb_state \<times> 'w \<Rightarrow> usb_state \<times> 'w" where
  "stick_apply D N h vcp sw =
     (case usb_resolve N (us_key (fst sw)) (snd sw) of
        (l, src) \<Rightarrow>
          (case usb_apply_lc D l src sw of
             (_, (S1, w1)) \<Rightarrow> (S1, if vcp then w1 else snd (cdc_ctrl_lines D h w1))))"

definition stick_clear :: "usb_state \<Rightarrow> usb_state" where
  "stick_clear S =
     S\<lparr>us_disc_sem := False, us_ready := False, us_connected := False, us_cdc := None, us_is_vcp := False,
       us_kind := None, us_key := [], us_serial := []\<rparr>"

text \<open>The next piece of the task; \<open>None\<close> while it blocks.  \<open>down\<close> is \<^verbatim>\<open>bridge_notify_source_down\<close>.\<close>

definition stick_run :: "'w cdc_api \<Rightarrow> 'w nvs_api \<Rightarrow> ('w \<Rightarrow> 'w) \<Rightarrow> 'w usb_sys \<Rightarrow> 'w usb_sys option" where
  "stick_run D N down y =
     (let S = y_S y; w = y_w y in
      case y_pc y of
        AtConnect \<Rightarrow>
          if us_conn_sem S
          then Some (y\<lparr>y_S := S\<lparr>us_conn_sem := False, us_disc_sem := False\<rparr>,
                 y_pc := AtOpen (us_vid S) (us_pid S), y_log := y_log y @ [LogWake]\<rparr>)
          else None
      | AtOpen vid pid \<Rightarrow>
          (case open_dispatch D vid pid w of
             ((e, h), kind, vcp, w1) \<Rightarrow>
               Some (y\<lparr>y_w := w1, y_pc := if e = ESP_OK then AtPublish vid pid h kind vcp else AtRetry\<rparr>))
      | AtRetry \<Rightarrow> Some (y\<lparr>y_S := S\<lparr>us_conn_sem := True\<rparr>, y_pc := AtConnect\<rparr>)
      | AtPublish vid pid h kind vcp \<Rightarrow>
          (let S1 = stick_publish vid pid h kind vcp S
           in Some (y\<lparr>y_S := S1, y_pc := AtApply h vcp, y_log := y_log y @ [LogOpen h (us_key S1)]\<rparr>))
      | AtApply h vcp \<Rightarrow>
          if y_tx y \<noteq> None then None
          else (case stick_apply D N h vcp (S, w) of
                  (S1, w1) \<Rightarrow> Some (y\<lparr>y_S := S1, y_w := w1, y_pc := AtReady h\<rparr>))
      | AtReady h \<Rightarrow> Some (y\<lparr>y_S := S\<lparr>us_ready := True\<rparr>, y_pc := AtDisconnect h\<rparr>)
      | AtDisconnect h \<Rightarrow>
          if us_disc_sem S then Some (y\<lparr>y_S := stick_clear S, y_pc := AtClose h\<rparr>) else None
      | AtClose h \<Rightarrow>
          Some (y\<lparr>y_w := down (cdc_close D h w), y_pc := AtConnect,
            y_log := y_log y @ [LogClose h, LogDown]\<rparr>))"

text \<open>\<^verbatim>\<open>op_tx\<close> in two pieces: it takes the mutex and the handle, then the driver call ends and the mutex is given.\<close>

definition tx_begin :: "u8 list \<Rightarrow> 'w usb_sys \<Rightarrow> 'w usb_sys option" where
  "tx_begin d y =
     (if d = [] \<or> y_tx y \<noteq> None then None
      else map_option (\<lambda>h. y\<lparr>y_tx := Some (h, d)\<rparr>) (us_cdc (y_S y)))"

definition tx_end :: "'w cdc_api \<Rightarrow> 'w usb_sys \<Rightarrow> 'w usb_sys option" where
  "tx_end D y =
     map_option (\<lambda>(h, d). case cdc_tx D h d (y_w y) of
         (e, w1) \<Rightarrow> y\<lparr>y_S := (if e = ESP_OK
             then (y_S y)\<lparr>us_tx_bytes := us_tx_bytes (y_S y) + of_nat (length d)\<rparr> else y_S y),
           y_w := w1, y_tx := None, y_log := y_log y @ [LogTx h]\<rparr>)
       (y_tx y)"

definition with_sw :: "(usb_state \<times> 'w \<Rightarrow> usb_state \<times> 'w) \<Rightarrow> 'w usb_sys \<Rightarrow> 'w usb_sys" where
  "with_sw f y = (case f (y_S y, y_w y) of (S1, w1) \<Rightarrow> y\<lparr>y_S := S1, y_w := w1\<rparr>)"

definition note_event :: "cdc_event \<Rightarrow> 'w usb_sys \<Rightarrow> 'w usb_sys" where
  "note_event ev y = (if ev = CDC_ACM_HOST_DEVICE_DISCONNECTED then y\<lparr>y_log := y_log y @ [LogLost]\<rparr> else y)"

inductive usb_step :: "'w cdc_api \<Rightarrow> 'w nvs_api \<Rightarrow> ('w \<Rightarrow> 'w) \<Rightarrow> 'w usb_sys \<Rightarrow> 'w usb_sys \<Rightarrow> bool"
  for D N down where
  step_stick: "stick_run D N down y = Some y' \<Longrightarrow> usb_step D N down y y'"
| step_new_dev: "usb_step D N down y (y\<lparr>y_S := usb_new_dev_cb d (y_S y)\<rparr>)"
| step_event: "usb_step D N down y (note_event ev (y\<lparr>y_S := usb_event_cb ev (y_S y)\<rparr>))"
| step_rx: "usb_step D N down y (with_sw (usb_data_cb rx d) y)"
| step_tx_begin: "tx_begin d y = Some y' \<Longrightarrow> usb_step D N down y y'"
| step_tx_end: "tx_end D y = Some y' \<Longrightarrow> usb_step D N down y y'"
| step_apply: "y_tx y = None \<Longrightarrow> usb_step D N down y (with_sw (\<lambda>sw. snd (usb_apply_lc D l src sw)) y)"
| step_revert: "y_tx y = None \<Longrightarrow> usb_step D N down y (with_sw (usb_op_revert_line_coding D N) y)"

inductive_cases usb_stepE: "usb_step D N down y y'"

text \<open>\<^verbatim>\<open>source_usb_init\<close> after \<^verbatim>\<open>memset\<close>, with both tasks and the drivers running.\<close>

definition source_usb_init :: "'w \<Rightarrow> 'w usb_sys" where
  "source_usb_init w =
     \<lparr>y_S = \<lparr>us_cdc = None, us_disc_sem = False, us_conn_sem = False, us_ready = False,
        us_connected = False, us_vid = 0, us_pid = 0, us_manuf = [], us_product = [], us_serial = [],
        us_key = [], us_is_vcp = False, us_kind = None, us_lc = zero_lc, us_lc_source = 0,
        us_rx_bytes = 0, us_tx_bytes = 0\<rparr>,
      y_w = w, y_pc = AtConnect, y_tx = None, y_log = []\<rparr>"

subsection \<open>Keys\<close>

text \<open>A character that is neither NUL nor special in a JSON string.\<close>

definition plain :: "char \<Rightarrow> bool" where
  "plain c \<longleftrightarrow> byte_of_char c \<noteq> 0 \<and> c \<noteq> CHR 0x22 \<and> c \<noteq> CHR 0x5C"

lemma unat_byte_of_char: "unat (byte_of_char c) = of_char c"
  using nat_of_char_less_256 [of c] by (simp add: byte_of_char_def unat_of_nat)

lemma plainI: "(of_char c :: nat) \<noteq> 0 \<Longrightarrow> (of_char c :: nat) \<noteq> 34 \<Longrightarrow> (of_char c :: nat) \<noteq> 92 \<Longrightarrow> plain c"
  using unat_byte_of_char [of c] by (auto simp: plain_def)

lemma key_char_plain: "plain (key_char c)"
  by (rule plainI; auto simp: key_char_def Let_def)

lemma hex_digit_plain: "plain (hex_digit d)"
proof -
  have "hex_digit d \<in> set ''0123456789ABCDEF''"
    unfolding hex_digit_def by (rule nth_mem) simp
  then show ?thesis by (auto simp: plain_def byte_of_char_def)
qed

definition key_ok :: "string \<Rightarrow> bool" where
  "key_ok k \<longleftrightarrow> valid_key k \<and> list_all plain k"

lemma derive_key_ok: "key_ok (derive_key serial vid pid SERIALCFG_KEY_LEN)"
proof -
  have p: "list_all plain (derive_key serial vid pid SERIALCFG_KEY_LEN)"
    by (auto simp: derive_key_def list_all_iff key_char_plain hex4_def hex_digit_plain fmt_s_def
        SERIALCFG_KEY_LEN_def plain_def [of "CHR '':''"] byte_of_char_def [of "CHR '':''"])
  then have "no_nul (derive_key serial vid pid SERIALCFG_KEY_LEN)"
    by (auto simp: no_nul_def list_all_iff plain_def)
  moreover have "derive_key serial vid pid SERIALCFG_KEY_LEN \<noteq> []"
    by (simp add: derive_key_def SERIALCFG_KEY_LEN_def hex4_def)
  moreover have "length (derive_key serial vid pid SERIALCFG_KEY_LEN) < SERIALCFG_KEY_LEN"
    by (auto simp: derive_key_def SERIALCFG_KEY_LEN_def)
  ultimately show ?thesis using p by (simp add: key_ok_def valid_key_def)
qed

subsection \<open>The line-coding contract\<close>

interpretation usb: line_port "usb_op_set_line_coding D" usb_op_get_line_coding "\<lambda>_. True"
  for D :: "'w cdc_api"
  by unfold_locales (auto simp: usb_op_set_line_coding_def usb_op_get_line_coding_def usb_apply_lc_def
      split: prod.splits option.splits if_splits)

subsection \<open>Sessions\<close>

text \<open>The open session at the end of a log, if the log is a sequence of sessions that each end with the notice.\<close>

fun sessions :: "nat option \<Rightarrow> usb_log list \<Rightarrow> nat option option" where
  "sessions cur [] = Some cur"
| "sessions cur (LogTx _ # l) = sessions cur l"
| "sessions cur (LogWake # l) = sessions cur l"
| "sessions cur (LogLost # l) = sessions cur l"
| "sessions None (LogOpen h k # l) = sessions (Some h) l"
| "sessions (Some h) (LogClose h' # LogDown # l) = (if h = h' then sessions None l else None)"
| "sessions _ _ = None"

lemma sessions_append: "sessions cur l = Some c \<Longrightarrow> sessions cur (l @ m) = sessions c m"
  by (induction cur l rule: sessions.induct) (auto split: if_splits)

text \<open>The loss of a device was reported after the task took it up, and the device is not closed yet.\<close>

fun lost_rev :: "usb_log list \<Rightarrow> bool" where
  "lost_rev (LogLost # l) = True"
| "lost_rev (LogWake # l) = False"
| "lost_rev (LogClose _ # l) = False"
| "lost_rev (_ # l) = lost_rev l"
| "lost_rev [] = False"

definition lost_since :: "usb_log list \<Rightarrow> bool" where
  "lost_since l = lost_rev (rev l)"

lemma lost_since_append [simp]:
  "lost_since (l @ [LogLost])" "\<not> lost_since (l @ [LogWake])" "\<not> lost_since (l @ [LogClose h, LogDown])"
  "\<not> lost_since []" "lost_since (l @ [LogTx h]) = lost_since l" "lost_since (l @ [LogOpen h k]) = lost_since l"
  by (simp_all add: lost_since_def)

fun pc_open :: "stick_pc \<Rightarrow> nat option" where
  "pc_open (AtApply h _) = Some h"
| "pc_open (AtReady h) = Some h"
| "pc_open (AtDisconnect h) = Some h"
| "pc_open _ = None"

fun pc_session :: "stick_pc \<Rightarrow> nat option" where
  "pc_session (AtClose h) = Some h"
| "pc_session pc = pc_open pc"

definition usb_inv :: "'w usb_sys \<Rightarrow> bool" where
  "usb_inv y \<longleftrightarrow>
     us_cdc (y_S y) = pc_open (y_pc y) \<and>
     (us_ready (y_S y) \<longrightarrow> (\<exists>h. y_pc y = AtDisconnect h)) \<and>
     (us_connected (y_S y) \<longrightarrow> us_cdc (y_S y) \<noteq> None) \<and>
     (us_cdc (y_S y) \<noteq> None \<and> \<not> us_connected (y_S y) \<longrightarrow> us_disc_sem (y_S y)) \<and>
     (us_cdc (y_S y) \<noteq> None \<longrightarrow> key_ok (us_key (y_S y))) \<and>
     sessions None (y_log y) = Some (pc_session (y_pc y)) \<and>
     (lost_since (y_log y) \<longrightarrow> us_disc_sem (y_S y) \<or> (\<exists>h. y_pc y = AtClose h))"

text \<open>The fields the invariant reads, besides the program counter and the log.\<close>

definition usb_core :: "usb_state \<Rightarrow> nat option \<times> bool \<times> bool \<times> bool \<times> string" where
  "usb_core S = (us_cdc S, us_ready S, us_connected S, us_disc_sem S, us_key S)"

lemma usb_inv_core:
  "usb_core (y_S y') = usb_core (y_S y) \<Longrightarrow> y_pc y' = y_pc y \<Longrightarrow> sessions None (y_log y') = sessions None (y_log y) \<Longrightarrow>
    lost_since (y_log y') = lost_since (y_log y) \<Longrightarrow> usb_inv y \<Longrightarrow> usb_inv y'"
  unfolding usb_inv_def usb_core_def prod.inject by (elim conjE) simp

lemma core_new_dev: "usb_core (usb_new_dev_cb d S) = usb_core S"
  by (simp add: usb_new_dev_cb_def usb_core_def Let_def split: option.splits prod.splits)

lemma core_apply: "usb_core (fst (snd (usb_apply_lc D l src sw))) = usb_core (fst sw)"
  by (simp add: usb_apply_lc_def usb_core_def split: prod.splits)

lemma core_data: "usb_core (fst (usb_data_cb rx d sw)) = usb_core (fst sw)"
  by (simp add: usb_data_cb_def usb_core_def)

lemma core_revert: "usb_core (fst (usb_op_revert_line_coding D N sw)) = usb_core (fst sw)"
  by (simp add: usb_op_revert_line_coding_def core_apply split: prod.splits)

lemma core_stick_apply: "usb_core (fst (stick_apply D N h vcp sw)) = usb_core (fst sw)"
proof -
  obtain l src where r: "usb_resolve N (us_key (fst sw)) (snd sw) = (l, src)" by (metis surj_pair)
  obtain e S1 w1 where a: "usb_apply_lc D l src sw = (e, (S1, w1))" by (metis surj_pair)
  show ?thesis using core_apply [of D l src sw] by (simp add: stick_apply_def r a)
qed

lemma with_sw_simps [simp]:
  "y_S (with_sw f y) = fst (f (y_S y, y_w y))" "y_pc (with_sw f y) = y_pc y" "y_log (with_sw f y) = y_log y"
  "y_tx (with_sw f y) = y_tx y" "y_w (with_sw f y) = snd (f (y_S y, y_w y))"
  by (simp_all add: with_sw_def split: prod.splits)

lemma event_inv: "usb_inv y \<Longrightarrow> usb_inv (note_event ev (y\<lparr>y_S := usb_event_cb ev (y_S y)\<rparr>))"
proof (cases ev)
  case CDC_ACM_HOST_DEVICE_DISCONNECTED
  then show "usb_inv y \<Longrightarrow> ?thesis" by (simp add: usb_inv_def usb_event_cb_def note_event_def sessions_append)
qed (simp_all add: usb_event_cb_def note_event_def)

lemma stick_inv:
  assumes "usb_inv y" and "stick_run D N down y = Some y'"
  shows "usb_inv y'"
proof (cases "y_pc y")
  case (AtApply h vcp)
  obtain S1 w1 where a: "stick_apply D N h vcp (y_S y, y_w y) = (S1, w1)" by (metis surj_pair)
  have "usb_core S1 = usb_core (y_S y)" using core_stick_apply [of D N h vcp "(y_S y, y_w y)"] a by simp
  then show ?thesis using assms AtApply a
    by (auto simp: stick_run_def usb_inv_def usb_core_def split: if_splits)
next
  case (AtOpen vid pid)
  obtain e h kind vcp w1 where o: "open_dispatch D vid pid (y_w y) = ((e, h), kind, vcp, w1)"
    by (metis surj_pair)
  show ?thesis
    using assms AtOpen o by (cases "e = ESP_OK") (simp_all add: stick_run_def usb_inv_def Let_def, auto)
next
  case AtConnect
  then show ?thesis using assms by (auto simp: stick_run_def usb_inv_def Let_def sessions_append split: if_splits)
next
  case AtRetry
  then show ?thesis using assms by (auto simp: stick_run_def usb_inv_def Let_def)
next
  case (AtPublish vid pid h kind vcp)
  then show ?thesis
    using assms by (auto simp: stick_run_def usb_inv_def Let_def stick_publish_def derive_key_ok sessions_append)
next
  case (AtReady h)
  then show ?thesis using assms by (auto simp: stick_run_def usb_inv_def Let_def)
next
  case (AtDisconnect h)
  then show ?thesis using assms
    by (auto simp: stick_run_def usb_inv_def Let_def stick_clear_def split: if_splits)
next
  case (AtClose h)
  then show ?thesis using assms by (auto simp: stick_run_def usb_inv_def Let_def sessions_append)
qed

lemma usb_step_inv: "usb_step D N down y y' \<Longrightarrow> usb_inv y \<Longrightarrow> usb_inv y'"
proof (induction rule: usb_step.induct)
  case (step_tx_end y y')
  obtain h d where t: "y_tx y = Some (h, d)" using step_tx_end(1) by (auto simp: tx_end_def)
  obtain e w1 where c: "cdc_tx D h d (y_w y) = (e, w1)" by (metis surj_pair)
  let ?S = "if e = ESP_OK then (y_S y)\<lparr>us_tx_bytes := us_tx_bytes (y_S y) + of_nat (length d)\<rparr> else y_S y"
  have y': "y' = y\<lparr>y_S := ?S, y_w := w1, y_tx := None, y_log := y_log y @ [LogTx h]\<rparr>"
    using step_tx_end(1) t c by (simp add: tx_end_def)
  have "sessions None (y_log y) = Some (pc_session (y_pc y))"
    using step_tx_end(2) by (simp add: usb_inv_def)
  then have "sessions None (y_log y @ [LogTx h]) = sessions None (y_log y)"
    by (simp add: sessions_append)
  then show ?case unfolding y'
    by (intro usb_inv_core [OF _ _ _ _ step_tx_end(2)]) (simp_all add: usb_core_def)
next
  case (step_tx_begin d y y')
  then show ?case by (auto simp: tx_begin_def usb_inv_def split: if_splits option.splits)
next
  case (step_stick y y')
  then show ?case by (auto intro: stick_inv)
next
  case (step_new_dev y d)
  show ?case by (rule usb_inv_core [OF _ _ _ _ step_new_dev]) (simp_all add: core_new_dev)
next
  case (step_event y ev)
  then show ?case by (rule event_inv)
next
  case (step_rx y rx d)
  show ?case by (rule usb_inv_core [OF _ _ _ _ step_rx]) (simp_all add: core_data)
next
  case (step_apply y l src)
  show ?case by (rule usb_inv_core [OF _ _ _ _ step_apply(2)]) (simp_all add: core_apply)
next
  case (step_revert y)
  show ?case by (rule usb_inv_core [OF _ _ _ _ step_revert(2)]) (simp_all add: core_revert)
qed

lemma usb_init_inv: "usb_inv (source_usb_init w)"
  by (simp add: usb_inv_def source_usb_init_def)

text \<open>C13: However callbacks, senders and the stick task interleave: the source is ready only while a handle is
  open; the loss of a device that the driver reports at any time after the task has taken it up, also while it is being
  opened, wakes the task to end the session once it waits there; the key of an open device is a valid store key and
  plain JSON text; and every session ends with the notice to the sinks before the next one opens.\<close>
theorem usb_invariant:
  assumes "(usb_step D N down)\<^sup>*\<^sup>* (source_usb_init w) y"
  shows "(us_ready (y_S y) \<longrightarrow> us_cdc (y_S y) \<noteq> None) \<and>
    (\<forall>h. y_pc y = AtDisconnect h \<and> (lost_since (y_log y) \<or> \<not> us_connected (y_S y)) \<longrightarrow>
       map_option y_pc (stick_run D N down y) = Some (AtClose h)) \<and>
    (us_cdc (y_S y) \<noteq> None \<longrightarrow> valid_key (us_key (y_S y)) \<and> list_all plain (us_key (y_S y))) \<and>
    sessions None (y_log y) \<noteq> None"
proof -
  have "usb_inv y" using assms
    by (induction rule: rtranclp_induct) (auto intro: usb_step_inv usb_init_inv)
  then show ?thesis by (auto simp: usb_inv_def key_ok_def stick_run_def Let_def)
qed

text \<open>A driver that opens every device, with the next handle as its world next to a store in memory.\<close>

definition cdc_demo :: "('a \<times> nat) cdc_api" where
  "cdc_demo =
     \<lparr>cdc_open = (\<lambda>k v p w. ((ESP_OK, snd w), (fst w, snd w + 1))), cdc_lc_set = (\<lambda>h l w. (ESP_OK, w)),
      cdc_ctrl_lines = (\<lambda>h w. (ESP_OK, w)), cdc_tx = (\<lambda>h d w. (ESP_OK, w)), cdc_close = (\<lambda>h w. w)\<rparr>"

definition nvs_none :: "'w nvs_api" where
  "nvs_none =
     \<lparr>nvs_open = (\<lambda>ns m w. ESP_ERR_NOT_FOUND), nvs_get_u8 = (\<lambda>ns k w. None), nvs_get_u16 = (\<lambda>ns k w. None),
      nvs_get_u32 = (\<lambda>ns k w. None), nvs_get_str = (\<lambda>ns k c w. None), nvs_get_blob = (\<lambda>ns k c w. None),
      nvs_set_u8 = (\<lambda>ns k v w. (ESP_FAIL, w)), nvs_set_u16 = (\<lambda>ns k v w. (ESP_FAIL, w)),
      nvs_set_u32 = (\<lambda>ns k v w. (ESP_FAIL, w)), nvs_set_str = (\<lambda>ns k v w. (ESP_FAIL, w)),
      nvs_set_blob = (\<lambda>ns k v w. (ESP_FAIL, w)), nvs_erase_key = (\<lambda>ns k w. (ESP_FAIL, w)),
      nvs_commit = (\<lambda>ns w. (ESP_FAIL, w))\<rparr>"

definition ftdi_dev :: usb_new_dev where
  "ftdi_dev = \<lparr>nd_desc = Some (0x0403, 0x6001), nd_info = Some (None, None, Some (6, [65, 66]))\<rparr>"

lemma stick_steps:
  "stick_run D N down y = Some y1 \<Longrightarrow> (usb_step D N down)\<^sup>*\<^sup>* y1 y' \<Longrightarrow> (usb_step D N down)\<^sup>*\<^sup>* y y'"
  by (rule converse_rtranclp_into_rtranclp [of "usb_step D N down" y y1]) (rule step_stick)

lemma new_dev_steps:
  "(usb_step D N down)\<^sup>*\<^sup>* (y\<lparr>y_S := usb_new_dev_cb d (y_S y)\<rparr>) y' \<Longrightarrow> (usb_step D N down)\<^sup>*\<^sup>* y y'"
  by (rule converse_rtranclp_into_rtranclp [of "usb_step D N down" y, OF step_new_dev])

text \<open>From the connect semaphore to the open device.\<close>

lemma open_run:
  assumes "y_pc y = AtConnect" and "us_conn_sem (y_S y)"
    and "cdc_open D (dispatch_kind (us_vid (y_S y))) (us_vid (y_S y)) (us_pid (y_S y)) (y_w y) = ((ESP_OK, h), w1)"
  shows "\<exists>y'. (usb_step D N down)\<^sup>*\<^sup>* y y' \<and>
    y_pc y' = AtApply h (dispatch_kind (us_vid (y_S y)) \<noteq> CDC_ACM) \<and> us_serial (y_S y') = us_serial (y_S y) \<and>
    us_key (y_S y') = derive_key (us_serial (y_S y)) (us_vid (y_S y)) (us_pid (y_S y)) SERIALCFG_KEY_LEN"
proof -
  let ?S = "y_S y"
  let ?S1 = "?S\<lparr>us_conn_sem := False, us_disc_sem := False\<rparr>"
  let ?k = "dispatch_kind (us_vid ?S)"
  let ?S2 = "stick_publish (us_vid ?S) (us_pid ?S) h ?k (?k \<noteq> CDC_ACM) ?S1"
  have 1: "stick_run D N down y = Some (y\<lparr>y_S := ?S1, y_pc := AtOpen (us_vid ?S) (us_pid ?S), y_log := y_log y @ [LogWake]\<rparr>)"
    (is "_ = Some ?y1")
    using assms by (simp add: stick_run_def Let_def)
  have 2: "stick_run D N down ?y1 =
      Some (?y1\<lparr>y_w := w1, y_pc := AtPublish (us_vid ?S) (us_pid ?S) h ?k (?k \<noteq> CDC_ACM)\<rparr>)" (is "_ = Some ?y2")
    using assms by (simp add: stick_run_def Let_def open_dispatch_def)
  have 3: "stick_run D N down ?y2 = Some (?y2\<lparr>y_S := ?S2, y_pc := AtApply h (?k \<noteq> CDC_ACM),
      y_log := y_log ?y2 @ [LogOpen h (us_key ?S2)]\<rparr>)" (is "_ = Some ?y3")
    by (simp add: stick_run_def Let_def)
  have "(usb_step D N down)\<^sup>*\<^sup>* y ?y3"
    by (rule stick_steps [OF 1], rule stick_steps [OF 2], rule stick_steps [OF 3]) simp
  moreover have "y_pc ?y3 = AtApply h (?k \<noteq> CDC_ACM)" "us_serial (y_S ?y3) = us_serial ?S"
    "us_key (y_S ?y3) = derive_key (us_serial ?S) (us_vid ?S) (us_pid ?S) SERIALCFG_KEY_LEN"
    by (simp_all add: stick_publish_def)
  ultimately show ?thesis by blast
qed

lemma usb_invariant_witness:
  "\<exists>y. (usb_step cdc_demo nvs_none id)\<^sup>*\<^sup>* (source_usb_init ((), 7)) y \<and> y_pc y = AtApply 7 True \<and>
     us_key (y_S y) = ''AB'' \<and> sessions None (y_log y) \<noteq> None"
proof -
  let ?y = "source_usb_init ((), 7 :: nat)"
  let ?y1 = "?y\<lparr>y_S := usb_new_dev_cb ftdi_dev (y_S ?y)\<rparr>"
  have "char_of (65 :: nat) = CHR ''A''" "char_of (66 :: nat) = CHR ''B''" by code_simp+
  then have f: "us_vid (y_S ?y1) = 0x0403" "us_serial (y_S ?y1) = ''AB''" "y_pc ?y1 = AtConnect"
    "us_conn_sem (y_S ?y1)" "y_w ?y1 = ((), 7)"
    by (simp_all add: source_usb_init_def usb_new_dev_cb_def ftdi_dev_def Let_def str_desc_ascii_def
        SERIALCFG_KEY_LEN_def char_of_byte_def)
  have d: "dispatch_kind (us_vid (y_S ?y1)) = FTDI" using f(1) by (simp add: dispatch_kind_def)
  have o: "cdc_open cdc_demo (dispatch_kind (us_vid (y_S ?y1))) (us_vid (y_S ?y1)) (us_pid (y_S ?y1)) (y_w ?y1)
      = ((ESP_OK, 7), ((), 8))" by (simp add: cdc_demo_def f(5))
  have k: "derive_key ''AB'' v p SERIALCFG_KEY_LEN = ''AB''" for v p
    by (simp add: derive_key_def SERIALCFG_KEY_LEN_def key_char_def Let_def)
  obtain y' where y': "(usb_step cdc_demo nvs_none id)\<^sup>*\<^sup>* ?y1 y'" "y_pc y' = AtApply 7 True" "us_key (y_S y') = ''AB''"
    using open_run [OF f(3,4) o, of nvs_none id] unfolding d f(2) k by auto
  have r: "(usb_step cdc_demo nvs_none id)\<^sup>*\<^sup>* ?y y'" using y'(1) by (rule new_dev_steps)
  from usb_invariant [OF r] r y'(2,3) show ?thesis by blast
qed

text \<open>Once a coding was saved for a device, opening the device puts it in force with NVS provenance, for a bridge
  chip also on the wire, and so does the release of an RFC 2217 controller.\<close>
theorem usb_open_effective:
  assumes "nvs_laws N" and "tbl_inv (tbl N w)"
    and "serialcfg_upsert N (us_key (stick_publish vid pid h kind vcp S)) l w = (ESP_OK, w')"
    and "fst (usb_apply_lc D l 1 (stick_publish vid pid h kind vcp S, w')) = ESP_OK"
  shows "us_lc (fst (stick_apply D N h vcp (stick_publish vid pid h kind vcp S, w'))) = l \<and>
    us_lc_source (fst (stick_apply D N h vcp (stick_publish vid pid h kind vcp S, w'))) = 1 \<and>
    usb_op_get_line_coding (usb_op_revert_line_coding D N (stick_publish vid pid h kind vcp S, w')) = l \<and>
    (vcp \<longrightarrow> fst (cdc_lc_set D h l w') = ESP_OK \<and>
       snd (stick_apply D N h vcp (stick_publish vid pid h kind vcp S, w')) = snd (cdc_lc_set D h l w'))"
proof -
  let ?S = "stick_publish vid pid h kind vcp S"
  have ok: "key_ok (us_key ?S)" by (simp add: stick_publish_def derive_key_ok)
  then have key: "valid_key (us_key ?S)" by (simp add: key_ok_def)
  have inv: "scfg_inv (N, w)" using assms(1,2) by (simp add: scfg_inv_def)
  have "scfg_upsert (us_key ?S) l (N, w) = (ESP_OK, (N, w'))" using assms(3) by (simp add: scfg_upsert_def)
  from scfg.lookup_upsert [OF inv key this] have lk: "serialcfg_lookup N w' (us_key ?S) = Some l"
    by (simp add: scfg_lookup_def)
  with key have res: "usb_resolve N (us_key ?S) w' = (l, 1)"
    and res2: "usb_resolve N (fmt_s SERIALCFG_KEY_LEN (us_key ?S)) w' = (l, 1)"
    by (simp_all add: usb_resolve_def valid_key_def)
  obtain w1 where a: "usb_apply_lc D l 1 (?S, w') = (ESP_OK, (?S\<lparr>us_lc := l, us_lc_source := 1\<rparr>, w1))"
    using assms(4) by (auto simp: usb_apply_lc_def split: prod.splits)
  have d: "fst (cdc_lc_set D h l w') = ESP_OK \<and> w1 = snd (cdc_lc_set D h l w')" if vcp
    using a that by (auto simp: usb_apply_lc_def stick_publish_def split: prod.splits if_splits)
  have s: "stick_apply D N h vcp (?S, w') =
      (?S\<lparr>us_lc := l, us_lc_source := 1\<rparr>, if vcp then w1 else snd (cdc_ctrl_lines D h w1))"
    by (simp add: stick_apply_def res a)
  have r: "usb_op_revert_line_coding D N (?S, w') = (?S\<lparr>us_lc := l, us_lc_source := 1\<rparr>, w1)"
    by (simp add: usb_op_revert_line_coding_def res2 a)
  show ?thesis unfolding s r using d by (simp add: usb_op_get_line_coding_def)
qed

lemma upsert_ram_ok: "k \<noteq> [] \<Longrightarrow> fst (serialcfg_upsert nvs_ram k l w) = ESP_OK"
  by (simp add: serialcfg_upsert_def store_commit_def store_slot_def nvs_ram_def)

definition cdc_null :: "'w cdc_api" where
  "cdc_null =
     \<lparr>cdc_open = (\<lambda>k v p w. ((ESP_OK, 1), w)), cdc_lc_set = (\<lambda>h l w. (ESP_OK, w)),
      cdc_ctrl_lines = (\<lambda>h w. (ESP_OK, w)), cdc_tx = (\<lambda>h d w. (ESP_OK, w)), cdc_close = (\<lambda>h w. w)\<rparr>"

lemma usb_open_effective_witness:
  "us_lc (fst (stick_apply cdc_null nvs_ram 1 True
     (stick_publish 0x0403 0x6001 1 FTDI True (y_S (source_usb_init ())),
      snd (serialcfg_upsert nvs_ram (us_key (stick_publish 0x0403 0x6001 1 FTDI True (y_S (source_usb_init ()))))
        zero_lc Map.empty)))) = zero_lc"
proof -
  let ?S = "stick_publish 0x0403 0x6001 1 FTDI True (y_S (source_usb_init ()))"
  let ?r = "serialcfg_upsert nvs_ram (us_key ?S) zero_lc Map.empty"
  have "us_key ?S \<noteq> []" using derive_key_ok by (auto simp: stick_publish_def key_ok_def valid_key_def)
  then have r: "?r = (ESP_OK, snd ?r)" using upsert_ram_ok by (simp add: prod_eq_iff)
  have a: "fst (usb_apply_lc cdc_null zero_lc 1 (?S, snd ?r)) = ESP_OK"
    by (simp add: usb_apply_lc_def stick_publish_def cdc_null_def)
  show ?thesis
    using usb_open_effective [OF nvs_ram_laws _ r a] by (simp add: tbl_empty_ram tbl_inv_empty)
qed

text \<open>A device that is attached after the loss of the former one was signalled, but before the stick task has
  closed it, loses its serial number: the task clears it, and the device is opened under the key of
  its ids.  Attached after the close, it keeps the serial number as its key.\<close>
theorem usb_serial_race:
  fixes D :: "'w cdc_api"
  assumes "y_pc y = AtDisconnect h" and "us_disc_sem (y_S y)" and "\<not> us_connected (y_S y)"
    and "d = \<lparr>nd_desc = Some (v, p), nd_info = Some (m, pr, sn)\<rparr>"
    and "cdc_open D (dispatch_kind v) v p (down (cdc_close D h (y_w y))) = ((ESP_OK, h2), w2)"
  shows "(\<exists>y'. (usb_step D N down)\<^sup>*\<^sup>* (y\<lparr>y_S := usb_new_dev_cb d (y_S y)\<rparr>) y' \<and>
      y_pc y' = AtApply h2 (dispatch_kind v \<noteq> CDC_ACM) \<and>
      us_key (y_S y') = derive_key [] v p SERIALCFG_KEY_LEN) \<and>
    (\<exists>y1 y2. (usb_step D N down)\<^sup>*\<^sup>* y y1 \<and> y_pc y1 = AtConnect \<and>
      (usb_step D N down)\<^sup>*\<^sup>* (y1\<lparr>y_S := usb_new_dev_cb d (y_S y1)\<rparr>) y2 \<and>
      y_pc y2 = AtApply h2 (dispatch_kind v \<noteq> CDC_ACM) \<and>
      us_key (y_S y2) = derive_key (str_desc_ascii sn SERIALCFG_KEY_LEN) v p SERIALCFG_KEY_LEN)"
proof -
  have close: "\<exists>y'. (usb_step D N down)\<^sup>*\<^sup>* z y' \<and> y_pc y' = AtConnect \<and> y_S y' = stick_clear (y_S z) \<and>
      y_w y' = down (cdc_close D h (y_w z))" if "y_pc z = AtDisconnect h" "us_disc_sem (y_S z)" for z :: "'w usb_sys"
  proof -
    have 1: "stick_run D N down z = Some (z\<lparr>y_S := stick_clear (y_S z), y_pc := AtClose h\<rparr>)" (is "_ = Some ?z1")
      using that by (simp add: stick_run_def Let_def)
    have 2: "stick_run D N down ?z1 = Some (?z1\<lparr>y_w := down (cdc_close D h (y_w ?z1)), y_pc := AtConnect,
        y_log := y_log ?z1 @ [LogClose h, LogDown]\<rparr>)" (is "_ = Some ?z2")
      by (simp add: stick_run_def Let_def)
    have "(usb_step D N down)\<^sup>*\<^sup>* z ?z2" by (rule stick_steps [OF 1], rule stick_steps [OF 2]) simp
    then show ?thesis by (intro exI [of _ ?z2]) simp
  qed
  have nd: "us_vid (usb_new_dev_cb d S) = v \<and> us_pid (usb_new_dev_cb d S) = p \<and> us_conn_sem (usb_new_dev_cb d S) \<and>
      us_disc_sem (usb_new_dev_cb d S) = us_disc_sem S \<and>
      us_serial (usb_new_dev_cb d S) = str_desc_ascii sn SERIALCFG_KEY_LEN" if "\<not> us_connected S" for S
    using that by (simp add: usb_new_dev_cb_def assms(4) Let_def)
  have first: "\<exists>y'. (usb_step D N down)\<^sup>*\<^sup>* (y\<lparr>y_S := usb_new_dev_cb d (y_S y)\<rparr>) y' \<and>
      y_pc y' = AtApply h2 (dispatch_kind v \<noteq> CDC_ACM) \<and> us_key (y_S y') = derive_key [] v p SERIALCFG_KEY_LEN"
  proof -
    let ?z = "y\<lparr>y_S := usb_new_dev_cb d (y_S y)\<rparr>"
    obtain z' where z': "(usb_step D N down)\<^sup>*\<^sup>* ?z z'" "y_pc z' = AtConnect"
      "y_S z' = stick_clear (usb_new_dev_cb d (y_S y))" "y_w z' = down (cdc_close D h (y_w y))"
      using close [of ?z] assms(1,2) nd [OF assms(3)] by auto
    have "us_conn_sem (y_S z')" "us_vid (y_S z') = v" "us_pid (y_S z') = p" "us_serial (y_S z') = []"
      using nd [OF assms(3)] by (simp_all add: z'(3) stick_clear_def)
    with open_run [of z' D h2 w2 N down] z'(2,4) assms(5) obtain y' where
      "(usb_step D N down)\<^sup>*\<^sup>* z' y'" "y_pc y' = AtApply h2 (dispatch_kind v \<noteq> CDC_ACM)"
      "us_key (y_S y') = derive_key [] v p SERIALCFG_KEY_LEN" by auto
    with z'(1) show ?thesis by (meson rtranclp_trans)
  qed
  obtain y1 where y1: "(usb_step D N down)\<^sup>*\<^sup>* y y1" "y_pc y1 = AtConnect" "y_S y1 = stick_clear (y_S y)"
    "y_w y1 = down (cdc_close D h (y_w y))" using close [OF assms(1,2)] by blast
  let ?y2 = "y1\<lparr>y_S := usb_new_dev_cb d (y_S y1)\<rparr>"
  have "\<not> us_connected (y_S y1)" by (simp add: y1(3) stick_clear_def)
  from nd [OF this] open_run [of ?y2 D h2 w2 N down] y1(2,4) assms(5) obtain y2 where
    "(usb_step D N down)\<^sup>*\<^sup>* ?y2 y2" "y_pc y2 = AtApply h2 (dispatch_kind v \<noteq> CDC_ACM)"
    "us_key (y_S y2) = derive_key (str_desc_ascii sn SERIALCFG_KEY_LEN) v p SERIALCFG_KEY_LEN" by auto
  with first y1(1,2) show ?thesis by blast
qed

definition lost_sys :: "(unit \<times> nat) usb_sys" where
  "lost_sys = (source_usb_init ((), 8))\<lparr>y_S := (y_S (source_usb_init ()))\<lparr>us_cdc := Some 7, us_disc_sem := True\<rparr>,
     y_pc := AtDisconnect 7, y_log := [LogOpen 7 ''AB'']\<rparr>"

lemma usb_serial_race_witness:
  "\<exists>y'. (usb_step cdc_demo nvs_none id)\<^sup>*\<^sup>* (lost_sys\<lparr>y_S := usb_new_dev_cb ftdi_dev (y_S lost_sys)\<rparr>) y' \<and>
      y_pc y' = AtApply 8 True \<and> us_key (y_S y') = derive_key [] 0x0403 0x6001 SERIALCFG_KEY_LEN"
proof -
  have "y_pc lost_sys = AtDisconnect 7" "us_disc_sem (y_S lost_sys)" "\<not> us_connected (y_S lost_sys)"
    by (simp_all add: lost_sys_def source_usb_init_def)
  moreover have "cdc_open cdc_demo (dispatch_kind 0x0403) 0x0403 0x6001 (id (cdc_close cdc_demo 7 (y_w lost_sys))) =
      ((ESP_OK, 8), ((), 9))"
    by (simp add: cdc_demo_def lost_sys_def source_usb_init_def)
  moreover have "dispatch_kind 0x0403 = FTDI" by (simp add: dispatch_kind_def)
  ultimately show ?thesis
    using usb_serial_race [where y = lost_sys and d = ftdi_dev and v = "0x0403" and p = "0x6001" and m = None
        and pr = None and sn = "Some (6, [65, 66])" and D = cdc_demo and down = id and h = "7" and ?h2.0 = "8"
        and ?w2.0 = "((), 9)" and N = nvs_none]
    by (simp add: ftdi_dev_def)
qed

text \<open>A transmission that starts before the stick task sees the loss of its device still uses the handle after the
  task has closed it: the mutex that the transmission holds is not taken for the close.\<close>
theorem usb_tx_after_close:
  fixes d :: "u8 list"
  assumes "y_pc y = AtDisconnect h" and "us_cdc (y_S y) = Some h" and "us_disc_sem (y_S y)"
    and "y_tx y = None" and "d \<noteq> []"
  shows "\<exists>y'. (usb_step D N down)\<^sup>*\<^sup>* y y' \<and> y_log y' = y_log y @ [LogClose h, LogDown, LogTx h]"
proof -
  let ?y1 = "y\<lparr>y_tx := Some (h, d)\<rparr>"
  have 1: "tx_begin d y = Some ?y1" using assms by (simp add: tx_begin_def)
  have 2: "stick_run D N down ?y1 = Some (?y1\<lparr>y_S := stick_clear (y_S y), y_pc := AtClose h\<rparr>)" (is "_ = Some ?y2")
    using assms by (simp add: stick_run_def Let_def)
  have 3: "stick_run D N down ?y2 = Some (?y2\<lparr>y_w := down (cdc_close D h (y_w y)), y_pc := AtConnect,
      y_log := y_log y @ [LogClose h, LogDown]\<rparr>)" (is "_ = Some ?y3")
    by (simp add: stick_run_def Let_def)
  obtain y4 where 4: "tx_end D ?y3 = Some y4" "y_log y4 = y_log y @ [LogClose h, LogDown, LogTx h]"
    by (simp add: tx_end_def split: prod.splits)
  have "(usb_step D N down)\<^sup>*\<^sup>* ?y1 ?y3" by (rule stick_steps [OF 2], rule stick_steps [OF 3]) simp
  moreover have "usb_step D N down y ?y1" by (rule step_tx_begin [OF 1])
  moreover have "usb_step D N down ?y3 y4" by (rule step_tx_end [OF 4(1)])
  ultimately have "(usb_step D N down)\<^sup>*\<^sup>* y y4"
    by (meson converse_rtranclp_into_rtranclp rtranclp.rtrancl_into_rtrancl)
  with 4(2) show ?thesis by blast
qed

lemma usb_tx_after_close_witness:
  "\<exists>y'. (usb_step cdc_demo nvs_none id)\<^sup>*\<^sup>* lost_sys y' \<and>
     y_log y' = [LogOpen 7 ''AB'', LogClose 7, LogDown, LogTx 7]"
  using usb_tx_after_close [of lost_sys 7 "[1]" cdc_demo nvs_none id]
  by (simp add: lost_sys_def source_usb_init_def)

end
