(* ===== verification/Radio.thy ===== *)
theory Radio
  imports Cdc_Prelude
begin

text \<open>
  Updating the radio SoC of the gateway boards: staging an image over HTTP (\<^verbatim>\<open>h_radio_body\<close> in
  \<^verbatim>\<open>webui.c\<close>) and bringing the radio in sync with the staged image at boot (\<^verbatim>\<open>radio_flash.c\<close>).  The
  flash partition and the serial flasher are the parameters \<open>A\<close> and \<open>L\<close>; the layout of the IDF's
  application descriptor is part of \<open>A\<close>.  The events of the body socket are a list, and running out
  of them stands for a reset in the middle of the upload.
\<close>

subsection \<open>The partition\<close>

text \<open>\<open>part_bytes\<close> is the mapped view of the partition.\<close>

record 'w part_api =
  part_size :: nat
  part_read :: "nat \<Rightarrow> nat \<Rightarrow> 'w \<Rightarrow> u8 list option"
  part_write :: "nat \<Rightarrow> u8 list \<Rightarrow> 'w \<Rightarrow> esp_err \<times> 'w"
  part_erase :: "nat \<Rightarrow> nat \<Rightarrow> 'w \<Rightarrow> esp_err \<times> 'w"
  part_bytes :: "'w \<Rightarrow> u8 list"
  desc_size :: nat
  desc_magic_ok :: "u8 list \<Rightarrow> bool"

text \<open>
  What the handlers rely on: reads return the contents; a successful erase leaves 0xFF; a write
  changes nothing outside its range, and a successful one into erased flash stores its bytes.
\<close>

definition part_laws :: "'w part_api \<Rightarrow> bool" where
  "part_laws A \<longleftrightarrow>
     (\<forall>w. length (part_bytes A w) = part_size A) \<and>
     (\<forall>off n w bs. part_read A off n w = Some bs \<longrightarrow> bs = take n (drop off (part_bytes A w))) \<and>
     (\<forall>w. fst (part_erase A 0 (part_size A) w) = ESP_OK \<longrightarrow>
        part_bytes A (snd (part_erase A 0 (part_size A) w)) = replicate (part_size A) 0xFF) \<and>
     (\<forall>off d w. let b = part_bytes A w; b' = part_bytes A (snd (part_write A off d w)) in
        take off b' = take off b \<and> drop (off + length d) b' = drop (off + length d) b \<and>
        (fst (part_write A off d w) = ESP_OK \<longrightarrow> off + length d \<le> part_size A \<longrightarrow>
           take (length d) (drop off b) = replicate (length d) 0xFF \<longrightarrow>
           take (length d) (drop off b') = d))"

subsection \<open>Staging\<close>

definition RADIO_APP_IMAGE_ADDR :: nat where "RADIO_APP_IMAGE_ADDR = 0x20000"

definition RADIO_MIN_IMAGE :: "'w part_api \<Rightarrow> nat" where
  "RADIO_MIN_IMAGE A = RADIO_APP_IMAGE_ADDR + 0x20 + desc_size A"

definition SEC0 :: nat where "SEC0 = 4096"

definition RECV_BUF :: nat where "RECV_BUF = 1024"

text \<open>One \<^verbatim>\<open>httpd_req_recv\<close>: at most so many bytes, a timeout, or an error.\<close>

datatype recv_ev = Got nat | RecvTimeout | RecvErr

text \<open>The outcome of the handler: an HTTP error, a reset while receiving, or a staged image.\<close>

datatype stage_res = Rejected nat | Interrupted | Staged

definition chip_of :: "u8 list \<Rightarrow> nat" where
  "chip_of hdr = unat (hdr ! 12) + 256 * unat (hdr ! 13)"

text \<open>The chip id of the image staged so far, if there is one.\<close>

definition old_chip :: "'w part_api \<Rightarrow> 'w \<Rightarrow> nat option" where
  "old_chip A w =
     (case part_read A 0 16 w of
        Some h \<Rightarrow> if h ! 0 = 0xE9 then Some (chip_of h) else None | None \<Rightarrow> None)"

text \<open>The check of the held-back sector when it has filled up; \<open>None\<close> lets the image pass.\<close>

definition hdr_check :: "nat option \<Rightarrow> u8 list \<Rightarrow> stage_res option" where
  "hdr_check old sec0 =
     (if sec0 ! 0 \<noteq> 0xE9 then Some (Rejected 400)
      else if old \<noteq> None \<and> chip_of sec0 \<noteq> the old then Some (Rejected 400) else None)"

text \<open>
  The state of the receive loop: the part of the body not yet received, the counters, and the
  held-back sector as far as it is filled.
\<close>

record 'w stage_st =
  ss_rest :: "u8 list"
  ss_remaining :: nat
  ss_received :: nat
  ss_sec0 :: "u8 list"
  ss_world :: 'w

text \<open>One receive call that returned data, or no data; a result stops the loop.\<close>

definition stage_chunk ::
  "'w part_api \<Rightarrow> nat option \<Rightarrow> nat \<Rightarrow> 'w stage_st \<Rightarrow> stage_res option \<times> 'w stage_st" where
  "stage_chunk A old n s =
     (let buf = take (min n (min RECV_BUF (ss_remaining s))) (ss_rest s);
          r = length buf;
          rcv = ss_received s;
          off = (if rcv < SEC0 then min (SEC0 - rcv) r else 0);
          sec0 = ss_sec0 s @ take off buf;
          s1 = s\<lparr>ss_sec0 := sec0\<rparr>
      in if r = 0 then (Some (Rejected 500), s)
         else if rcv < SEC0 \<and> rcv + off \<ge> SEC0 \<and> hdr_check old sec0 \<noteq> None
         then (hdr_check old sec0, s1)
         else
           let wr = (if r - off > 0 then part_write A (rcv + off) (drop off buf) (ss_world s)
                     else (ESP_OK, ss_world s))
           in if fst wr \<noteq> ESP_OK then (Some (Rejected 500), s1\<lparr>ss_world := snd wr\<rparr>)
              else (None, s1\<lparr>ss_world := snd wr, ss_rest := drop r (ss_rest s),
                ss_remaining := ss_remaining s - r, ss_received := rcv + r\<rparr>))"

fun stage_loop ::
  "'w part_api \<Rightarrow> nat option \<Rightarrow> recv_ev list \<Rightarrow> 'w stage_st \<Rightarrow> stage_res \<times> 'w stage_st" where
  "stage_loop A old [] s = (if ss_remaining s = 0 then Staged else Interrupted, s)"
| "stage_loop A old (ev # evs) s =
     (if ss_remaining s = 0 then (Staged, s)
      else case ev of
        RecvTimeout \<Rightarrow> stage_loop A old evs s
      | RecvErr \<Rightarrow> (Rejected 500, s)
      | Got n \<Rightarrow>
          (case stage_chunk A old n s of
             (Some err, s1) \<Rightarrow> (err, s1)
           | (None, s1) \<Rightarrow> stage_loop A old evs s1))"

text \<open>The handler up to the commit write: the held-back sector to commit, if all checks passed.\<close>

definition stage_body ::
  "'w part_api option \<Rightarrow> recv_ev list \<Rightarrow> u8 list \<Rightarrow> nat \<Rightarrow> 'w \<Rightarrow> stage_res \<times> (u8 list \<times> 'w)" where
  "stage_body part evs body content_len w =
     (case part of
        None \<Rightarrow> (Rejected 404, ([], w))
      | Some A \<Rightarrow>
          if content_len < RADIO_MIN_IMAGE A \<or> content_len > part_size A then (Rejected 400, ([], w))
          else
            let old = old_chip A w in
            case part_erase A 0 (part_size A) w of
              (err, w1) \<Rightarrow>
                if err \<noteq> ESP_OK then (Rejected 500, ([], w1))
                else case stage_loop A old evs \<lparr>ss_rest = body, ss_remaining = content_len,
                    ss_received = 0, ss_sec0 = [], ss_world = w1\<rparr> of
                  (res, s) \<Rightarrow>
                    (if res \<noteq> Staged then res
                     else case part_read A (RADIO_APP_IMAGE_ADDR + 0x20) (desc_size A) (ss_world s) of
                       None \<Rightarrow> Rejected 500
                     | Some d \<Rightarrow> if desc_magic_ok A d then Staged else Rejected 500,
                     (ss_sec0 s, ss_world s)))"

definition h_radio_body ::
  "'w part_api option \<Rightarrow> recv_ev list \<Rightarrow> u8 list \<Rightarrow> nat \<Rightarrow> 'w \<Rightarrow> stage_res \<times> 'w" where
  "h_radio_body part evs body content_len w =
     (case stage_body part evs body content_len w of
        (Staged, (sec0, w1)) \<Rightarrow>
          (case part_write (the part) 0 sec0 w1 of
             (err, w2) \<Rightarrow> (if err \<noteq> ESP_OK then Rejected 500 else Staged, w2))
      | (r, (sec0, w1)) \<Rightarrow> (r, w1))"

subsection \<open>Bringing the radio in sync\<close>

record 'w loader_api =
  ld_init :: "'w \<Rightarrow> bool \<times> 'w"
  ld_connect :: "'w \<Rightarrow> bool \<times> 'w"
  ld_target :: "'w \<Rightarrow> int"
  ld_rate :: "nat \<Rightarrow> 'w \<Rightarrow> bool \<times> 'w"
  ld_read :: "nat \<Rightarrow> nat \<Rightarrow> 'w \<Rightarrow> u8 list option \<times> 'w"
  ld_verify_md5 :: "nat \<Rightarrow> nat \<Rightarrow> string \<Rightarrow> 'w \<Rightarrow> bool \<times> 'w"
  ld_start :: "nat \<Rightarrow> nat \<Rightarrow> 'w \<Rightarrow> bool \<times> 'w"
  ld_write :: "u8 list \<Rightarrow> 'w \<Rightarrow> bool \<times> 'w"
  ld_finish :: "'w \<Rightarrow> bool \<times> 'w"
  ld_reset_target :: "'w \<Rightarrow> 'w"
  ld_deinit :: "'w \<Rightarrow> 'w"
  uart_release :: "'w \<Rightarrow> 'w"
  reset_pins :: "'w \<Rightarrow> 'w"
  md5 :: "u8 list \<Rightarrow> u8 list"
  desc_version :: "u8 list \<Rightarrow> string"
  desc_project :: "u8 list \<Rightarrow> string"

record radio_info =
  ri_present :: bool
  ri_target :: int
  ri_staged :: string
  ri_running :: string
  ri_project :: string
  ri_app_bytes :: nat
  ri_rewritten :: bool

definition APP_DESC_ADDR :: nat where "APP_DESC_ADDR = RADIO_APP_IMAGE_ADDR + 0x20"

definition FLASH_BLOCK_SIZE :: nat where "FLASH_BLOCK_SIZE = 1024"

definition lower_hex :: "nat \<Rightarrow> char" where
  "lower_hex d = ''0123456789abcdef'' ! (d mod 16)"

definition radio_md5_hex :: "(u8 list \<Rightarrow> u8 list) \<Rightarrow> u8 list \<Rightarrow> string" where
  "radio_md5_hex h data =
     concat (map (\<lambda>b. [lower_hex (unat b div 16), lower_hex (unat b mod 16)]) (h data))"

text \<open>The image length: the contents without the trailing 0xFF, rounded up to four bytes.\<close>

definition img_size :: "u8 list \<Rightarrow> nat" where
  "img_size img = (length (rev (dropWhile (\<lambda>b. b = 0xFF) (rev img))) + 3) div 4 * 4"

definition image_usable :: "'w part_api \<Rightarrow> u8 list \<Rightarrow> bool" where
  "image_usable A img \<longleftrightarrow>
     \<not> (img_size img \<le> APP_DESC_ADDR + desc_size A \<or> img ! 0 \<noteq> 0xE9) \<and>
     desc_magic_ok A (take (desc_size A) (drop APP_DESC_ADDR img))"

text \<open>The block loop: \<open>True\<close> when every write succeeded.\<close>

function write_loop :: "'w loader_api \<Rightarrow> u8 list \<Rightarrow> 'w \<Rightarrow> bool \<times> 'w" where
  "write_loop L rest w =
     (if rest = [] then (True, w)
      else case ld_write L (take FLASH_BLOCK_SIZE rest) w of
        (False, w1) \<Rightarrow> (False, w1)
      | (True, w1) \<Rightarrow> write_loop L (drop FLASH_BLOCK_SIZE rest) w1)"
  by pat_completeness auto

termination
  by (relation "measure (\<lambda>(L, rest, w). length rest)") (auto simp: FLASH_BLOCK_SIZE_def)

declare write_loop.simps [simp del]

text \<open>\<^verbatim>\<open>flash_start\<close>, the blocks and \<^verbatim>\<open>flash_finish\<close>; \<open>True\<close> when the radio's image was verified.\<close>

definition flash_image :: "'w loader_api \<Rightarrow> u8 list \<Rightarrow> 'w \<Rightarrow> bool \<times> 'w" where
  "flash_image L img w =
     (case ld_start L (length img) FLASH_BLOCK_SIZE w of
        (False, w1) \<Rightarrow> (False, w1)
      | (True, w1) \<Rightarrow>
          (case write_loop L img w1 of
             (False, w2) \<Rightarrow> (False, w2) | (True, w2) \<Rightarrow> ld_finish L w2))"

text \<open>From a connected loader to its shutdown; \<open>img\<close> is the mapped partition.\<close>

definition sync_connected ::
  "'w part_api \<Rightarrow> 'w loader_api \<Rightarrow> u8 list \<Rightarrow> radio_info \<times> 'w \<Rightarrow> radio_info \<times> 'w" where
  "sync_connected A L img iw =
     (let want = take (desc_size A) (drop APP_DESC_ADDR img);
          n = img_size img;
          i1 = (fst iw)\<lparr>ri_present := True, ri_target := ld_target L (snd iw)\<rparr>;
          w1 = snd (ld_rate L 460800 (snd iw));
          (have_d, w2) = ld_read L APP_DESC_ADDR (desc_size A) w1;
          i2 = (case have_d of
                  Some d \<Rightarrow> if desc_magic_ok A d
                    then i1\<lparr>ri_running := fmt_s 32 (desc_version L d), ri_project := fmt_s 32 (desc_project L d)\<rparr>
                    else i1
                | None \<Rightarrow> i1);
          app_len = n - RADIO_APP_IMAGE_ADDR;
          i3 = i2\<lparr>ri_app_bytes := app_len\<rparr>;
          want_md5 = radio_md5_hex (md5 L) (take app_len (drop RADIO_APP_IMAGE_ADDR img));
          (same, w3) = ld_verify_md5 L RADIO_APP_IMAGE_ADDR app_len want_md5 w2;
          (i4, w4) =
            (if same then (i3, w3)
             else case flash_image L (take n img) w3 of
               (True, w) \<Rightarrow> (i3\<lparr>ri_rewritten := True, ri_running := fmt_s 32 (desc_version L want),
                   ri_project := fmt_s 32 (desc_project L want)\<rparr>, w)
             | (False, w) \<Rightarrow> (i3, w))
      in (i4, reset_pins L (uart_release L (ld_deinit L (ld_reset_target L w4)))))"

definition radio_flash_sync ::
  "'w part_api option \<Rightarrow> ('w \<Rightarrow> bool) \<Rightarrow> 'w loader_api \<Rightarrow> radio_info \<times> 'w \<Rightarrow> radio_info \<times> 'w" where
  "radio_flash_sync part mappable L iw =
     (case part of
        None \<Rightarrow> iw
      | Some A \<Rightarrow>
          if \<not> mappable (snd iw) then iw
          else
            let img = part_bytes A (snd iw) in
            if \<not> image_usable A img then iw
            else
              let i1 = (fst iw)\<lparr>ri_staged :=
                    fmt_s 32 (desc_version L (take (desc_size A) (drop APP_DESC_ADDR img)))\<rparr>
              in case ld_init L (snd iw) of
                   (False, w1) \<Rightarrow> (i1, w1)
                 | (True, w1) \<Rightarrow>
                     (case ld_connect L w1 of
                        (False, w2) \<Rightarrow> (i1, reset_pins L (ld_deinit L w2))
                      | (True, w2) \<Rightarrow> sync_connected A L img (i1, w2)))"

subsection \<open>The partition while an image is staged\<close>

lemma part_len: "part_laws A \<Longrightarrow> length (part_bytes A w) = part_size A"
  by (simp add: part_laws_def)

lemma part_writeD:
  assumes "part_laws A" and "part_write A off d w = (e, w')"
  shows "take off (part_bytes A w') = take off (part_bytes A w)"
    and "e = ESP_OK \<Longrightarrow> off + length d \<le> part_size A \<Longrightarrow>
      take (length d) (drop off (part_bytes A w)) = replicate (length d) 0xFF \<Longrightarrow>
      part_bytes A w' = take off (part_bytes A w) @ d @ drop (off + length d) (part_bytes A w)"
proof -
  have *: "take off (part_bytes A w') = take off (part_bytes A w)"
    "drop (off + length d) (part_bytes A w') = drop (off + length d) (part_bytes A w)"
    "e = ESP_OK \<Longrightarrow> off + length d \<le> part_size A \<Longrightarrow>
      take (length d) (drop off (part_bytes A w)) = replicate (length d) 0xFF \<Longrightarrow>
      take (length d) (drop off (part_bytes A w')) = d"
    using assms by (auto simp: part_laws_def Let_def) (metis fst_conv snd_conv)+
  show "take off (part_bytes A w') = take off (part_bytes A w)" by (rule *(1))
  assume "e = ESP_OK" "off + length d \<le> part_size A"
    "take (length d) (drop off (part_bytes A w)) = replicate (length d) 0xFF"
  then have "take (length d) (drop off (part_bytes A w')) = d" by (rule *(3))
  then show "part_bytes A w' = take off (part_bytes A w) @ d @ drop (off + length d) (part_bytes A w)"
    using *(1,2) by (metis add.commute append_take_drop_id drop_drop)
qed

definition staged_bytes :: "'w part_api \<Rightarrow> u8 list \<Rightarrow> nat \<Rightarrow> u8 list" where
  "staged_bytes A body k =
     replicate SEC0 0xFF @ drop SEC0 (take k body) @ replicate (part_size A - max k SEC0) 0xFF"

definition stage_inv :: "'w part_api \<Rightarrow> nat option \<Rightarrow> u8 list \<Rightarrow> nat \<Rightarrow> 'w stage_st \<Rightarrow> bool" where
  "stage_inv A old body clen s \<longleftrightarrow>
     ss_remaining s + ss_received s = clen \<and> clen \<le> part_size A \<and> SEC0 \<le> clen \<and>
     ss_received s \<le> length body \<and> ss_rest s = drop (ss_received s) body \<and>
     ss_sec0 s = take (min (ss_received s) SEC0) body \<and>
     part_bytes A (ss_world s) = staged_bytes A body (ss_received s) \<and>
     (SEC0 \<le> ss_received s \<longrightarrow> hdr_check old (take SEC0 body) = None)"

definition blank :: "'w part_api \<Rightarrow> 'w \<Rightarrow> bool" where
  "blank A w \<longleftrightarrow> take SEC0 (part_bytes A w) = replicate SEC0 0xFF"

lemma stage_inv_blank: "stage_inv A old body clen s \<Longrightarrow> blank A (ss_world s)"
  by (simp add: stage_inv_def blank_def staged_bytes_def)

lemma staged_bytes_write:
  assumes "k \<le> length body" and "k + r \<le> length body" and "k + r \<le> part_size A" and "SEC0 < k + r"
    and "off = max k SEC0" and "d = drop (off - k) (take r (drop k body))"
  shows "take off (staged_bytes A body k) @ d @ drop (off + length d) (staged_bytes A body k) =
      staged_bytes A body (k + r)"
    and "take (length d) (drop off (staged_bytes A body k)) = replicate (length d) 0xFF"
    and "off + length d = k + r"
proof -
  let ?X = "drop SEC0 (take k body)"
  have len: "length ?X = off - SEC0" using assms(1,5) by (simp add: max_def)
  have ld: "length d = k + r - off" using assms by (simp add: max_def)
  show tot: "off + length d = k + r" using ld assms(4,5) by (simp add: max_def)
  have t: "take off (staged_bytes A body k) = replicate SEC0 0xFF @ ?X"
    using len assms(5) by (simp add: staged_bytes_def)
  have dd: "drop (off + n) (staged_bytes A body k) = replicate (part_size A - off - n) 0xFF" for n
  proof -
    have "off + n = length (replicate SEC0 (0xFF::u8) @ ?X) + n" using len assms(5) by simp
    then show ?thesis by (simp add: staged_bytes_def assms(5))
  qed
  show "take (length d) (drop off (staged_bytes A body k)) = replicate (length d) 0xFF"
    using dd [of 0] ld assms(3,4,5) by (simp add: take_replicate min_def max_def)
  have xd: "?X @ d = drop SEC0 (take (k + r) body)"
  proof (cases "SEC0 \<le> k")
    case True
    then show ?thesis using assms(1,5,6) by (simp add: take_add max_def)
  next
    case False
    then show ?thesis using assms(1,5,6) by (simp add: take_add max_def)
  qed
  have n: "part_size A - off - length d = part_size A - max (k + r) SEC0"
    using tot assms(4) by simp
  have "take off (staged_bytes A body k) @ d @ drop (off + length d) (staged_bytes A body k) =
      replicate SEC0 0xFF @ (?X @ d) @ replicate (part_size A - max (k + r) SEC0) 0xFF"
    by (simp only: t dd n append_assoc)
  then show "take off (staged_bytes A body k) @ d @ drop (off + length d) (staged_bytes A body k) =
      staged_bytes A body (k + r)"
    by (simp only: xd staged_bytes_def [of A body "k + r"])
qed

lemma stage_chunk_inv:
  assumes laws: "part_laws A" and inv: "stage_inv A old body clen s"
    and step: "stage_chunk A old n s = (res, s')"
  shows "case res of None \<Rightarrow> stage_inv A old body clen s'
    | Some e \<Rightarrow> e \<noteq> Staged \<and> blank A (ss_world s')"
proof -
  let ?k = "ss_received s"
  define buf where "buf = take (min n (min RECV_BUF (ss_remaining s))) (ss_rest s)"
  define r where "r = length buf"
  define off where "off = (if ?k < SEC0 then min (SEC0 - ?k) r else 0)"
  define sec0 where "sec0 = ss_sec0 s @ take off buf"
  have k: "?k \<le> length body" "ss_rest s = drop ?k body" "?k + ss_remaining s = clen"
    "clen \<le> part_size A" "SEC0 \<le> clen" "ss_sec0 s = take (min ?k SEC0) body"
    "part_bytes A (ss_world s) = staged_bytes A body ?k"
    "SEC0 \<le> ?k \<Longrightarrow> hdr_check old (take SEC0 body) = None"
    using inv by (auto simp: stage_inv_def)
  have r: "r \<le> length body - ?k" "r \<le> ss_remaining s"
    by (simp_all add: r_def buf_def k(2))
  have buf: "buf = take r (drop ?k body)"
    by (simp add: r_def buf_def k(2) min_def)
  have "min ?k SEC0 + off = min (?k + r) SEC0" by (auto simp: off_def min_def)
  moreover have "sec0 = take (min ?k SEC0 + off) body"
    by (cases "?k < SEC0") (auto simp: sec0_def k(6) buf off_def take_add min_def)
  ultimately have sec0: "sec0 = take (min (?k + r) SEC0) body" by simp
  have full: "sec0 = take SEC0 body" if "?k + off \<ge> SEC0" "?k < SEC0"
  proof -
    have "min (?k + r) SEC0 = SEC0" using that by (simp add: off_def split: if_splits)
    then show ?thesis using sec0 by simp
  qed
  have bl: "blank A (ss_world s)" by (rule stage_inv_blank [OF inv])
  define wr where "wr = (if r - off > 0 then part_write A (?k + off) (drop off buf) (ss_world s)
    else (ESP_OK, ss_world s))"
  have step': "stage_chunk A old n s =
    (if r = 0 then (Some (Rejected 500), s)
     else if ?k < SEC0 \<and> ?k + off \<ge> SEC0 \<and> hdr_check old sec0 \<noteq> None
     then (hdr_check old sec0, s\<lparr>ss_sec0 := sec0\<rparr>)
     else if fst wr \<noteq> ESP_OK then (Some (Rejected 500), s\<lparr>ss_sec0 := sec0, ss_world := snd wr\<rparr>)
     else (None, s\<lparr>ss_sec0 := sec0, ss_world := snd wr, ss_rest := drop r (ss_rest s),
        ss_remaining := ss_remaining s - r, ss_received := ?k + r\<rparr>))"
    unfolding stage_chunk_def Let_def wr_def sec0_def off_def r_def buf_def by simp
  have bl': "blank A (snd wr)"
  proof (cases "r - off > 0")
    case True
    then have "SEC0 \<le> ?k + off" by (auto simp: off_def)
    moreover have "take (?k + off) (part_bytes A (snd wr)) = take (?k + off) (part_bytes A (ss_world s))"
      using True part_writeD(1) [OF laws, of "?k + off" "drop off buf" "ss_world s" "fst wr" "snd wr"]
      by (simp add: wr_def)
    ultimately show ?thesis using bl
      by (metis blank_def min.absorb1 take_take)
  qed (use bl wr_def in simp)
  have bytes: "part_bytes A (snd wr) = staged_bytes A body (?k + r)" if "fst wr = ESP_OK"
  proof (cases "r - off > 0")
    case True
    then have off: "?k + off = max ?k SEC0" "SEC0 < ?k + r"
      by (auto simp: off_def min_def split: if_splits)
    then have o: "off = max ?k SEC0 - ?k" by simp
    note sw = staged_bytes_write [of ?k body r A "max ?k SEC0" "drop off buf"]
    have w: "part_write A (max ?k SEC0) (drop off buf) (ss_world s) = (ESP_OK, snd wr)"
      using True that off(1) by (simp add: wr_def prod_eq_iff)
    show ?thesis
      using part_writeD(2) [OF laws w refl] sw k r off(2) o by (simp add: buf)
  next
    case False
    then have "?k + r \<le> SEC0 \<or> r = 0" by (auto simp: off_def split: if_splits)
    then show ?thesis using False k(7)
      by (auto simp: wr_def staged_bytes_def max_def split: if_splits)
  qed
  show ?thesis
  proof (cases "r = 0 \<or> (?k < SEC0 \<and> ?k + off \<ge> SEC0 \<and> hdr_check old sec0 \<noteq> None) \<or> fst wr \<noteq> ESP_OK")
    case True
    then show ?thesis using step step' bl bl'
      by (auto simp: hdr_check_def split: if_splits)
  next
    case False
    then have s': "res = None" "s' = s\<lparr>ss_sec0 := sec0, ss_world := snd wr, ss_rest := drop r (ss_rest s),
        ss_remaining := ss_remaining s - r, ss_received := ?k + r\<rparr>"
      using step step' by auto
    have "hdr_check old (take SEC0 body) = None" if "SEC0 \<le> ?k + r"
      using that False full k(8) by (cases "?k < SEC0") (auto simp: off_def min_def split: if_splits)
    then show ?thesis
      using s' k r sec0 bytes False by (auto simp: stage_inv_def add.commute)
  qed
qed

lemma stage_loop_inv:
  assumes "part_laws A"
  shows "stage_inv A old body clen s \<Longrightarrow> stage_loop A old evs s = (res, s') \<Longrightarrow>
    blank A (ss_world s') \<and> (res = Staged \<longrightarrow> stage_inv A old body clen s' \<and> ss_remaining s' = 0)"
proof (induction evs arbitrary: s)
  case Nil
  then show ?case by (auto simp: stage_inv_blank split: if_splits)
next
  case (Cons ev evs)
  show ?case
  proof (cases "ss_remaining s = 0")
    case True
    then show ?thesis using Cons.prems by (auto simp: stage_inv_blank)
  next
    case rem: False
    show ?thesis
    proof (cases ev)
      case (Got n)
      obtain r s1 where sc: "stage_chunk A old n s = (r, s1)" by (cases "stage_chunk A old n s")
      show ?thesis
        using stage_chunk_inv [OF assms Cons.prems(1) sc] Cons.prems(2) Cons.IH [of s1] rem Got sc
        by (cases r) auto
    qed (use Cons rem in \<open>auto simp: stage_inv_blank\<close>)
  qed
qed

lemma stage_body_cases:
  assumes laws: "part_laws A" and er: "fst (part_erase A 0 (part_size A) w) = ESP_OK"
    and len: "RADIO_MIN_IMAGE A \<le> clen" "clen \<le> part_size A"
    and run: "stage_body (Some A) evs body clen w = (res, (sec0, w'))"
  shows "blank A w' \<and> (res = Staged \<longrightarrow>
    clen \<le> length body \<and> sec0 = take SEC0 body \<and> part_bytes A w' = staged_bytes A body clen \<and>
    hdr_check (old_chip A w) (take SEC0 body) = None \<and>
    desc_magic_ok A (take (desc_size A) (drop APP_DESC_ADDR (part_bytes A w'))))"
proof -
  let ?w1 = "snd (part_erase A 0 (part_size A) w)"
  let ?s0 = "\<lparr>ss_rest = body, ss_remaining = clen, ss_received = 0, ss_sec0 = [], ss_world = ?w1\<rparr>"
  have sec: "SEC0 \<le> clen" using len(1) by (simp add: SEC0_def RADIO_MIN_IMAGE_def RADIO_APP_IMAGE_ADDR_def)
  have "part_bytes A ?w1 = replicate (part_size A) 0xFF" using laws er by (simp add: part_laws_def)
  then have "stage_inv A (old_chip A w) body clen ?s0"
    using sec len(2) by (simp add: stage_inv_def staged_bytes_def replicate_add [symmetric] SEC0_def)
  note inv = stage_loop_inv [OF laws this]
  obtain r s where loop: "stage_loop A (old_chip A w) evs ?s0 = (r, s)" by fastforce
  have run': "res = (if r \<noteq> Staged then r
       else case part_read A (RADIO_APP_IMAGE_ADDR + 0x20) (desc_size A) (ss_world s) of
         None \<Rightarrow> Rejected 500
       | Some d \<Rightarrow> if desc_magic_ok A d then Staged else Rejected 500)"
    "sec0 = ss_sec0 s" "w' = ss_world s"
    using run er len loop by (auto simp: stage_body_def Let_def split: prod.splits)
  show ?thesis
  proof (intro conjI impI)
    show "blank A w'" using inv [OF loop] run'(3) by simp
    assume st: "res = Staged"
    then have r: "r = Staged" using run'(1) by (auto split: if_splits)
    then have s: "stage_inv A (old_chip A w) body clen s" "ss_remaining s = 0"
      using inv [OF loop] by auto
    then have k: "ss_received s = clen" by (simp add: stage_inv_def)
    show "clen \<le> length body" "part_bytes A w' = staged_bytes A body clen"
      "hdr_check (old_chip A w) (take SEC0 body) = None" "sec0 = take SEC0 body"
      using s k sec run' by (auto simp: stage_inv_def min_def)
    obtain d where "part_read A (RADIO_APP_IMAGE_ADDR + 0x20) (desc_size A) w' = Some d" "desc_magic_ok A d"
      using run'(1,3) st r by (auto split: option.splits if_splits)
    then show "desc_magic_ok A (take (desc_size A) (drop APP_DESC_ADDR (part_bytes A w')))"
      using laws unfolding part_laws_def APP_DESC_ADDR_def by metis
  qed
qed

lemma blank_first:
  assumes "part_laws A" and "blank A w" and "SEC0 \<le> part_size A"
  shows "part_bytes A w ! 0 = 0xFF"
proof -
  have "take SEC0 (part_bytes A w) ! 0 = 0xFF" using assms(2) by (simp add: blank_def SEC0_def)
  then show ?thesis by (simp add: SEC0_def)
qed

lemma blank_not_usable:
  "part_laws A \<Longrightarrow> blank A w \<Longrightarrow> SEC0 \<le> part_size A \<Longrightarrow> \<not> image_usable A (part_bytes A w)"
  using blank_first by (fastforce simp: image_usable_def)

lemma blank_old_chip:
  assumes "part_laws A" and "blank A w" and "SEC0 \<le> part_size A"
  shows "old_chip A w = None"
proof (cases "part_read A 0 16 w")
  case (Some h)
  then have "h = take 16 (part_bytes A w)" using assms(1) unfolding part_laws_def by (metis drop0)
  then have "h ! 0 = 0xFF" using blank_first [OF assms] by simp
  then show ?thesis using Some by (simp add: old_chip_def)
qed (simp add: old_chip_def)

lemma img_size_prefix:
  assumes "length xs = length xs'" and "\<exists>b\<in>set ys. b \<noteq> 0xFF"
  shows "img_size (xs @ ys) = img_size (xs' @ ys)"
proof -
  obtain b where "b \<in> set (rev ys)" "b \<noteq> 0xFF" using assms(2) by auto
  then have "dropWhile (\<lambda>b. b = 0xFF) (rev ys @ zs) = dropWhile (\<lambda>b. b = 0xFF) (rev ys) @ zs" for zs
    by (intro dropWhile_append1) auto
  then show ?thesis using assms(1) by (simp add: img_size_def)
qed

subsection \<open>What is written to the radio\<close>

datatype loader_op = LStart nat bool | LWrite "u8 list" bool | LFinish bool

abbreviation LWritten :: "u8 list \<Rightarrow> loader_op" where "LWritten d \<equiv> LWrite d True"

text \<open>The flasher that records the calls which change the radio's flash, each with its success.\<close>

definition logged :: "'w loader_api \<Rightarrow> ('w \<times> loader_op list) loader_api" where
  "logged L =
     \<lparr>ld_init = (\<lambda>(w, l). map_prod id (\<lambda>w. (w, l)) (ld_init L w)),
      ld_connect = (\<lambda>(w, l). map_prod id (\<lambda>w. (w, l)) (ld_connect L w)),
      ld_target = (\<lambda>(w, l). ld_target L w),
      ld_rate = (\<lambda>n (w, l). map_prod id (\<lambda>w. (w, l)) (ld_rate L n w)),
      ld_read = (\<lambda>a n (w, l). map_prod id (\<lambda>w. (w, l)) (ld_read L a n w)),
      ld_verify_md5 = (\<lambda>a n h (w, l). map_prod id (\<lambda>w. (w, l)) (ld_verify_md5 L a n h w)),
      ld_start = (\<lambda>n b (w, l). case ld_start L n b w of (ok, w1) \<Rightarrow> (ok, (w1, l @ [LStart n ok]))),
      ld_write = (\<lambda>d (w, l). case ld_write L d w of (ok, w1) \<Rightarrow> (ok, (w1, l @ [LWrite d ok]))),
      ld_finish = (\<lambda>(w, l). case ld_finish L w of (ok, w1) \<Rightarrow> (ok, (w1, l @ [LFinish ok]))),
      ld_reset_target = apfst (ld_reset_target L), ld_deinit = apfst (ld_deinit L),
      uart_release = apfst (uart_release L), reset_pins = apfst (reset_pins L),
      md5 = md5 L, desc_version = desc_version L, desc_project = desc_project L\<rparr>"

lemma write_loop_logged:
  "write_loop (logged L) rest (w, l) = (ok, (w', l')) \<Longrightarrow>
    \<exists>cs. (\<forall>c\<in>set cs. length c \<le> FLASH_BLOCK_SIZE) \<and>
      (if ok then l' = l @ map LWritten cs \<and> concat cs = rest
       else \<exists>c zs. l' = l @ map LWritten cs @ [LWrite c False] \<and> concat cs @ c @ zs = rest)"
proof (induction L rest w arbitrary: l rule: write_loop.induct)
  case (1 L rest w)
  show ?case
  proof (cases "rest = []")
    case True
    then show ?thesis using "1.prems" by (auto simp: write_loop.simps intro: exI [of _ "[]"])
  next
    case False
    let ?c = "take FLASH_BLOCK_SIZE rest"
    obtain f w1 where wr: "ld_write L ?c w = (f, w1)" by (cases "ld_write L ?c w")
    show ?thesis
    proof (cases f)
      case True
      have "write_loop (logged L) (drop FLASH_BLOCK_SIZE rest) (w1, l @ [LWritten ?c]) = (ok, (w', l'))"
        using "1.prems" False wr True by (simp add: write_loop.simps [of _ rest] logged_def)
      from "1.IH" [OF False wr [symmetric]] True this obtain cs where cs:
        "\<forall>c\<in>set cs. length c \<le> FLASH_BLOCK_SIZE"
        "if ok then l' = (l @ [LWritten ?c]) @ map LWritten cs \<and> concat cs = drop FLASH_BLOCK_SIZE rest
         else \<exists>c zs. l' = (l @ [LWritten ?c]) @ map LWritten cs @ [LWrite c False] \<and>
           concat cs @ c @ zs = drop FLASH_BLOCK_SIZE rest"
        by blast
      have r: "rest = ?c @ drop FLASH_BLOCK_SIZE rest" by (rule append_take_drop_id [symmetric])
      have len: "\<forall>c\<in>set (?c # cs). length c \<le> FLASH_BLOCK_SIZE" using cs(1) by simp
      show ?thesis
      proof (cases ok)
        case True
        then have "l' = l @ map LWritten (?c # cs)" "concat (?c # cs) = rest" using cs(2) by simp_all
        then show ?thesis using True len by (metis (full_types))
      next
        case ko: False
        then obtain c zs where "l' = l @ map LWritten (?c # cs) @ [LWrite c False]" "concat cs @ c @ zs = drop FLASH_BLOCK_SIZE rest"
          using cs(2) by auto
        moreover from this(2) have "concat (?c # cs) @ c @ zs = rest" by simp
        ultimately show ?thesis using ko len by (metis (full_types))
      qed
    next
      case f: False
      then have "l' = l @ [LWrite ?c False]" "\<not> ok"
        using "1.prems" False wr by (auto simp: write_loop.simps [of _ rest] logged_def)
      then show ?thesis
        by (intro exI [of _ "[]"]) (auto intro!: exI [of _ ?c] exI [of _ "drop FLASH_BLOCK_SIZE rest"])
    qed
  qed
qed

text \<open>
  The recorded calls of a complete update, every one of them successful, and of one that stopped: at its start, at a
  block that was refused, or at the final verification.
\<close>

definition full_update :: "u8 list \<Rightarrow> loader_op list \<Rightarrow> bool" where
  "full_update img l \<longleftrightarrow> (\<exists>cs. l = LStart (length img) True # map LWritten cs @ [LFinish True] \<and>
     concat cs = img \<and> (\<forall>c\<in>set cs. length c \<le> FLASH_BLOCK_SIZE))"

definition stopped_update :: "u8 list \<Rightarrow> loader_op list \<Rightarrow> bool" where
  "stopped_update img l \<longleftrightarrow>
     l = [LStart (length img) False] \<or>
     (\<exists>cs c zs. l = LStart (length img) True # map LWritten cs @ [LWrite c False] \<and> concat cs @ c @ zs = img) \<or>
     (\<exists>cs. l = LStart (length img) True # map LWritten cs @ [LFinish False] \<and> concat cs = img)"

lemma flash_image_logged:
  assumes "flash_image (logged L) img (w, l) = (ok, (w', l'))"
  shows "\<exists>d. l' = l @ d \<and> (if ok then full_update img d else stopped_update img d)"
proof -
  obtain f w1 where st: "ld_start L (length img) FLASH_BLOCK_SIZE w = (f, w1)" by fastforce
  show ?thesis
  proof (cases f)
    case False
    then show ?thesis using assms st
      by (intro exI [of _ "[LStart (length img) False]"]) (auto simp: flash_image_def logged_def stopped_update_def)
  next
    case True
    let ?l = "l @ [LStart (length img) True]"
    have start: "ld_start (logged L) (length img) FLASH_BLOCK_SIZE (w, l) = (True, (w1, ?l))"
      using st True by (simp add: logged_def)
    obtain g w2 l2 where wl: "write_loop (logged L) img (w1, ?l) = (g, (w2, l2))" by (metis prod.collapse)
    from write_loop_logged [OF this] obtain cs where cs: "\<forall>c\<in>set cs. length c \<le> FLASH_BLOCK_SIZE"
      "if g then l2 = ?l @ map LWritten cs \<and> concat cs = img
       else \<exists>c zs. l2 = ?l @ map LWritten cs @ [LWrite c False] \<and> concat cs @ c @ zs = img" by blast
    show ?thesis
    proof (cases g)
      case False
      then have "l' = l2" "\<not> ok" using assms start wl by (simp_all add: flash_image_def)
      then show ?thesis using cs False by (auto simp: stopped_update_def)
    next
      case g: True
      obtain h w3 where fin: "ld_finish L w2 = (h, w3)" by fastforce
      then have "l' = l2 @ [LFinish h]" "ok = h"
        using assms start wl g by (auto simp: flash_image_def logged_def)
      then show ?thesis using cs g by (cases h) (auto simp: stopped_update_def full_update_def)
    qed
  qed
qed

lemma logged_frame [simp]:
  "snd (snd (ld_rate (logged L) n wl)) = snd wl" "snd (snd (ld_read (logged L) a n wl)) = snd wl"
  "snd (snd (ld_verify_md5 (logged L) a n h wl)) = snd wl" "snd (ld_deinit (logged L) wl) = snd wl"
  "snd (snd (ld_init (logged L) wl)) = snd wl" "snd (snd (ld_connect (logged L) wl)) = snd wl"
  "snd (reset_pins (logged L) wl) = snd wl" "snd (uart_release (logged L) wl) = snd wl"
  "snd (ld_reset_target (logged L) wl) = snd wl"
  by (cases wl; simp add: logged_def)+

lemma sync_connected_log:
  fixes A :: "('w \<times> loader_op list) part_api"
  assumes "sync_connected A (logged L) img (i, (w, l)) = (i', (w', l'))" and "\<not> ri_rewritten i"
  shows "l' = l \<and> \<not> ri_rewritten i' \<or>
    (\<exists>d. l' = l @ d \<and> (if ri_rewritten i' then full_update (take (img_size img) img) d
       else stopped_update (take (img_size img) img) d))"
proof -
  define app where "app = img_size img - RADIO_APP_IMAGE_ADDR"
  define w1 where "w1 = snd (ld_rate (logged L) 460800 (w, l))"
  obtain hv w2 where hd: "ld_read (logged L) APP_DESC_ADDR (desc_size A) w1 = (hv, w2)" by (metis surj_pair)
  obtain same w3 where ver: "ld_verify_md5 (logged L) RADIO_APP_IMAGE_ADDR app
      (radio_md5_hex (md5 (logged L)) (take app (drop RADIO_APP_IMAGE_ADDR img))) w2 = (same, w3)"
    by (metis surj_pair)
  have "snd w3 = l"
    using ver hd logged_frame(1) [of L 460800 "(w, l)"] logged_frame(2) [of L APP_DESC_ADDR "desc_size A" w1]
      logged_frame(3) [of L RADIO_APP_IMAGE_ADDR app _ w2] unfolding w1_def by (metis snd_conv)
  then obtain v where w3: "w3 = (v, l)" by (cases w3) simp
  obtain ok v' m where fl: "flash_image (logged L) (take (img_size img) img) w3 = (ok, (v', m))"
    by (metis prod.collapse)
  obtain d where m: "m = l @ d"
    "if ok then full_update (take (img_size img) img) d else stopped_update (take (img_size img) img) d"
    using flash_image_logged [OF fl [unfolded w3]] by blast
  note run = hd [unfolded w1_def] ver [unfolded app_def] fl w3
  have "snd (snd (sync_connected A (logged L) img (i, (w, l)))) = (if same then l else m)"
    "ri_rewritten (fst (sync_connected A (logged L) img (i, (w, l)))) =
      (if same then ri_rewritten i else ok \<or> ri_rewritten i)"
    using run by (auto simp: sync_connected_def Let_def split: bool.splits option.splits)
  then have res: "l' = (if same then l else m)"
    "ri_rewritten i' = (if same then ri_rewritten i else ok \<or> ri_rewritten i)"
    using assms(1) by simp_all
  then show ?thesis using m assms(2) by (cases same) auto
qed

subsection \<open>Properties\<close>

text \<open>C6: an upload that does not come to its end, whatever stops it (socket errors, timeouts, a reset, a failed flash
  write, a foreign or wrong-chip image), leaves nothing behind that could be taken for an image: refused for its length
  it has changed nothing, and once the partition was erased the synchronisation at the next boot does not touch the
  radio as long as the checks have not all passed.  Of an erase that fails nothing is claimed but that the upload is
  refused.\<close>

theorem radio_interrupted_upload_safe:
  assumes "part_laws A" and "fst (stage_body (Some A) evs body clen w) \<noteq> Staged"
  shows "let w' = snd (h_radio_body (Some A) evs body clen w) in
    if clen < RADIO_MIN_IMAGE A \<or> clen > part_size A
    then h_radio_body (Some A) evs body clen w = (Rejected 400, w)
    else if fst (part_erase A 0 (part_size A) w) \<noteq> ESP_OK
    then h_radio_body (Some A) evs body clen w = (Rejected 500, snd (part_erase A 0 (part_size A) w))
    else radio_flash_sync (Some A) mappable L (i, w') = (i, w')"
proof (cases "clen < RADIO_MIN_IMAGE A \<or> clen > part_size A")
  case True
  then show ?thesis by (auto simp: h_radio_body_def stage_body_def)
next
  case len: False
  show ?thesis
  proof (cases "fst (part_erase A 0 (part_size A) w) = ESP_OK")
    case False
    then show ?thesis using len by (auto simp: h_radio_body_def stage_body_def split: prod.splits)
  next
    case True
    obtain res sec0 w' where sb: "stage_body (Some A) evs body clen w = (res, (sec0, w'))"
      by (metis prod.collapse)
    have "SEC0 \<le> part_size A"
      using len by (simp add: SEC0_def RADIO_MIN_IMAGE_def RADIO_APP_IMAGE_ADDR_def)
    moreover have "blank A w'" using stage_body_cases [OF assms(1) True _ _ sb] len by simp
    ultimately have "\<not> image_usable A (part_bytes A w')" by (intro blank_not_usable [OF assms(1)])
    moreover have "snd (h_radio_body (Some A) evs body clen w) = w'"
      using assms(2) sb by (cases res) (simp_all add: h_radio_body_def)
    ultimately show ?thesis using len True by (simp add: radio_flash_sync_def Let_def)
  qed
qed

text \<open>a staged upload is exact: the partition holds the uploaded body from its first byte to its
  last and erased flash behind it, the body starts with the image magic, is for the chip of the image
  staged before (if there was one), and carries a valid application descriptor.\<close>

theorem radio_staged_exact:
  assumes "part_laws A" and "fst (part_erase A 0 (part_size A) w) = ESP_OK"
    and "h_radio_body (Some A) evs body clen w = (Staged, w')"
  shows "clen \<le> length body \<and>
    part_bytes A w' = take clen body @ replicate (part_size A - clen) 0xFF \<and> body ! 0 = 0xE9 \<and>
    (old_chip A w = None \<or> old_chip A w = Some (chip_of (take SEC0 body))) \<and>
    desc_magic_ok A (take (desc_size A) (drop APP_DESC_ADDR body))"
proof -
  obtain res sec0 w1 where sb: "stage_body (Some A) evs body clen w = (res, (sec0, w1))"
    by (metis prod.collapse)
  have res: "res = Staged" and wr: "part_write A 0 sec0 w1 = (ESP_OK, w')"
    using assms(3) sb by (auto simp: h_radio_body_def split: stage_res.splits prod.splits if_splits)
  have len: "RADIO_MIN_IMAGE A \<le> clen" "clen \<le> part_size A"
    using sb res by (auto simp: stage_body_def split: if_splits)
  have sec: "SEC0 \<le> clen" "APP_DESC_ADDR + desc_size A \<le> clen" "SEC0 \<le> APP_DESC_ADDR"
    using len(1) by (simp_all add: SEC0_def RADIO_MIN_IMAGE_def RADIO_APP_IMAGE_ADDR_def APP_DESC_ADDR_def)
  have st: "clen \<le> length body" "sec0 = take SEC0 body" "part_bytes A w1 = staged_bytes A body clen"
    "hdr_check (old_chip A w) (take SEC0 body) = None"
    "desc_magic_ok A (take (desc_size A) (drop APP_DESC_ADDR (part_bytes A w1)))"
    using stage_body_cases [OF assms(1,2) len sb] res by auto
  have l0: "length sec0 = SEC0" using st(1,2) sec(1) by simp
  have tail: "drop SEC0 (part_bytes A w1) = drop SEC0 (take clen body) @ replicate (part_size A - clen) 0xFF"
    using sec(1) by (simp add: st(3) staged_bytes_def max_def)
  have "part_bytes A w' = take SEC0 body @ drop SEC0 (part_bytes A w1)"
    using part_writeD(2) [OF assms(1) wr refl] l0 len(2) sec(1) st(2,3) by (simp add: staged_bytes_def)
  also have "\<dots> = take clen body @ replicate (part_size A - clen) 0xFF"
    unfolding tail using sec(1) append_take_drop_id [of SEC0 "take clen body"] by (simp add: min_def)
  finally have bytes: "part_bytes A w' = take clen body @ replicate (part_size A - clen) 0xFF" .
  have "take (desc_size A) (drop APP_DESC_ADDR (part_bytes A w1)) =
      take (desc_size A) (drop (APP_DESC_ADDR - SEC0) (drop SEC0 (part_bytes A w1)))"
    using sec(3) by simp
  also have "\<dots> = take (desc_size A) (drop APP_DESC_ADDR body)"
    unfolding tail using sec st(1) by (simp add: drop_take min_def)
  finally show ?thesis
    using st(1,4,5) bytes
    by (cases "old_chip A w") (auto simp: hdr_check_def SEC0_def split: if_splits)
qed

text \<open>C40: at boot the flasher writes to the radio only a usable staged image, in blocks of at most 1024 bytes from its
  first byte on and in order.  It reports a rewrite exactly when the start, every block and the final verification
  succeeded and the blocks are the whole image; otherwise it has stopped at the first call that failed, or the
  radio's flash was not touched at all.\<close>

theorem radio_sync_log:
  fixes A :: "('w \<times> loader_op list) part_api"
  assumes "radio_flash_sync (Some A) mappable (logged L) (i, (w, [])) = (i', (w', l'))"
    and "\<not> ri_rewritten i"
  shows "(l' = [] \<and> \<not> ri_rewritten i') \<or>
    (let img = part_bytes A (w, []) in
       image_usable A img \<and> (if ri_rewritten i' then full_update (take (img_size img) img) l'
         else stopped_update (take (img_size img) img) l'))"
proof (cases "mappable (w, []) \<and> image_usable A (part_bytes A (w, []))")
  case False
  then show ?thesis using assms by (auto simp: radio_flash_sync_def Let_def split: if_splits)
next
  case True
  let ?img = "part_bytes A (w, [])"
  obtain a w1 l1 where init: "ld_init (logged L) (w, []) = (a, (w1, l1))" by (metis prod.collapse)
  have l1: "l1 = []" using logged_frame(5) [of L "(w, [])"] init by simp
  show ?thesis
  proof (cases a)
    case False
    then show ?thesis using assms True init l1 by (auto simp: radio_flash_sync_def Let_def)
  next
    case a: True
    obtain c w2 l2 where con: "ld_connect (logged L) (w1, l1) = (c, (w2, l2))" by (metis prod.collapse)
    have "snd (snd (ld_connect (logged L) (w1, l1))) = l1" using logged_frame(6) by simp
    then have l2: "l2 = []" using con l1 by (simp del: logged_frame)
    let ?i1 = "i\<lparr>ri_staged := fmt_s 32 (desc_version (logged L) (take (desc_size A) (drop APP_DESC_ADDR ?img)))\<rparr>"
    show ?thesis
    proof (cases c)
      case False
      have "l' = snd (reset_pins (logged L) (ld_deinit (logged L) (w2, l2)))" "i' = ?i1"
        using assms(1) True init a con False by (auto simp: radio_flash_sync_def Let_def)
      then show ?thesis using l2 assms(2) by simp
    next
      case c: True
      have "sync_connected A (logged L) ?img (?i1, (w2, [])) = (i', (w', l'))"
        using assms(1) True init a con c l2 by (simp add: radio_flash_sync_def Let_def)
      from sync_connected_log [OF this] show ?thesis using True assms(2) by (auto simp: Let_def)
    qed
  qed
qed

text \<open>the chip fence does not survive a rejected upload: once the partition has been erased, the
  next upload has no chip to compare with, so the wrong-chip image that was just refused passes.\<close>

theorem radio_chip_fence_lost:
  assumes "part_laws A" and "fst (part_erase A 0 (part_size A) w) = ESP_OK"
    and "RADIO_MIN_IMAGE A \<le> clen" and "clen \<le> part_size A"
    and "fst (stage_body (Some A) evs body clen w) \<noteq> Staged"
    and "sec0 ! 0 = 0xE9"
  shows "hdr_check (old_chip A (snd (h_radio_body (Some A) evs body clen w))) sec0 = None"
proof -
  obtain res s0 w' where sb: "stage_body (Some A) evs body clen w = (res, (s0, w'))"
    by (metis prod.collapse)
  have "SEC0 \<le> part_size A"
    using assms(3,4) by (simp add: SEC0_def RADIO_MIN_IMAGE_def RADIO_APP_IMAGE_ADDR_def)
  then have "old_chip A w' = None"
    using blank_old_chip [OF assms(1)] stage_body_cases [OF assms(1-4) sb] by simp
  moreover have "snd (h_radio_body (Some A) evs body clen w) = w'"
    using assms(5) sb by (cases res) (simp_all add: h_radio_body_def)
  ultimately show ?thesis using assms(6) by (simp add: hdr_check_def)
qed

text \<open>the commit write is not atomic.  The sector that carries the commit marker is written in one
  call from its first byte on, so a reset after any part of it has landed leaves contents that pass
  for a usable image although the rest of the sector is still erased.\<close>

theorem radio_torn_commit_usable:
  assumes "image_usable A (take clen body @ replicate n 0xFF)" and "SEC0 \<le> clen" and "clen \<le> length body"
    and "0 < k" and "k \<le> SEC0"
  shows "image_usable A (take k body @ replicate (SEC0 - k) 0xFF @ drop SEC0 (take clen body) @ replicate n 0xFF)"
proof -
  let ?ys = "drop SEC0 (take clen body) @ replicate n 0xFF"
  let ?xs = "take SEC0 body" and ?xs' = "take k body @ replicate (SEC0 - k) 0xFF :: u8 list"
  have full: "take clen body @ replicate n 0xFF = ?xs @ ?ys"
    using assms(2) append_take_drop_id [of SEC0 "take clen body"] by (simp add: min_def)
  have len: "length ?xs = SEC0" "length ?xs' = SEC0" using assms(2-5) by simp_all
  have "\<exists>b\<in>set ?ys. b \<noteq> 0xFF"
  proof (rule ccontr)
    assume "\<not> ?thesis"
    then have "dropWhile (\<lambda>b. b = 0xFF) (rev ?ys @ rev ?xs) = dropWhile (\<lambda>b. b = 0xFF) (rev ?xs)"
      by (intro dropWhile_append2) auto
    then have "length (dropWhile (\<lambda>b. b = 0xFF) (rev (?xs @ ?ys))) \<le> SEC0"
      using length_dropWhile_le [of "\<lambda>b. b = 0xFF" "rev ?xs"] len(1) by simp
    then have "img_size (?xs @ ?ys) \<le> (SEC0 + 3) div 4 * 4"
      unfolding img_size_def length_rev by (intro mult_right_mono div_le_mono add_right_mono) simp_all
    then show False
      using assms(1) by (simp add: image_usable_def full SEC0_def APP_DESC_ADDR_def RADIO_APP_IMAGE_ADDR_def)
  qed
  then have size: "img_size (?xs' @ ?ys) = img_size (?xs @ ?ys)"
    using len by (intro img_size_prefix) simp_all
  have first: "(?xs' @ ?ys) ! 0 = (?xs @ ?ys) ! 0"
    using assms(2-5) by (cases body) (auto simp: SEC0_def nth_append)
  have "drop APP_DESC_ADDR (?xs' @ ?ys) = drop APP_DESC_ADDR (?xs @ ?ys)"
  proof -
    have "SEC0 \<le> APP_DESC_ADDR" by (simp add: SEC0_def APP_DESC_ADDR_def RADIO_APP_IMAGE_ADDR_def)
    then have "drop APP_DESC_ADDR (xs @ ?ys) = drop (APP_DESC_ADDR - SEC0) ?ys"
      if "length xs = SEC0" for xs using that by simp
    from this [OF len(1)] this [OF len(2)] show ?thesis by (simp only:)
  qed
  then have "image_usable A (?xs' @ ?ys)"
    using assms(1) size first unfolding full image_usable_def by simp
  then show ?thesis by simp
qed

text \<open>A device on which flash writes and reads work.\<close>

definition flash_works :: "'w part_api \<Rightarrow> bool" where
  "flash_works A \<longleftrightarrow> (\<forall>off d w. off + length d \<le> part_size A \<longrightarrow> fst (part_write A off d w) = ESP_OK) \<and>
     (\<forall>off n w. off + n \<le> part_size A \<longrightarrow> part_read A off n w \<noteq> None)"

definition gots :: "recv_ev list \<Rightarrow> nat" where
  "gots evs = length (filter (\<lambda>e. e \<noteq> RecvTimeout) evs)"

definition delivers :: "recv_ev list \<Rightarrow> bool" where
  "delivers evs \<longleftrightarrow> (\<forall>e\<in>set evs. e = RecvTimeout \<or> (\<exists>n. e = Got n \<and> 0 < n))"

lemma stage_chunk_progress:
  assumes inv: "stage_inv A old body clen s" and len: "clen \<le> length body"
    and works: "flash_works A" and chk: "hdr_check old (take SEC0 body) = None"
    and n: "0 < n" and rem: "0 < ss_remaining s" and laws: "part_laws A"
  shows "\<exists>s'. stage_chunk A old n s = (None, s') \<and> stage_inv A old body clen s' \<and>
    ss_remaining s' < ss_remaining s"
proof -
  let ?k = "ss_received s"
  define buf where "buf = take (min n (min RECV_BUF (ss_remaining s))) (ss_rest s)"
  define off where "off = (if ?k < SEC0 then min (SEC0 - ?k) (length buf) else 0)"
  have k: "?k \<le> length body" "ss_rest s = drop ?k body" "ss_remaining s + ?k = clen" "clen \<le> part_size A"
    "ss_sec0 s = take (min ?k SEC0) body"
    using inv by (auto simp: stage_inv_def)
  have r: "0 < length buf" "length buf \<le> ss_remaining s"
    using n rem k len by (auto simp: buf_def RECV_BUF_def)
  have buf: "buf = take (length buf) (drop ?k body)" by (simp add: buf_def k(2) min_def)
  have ok: "hdr_check old (ss_sec0 s @ take off buf) = None" if "?k < SEC0" "SEC0 \<le> ?k + off"
  proof -
    have o: "off = SEC0 - ?k" "SEC0 - ?k \<le> length buf" using that by (auto simp: off_def split: if_splits)
    have "ss_sec0 s @ take off buf = take ?k body @ take (SEC0 - ?k) (drop ?k body)"
      using that(1) o buf k(5) by (metis min.absorb1 min.absorb2 less_imp_le take_take)
    also have "\<dots> = take SEC0 body" using that(1) by (simp add: take_add [symmetric])
    finally show ?thesis using chk by simp
  qed
  have wr: "fst (part_write A (?k + off) (drop off buf) (ss_world s)) = ESP_OK"
    using works r(2) k(3,4) unfolding flash_works_def by (auto simp: off_def)
  obtain res s' where sc: "stage_chunk A old n s = (res, s')" by fastforce
  have "res = None \<and> ss_remaining s' = ss_remaining s - length buf"
    using sc ok wr r(1)
    unfolding stage_chunk_def Let_def buf_def [symmetric] off_def [symmetric]
    by (auto split: if_splits)
  moreover have "ss_remaining s - length buf < ss_remaining s" using r rem by linarith
  ultimately show ?thesis using stage_chunk_inv [OF laws inv sc] sc by auto
qed

lemma stage_loop_complete:
  assumes "clen \<le> length body" and "flash_works A" and "hdr_check old (take SEC0 body) = None"
    and laws: "part_laws A"
  shows "stage_inv A old body clen s \<Longrightarrow> delivers evs \<Longrightarrow> ss_remaining s \<le> gots evs \<Longrightarrow>
    fst (stage_loop A old evs s) = Staged"
proof (induction evs arbitrary: s)
  case Nil
  then show ?case by (simp add: gots_def)
next
  case (Cons ev evs)
  show ?case
  proof (cases "ss_remaining s = 0")
    case False
    show ?thesis
    proof (cases ev)
      case (Got n)
      then have "0 < n" using Cons.prems(2) by (auto simp: delivers_def)
      then obtain s' where "stage_chunk A old n s = (None, s')" "stage_inv A old body clen s'"
        "ss_remaining s' < ss_remaining s"
        using stage_chunk_progress [OF Cons.prems(1) assms(1-3) _ _ laws] False by auto
      then show ?thesis using Cons.IH [of s'] Cons.prems(2,3) False Got
        by (simp add: delivers_def gots_def)
    qed (use Cons False in \<open>auto simp: delivers_def gots_def\<close>)
  qed simp
qed

lemma stage_body_complete:
  assumes laws: "part_laws A" and er: "fst (part_erase A 0 (part_size A) w) = ESP_OK"
    and len: "RADIO_MIN_IMAGE A \<le> clen" "clen \<le> part_size A" "clen \<le> length body"
    and works: "flash_works A" and chk: "hdr_check (old_chip A w) (take SEC0 body) = None"
    and evs: "delivers evs" "clen \<le> gots evs"
    and desc: "desc_magic_ok A (take (desc_size A) (drop APP_DESC_ADDR body))"
  shows "fst (h_radio_body (Some A) evs body clen w) = Staged"
proof -
  let ?w1 = "snd (part_erase A 0 (part_size A) w)"
  let ?s0 = "\<lparr>ss_rest = body, ss_remaining = clen, ss_received = 0, ss_sec0 = [], ss_world = ?w1\<rparr>"
  have sec: "SEC0 \<le> clen" "APP_DESC_ADDR + desc_size A \<le> clen" "SEC0 \<le> APP_DESC_ADDR"
    using len(1) by (simp_all add: SEC0_def RADIO_MIN_IMAGE_def RADIO_APP_IMAGE_ADDR_def APP_DESC_ADDR_def)
  have "part_bytes A ?w1 = replicate (part_size A) 0xFF" using laws er by (simp add: part_laws_def)
  then have inv0: "stage_inv A (old_chip A w) body clen ?s0"
    using sec len(2) by (simp add: stage_inv_def staged_bytes_def replicate_add [symmetric] SEC0_def)
  obtain r s where loop: "stage_loop A (old_chip A w) evs ?s0 = (r, s)" by fastforce
  have r: "r = Staged"
    using stage_loop_complete [OF len(3) works chk laws inv0 evs(1)] evs(2) loop by simp
  then have s: "stage_inv A (old_chip A w) body clen s" "ss_received s = clen"
    using stage_loop_inv [OF laws inv0 loop] by (auto simp: stage_inv_def)
  have b: "part_bytes A (ss_world s) = staged_bytes A body clen" and s0: "length (ss_sec0 s) = SEC0"
    using s sec(1) len(3) by (simp_all add: stage_inv_def)
  obtain d where rd: "part_read A APP_DESC_ADDR (desc_size A) (ss_world s) = Some d"
    using works len(2) sec(2) unfolding flash_works_def by fastforce
  then have "d = take (desc_size A) (drop APP_DESC_ADDR (staged_bytes A body clen))"
    using laws b unfolding part_laws_def by metis
  also have "\<dots> = take (desc_size A) (drop APP_DESC_ADDR body)"
    using sec len(3) by (simp add: staged_bytes_def drop_take min_def)
  finally have "desc_magic_ok A d" using desc by simp
  then have "stage_body (Some A) evs body clen w = (Staged, (ss_sec0 s, ss_world s))"
    using rd loop r er len(1,2) by (auto simp: stage_body_def APP_DESC_ADDR_def split: prod.splits)
  moreover have "fst (part_write A 0 (ss_sec0 s) (ss_world s)) = ESP_OK"
    using works s0 len(2) sec(1) unfolding flash_works_def by auto
  ultimately show ?thesis by (auto simp: h_radio_body_def split: prod.splits)
qed

text \<open>on working flash, a valid image for the right chip is staged, however the socket delivers it:
  in pieces of any size and with any number of timeouts in between.\<close>

theorem radio_upload_completes:
  assumes "part_laws A" and "flash_works A" and "fst (part_erase A 0 (part_size A) w) = ESP_OK"
    and "RADIO_MIN_IMAGE A \<le> length body" and "length body \<le> part_size A"
    and "body ! 0 = 0xE9" and "old_chip A w \<in> {None, Some (chip_of (take SEC0 body))}"
    and "desc_magic_ok A (take (desc_size A) (drop APP_DESC_ADDR body))"
    and "delivers evs" and "length body \<le> gots evs"
  shows "fst (h_radio_body (Some A) evs body (length body) w) = Staged"
proof -
  have "hdr_check (old_chip A w) (take SEC0 body) = None"
    using assms(6,7) by (auto simp: hdr_check_def SEC0_def)
  from stage_body_complete [OF assms(1,3-5) order_refl assms(2) this assms(9,10,8)] show ?thesis .
qed

subsection \<open>Closed instances\<close>

text \<open>A partition in memory with a sixteen-byte descriptor, whose magic is its first byte.\<close>

definition ram_size :: nat where "ram_size = 135168"

definition ram_view :: "u8 list \<Rightarrow> u8 list" where
  "ram_view w = take ram_size (w @ replicate (ram_size - length w) 0xFF)"

definition ram_part :: "u8 list part_api" where
  "ram_part =
     \<lparr>part_size = ram_size,
      part_read = (\<lambda>off n w. Some (take n (drop off (ram_view w)))),
      part_write = (\<lambda>off d w. if off + length d \<le> ram_size
        then (ESP_OK, take off (ram_view w) @ d @ drop (off + length d) (ram_view w))
        else (ESP_ERR_INVALID_SIZE, ram_view w)),
      part_erase = (\<lambda>off n w. (ESP_OK, [])),
      part_bytes = ram_view, desc_size = 16, desc_magic_ok = (\<lambda>d. d \<noteq> [] \<and> hd d = 0x32)\<rparr>"

lemma length_ram_view [simp]: "length (ram_view w) = ram_size"
  by (simp add: ram_view_def)

lemma ram_view_id: "length w = ram_size \<Longrightarrow> ram_view w = w"
  by (simp add: ram_view_def)

lemma ram_part_laws: "part_laws ram_part"
  by (auto simp: part_laws_def ram_part_def Let_def ram_view_id)
    (simp_all add: ram_view_def [of "[]"])

lemma ram_works: "flash_works ram_part"
  by (simp add: flash_works_def ram_part_def)

definition demo_body :: "u8 list" where
  "demo_body = 0xE9 # replicate (APP_DESC_ADDR - 1) 0 @ 0x32 # replicate 15 1 @ [1]"

lemma demo_len: "length demo_body = APP_DESC_ADDR + 17" and demo_app: "APP_DESC_ADDR = 131104"
  by (simp_all add: demo_body_def APP_DESC_ADDR_def RADIO_APP_IMAGE_ADDR_def)

lemma demo_desc: "drop APP_DESC_ADDR demo_body = 0x32 # replicate 15 1 @ [1]"
proof -
  have "drop APP_DESC_ADDR ((0xE9 # replicate (APP_DESC_ADDR - 1) 0) @ 0x32 # replicate 15 1 @ [1]) =
      0x32 # (replicate 15 1 @ [1] :: u8 list)"
    by (simp only: drop_append) (simp add: demo_app)
  then show ?thesis by (simp add: demo_body_def)
qed

lemma demo_first: "demo_body ! 0 = 0xE9"
  by (simp add: demo_body_def)

lemma demo_limits:
  "RADIO_MIN_IMAGE ram_part \<le> length demo_body" "length demo_body \<le> part_size ram_part"
  "fst (part_erase ram_part 0 (part_size ram_part) []) = ESP_OK"
  by (simp_all add: demo_len RADIO_MIN_IMAGE_def APP_DESC_ADDR_def RADIO_APP_IMAGE_ADDR_def ram_part_def
      ram_size_def)

lemma demo_old_chip: "old_chip ram_part [] = None"
proof (rule blank_old_chip [OF ram_part_laws])
  show "blank ram_part []"
    by (simp add: blank_def ram_part_def ram_view_def SEC0_def ram_size_def)
  show "SEC0 \<le> part_size ram_part" by (simp add: SEC0_def ram_part_def ram_size_def)
qed

definition demo_evs :: "recv_ev list" where
  "demo_evs = RecvTimeout # replicate (length demo_body) (Got 1000)"

lemma demo_evs: "delivers demo_evs" "length demo_body \<le> gots demo_evs"
  by (auto simp: demo_evs_def delivers_def gots_def)

lemma demo_staged: "fst (h_radio_body (Some ram_part) demo_evs demo_body (length demo_body) []) = Staged"
proof (rule stage_body_complete [OF ram_part_laws demo_limits(3,1,2) order_refl ram_works _ demo_evs])
  show "hdr_check (old_chip ram_part []) (take SEC0 demo_body) = None"
    by (simp add: demo_old_chip hdr_check_def demo_first SEC0_def)
  show "desc_magic_ok ram_part (take (desc_size ram_part) (drop APP_DESC_ADDR demo_body))"
    by (simp add: demo_desc ram_part_def)
qed

lemma radio_upload_completes_witness:
  "fst (h_radio_body (Some ram_part) demo_evs demo_body (length demo_body) []) = Staged"
  by (rule radio_upload_completes [OF ram_part_laws ram_works demo_limits(3,1,2) demo_first _ _ demo_evs])
    (simp add: demo_old_chip, simp add: demo_desc ram_part_def)

lemma radio_staged_exact_witness:
  "part_bytes ram_part (snd (h_radio_body (Some ram_part) demo_evs demo_body (length demo_body) [])) =
    demo_body @ replicate (ram_size - length demo_body) 0xFF"
proof -
  let ?r = "h_radio_body (Some ram_part) demo_evs demo_body (length demo_body) []"
  have "?r = (Staged, snd ?r)" using demo_staged by (simp add: prod_eq_iff)
  from radio_staged_exact [OF ram_part_laws demo_limits(3) this] show ?thesis
    by (simp add: ram_part_def)
qed

lemma demo_interrupted:
  "stage_body (Some ram_part) [] demo_body (length demo_body) [] = (Interrupted, ([], []))"
  using demo_limits by (simp add: stage_body_def Let_def demo_len ram_part_def)

definition sim_loader :: "'w loader_api" where
  "sim_loader =
     \<lparr>ld_init = Pair True, ld_connect = Pair True, ld_target = (\<lambda>w. 7), ld_rate = (\<lambda>n. Pair True),
      ld_read = (\<lambda>a n. Pair None), ld_verify_md5 = (\<lambda>a n h. Pair False), ld_start = (\<lambda>n b. Pair True),
      ld_write = (\<lambda>d. Pair True), ld_finish = Pair True, ld_reset_target = id, ld_deinit = id,
      uart_release = id, reset_pins = id, md5 = (\<lambda>d. []), desc_version = (\<lambda>d. []),
      desc_project = (\<lambda>d. [])\<rparr>"

definition info0 :: radio_info where
  "info0 = \<lparr>ri_present = False, ri_target = 0, ri_staged = [], ri_running = [], ri_project = [],
     ri_app_bytes = 0, ri_rewritten = False\<rparr>"

lemma radio_interrupted_upload_safe_witness:
  "radio_flash_sync (Some ram_part) (\<lambda>w. True) sim_loader
     (info0, snd (h_radio_body (Some ram_part) [] demo_body (length demo_body) [])) = (info0, [])"
  using radio_interrupted_upload_safe [OF ram_part_laws, of "[]" demo_body "length demo_body" "[]" "\<lambda>w. True" sim_loader info0]
    demo_limits by (simp add: demo_interrupted h_radio_body_def Let_def)

lemma radio_chip_fence_lost_witness:
  "hdr_check (old_chip ram_part (snd (h_radio_body (Some ram_part) [] demo_body (length demo_body) [])))
     demo_body = None"
  by (rule radio_chip_fence_lost [OF ram_part_laws demo_limits(3,1,2)])
    (simp_all add: demo_interrupted demo_first)

lemma demo_usable: "image_usable ram_part (take (length demo_body) demo_body @ replicate 0 0xFF)"
proof -
  have "dropWhile (\<lambda>b. b = 0xFF) (rev demo_body) = rev demo_body" by (simp add: demo_body_def)
  then have "img_size demo_body = (length demo_body + 3) div 4 * 4" by (simp add: img_size_def)
  then show ?thesis
    by (simp add: image_usable_def demo_len demo_first demo_desc ram_part_def)
qed

lemma radio_torn_commit_usable_witness:
  "image_usable ram_part (take 256 demo_body @ replicate (SEC0 - 256) 0xFF @
     drop SEC0 (take (length demo_body) demo_body) @ replicate 0 0xFF)"
  by (rule radio_torn_commit_usable [OF demo_usable])
    (simp_all add: SEC0_def demo_len demo_app)

definition fixed_part :: "(unit \<times> loader_op list) part_api" where
  "fixed_part =
     \<lparr>part_size = 0, part_read = (\<lambda>off n w. None), part_write = (\<lambda>off d w. (ESP_FAIL, w)),
      part_erase = (\<lambda>off n w. (ESP_FAIL, w)), part_bytes = (\<lambda>w. demo_body), desc_size = 16,
      desc_magic_ok = desc_magic_ok ram_part\<rparr>"

lemma sim_simps:
  "ld_init (logged sim_loader) (w, l) = (True, (w, l))"
  "ld_connect (logged sim_loader) (w, l) = (True, (w, l))"
  "ld_rate (logged sim_loader) n (w, l) = (True, (w, l))"
  "ld_read (logged sim_loader) a n (w, l) = (None, (w, l))"
  "ld_verify_md5 (logged sim_loader) a n h (w, l) = (False, (w, l))"
  "ld_start (logged sim_loader) n b (w, l) = (True, (w, l @ [LStart n True]))"
  "ld_write (logged sim_loader) d (w, l) = (True, (w, l @ [LWrite d True]))"
  "ld_finish (logged sim_loader) (w, l) = (True, (w, l @ [LFinish True]))"
  by (simp_all add: logged_def sim_loader_def)

lemma sim_write_loop:
  fixes w :: unit
  shows "\<exists>m. write_loop (logged sim_loader) rest (w, l) = (True, ((), m))"
proof (induction rest arbitrary: l rule: length_induct)
  case (1 rest)
  show ?case
  proof (cases "rest = []")
    case False
    then have "length (drop FLASH_BLOCK_SIZE rest) < length rest" by (simp add: FLASH_BLOCK_SIZE_def)
    with 1 False show ?thesis by (simp add: write_loop.simps [of _ rest] sim_simps)
  qed (simp add: write_loop.simps)
qed

lemma sim_flash:
  fixes w :: unit
  shows "\<exists>m. flash_image (logged sim_loader) img (w, l) = (True, ((), m))"
  using sim_write_loop [of img w "l @ [LStart (length img) True]"]
  by (auto simp: flash_image_def sim_simps)

lemma radio_sync_log_witness:
  "full_update (take (img_size demo_body) demo_body)
     (snd (snd (radio_flash_sync (Some fixed_part) (\<lambda>w. True) (logged sim_loader) (info0, ((), [])))))"
proof -
  let ?r = "radio_flash_sync (Some fixed_part) (\<lambda>w. True) (logged sim_loader) (info0, ((), []))"
  have us: "image_usable fixed_part demo_body"
    using demo_usable by (simp add: image_usable_def fixed_part_def ram_part_def)
  obtain m where fl: "flash_image (logged sim_loader) (take (img_size demo_body) demo_body) ((), []) =
      (True, ((), m))"
    using sim_flash by blast
  have "part_bytes fixed_part w = demo_body" for w by (simp add: fixed_part_def)
  with us fl have "ri_rewritten (fst ?r)"
    by (simp add: radio_flash_sync_def Let_def sync_connected_def sim_simps)
  moreover have "?r = (fst ?r, (fst (snd ?r), snd (snd ?r)))" by (simp add: prod_eq_iff)
  ultimately show ?thesis
    using radio_sync_log [of fixed_part "\<lambda>w. True" sim_loader info0 "()" "fst ?r" "fst (snd ?r)" "snd (snd ?r)"]
    by (auto simp: Let_def info0_def fixed_part_def)
qed

end
