(* ===== verification/CulDfu.thy ===== *)
theory CulDfu
  imports Cdc_Prelude
begin

text \<open>
  \<^verbatim>\<open>cul_dfu.c\<close>: the Atmel DFU client that reflashes an AVR stick over USB control transfers.  The USB
  host library is the parameter \<open>U\<close> over a world \<open>'w\<close>: it answers one control transfer, and it may
  report that the device has gone, which the event task then handles between two transfers.  The
  static struct \<^verbatim>\<open>S\<close> is the record \<open>dfu\<close>; messages have a hyphen for the dash; the mutex of \<^verbatim>\<open>cul_dfu_flash\<close> is the flag \<open>d_locked\<close>.
\<close>

subsection \<open>State and driver\<close>

definition ATMEL_CONTROL_BLOCK_SIZE :: nat where "ATMEL_CONTROL_BLOCK_SIZE = 32"

definition ATMEL_FOOTER_SIZE :: nat where "ATMEL_FOOTER_SIZE = 16"

definition ATMEL_MAX_TRANSFER :: nat where "ATMEL_MAX_TRANSFER = 0x400"

definition EEPROM_GUARD_BYTES :: nat where "EEPROM_GUARD_BYTES = 256"

definition CUL_DFU_APP_LIMIT :: nat where "CUL_DFU_APP_LIMIT = 0x7000"

definition SETUP_BYTES :: nat where "SETUP_BYTES = 8"

definition CTRL_BUF_BYTES :: nat where
  "CTRL_BUF_BYTES = SETUP_BYTES + ATMEL_CONTROL_BLOCK_SIZE + ATMEL_MAX_TRANSFER + ATMEL_FOOTER_SIZE"

record cul_dfu_status =
  ds_present :: bool
  ds_busy :: bool
  ds_vid :: u16
  ds_pid :: u16
  ds_written :: nat
  ds_eeprom_checked :: bool
  ds_eeprom_intact :: bool
  ds_last :: string

record dfu =
  d_client :: bool
  d_dev :: bool
  d_xfer :: bool
  d_locked :: bool
  d_transaction :: u16
  d_st :: cul_dfu_status

datatype dfu_dir = DFU_REQ_OUT | DFU_REQ_IN

datatype dfu_request = DFU_DNLOAD | DFU_UPLOAD | DFU_GETSTATUS | DFU_CLRSTATUS

record dfu_setup =
  s_dir :: dfu_dir
  s_req :: dfu_request
  s_value :: u16
  s_data :: "u8 list"
  s_len :: nat
  s_timeout :: nat

text \<open>\<open>Completed\<close> carries the data buffer as the driver leaves it.\<close>

datatype xfer_res = SubmitErr esp_err | NoReply | XferFailed | Completed "u8 list"

record 'w usb_api =
  usb_control :: "dfu_setup \<Rightarrow> 'w \<Rightarrow> xfer_res \<times> 'w"
  usb_gone :: "'w \<Rightarrow> bool"
  usb_release :: "'w \<Rightarrow> 'w"
  usb_delay_ms :: "nat \<Rightarrow> 'w \<Rightarrow> 'w"

definition hex2 :: "u8 \<Rightarrow> string" where
  "hex2 b = [hex_digit (unat b div 16), hex_digit (unat b)]"

definition upd_st :: "(cul_dfu_status \<Rightarrow> cul_dfu_status) \<Rightarrow> dfu \<times> 'w \<Rightarrow> dfu \<times> 'w" where
  "upd_st f sw = ((fst sw)\<lparr>d_st := f (d_st (fst sw))\<rparr>, snd sw)"

definition note_msg :: "string \<Rightarrow> dfu \<times> 'w \<Rightarrow> dfu \<times> 'w" where
  "note_msg m = upd_st (ds_last_update (\<lambda>_. fmt_s 96 m))"

subsection \<open>Events of the host client\<close>

datatype client_event = NewDev bool u16 u16 bool bool | DevGone | OtherEvent

text \<open>
  \<open>NewDev opened vid pid desc_ok claimed\<close>: whether the device opened, its descriptor, and whether
  the interface could be claimed.
\<close>

definition client_event_cb :: "'w usb_api \<Rightarrow> client_event \<Rightarrow> dfu \<times> 'w \<Rightarrow> dfu \<times> 'w" where
  "client_event_cb U ev sw =
     (case ev of
        NewDev opened vid pid desc_ok claimed \<Rightarrow>
          if d_dev (fst sw) \<or> \<not> opened then sw
          else if \<not> desc_ok \<or> vid \<noteq> 0x03EB \<or> pid \<noteq> 0x2FF4 then apsnd (usb_release U) sw
          else if \<not> claimed then note_msg ''cannot claim interface 0'' (apsnd (usb_release U) sw)
          else note_msg (''bootloader attached ('' @ hex4 vid @ '':'' @ hex4 pid @ '')'')
            (upd_st (\<lambda>s. s\<lparr>ds_present := True, ds_vid := vid, ds_pid := pid\<rparr>)
              ((fst sw)\<lparr>d_dev := True, d_transaction := 0\<rparr>, snd sw))
      | DevGone \<Rightarrow>
          upd_st (ds_present_update (\<lambda>_. False))
            (if d_dev (fst sw) then ((fst sw)\<lparr>d_dev := False\<rparr>, usb_release U (snd sw)) else sw)
      | OtherEvent \<Rightarrow> sw)"

text \<open>What the event task does while a transfer is in flight.\<close>

definition event_task :: "'w usb_api \<Rightarrow> dfu \<times> 'w \<Rightarrow> dfu \<times> 'w" where
  "event_task U sw = (if usb_gone U (snd sw) then client_event_cb U DevGone sw else sw)"

subsection \<open>Control transfers\<close>

definition ctrl ::
  "'w usb_api \<Rightarrow> dfu_dir \<Rightarrow> dfu_request \<Rightarrow> u16 \<Rightarrow> u8 list \<Rightarrow> nat \<Rightarrow> nat \<Rightarrow>
   dfu \<times> 'w \<Rightarrow> esp_err \<times> u8 list \<times> (dfu \<times> 'w)" where
  "ctrl U dir req wValue out len timeout sw =
     (if \<not> d_dev (fst sw) \<or> \<not> d_xfer (fst sw) then (ESP_ERR_INVALID_STATE, [], sw)
      else if len > CTRL_BUF_BYTES - SETUP_BYTES then (ESP_ERR_INVALID_SIZE, [], sw)
      else case usb_control U \<lparr>s_dir = dir, s_req = req, s_value = wValue, s_data = out, s_len = len,
             s_timeout = timeout\<rparr> (snd sw) of
        (r, w1) \<Rightarrow>
          (let sw1 = event_task U (fst sw, w1)
           in case r of
                SubmitErr e \<Rightarrow> (e, [], sw1)
              | NoReply \<Rightarrow> (ESP_ERR_TIMEOUT, [], sw1)
              | XferFailed \<Rightarrow> (ESP_FAIL, [], sw1)
              | Completed buf \<Rightarrow> (ESP_OK, take len (buf @ replicate len 0), sw1)))"

definition bump :: "dfu \<times> 'w \<Rightarrow> dfu \<times> 'w" where
  "bump sw = ((fst sw)\<lparr>d_transaction := d_transaction (fst sw) + 1\<rparr>, snd sw)"

definition dfu_dnload :: "'w usb_api \<Rightarrow> u8 list \<Rightarrow> nat \<Rightarrow> dfu \<times> 'w \<Rightarrow> esp_err \<times> (dfu \<times> 'w)" where
  "dfu_dnload U data timeout sw =
     (case ctrl U DFU_REQ_OUT DFU_DNLOAD (d_transaction (fst sw)) data (length data) timeout (bump sw) of
        (e, _, sw1) \<Rightarrow> (e, sw1))"

definition dfu_upload :: "'w usb_api \<Rightarrow> nat \<Rightarrow> nat \<Rightarrow> dfu \<times> 'w \<Rightarrow> esp_err \<times> u8 list \<times> (dfu \<times> 'w)" where
  "dfu_upload U len timeout sw =
     ctrl U DFU_REQ_IN DFU_UPLOAD (d_transaction (fst sw)) [] len timeout (bump sw)"

text \<open>Status, state and poll time of the answer.\<close>

definition dfu_getstatus :: "'w usb_api \<Rightarrow> dfu \<times> 'w \<Rightarrow> esp_err \<times> (u8 \<times> u8 \<times> nat) \<times> (dfu \<times> 'w)" where
  "dfu_getstatus U sw =
     (case ctrl U DFU_REQ_IN DFU_GETSTATUS 0 [] 6 2000 sw of
        (e, b, sw1) \<Rightarrow>
          (e, if e = ESP_OK then (b ! 0, b ! 4, unat (b ! 1) + 256 * unat (b ! 2) + 65536 * unat (b ! 3))
              else (0xFF, 0xFF, 0), sw1))"

definition dfu_clrstatus :: "'w usb_api \<Rightarrow> dfu \<times> 'w \<Rightarrow> dfu \<times> 'w" where
  "dfu_clrstatus U sw = snd (snd (ctrl U DFU_REQ_OUT DFU_CLRSTATUS 0 [] 0 2000 sw))"

text \<open>The poll loop; \<open>waited\<close> runs from 0 to \<open>tot\<close> in steps of 100 ms.\<close>

function wait_loop :: "'w usb_api \<Rightarrow> nat \<Rightarrow> nat \<Rightarrow> dfu \<times> 'w \<Rightarrow> esp_err \<times> (dfu \<times> 'w)" where
  "wait_loop U tot waited sw =
     (if waited > tot
      then (ESP_ERR_TIMEOUT, note_msg ''timed out waiting for the bootloader'' sw)
      else case dfu_getstatus U sw of
        (e, (status, state, poll), sw1) \<Rightarrow>
          if e \<noteq> ESP_OK then (e, sw1)
          else if status = 0 then (ESP_OK, sw1)
          else if state = 0x0A then
            (ESP_FAIL, note_msg (''bootloader reports error 0x'' @ hex2 status) (dfu_clrstatus U sw1))
          else wait_loop U tot (waited + 100)
                 (apsnd (usb_delay_ms U (if poll > 100 then poll else 100)) sw1))"
  by pat_completeness auto

termination
  by (relation "measure (\<lambda>(U, tot, waited, sw). Suc tot - waited)") auto

declare wait_loop.simps [simp del]

definition wait_ok :: "'w usb_api \<Rightarrow> nat \<Rightarrow> dfu \<times> 'w \<Rightarrow> esp_err \<times> (dfu \<times> 'w)" where
  "wait_ok U tot sw = wait_loop U tot 0 sw"

subsection \<open>Atmel commands\<close>

definition bind_ok ::
  "esp_err \<times> (dfu \<times> 'w) \<Rightarrow> (dfu \<times> 'w \<Rightarrow> esp_err \<times> (dfu \<times> 'w)) \<Rightarrow> esp_err \<times> (dfu \<times> 'w)" where
  "bind_ok r f = (if fst r = ESP_OK then f (snd r) else r)"

text \<open>A command followed by the wait for its result.\<close>

definition dnload_wait :: "'w usb_api \<Rightarrow> u8 list \<Rightarrow> nat \<Rightarrow> dfu \<times> 'w \<Rightarrow> esp_err \<times> (dfu \<times> 'w)" where
  "dnload_wait U cmd tot sw = bind_ok (dfu_dnload U cmd 5000 sw) (wait_ok U tot)"

text \<open>The erase loop over the block modes; the flag reports the fall-back to a full chip erase.\<close>

fun erase_loop :: "'w usb_api \<Rightarrow> u8 list \<Rightarrow> dfu \<times> 'w \<Rightarrow> bool \<times> esp_err \<times> (dfu \<times> 'w)" where
  "erase_loop U [] sw = (False, ESP_OK, sw)"
| "erase_loop U (mode # modes) sw =
     (case dnload_wait U [0x04, 0x00, mode] 20000 sw of
        (e, sw1) \<Rightarrow>
          if e = ESP_OK then erase_loop U modes sw1
          else (True, dnload_wait U [0x04, 0x00, 0xFF] 20000 sw1))"

definition erase_modes :: "nat \<Rightarrow> u8 list" where
  "erase_modes img_len = take ((img_len + 0x3FFF) div 0x4000) [0x00, 0x20, 0x40, 0x80]"

definition atmel_erase_blocks :: "'w usb_api \<Rightarrow> nat \<Rightarrow> dfu \<times> 'w \<Rightarrow> bool \<times> esp_err \<times> (dfu \<times> 'w)" where
  "atmel_erase_blocks U img_len sw = erase_loop U (erase_modes img_len) sw"

definition atmel_start_app :: "'w usb_api \<Rightarrow> dfu \<times> 'w \<Rightarrow> esp_err \<times> (dfu \<times> 'w)" where
  "atmel_start_app U sw =
     (case dfu_dnload U [0x04, 0x03, 0x00] 2000 sw of
        (e, sw1) \<Rightarrow>
          if e \<noteq> ESP_OK then (e, sw1) else (ESP_OK, snd (dfu_dnload U [] 2000 sw1)))"

text \<open>Control block, data and footer of one write.\<close>

definition hi8 :: "nat \<Rightarrow> u8" where
  "hi8 a = of_nat (a mod 0x10000 div 256)"

definition lo8 :: "nat \<Rightarrow> u8" where
  "lo8 a = of_nat (a mod 0x10000)"

definition atmel_msg :: "nat \<Rightarrow> u8 list \<Rightarrow> u8 list" where
  "atmel_msg start data =
     (let fin = start + length data - 1
      in [0x01, 0x00, hi8 start, lo8 start, hi8 fin, lo8 fin] @ replicate 26 0 @ data @
         [0, 0, 0, 0, 16] @ bytes ''DFU'' @ [0x01, 0x10, 0xFF, 0xFF, 0xFF, 0xFF, 0xFF, 0xFF])"

definition atmel_flash_block :: "'w usb_api \<Rightarrow> nat \<Rightarrow> u8 list \<Rightarrow> dfu \<times> 'w \<Rightarrow> esp_err \<times> (dfu \<times> 'w)" where
  "atmel_flash_block U start data sw = dnload_wait U (atmel_msg start data) 5000 sw"

definition atmel_read ::
  "'w usb_api \<Rightarrow> u8 \<Rightarrow> nat \<Rightarrow> nat \<Rightarrow> dfu \<times> 'w \<Rightarrow> esp_err \<times> u8 list \<times> (dfu \<times> 'w)" where
  "atmel_read U unit_id start len sw =
     (let fin = start + len - 1
      in case dfu_dnload U [0x03, unit_id, hi8 start, lo8 start, hi8 fin, lo8 fin] 2000 sw of
           (e, sw1) \<Rightarrow> if e \<noteq> ESP_OK then (e, [], sw1) else dfu_upload U len 5000 sw1)"

subsection \<open>Flashing\<close>

text \<open>The write loop from offset \<open>off\<close> on.\<close>

function flash_loop :: "'w usb_api \<Rightarrow> u8 list \<Rightarrow> nat \<Rightarrow> dfu \<times> 'w \<Rightarrow> esp_err \<times> (dfu \<times> 'w)" where
  "flash_loop U img off sw =
     (if off \<ge> length img then (ESP_OK, sw)
      else
        let blk = take ATMEL_MAX_TRANSFER (drop off img) in
        case atmel_flash_block U off blk sw of
          (e, sw1) \<Rightarrow>
            if e \<noteq> ESP_OK then (e, note_msg (''write error at 0x'' @ hex4 (of_nat off)) sw1)
            else
              let sw2 = upd_st (ds_written_update (\<lambda>_. off + length blk)) sw1 in
              if \<not> d_dev (fst sw2) then (ESP_ERR_NOT_FOUND, note_msg ''bootloader disappeared'' sw2)
              else flash_loop U img (off + ATMEL_MAX_TRANSFER) sw2)"
  by pat_completeness auto

termination
  by (relation "measure (\<lambda>(U, img, off, sw). length img - off)") (auto simp: ATMEL_MAX_TRANSFER_def)

declare flash_loop.simps [simp del]

text \<open>The EEPROM comparison after the writes; \<open>before\<close> is \<open>None\<close> if the first read failed.\<close>

definition eeprom_check :: "'w usb_api \<Rightarrow> u8 list option \<Rightarrow> dfu \<times> 'w \<Rightarrow> dfu \<times> 'w" where
  "eeprom_check U before sw =
     (case before of
        None \<Rightarrow> sw
      | Some b \<Rightarrow>
          (case atmel_read U 0x02 0 EEPROM_GUARD_BYTES sw of
             (e, a, sw1) \<Rightarrow>
               if e = ESP_OK
               then upd_st (\<lambda>s. s\<lparr>ds_eeprom_checked := True, ds_eeprom_intact := (b = a)\<rparr>) sw1 else sw1))"

definition done_msg :: "bool \<Rightarrow> cul_dfu_status \<Rightarrow> string" where
  "done_msg fell_back s =
     (if ds_eeprom_checked s \<and> \<not> ds_eeprom_intact s
      then ''done: '' @ dec (ds_written s) @ '' bytes written - WARNING: EEPROM changed''
      else if ds_eeprom_checked s
      then ''done: '' @ dec (ds_written s) @ '' bytes written, EEPROM unchanged''
      else if fell_back
      then ''done: '' @ dec (ds_written s) @ '' bytes - whole chip erased, EEPROM not verifiable''
      else ''done: '' @ dec (ds_written s) @ '' bytes written, only program memory erased'')"

text \<open>The body between taking and giving the lock.\<close>

definition flash_locked :: "'w usb_api \<Rightarrow> u8 list \<Rightarrow> dfu \<times> 'w \<Rightarrow> esp_err \<times> (dfu \<times> 'w)" where
  "flash_locked U img sw =
     (let sw0 = upd_st (\<lambda>s. s\<lparr>ds_busy := True, ds_written := 0, ds_eeprom_checked := False,
            ds_eeprom_intact := False\<rparr>) sw;
          (ee, before, sw1) = atmel_read U 0x02 0 EEPROM_GUARD_BYTES sw0;
          sw2 = note_msg (''erasing '' @ dec ((length img + 1023) div 1024) @ '' KB of program memory'') sw1;
          (fell_back, e1, sw3) = atmel_erase_blocks U (length img) sw2;
          (e2, sw4) = bind_ok (e1, sw3) (flash_loop U img 0);
          (e3, sw5) = bind_ok (e2, sw4) (\<lambda>sw.
            let sw' = eeprom_check U (if ee = ESP_OK then Some before else None) sw
            in atmel_start_app U (note_msg (dec (ds_written (d_st (fst sw'))) @
                 '' bytes written, starting the application'') sw'));
          sw6 = upd_st (ds_busy_update (\<lambda>_. False)) sw5
      in (e3, if e3 = ESP_OK then note_msg (done_msg fell_back (d_st (fst sw6))) sw6 else sw6))"

definition cul_dfu_flash :: "'w usb_api \<Rightarrow> u8 list \<Rightarrow> dfu \<times> 'w \<Rightarrow> esp_err \<times> (dfu \<times> 'w)" where
  "cul_dfu_flash U img sw =
     (if img = [] then (ESP_ERR_INVALID_ARG, sw)
      else if length img > CUL_DFU_APP_LIMIT
      then (ESP_ERR_INVALID_SIZE, note_msg (''image too large ('' @ dec (length img) @ '' > '' @
         dec CUL_DFU_APP_LIMIT @ '' bytes) - would hit the bootloader'') sw)
      else if \<not> d_dev (fst sw)
      then (ESP_ERR_NOT_FOUND, note_msg ''no bootloader on the bus - send `B01` to the stick first'' sw)
      else if d_locked (fst sw) then (ESP_ERR_INVALID_STATE, sw)
      else case flash_locked U img ((fst sw)\<lparr>d_locked := True\<rparr>, snd sw) of
        (e, sw1) \<Rightarrow> (e, ((fst sw1)\<lparr>d_locked := False\<rparr>, snd sw1)))"

subsection \<open>The commands on the wire\<close>

text \<open>The host library that records the transfers, and the payloads of the downloads among them.\<close>

definition spying :: "'w usb_api \<Rightarrow> ('w \<times> dfu_setup list) usb_api" where
  "spying U =
     \<lparr>usb_control = (\<lambda>s wl. case usb_control U s (fst wl) of (r, w) \<Rightarrow> (r, (w, snd wl @ [s]))),
      usb_gone = (\<lambda>wl. usb_gone U (fst wl)), usb_release = apfst (usb_release U),
      usb_delay_ms = (\<lambda>n. apfst (usb_delay_ms U n))\<rparr>"

definition wire :: "dfu \<times> ('w \<times> dfu_setup list) \<Rightarrow> dfu_setup list" where
  "wire sw = snd (snd sw)"

definition dn :: "dfu \<times> ('w \<times> dfu_setup list) \<Rightarrow> u8 list list" where
  "dn sw = map s_data (filter (\<lambda>s. s_req s = DFU_DNLOAD) (wire sw))"

definition polls :: "dfu \<times> ('w \<times> dfu_setup list) \<Rightarrow> nat" where
  "polls sw = length (filter (\<lambda>s. s_req s = DFU_GETSTATUS) (wire sw))"

lemma wire_frame [simp]:
  "wire (upd_st f sw) = wire sw" "wire (note_msg m sw) = wire sw" "wire (bump sw) = wire sw"
  "wire (S, apfst g wl) = wire (S, wl)" "wire (apsnd (apfst g) sw) = wire sw"
  by (cases sw; simp add: wire_def upd_st_def note_msg_def bump_def)+

lemma dn_frame [simp]:
  "dn (upd_st f sw) = dn sw" "dn (note_msg m sw) = dn sw" "dn (bump sw) = dn sw"
  "dn (apsnd (usb_delay_ms (spying U) n) sw) = dn sw"
  "polls (apsnd (usb_delay_ms (spying U) n) sw) = polls sw" "polls (note_msg m sw) = polls sw"
  by (simp_all add: dn_def polls_def spying_def)

lemma wire_event_task [simp]: "wire (event_task (spying U) (S, wl)) = snd wl"
  by (cases wl) (simp add: event_task_def client_event_cb_def spying_def wire_def upd_st_def)

lemma ctrl_wire:
  assumes "ctrl (spying U) dir req v out len t sw = (e, b, sw')"
  shows "wire sw' = wire sw \<and> e \<noteq> ESP_OK \<or> wire sw' = wire sw @
    [\<lparr>s_dir = dir, s_req = req, s_value = v, s_data = out, s_len = len, s_timeout = t\<rparr>]"
proof -
  obtain S w l where sw: "sw = (S, (w, l))" by (cases sw) auto
  let ?s = "\<lparr>s_dir = dir, s_req = req, s_value = v, s_data = out, s_len = len, s_timeout = t\<rparr>"
  obtain r w1 where "usb_control U ?s w = (r, w1)" by fastforce
  then have "usb_control (spying U) ?s (w, l) = (r, (w1, l @ [?s]))" by (simp add: spying_def)
  then show ?thesis using assms
    by (cases r) (auto simp: sw ctrl_def Let_def wire_def [of "(S, (w, l))"] split: if_splits)
qed

lemma ctrl_dn:
  assumes "ctrl (spying U) dir req v out len t sw = (e, b, sw')"
  shows "req \<noteq> DFU_DNLOAD \<Longrightarrow> dn sw' = dn sw"
    and "req = DFU_DNLOAD \<Longrightarrow> dn sw' = dn sw \<and> e \<noteq> ESP_OK \<or> dn sw' = dn sw @ [out]"
    and "polls sw' \<le> polls sw + (if req = DFU_GETSTATUS then 1 else 0)"
  using ctrl_wire [OF assms] by (auto simp: dn_def polls_def)

lemma dnload_dn:
  "dfu_dnload (spying U) d t sw = (e, sw') \<Longrightarrow> dn sw' = dn sw \<and> e \<noteq> ESP_OK \<or> dn sw' = dn sw @ [d]"
  using ctrl_dn(2) [of U DFU_REQ_OUT DFU_DNLOAD "d_transaction (fst sw)" d "length d" t "bump sw"]
  by (auto simp: dfu_dnload_def split: prod.splits)

lemma upload_dn: "dfu_upload (spying U) n t sw = (e, b, sw') \<Longrightarrow> dn sw' = dn sw"
  using ctrl_dn(1) [of U DFU_REQ_IN DFU_UPLOAD "d_transaction (fst sw)" "[]" n t "bump sw"]
  by (auto simp: dfu_upload_def)

lemma clrstatus_dn: "dn (dfu_clrstatus (spying U) sw) = dn sw \<and> polls (dfu_clrstatus (spying U) sw) \<le> polls sw"
proof -
  obtain e b sw' where "ctrl (spying U) DFU_REQ_OUT DFU_CLRSTATUS 0 [] 0 2000 sw = (e, b, sw')"
    by (metis prod.collapse)
  from ctrl_dn(1,3) [OF this] this show ?thesis by (simp add: dfu_clrstatus_def)
qed

lemma getstatus_dn:
  assumes "dfu_getstatus (spying U) sw = (e, q, sw')"
  shows "dn sw' = dn sw" and "polls sw' \<le> polls sw + 1"
proof -
  obtain e1 b sw1 where c: "ctrl (spying U) DFU_REQ_IN DFU_GETSTATUS 0 [] 6 2000 sw = (e1, b, sw1)"
    by (metis prod.collapse)
  then have "sw1 = sw'" using assms by (simp add: dfu_getstatus_def)
  then show "dn sw' = dn sw" and "polls sw' \<le> polls sw + 1" using ctrl_dn(1,3) [OF c] by simp_all
qed

lemma wait_loop_dn:
  "wait_loop (spying U) tot waited sw = (e, sw') \<Longrightarrow>
    dn sw' = dn sw \<and> polls sw' \<le> polls sw + (tot + 100 - waited) div 100"
proof (induction "spying U" tot waited sw arbitrary: e sw' rule: wait_loop.induct)
  case (1 tot waited sw)
  show ?case
  proof (cases "waited > tot")
    case True
    then show ?thesis using "1.prems" by (auto simp: wait_loop.simps)
  next
    case False
    obtain g st stt poll sw1 where gs: "dfu_getstatus (spying U) sw = (g, (st, stt, poll), sw1)"
      by (metis prod.collapse)
    note dnp = getstatus_dn [OF gs]
    have div: "(tot + 100 - waited) div 100 = Suc ((tot + 100 - (waited + 100)) div 100)"
      using False by (metis add.commute add_diff_cancel_left diff_add_assoc div_add_self1 le_add_diff_inverse
          not_less plus_1_eq_Suc zero_neq_numeral diff_diff_left)
    let ?sw2 = "apsnd (usb_delay_ms (spying U) (if poll > 100 then poll else 100)) sw1"
    consider (err) "g \<noteq> ESP_OK" | (ok) "g = ESP_OK" "st = 0" | (dfuerr) "g = ESP_OK" "st \<noteq> 0" "stt = 0x0A"
      | (again) "g = ESP_OK" "st \<noteq> 0" "stt \<noteq> 0x0A" by blast
    then show ?thesis
    proof cases
      case again
      then have "wait_loop (spying U) tot (waited + 100) ?sw2 = (e, sw')"
        using "1.prems" False gs by (simp add: wait_loop.simps [of _ tot waited])
      from "1.hyps" [OF False gs [symmetric] refl refl refl _ _ _ this] again dnp div show ?thesis by simp
    qed (use "1.prems" False gs dnp div clrstatus_dn [of U sw1] in
        \<open>auto simp: wait_loop.simps [of _ tot waited]\<close>)
  qed
qed

lemma wait_ok_dn: "wait_ok (spying U) tot sw = (e, sw') \<Longrightarrow> dn sw' = dn sw"
  using wait_loop_dn [of U tot 0 sw e sw'] by (simp add: wait_ok_def)

lemma dnload_wait_dn:
  assumes "dnload_wait (spying U) c tot sw = (e, sw')"
  shows "dn sw' = dn sw \<and> e \<noteq> ESP_OK \<or> dn sw' = dn sw @ [c]"
proof -
  obtain g sw1 where g: "dfu_dnload (spying U) c 5000 sw = (g, sw1)" by (metis surj_pair)
  show ?thesis
    using dnload_dn [OF g] assms g wait_ok_dn [of U tot sw1 e sw']
    by (auto simp: dnload_wait_def bind_ok_def split: if_splits)
qed

definition plan :: "u8 list \<Rightarrow> nat \<Rightarrow> u8 list list" where
  "plan img k = map (\<lambda>i. atmel_msg (1024 * i) (take 1024 (drop (1024 * i) img)))
     [k..<(length img + 1023) div 1024]"

lemma plan_step: "1024 * k < length img \<Longrightarrow>
    plan img k = atmel_msg (1024 * k) (take 1024 (drop (1024 * k) img)) # plan img (Suc k)"
  unfolding plan_def by (subst upt_conv_Cons) auto

lemma plan_end: "length img \<le> 1024 * k \<Longrightarrow> plan img k = []"
  by (simp add: plan_def)

lemma flash_loop_dn:
  "flash_loop (spying U) img (1024 * k) sw = (e, sw') \<Longrightarrow>
    \<exists>n. dn sw' = dn sw @ take n (plan img k) \<and> (e = ESP_OK \<longrightarrow> length (plan img k) \<le> n)"
proof (induction "length img - 1024 * k" arbitrary: k sw rule: less_induct)
  case less
  show ?case
  proof (cases "length img \<le> 1024 * k")
    case True
    then show ?thesis using less.prems by (auto simp: flash_loop.simps plan_end)
  next
    case False
    let ?blk = "take ATMEL_MAX_TRANSFER (drop (1024 * k) img)"
    let ?upd = "upd_st (ds_written_update (\<lambda>_. 1024 * k + length ?blk))"
    obtain g sw1 where g: "atmel_flash_block (spying U) (1024 * k) ?blk sw = (g, sw1)" by (metis surj_pair)
    from False have pl: "plan img k = atmel_msg (1024 * k) ?blk # plan img (Suc k)"
      by (simp add: plan_step ATMEL_MAX_TRANSFER_def)
    have d: "dn sw1 = dn sw \<and> g \<noteq> ESP_OK \<or> dn sw1 = dn sw @ [atmel_msg (1024 * k) ?blk]"
      using g unfolding atmel_flash_block_def by (rule dnload_wait_dn)
    have run: "flash_loop (spying U) img (1024 * k) sw =
        (if g \<noteq> ESP_OK then (g, note_msg (''write error at 0x'' @ hex4 (of_nat (1024 * k))) sw1)
         else if \<not> d_dev (fst (?upd sw1))
         then (ESP_ERR_NOT_FOUND, note_msg ''bootloader disappeared'' (?upd sw1))
         else flash_loop (spying U) img (1024 * Suc k) (?upd sw1))"
      using False g by (subst flash_loop.simps) (simp add: Let_def ATMEL_MAX_TRANSFER_def add.commute)
    consider "g \<noteq> ESP_OK" | "g = ESP_OK" "\<not> d_dev (fst (?upd sw1))" | (go) "g = ESP_OK" "d_dev (fst (?upd sw1))"
      by blast
    then show ?thesis
    proof cases
      case 1
      then show ?thesis using d less.prems run pl by (metis dn_frame(2) Pair_inject append_Nil2 take0 take_Suc_Cons)
    next
      case 2
      then have "e \<noteq> ESP_OK" "dn sw' = dn sw @ take 1 (plan img k)"
        using d less.prems run pl by auto
      then show ?thesis by blast
    next
      case go
      then have more: "flash_loop (spying U) img (1024 * Suc k) (?upd sw1) = (e, sw')" using less.prems run by simp
      have "length img - 1024 * Suc k < length img - 1024 * k"
        using False by (intro diff_less_mono2) auto
      from less.hyps [OF this more] obtain n where
        "dn sw' = dn (?upd sw1) @ take n (plan img (Suc k))" "e = ESP_OK \<longrightarrow> length (plan img (Suc k)) \<le> n"
        by auto
      then have "dn sw' = dn sw @ take (Suc n) (plan img k) \<and> (e = ESP_OK \<longrightarrow> length (plan img k) \<le> Suc n)"
        using d go pl by auto
      then show ?thesis by blast
    qed
  qed
qed

definition erase_cmd :: "u8 \<Rightarrow> u8 list" where
  "erase_cmd m = [0x04, 0x00, m]"

lemma erase_loop_dn:
  "erase_loop (spying U) modes sw = (fb, e, sw') \<Longrightarrow>
    \<exists>ms. dn sw' = dn sw @ ms \<and> set ms \<subseteq> erase_cmd ` (set modes \<union> {0xFF}) \<and>
      (\<not> fb \<longrightarrow> e = ESP_OK \<and> ms = map erase_cmd modes)"
proof (induction modes arbitrary: sw)
  case Nil
  then show ?case by auto
next
  case (Cons m modes)
  obtain g sw1 where g: "dnload_wait (spying U) [0x04, 0x00, m] 20000 sw = (g, sw1)" by (metis surj_pair)
  have d: "dn sw1 = dn sw \<and> g \<noteq> ESP_OK \<or> dn sw1 = dn sw @ [erase_cmd m]"
    using dnload_wait_dn [OF g] by (simp add: erase_cmd_def)
  show ?case
  proof (cases "g = ESP_OK")
    case True
    then have "erase_loop (spying U) modes sw1 = (fb, e, sw')" using Cons.prems g by simp
    from Cons.IH [OF this] obtain ms where "dn sw' = dn sw1 @ ms" "set ms \<subseteq> erase_cmd ` (set modes \<union> {0xFF})"
      "\<not> fb \<longrightarrow> e = ESP_OK \<and> ms = map erase_cmd modes" by blast
    then have "dn sw' = dn sw @ erase_cmd m # ms \<and> set (erase_cmd m # ms) \<subseteq> erase_cmd ` (set (m # modes) \<union> {0xFF}) \<and>
      (\<not> fb \<longrightarrow> e = ESP_OK \<and> erase_cmd m # ms = map erase_cmd (m # modes))" using d True by auto
    then show ?thesis by (rule exI [of _ "erase_cmd m # ms"])
  next
    case False
    then have "fb" "dnload_wait (spying U) [0x04, 0x00, 0xFF] 20000 sw1 = (e, sw')" using Cons.prems g by auto
    from this(1) dnload_wait_dn [OF this(2)] d have
      "fb \<and> (\<exists>ms. dn sw' = dn sw @ ms \<and> set ms \<subseteq> {erase_cmd m, erase_cmd 0xFF})"
      by (auto simp: erase_cmd_def)
    then show ?thesis by fastforce
  qed
qed

lemma read_dn:
  assumes "atmel_read (spying U) u a n sw = (e, b, sw')"
  shows "dn sw' = dn sw \<or> dn sw' = dn sw @ [[0x03, u, hi8 a, lo8 a, hi8 (a + n - 1), lo8 (a + n - 1)]]"
proof -
  let ?c = "[0x03, u, hi8 a, lo8 a, hi8 (a + n - 1), lo8 (a + n - 1)]"
  obtain g sw1 where g: "dfu_dnload (spying U) ?c 2000 sw = (g, sw1)" by (metis surj_pair)
  show ?thesis
    using dnload_dn [OF g] assms g upload_dn [of U n 5000 sw1 e b sw']
    by (auto simp: atmel_read_def Let_def split: if_splits)
qed

lemma start_app_dn:
  assumes "atmel_start_app (spying U) sw = (e, sw')"
  shows "\<exists>ms. dn sw' = dn sw @ ms \<and> set ms \<subseteq> {[0x04, 0x03, 0x00], []} \<and>
    (e = ESP_OK \<longrightarrow> [0x04, 0x03, 0x00] \<in> set ms)"
proof -
  obtain g sw1 where g: "dfu_dnload (spying U) [0x04, 0x03, 0x00] 2000 sw = (g, sw1)" by (metis surj_pair)
  obtain h sw2 where h: "dfu_dnload (spying U) [] 2000 sw1 = (h, sw2)" by (metis surj_pair)
  show ?thesis
    using dnload_dn [OF g] dnload_dn [OF h] assms g h
    by (auto simp: atmel_start_app_def split: if_splits)
qed

definition read_cmd :: "u8 list" where
  "read_cmd = [0x03, 0x02, 0, 0, 0, 0xFF]"

lemma guard_read_dn:
  assumes "atmel_read (spying U) 2 0 EEPROM_GUARD_BYTES sw = (e, b, sw')"
  shows "\<exists>ms. dn sw' = dn sw @ ms \<and> set ms \<subseteq> {read_cmd}"
  using read_dn [OF assms] by (auto simp: read_cmd_def hi8_def lo8_def EEPROM_GUARD_BYTES_def)

lemma eeprom_check_dn:
  "\<exists>ms. dn (eeprom_check (spying U) b sw) = dn sw @ ms \<and> set ms \<subseteq> {read_cmd}"
proof (cases b)
  case (Some x)
  obtain e a sw1 where r: "atmel_read (spying U) 2 0 EEPROM_GUARD_BYTES sw = (e, a, sw1)"
    by (metis surj_pair)
  show ?thesis using guard_read_dn [OF r] r by (simp add: eeprom_check_def Some)
qed (simp add: eeprom_check_def)

text \<open>The frame: what a transfer leaves alone.\<close>

definition frame :: "dfu \<times> 'w \<Rightarrow> bool \<times> bool \<times> bool \<times> nat \<times> bool \<times> bool" where
  "frame sw = (case fst sw of S \<Rightarrow> (d_locked S, d_xfer S, ds_busy (d_st S), ds_written (d_st S),
     ds_eeprom_checked (d_st S), ds_eeprom_intact (d_st S)))"

lemma frame_simps [simp]:
  "frame (note_msg m sw) = frame sw" "frame (bump sw) = frame sw" "frame (apsnd g sw) = frame sw"
  "frame (event_task U sw) = frame sw"
  by (cases sw; simp add: frame_def note_msg_def upd_st_def bump_def event_task_def client_event_cb_def)+

lemma frame_world: "frame (S, w) = frame (S, w')"
  by (simp add: frame_def)

lemma ctrl_frame: "ctrl U dir req v out len t sw = (e, b, sw') \<Longrightarrow> frame sw' = frame sw"
proof -
  assume c: "ctrl U dir req v out len t sw = (e, b, sw')"
  obtain r w1 where u: "usb_control U \<lparr>s_dir = dir, s_req = req, s_value = v, s_data = out, s_len = len,
      s_timeout = t\<rparr> (snd sw) = (r, w1)" by (metis surj_pair)
  have "frame (fst sw, w1) = frame sw" by (cases sw) (simp add: frame_def)
  then show ?thesis using c u by (cases r) (auto simp: ctrl_def Let_def split: if_splits)
qed

lemma dnload_frame: "dfu_dnload U d t sw = (e, sw') \<Longrightarrow> frame sw' = frame sw"
  by (auto simp: dfu_dnload_def split: prod.splits dest!: ctrl_frame)

lemma getstatus_frame: "dfu_getstatus U sw = (e, q, sw') \<Longrightarrow> frame sw' = frame sw"
  by (auto simp: dfu_getstatus_def split: prod.splits dest!: ctrl_frame)

lemma clrstatus_frame: "frame (dfu_clrstatus U sw) = frame sw"
  unfolding dfu_clrstatus_def by (metis ctrl_frame prod.collapse)

lemma wait_loop_frame: "wait_loop U tot waited sw = (e, sw') \<Longrightarrow> frame sw' = frame sw"
proof (induction U tot waited sw arbitrary: e sw' rule: wait_loop.induct)
  case (1 U tot waited sw)
  show ?case
  proof (cases "waited > tot")
    case True
    then show ?thesis using "1.prems" by (auto simp: wait_loop.simps)
  next
    case False
    obtain g st stt poll sw1 where gs: "dfu_getstatus U sw = (g, (st, stt, poll), sw1)"
      by (metis prod.collapse)
    let ?sw2 = "apsnd (usb_delay_ms U (if poll > 100 then poll else 100)) sw1"
    consider (err) "g \<noteq> ESP_OK" | (ok) "g = ESP_OK" "st = 0" | (dfuerr) "g = ESP_OK" "st \<noteq> 0" "stt = 0x0A"
      | (again) "g = ESP_OK" "st \<noteq> 0" "stt \<noteq> 0x0A" by blast
    then show ?thesis
    proof cases
      case again
      then have "wait_loop U tot (waited + 100) ?sw2 = (e, sw')"
        using "1.prems" False gs by (simp add: wait_loop.simps [of _ tot waited])
      from "1.IH" [OF False gs [symmetric] refl refl refl _ _ _ this] again getstatus_frame [OF gs]
      show ?thesis by simp
    qed (use "1.prems" False gs getstatus_frame [OF gs] clrstatus_frame [of U sw1] in
        \<open>auto simp: wait_loop.simps [of _ tot waited]\<close>)
  qed
qed

lemma dnload_wait_frame: "dnload_wait U c tot sw = (e, sw') \<Longrightarrow> frame sw' = frame sw"
proof -
  assume a: "dnload_wait U c tot sw = (e, sw')"
  obtain g sw1 where g: "dfu_dnload U c 5000 sw = (g, sw1)" by (metis surj_pair)
  show ?thesis using dnload_frame [OF g] a g wait_loop_frame [of U tot 0 sw1 e sw']
    by (auto simp: dnload_wait_def bind_ok_def wait_ok_def split: if_splits)
qed

lemma erase_loop_frame: "erase_loop U modes sw = (fb, e, sw') \<Longrightarrow> frame sw' = frame sw"
proof (induction modes arbitrary: sw)
  case (Cons m modes)
  obtain g sw1 where g: "dnload_wait U [0x04, 0x00, m] 20000 sw = (g, sw1)" by (metis surj_pair)
  show ?case
    using Cons.prems Cons.IH [of sw1] g dnload_wait_frame [OF g]
      dnload_wait_frame [of U "[0x04, 0x00, 0xFF]" 20000 sw1 e sw'] by (simp split: if_splits)
qed simp

lemma read_frame: "atmel_read U u a n sw = (e, b, sw') \<Longrightarrow> frame sw' = frame sw"
proof -
  assume a: "atmel_read U u a n sw = (e, b, sw')"
  obtain g sw1 where g: "dfu_dnload U [0x03, u, hi8 a, lo8 a, hi8 (a + n - 1), lo8 (a + n - 1)] 2000 sw = (g, sw1)"
    by (metis surj_pair)
  show ?thesis using dnload_frame [OF g] a g
      ctrl_frame [of U DFU_REQ_IN DFU_UPLOAD "d_transaction (fst sw1)" "[]" n 5000 "bump sw1" e b sw']
    by (auto simp: atmel_read_def Let_def dfu_upload_def split: if_splits)
qed

lemma start_app_frame: "atmel_start_app U sw = (e, sw') \<Longrightarrow> frame sw' = frame sw"
proof -
  assume a: "atmel_start_app U sw = (e, sw')"
  obtain g sw1 where g: "dfu_dnload U [0x04, 0x03, 0x00] 2000 sw = (g, sw1)" by (metis surj_pair)
  obtain h sw2 where h: "dfu_dnload U [] 2000 sw1 = (h, sw2)" by (metis surj_pair)
  show ?thesis using dnload_frame [OF g] dnload_frame [OF h] a g h
    by (auto simp: atmel_start_app_def split: if_splits)
qed

lemma frame_written:
  "frame (upd_st (ds_written_update (\<lambda>_. n)) sw) =
     (case frame sw of (l, x, b, _, c, i) \<Rightarrow> (l, x, b, n, c, i))"
  by (cases sw) (simp add: frame_def upd_st_def)

lemma flash_loop_frame:
  "flash_loop U img (1024 * k) sw = (e, sw') \<Longrightarrow> frame sw = (l, x, b, min (1024 * k) (length img), c, i) \<Longrightarrow>
    \<exists>n\<le>length img. frame sw' = (l, x, b, n, c, i) \<and> (e = ESP_OK \<longrightarrow> n = length img)"
proof (induction "length img - 1024 * k" arbitrary: k sw rule: less_induct)
  case less
  show ?case
  proof (cases "length img \<le> 1024 * k")
    case True
    then show ?thesis using less.prems by (auto simp: flash_loop.simps)
  next
    case False
    let ?blk = "take ATMEL_MAX_TRANSFER (drop (1024 * k) img)"
    let ?upd = "upd_st (ds_written_update (\<lambda>_. 1024 * k + length ?blk))"
    obtain g sw1 where g: "atmel_flash_block U (1024 * k) ?blk sw = (g, sw1)" by (metis surj_pair)
    have fr: "frame sw1 = frame sw"
      using g unfolding atmel_flash_block_def by (rule dnload_wait_frame)
    have w: "1024 * k + length ?blk = min (1024 * Suc k) (length img)"
      using False by (simp add: ATMEL_MAX_TRANSFER_def)
    have up: "frame (?upd sw1) = (l, x, b, min (1024 * Suc k) (length img), c, i)"
      unfolding frame_written w fr less.prems(2) by simp
    have run: "flash_loop U img (1024 * k) sw =
        (if g \<noteq> ESP_OK then (g, note_msg (''write error at 0x'' @ hex4 (of_nat (1024 * k))) sw1)
         else if \<not> d_dev (fst (?upd sw1))
         then (ESP_ERR_NOT_FOUND, note_msg ''bootloader disappeared'' (?upd sw1))
         else flash_loop U img (1024 * Suc k) (?upd sw1))"
      using False g by (subst flash_loop.simps) (simp add: Let_def ATMEL_MAX_TRANSFER_def add.commute)
    consider "g \<noteq> ESP_OK" | "g = ESP_OK" "\<not> d_dev (fst (?upd sw1))" | (go) "g = ESP_OK" "d_dev (fst (?upd sw1))"
      by blast
    then show ?thesis
    proof cases
      case 1
      then have "e \<noteq> ESP_OK" "frame sw' = frame sw1" using less.prems run by auto
      then show ?thesis using fr less.prems(2) by simp
    next
      case 2
      then have "e \<noteq> ESP_OK" "frame sw' = frame (?upd sw1)" using less.prems run by auto
      then show ?thesis unfolding up by simp
    next
      case go
      then have more: "flash_loop U img (1024 * Suc k) (?upd sw1) = (e, sw')" using less.prems run by simp
      have "length img - 1024 * Suc k < length img - 1024 * k"
        using False by (intro diff_less_mono2) auto
      from less.hyps [OF this more up] show ?thesis .
    qed
  qed
qed

subsection \<open>What a flash run sends\<close>

lemma pair_obtain: "(\<And>a b. r = (a, b) \<Longrightarrow> P) \<Longrightarrow> P"
  by (cases r) blast

lemma flash_locked_log:
  assumes "flash_locked (spying U) img sw = (e, sw')"
  shows "\<exists>pre n post. dn sw' = dn sw @ pre @ take n (plan img 0) @ post \<and>
    set pre \<subseteq> {read_cmd} \<union> erase_cmd ` (set (erase_modes (length img)) \<union> {0xFF}) \<and>
    set post \<subseteq> {read_cmd, [0x04, 0x03, 0x00], []} \<and> (post \<noteq> [] \<longrightarrow> length (plan img 0) \<le> n) \<and>
    (e = ESP_OK \<longrightarrow> [0x04, 0x03, 0x00] \<in> set post)"
    (is "\<exists>pre n post. ?P pre n post")
proof -
  let ?sw0 = "upd_st (\<lambda>s. s\<lparr>ds_busy := True, ds_written := 0, ds_eeprom_checked := False,
            ds_eeprom_intact := False\<rparr>) sw"
  obtain ee b sw1 where r1: "atmel_read (spying U) 0x02 0 EEPROM_GUARD_BYTES ?sw0 = (ee, b, sw1)"
    by (metis surj_pair)
  let ?sw2 = "note_msg (''erasing '' @ dec ((length img + 1023) div 1024) @ '' KB of program memory'') sw1"
  obtain fb e1 sw3 where r2: "atmel_erase_blocks (spying U) (length img) ?sw2 = (fb, e1, sw3)"
    by (metis surj_pair)
  obtain rd where rd: "dn sw1 = dn sw @ rd" "set rd \<subseteq> {read_cmd}"
    using guard_read_dn [OF r1] by auto
  obtain er where er: "dn sw3 = dn sw1 @ er" "set er \<subseteq> erase_cmd ` (set (erase_modes (length img)) \<union> {0xFF})"
    using erase_loop_dn [OF r2 [unfolded atmel_erase_blocks_def]] by auto
  have pre: "set (rd @ er) \<subseteq> {read_cmd} \<union> erase_cmd ` (set (erase_modes (length img)) \<union> {0xFF})"
    using rd(2) er(2) by auto
  show ?thesis
  proof (cases "e1 = ESP_OK")
    case False
    then have "e \<noteq> ESP_OK" "dn sw' = dn sw3"
      using assms r1 r2 by (auto simp: flash_locked_def Let_def bind_ok_def)
    then have "?P (rd @ er) 0 []" using pre rd er by simp
    then show ?thesis by blast
  next
    case True
    obtain e2 sw4 where r3: "flash_loop (spying U) img 0 sw3 = (e2, sw4)" by (metis surj_pair)
    obtain n where n: "dn sw4 = dn sw3 @ take n (plan img 0)" "e2 = ESP_OK \<longrightarrow> length (plan img 0) \<le> n"
      using flash_loop_dn [of U img 0 sw3 e2 sw4] r3 by auto
    show ?thesis
    proof (cases "e2 = ESP_OK")
      case False
      then have "e \<noteq> ESP_OK" "dn sw' = dn sw4"
        using assms r1 r2 r3 True by (auto simp: flash_locked_def Let_def bind_ok_def)
      then have "?P (rd @ er) n []" using pre rd er n by simp
      then show ?thesis by blast
    next
      case ok: True
      let ?b = "if ee = ESP_OK then Some b else None"
      let ?ck = "eeprom_check (spying U) ?b sw4"
      obtain e3 sw5 where r4: "atmel_start_app (spying U) (note_msg (dec (ds_written (d_st (fst ?ck))) @
                 '' bytes written, starting the application'') ?ck) = (e3, sw5)" by (metis surj_pair)
      obtain ck where ck: "dn ?ck = dn sw4 @ ck" "set ck \<subseteq> {read_cmd}" using eeprom_check_dn by blast
      obtain st where st: "dn sw5 = dn ?ck @ st" "set st \<subseteq> {[0x04, 0x03, 0x00], []}"
        "e3 = ESP_OK \<longrightarrow> [0x04, 0x03, 0x00] \<in> set st" using start_app_dn [OF r4] by auto
      have "e = e3" "dn sw' = dn sw5"
        using assms r1 r2 r3 r4 True ok by (auto simp: flash_locked_def Let_def bind_ok_def)
      moreover have "set (ck @ st) \<subseteq> {read_cmd, [0x04, 0x03, 0x00], []}" using ck(2) st(2) by auto
      ultimately have "?P (rd @ er) n (ck @ st)" using pre rd er n ok ck st by simp
      then show ?thesis by blast
    qed
  qed
qed

lemma flash_run_log:
  assumes "cul_dfu_flash (spying U) img (S, (w, [])) = (e, sw')"
  shows "\<exists>pre n post. dn sw' = pre @ take n (plan img 0) @ post \<and>
    set pre \<subseteq> {read_cmd} \<union> erase_cmd ` (set (erase_modes (length img)) \<union> {0xFF}) \<and>
    set post \<subseteq> {read_cmd, [0x04, 0x03, 0x00], []} \<and> (post \<noteq> [] \<longrightarrow> length (plan img 0) \<le> n) \<and>
    (e = ESP_OK \<longrightarrow> [0x04, 0x03, 0x00] \<in> set post) \<and>
    (img = [] \<or> length img > CUL_DFU_APP_LIMIT \<or> \<not> d_dev S \<or> d_locked S \<longrightarrow>
       e \<noteq> ESP_OK \<and> wire sw' = [])"
    (is "\<exists>pre n post. ?P pre n post")
proof (cases "img = [] \<or> length img > CUL_DFU_APP_LIMIT \<or> \<not> d_dev S \<or> d_locked S")
  case True
  then have "e \<noteq> ESP_OK \<and> wire sw' = []"
    using assms by (auto simp: cul_dfu_flash_def wire_def note_msg_def upd_st_def split: if_splits)
  then have "?P [] 0 []" by (simp add: dn_def)
  then show ?thesis by blast
next
  case False
  let ?sw = "(S\<lparr>d_locked := True\<rparr>, (w, []))"
  obtain sw1 where r: "flash_locked (spying U) img ?sw = (e, sw1)"
    and sw': "sw' = ((fst sw1)\<lparr>d_locked := False\<rparr>, snd sw1)"
    using assms False by (cases "flash_locked (spying U) img ?sw") (auto simp: cul_dfu_flash_def)
  have "dn ?sw = []" "dn sw' = dn sw1" by (simp_all add: sw' dn_def wire_def)
  with flash_locked_log [OF r] False show ?thesis by auto
qed

text \<open>C21: Whatever the host does, a flash run sends erase and read commands, then the write messages of
  the image in order, and only after all of them the read-back and the start command; a success means
  that all were sent.  A refused run sends nothing.\<close>
theorem cul_dfu_flash_log:
  assumes "cul_dfu_flash (spying U) img (S, (w, [])) = (e, sw')"
  shows "\<exists>pre n post. dn sw' = pre @ take n (plan img 0) @ post \<and>
    set pre \<subseteq> {read_cmd} \<union> erase_cmd ` (set (erase_modes (length img)) \<union> {0xFF}) \<and>
    set post \<subseteq> {read_cmd, [0x04, 0x03, 0x00], []} \<and> (post \<noteq> [] \<longrightarrow> length (plan img 0) \<le> n) \<and>
    (e = ESP_OK \<longrightarrow> [0x04, 0x03, 0x00] \<in> set post) \<and>
    (img = [] \<or> length img > CUL_DFU_APP_LIMIT \<or> \<not> d_dev S \<or> d_locked S \<longrightarrow>
       e \<noteq> ESP_OK \<and> wire sw' = [])"
  by (rule flash_run_log [OF assms])

definition good_host :: "(dfu_setup list \<times> nat) usb_api" where
  "good_host = \<lparr>usb_control = (\<lambda>s w. (Completed (replicate 6 0), w)), usb_gone = (\<lambda>_. False),
     usb_release = id, usb_delay_ms = (\<lambda>n w. (fst w, snd w + n))\<rparr>"

definition idle_dfu :: dfu where
  "idle_dfu = \<lparr>d_client = True, d_dev = True, d_xfer = True, d_locked = False, d_transaction = 0,
     d_st = \<lparr>ds_present = True, ds_busy = False, ds_vid = 0x03EB, ds_pid = 0x2FF4, ds_written = 0,
       ds_eeprom_checked = False, ds_eeprom_intact = False, ds_last = []\<rparr>\<rparr>"

text \<open>A host that completes every transfer and a bootloader that reports no error.\<close>

definition cooperative :: "'w usb_api \<Rightarrow> bool" where
  "cooperative U = (\<forall>s w. \<not> usb_gone U w \<and>
     (\<exists>b. fst (usb_control U s w) = Completed b \<and> (s_req s = DFU_GETSTATUS \<longrightarrow> hd (b @ [0]) = 0)))"

definition live :: "dfu \<times> 'w \<Rightarrow> bool" where
  "live sw = (d_dev (fst sw) \<and> d_xfer (fst sw))"

lemma live_simps [simp]:
  "live (note_msg m sw) = live sw" "live (upd_st f sw) = live sw" "live (bump sw) = live sw"
  by (cases sw; simp add: live_def note_msg_def upd_st_def bump_def)+

lemma ctrl_live:
  assumes "cooperative U" "live sw" "len \<le> 1072"
  shows "\<exists>b w. ctrl U dir req v out len t sw = (ESP_OK, b, (fst sw, w)) \<and>
    (req = DFU_GETSTATUS \<and> 0 < len \<longrightarrow> b ! 0 = 0)"
proof -
  let ?s = "\<lparr>s_dir = dir, s_req = req, s_value = v, s_data = out, s_len = len, s_timeout = t\<rparr>"
  obtain b w1 where u: "usb_control U ?s (snd sw) = (Completed b, w1)"
    and z: "req = DFU_GETSTATUS \<longrightarrow> hd (b @ [0]) = 0"
    using assms(1) unfolding cooperative_def by (metis dfu_setup.select_convs(2) prod.collapse)
  have "\<not> usb_gone U w1" using assms(1) by (simp add: cooperative_def)
  then have "ctrl U dir req v out len t sw = (ESP_OK, take len (b @ replicate len 0), (fst sw, w1))"
    using assms(2,3) u by (simp add: ctrl_def event_task_def live_def CTRL_BUF_BYTES_def SETUP_BYTES_def
        ATMEL_CONTROL_BLOCK_SIZE_def ATMEL_MAX_TRANSFER_def ATMEL_FOOTER_SIZE_def)
  moreover have "req = DFU_GETSTATUS \<and> 0 < len \<longrightarrow> take len (b @ replicate len 0) ! 0 = 0"
    using z by (cases b) auto
  ultimately show ?thesis by blast
qed

lemma dnload_live:
  assumes "cooperative U" "live sw" "length d \<le> 1072"
  shows "\<exists>sw'. dfu_dnload U d t sw = (ESP_OK, sw') \<and> live sw'"
  using ctrl_live [of U "bump sw" "length d" DFU_REQ_OUT DFU_DNLOAD "d_transaction (fst sw)" d t] assms
  by (auto simp: dfu_dnload_def live_def bump_def)

lemma wait_ok_live:
  assumes "cooperative U" "live sw"
  shows "\<exists>sw'. wait_ok U tot sw = (ESP_OK, sw') \<and> live sw'"
  using ctrl_live [of U sw 6 DFU_REQ_IN DFU_GETSTATUS 0 "[]" 2000] assms
  by (auto simp: wait_ok_def wait_loop.simps [of _ tot 0] dfu_getstatus_def live_def)

lemma dnload_wait_live:
  assumes "cooperative U" "live sw" "length d \<le> 1072"
  shows "\<exists>sw'. dnload_wait U d tot sw = (ESP_OK, sw') \<and> live sw'"
  using dnload_live [OF assms, of 5000] wait_ok_live [OF assms(1)]
  by (auto simp: dnload_wait_def bind_ok_def)

lemma erase_live:
  assumes "cooperative U" "live sw"
  shows "\<exists>sw'. erase_loop U ms sw = (False, ESP_OK, sw') \<and> live sw'"
  using assms
proof (induction ms arbitrary: sw)
  case (Cons m ms)
  then show ?case using dnload_wait_live [of U sw "[0x04, 0x00, m]" 20000] by fastforce
qed simp

lemma atmel_msg_length: "length (atmel_msg a d) = 48 + length d"
  by (simp add: atmel_msg_def Let_def)

lemma flash_loop_live:
  assumes "cooperative U" "live sw"
  shows "\<exists>sw'. flash_loop U img off sw = (ESP_OK, sw') \<and> live sw'"
  using assms(2)
proof (induction "length img - off" arbitrary: off sw rule: less_induct)
  case less
  show ?case
  proof (cases "length img \<le> off")
    case True
    then show ?thesis using less.prems by (simp add: flash_loop.simps)
  next
    case False
    let ?blk = "take ATMEL_MAX_TRANSFER (drop off img)"
    let ?upd = "upd_st (ds_written_update (\<lambda>_. off + length ?blk))"
    have "length (atmel_msg off ?blk) \<le> 1072" by (simp add: atmel_msg_length ATMEL_MAX_TRANSFER_def)
    from dnload_wait_live [OF assms(1) less.prems this, of 5000]
    obtain sw1 where g: "atmel_flash_block U off ?blk sw = (ESP_OK, sw1)" "live sw1"
      by (auto simp: atmel_flash_block_def)
    have up: "live (?upd sw1)" using g(2) by simp
    have "length img - (off + ATMEL_MAX_TRANSFER) < length img - off"
      using False by (simp add: ATMEL_MAX_TRANSFER_def)
    from less.hyps [OF this up] show ?thesis
      using False g up by (subst flash_loop.simps) (simp add: Let_def live_def)
  qed
qed

lemma read_live:
  assumes "cooperative U" "live sw"
  shows "\<exists>b sw'. atmel_read U u a EEPROM_GUARD_BYTES sw = (ESP_OK, b, sw') \<and> live sw'"
proof -
  let ?c = "[0x03, u, hi8 a, lo8 a, hi8 (a + EEPROM_GUARD_BYTES - 1), lo8 (a + EEPROM_GUARD_BYTES - 1)]"
  obtain sw1 where g: "dfu_dnload U ?c 2000 sw = (ESP_OK, sw1)" "live sw1"
    using dnload_live [OF assms, of ?c 2000] by auto
  show ?thesis
    using g(1) ctrl_live [OF assms(1), of "bump sw1" 256 DFU_REQ_IN DFU_UPLOAD "d_transaction (fst sw1)" "[]" 5000]
      g(2) by (auto simp: atmel_read_def Let_def dfu_upload_def EEPROM_GUARD_BYTES_def live_def bump_def)
qed

lemma start_app_live:
  assumes "cooperative U" "live sw"
  shows "\<exists>sw'. atmel_start_app U sw = (ESP_OK, sw') \<and> live sw'"
proof -
  obtain sw1 where g: "dfu_dnload U [0x04, 0x03, 0x00] 2000 sw = (ESP_OK, sw1)" "live sw1"
    using dnload_live [OF assms, of "[0x04, 0x03, 0x00]" 2000] by auto
  then show ?thesis using dnload_live [OF assms(1) g(2), of "[]" 2000] by (auto simp: atmel_start_app_def)
qed

lemma cooperative_spying: "cooperative U \<Longrightarrow> cooperative (spying U)"
  by (auto simp: cooperative_def spying_def split: prod.splits) (metis fst_conv)

lemma eeprom_check_frame:
  "\<exists>c' i'. frame sw = (l, x, b, n, c, i) \<longrightarrow> frame (eeprom_check U bf sw) = (l, x, b, n, c', i') \<and>
    ((i \<longrightarrow> c) \<longrightarrow> i' \<longrightarrow> c')"
proof (cases bf)
  case None
  then show ?thesis by (auto simp: eeprom_check_def)
next
  case (Some y)
  obtain e a sw1 where r: "atmel_read U 2 0 EEPROM_GUARD_BYTES sw = (e, a, sw1)" by (metis surj_pair)
  have fr: "frame sw1 = frame sw" using read_frame [OF r] .
  have "frame (upd_st (\<lambda>s. s\<lparr>ds_eeprom_checked := True, ds_eeprom_intact := (y = a)\<rparr>) sw1) =
      (case frame sw1 of (l, x, b, n, _, _) \<Rightarrow> (l, x, b, n, True, (y = a)))"
    by (simp add: frame_def upd_st_def)
  then show ?thesis using r fr by (auto simp: eeprom_check_def Some)
qed

lemma frame_start:
  "frame (upd_st (\<lambda>s. s\<lparr>ds_busy := True, ds_written := 0, ds_eeprom_checked := False,
     ds_eeprom_intact := False\<rparr>) sw) = (d_locked (fst sw), d_xfer (fst sw), True, 0, False, False)"
  by (simp add: frame_def upd_st_def)

lemma frame_idle:
  "frame (upd_st (ds_busy_update (\<lambda>_. False)) sw) = (case frame sw of (l, x, _, r) \<Rightarrow> (l, x, False, r))"
  by (simp add: frame_def upd_st_def)

lemma flash_locked_frame:
  assumes "flash_locked U img sw = (e, sw')"
  shows "\<exists>n c i. frame sw' = (d_locked (fst sw), d_xfer (fst sw), False, n, c, i) \<and> n \<le> length img \<and>
    (e = ESP_OK \<longrightarrow> n = length img) \<and> (i \<longrightarrow> c)"
proof -
  let ?l = "d_locked (fst sw)" and ?x = "d_xfer (fst sw)"
  let ?sw0 = "upd_st (\<lambda>s. s\<lparr>ds_busy := True, ds_written := 0, ds_eeprom_checked := False,
            ds_eeprom_intact := False\<rparr>) sw"
  obtain ee b sw1 where r1: "atmel_read U 0x02 0 EEPROM_GUARD_BYTES ?sw0 = (ee, b, sw1)"
    by (metis surj_pair)
  let ?sw2 = "note_msg (''erasing '' @ dec ((length img + 1023) div 1024) @ '' KB of program memory'') sw1"
  obtain fb e1 sw3 where r2: "atmel_erase_blocks U (length img) ?sw2 = (fb, e1, sw3)" by (metis surj_pair)
  have f3: "frame sw3 = (?l, ?x, True, 0, False, False)"
    using erase_loop_frame [OF r2 [unfolded atmel_erase_blocks_def]] read_frame [OF r1] frame_start [of sw]
    by simp
  show ?thesis
  proof (cases "e1 = ESP_OK")
    case False
    then have "e \<noteq> ESP_OK \<and> frame sw' = (?l, ?x, False, 0, False, False)"
      using assms r1 r2 f3 by (auto simp: flash_locked_def Let_def bind_ok_def frame_idle)
    then show ?thesis by (simp add: ex_bool_eq)
  next
    case True
    obtain e2 sw4 where r3: "flash_loop U img 0 sw3 = (e2, sw4)" by (metis surj_pair)
    obtain n where n: "n \<le> length img" "frame sw4 = (?l, ?x, True, n, False, False)" "e2 = ESP_OK \<longrightarrow> n = length img"
      using flash_loop_frame [of U img 0 sw3 e2 sw4 ?l ?x True False False] r3 f3 by auto
    show ?thesis
    proof (cases "e2 = ESP_OK")
      case False
      then have "e \<noteq> ESP_OK \<and> frame sw' = (?l, ?x, False, n, False, False)"
        using assms r1 r2 r3 n True by (auto simp: flash_locked_def Let_def bind_ok_def frame_idle)
      then show ?thesis using n(1) by (simp add: ex_bool_eq)
    next
      case ok: True
      let ?b = "if ee = ESP_OK then Some b else None"
      let ?ck = "eeprom_check U ?b sw4"
      obtain e3 sw5 where r4: "atmel_start_app U (note_msg (dec (ds_written (d_st (fst ?ck))) @
                 '' bytes written, starting the application'') ?ck) = (e3, sw5)" by (metis surj_pair)
      obtain c i where ci: "frame ?ck = (?l, ?x, True, n, c, i)" "i \<longrightarrow> c"
        using eeprom_check_frame [of sw4 ?l ?x True n False False U ?b] n(2) by auto
      have f5: "frame (upd_st (ds_busy_update (\<lambda>_. False)) sw5) = (?l, ?x, False, n, c, i)"
        using start_app_frame [OF r4] ci(1) by (simp add: frame_idle)
      then have "frame sw' = (?l, ?x, False, n, c, i)"
        using assms r1 r2 r3 r4 True ok by (auto simp: flash_locked_def Let_def bind_ok_def)
      then show ?thesis using n ci(2) ok by blast
    qed
  qed
qed

lemma flash_locked_live:
  assumes c: "cooperative U" and l: "live sw"
  shows "fst (flash_locked U img sw) = ESP_OK"
proof -
  let ?sw0 = "upd_st (\<lambda>s. s\<lparr>ds_busy := True, ds_written := 0, ds_eeprom_checked := False,
            ds_eeprom_intact := False\<rparr>) sw"
  obtain b sw1 where r1: "atmel_read U 0x02 0 EEPROM_GUARD_BYTES ?sw0 = (ESP_OK, b, sw1)" "live sw1"
    using read_live [OF c, of ?sw0] l by (metis live_simps(2))
  let ?sw2 = "note_msg (''erasing '' @ dec ((length img + 1023) div 1024) @ '' KB of program memory'') sw1"
  obtain sw3 where r2: "atmel_erase_blocks U (length img) ?sw2 = (False, ESP_OK, sw3)" "live sw3"
    using erase_live [OF c, of ?sw2 "erase_modes (length img)"] r1(2) unfolding atmel_erase_blocks_def
    by (metis live_simps(1))
  obtain sw4 where r3: "flash_loop U img 0 sw3 = (ESP_OK, sw4)" "live sw4"
    using flash_loop_live [OF c r2(2)] by metis
  have ck: "live (eeprom_check U (Some b) sw4)"
    using read_live [OF c r3(2), of 2 0] by (auto simp: eeprom_check_def)
  then obtain sw5 where "atmel_start_app U (note_msg (dec (ds_written (d_st (fst (eeprom_check U (Some b) sw4)))) @
                 '' bytes written, starting the application'') (eeprom_check U (Some b) sw4)) = (ESP_OK, sw5)"
    using start_app_live [OF c] by (metis live_simps(1))
  then show ?thesis using r1(1) r2(1) r3(1) by (simp add: flash_locked_def Let_def bind_ok_def)
qed

text \<open>A bootloader that answers every transfer without an error gets any image that fits, and the run ends
  with ESP_OK and the full length reported.\<close>
theorem cul_dfu_flash_completes:
  assumes "cooperative U" and "live (S, w)" and "\<not> d_locked S"
    and "img \<noteq> []" and "length img \<le> CUL_DFU_APP_LIMIT"
  shows "\<exists>sw'. cul_dfu_flash U img (S, w) = (ESP_OK, sw') \<and> ds_written (d_st (fst sw')) = length img"
proof -
  let ?sw = "(S\<lparr>d_locked := True\<rparr>, w)"
  have "live ?sw" using assms(2) by (simp add: live_def)
  then have "fst (flash_locked U img ?sw) = ESP_OK" by (rule flash_locked_live [OF assms(1)])
  then obtain sw1 where r: "flash_locked U img ?sw = (ESP_OK, sw1)" by (metis prod.collapse)
  from flash_locked_frame [OF r] have "ds_written (d_st (fst sw1)) = length img" by (auto simp: frame_def)
  then show ?thesis using r assms by (simp add: cul_dfu_flash_def live_def)
qed

lemma good_host_cooperative: "cooperative good_host"
  by (simp add: cooperative_def good_host_def)

lemma length_three: "length [1, 2, 3 :: u8] = 3"
  by simp

lemma cul_dfu_flash_completes_witness:
  "\<exists>sw'. cul_dfu_flash good_host [1, 2, 3] (idle_dfu, ([], 0)) = (ESP_OK, sw') \<and>
    ds_written (d_st (fst sw')) = 3"
proof -
  have "live (idle_dfu, ([], 0))" "\<not> d_locked idle_dfu" "[1, 2, 3 :: u8] \<noteq> []"
    "length [1, 2, 3 :: u8] \<le> CUL_DFU_APP_LIMIT"
    by (simp_all add: idle_dfu_def live_def CUL_DFU_APP_LIMIT_def)
  from cul_dfu_flash_completes [OF good_host_cooperative this]
  show ?thesis by (simp only: length_three)
qed

lemma good_run:
  "fst (cul_dfu_flash good_host [1, 2, 3] (idle_dfu, w)) = ESP_OK"
  "fst (cul_dfu_flash (spying good_host) [1, 2, 3] (idle_dfu, wl)) = ESP_OK"
  using flash_locked_live [OF good_host_cooperative, of "(idle_dfu\<lparr>d_locked := True\<rparr>, w)" "[1, 2, 3]"]
    flash_locked_live [OF cooperative_spying [OF good_host_cooperative],
      of "(idle_dfu\<lparr>d_locked := True\<rparr>, wl)" "[1, 2, 3]"]
  by (auto simp: cul_dfu_flash_def idle_dfu_def CUL_DFU_APP_LIMIT_def live_def split: prod.splits)

lemma cul_dfu_flash_log_witness:
  "\<exists>sw' pre n post. cul_dfu_flash (spying good_host) [1, 2, 3] (idle_dfu, (([], 0), [])) = (ESP_OK, sw') \<and>
     dn sw' = pre @ take n (plan [1, 2, 3] 0) @ post \<and> [0x04, 0x03, 0x00] \<in> set post"
proof -
  let ?r = "cul_dfu_flash (spying good_host) [1, 2, 3] (idle_dfu, (([], 0), []))"
  obtain sw' where r: "?r = (ESP_OK, sw')" using good_run(2) [of "(([], 0), [])"] by (metis prod.collapse)
  from cul_dfu_flash_log [OF r] r show ?thesis by blast
qed

text \<open>A run gives the lock back, clears the busy flag and reports at most the bytes of the image; a
  success means all bytes were written, and intact is reported only after a comparison.\<close>
theorem cul_dfu_flash_status:
  assumes "cul_dfu_flash U img (S, w) = (e, (S', w'))" and "\<not> d_locked S" and "d_dev S"
    and "img \<noteq> []" and "length img \<le> CUL_DFU_APP_LIMIT"
  shows "\<not> d_locked S' \<and> \<not> ds_busy (d_st S') \<and> ds_written (d_st S') \<le> length img \<and>
    (e = ESP_OK \<longrightarrow> ds_written (d_st S') = length img) \<and>
    (ds_eeprom_intact (d_st S') \<longrightarrow> ds_eeprom_checked (d_st S')) \<and> d_xfer S' = d_xfer S"
proof -
  obtain sw1 where r: "flash_locked U img (S\<lparr>d_locked := True\<rparr>, w) = (e, sw1)"
    and S': "S' = (fst sw1)\<lparr>d_locked := False\<rparr>"
    using assms by (cases "flash_locked U img (S\<lparr>d_locked := True\<rparr>, w)") (auto simp: cul_dfu_flash_def)
  from flash_locked_frame [OF r] show ?thesis by (auto simp: S' frame_def)
qed

lemma cul_dfu_flash_status_witness:
  "\<exists>S' w'. cul_dfu_flash good_host [1, 2, 3] (idle_dfu, ([], 0)) = (ESP_OK, (S', w')) \<and>
     \<not> d_locked S' \<and> ds_written (d_st S') = 3"
proof -
  obtain S' w' where r: "cul_dfu_flash good_host [1, 2, 3] (idle_dfu, ([], 0)) = (ESP_OK, (S', w'))"
    using good_run(1) [of "([], 0)"] by (metis prod.collapse)
  from cul_dfu_flash_status [OF r] r show ?thesis
    by (simp add: idle_dfu_def CUL_DFU_APP_LIMIT_def)
qed

subsection \<open>The write messages and the erase scope\<close>

lemma unat_hi8: "unat (hi8 a) = a mod 0x10000 div 256"
proof -
  have "a mod 0x10000 div 256 < 256" by (simp add: less_mult_imp_div_less)
  then show ?thesis by (simp add: hi8_def unat_of_nat take_bit_nat_eq_self)
qed

lemma unat_lo8: "unat (lo8 a) = a mod 256"
  by (simp add: lo8_def unat_of_nat take_bit_eq_mod mod_mod_cancel)

lemma hi_lo: "a < 0x10000 \<Longrightarrow> 256 * unat (hi8 a) + unat (lo8 a) = a"
  by (simp add: unat_hi8 unat_lo8)

lemma concat_chunks: "length xs \<le> 1024 * n \<Longrightarrow>
    concat (map (\<lambda>i. take 1024 (drop (1024 * i) xs)) [0..<n]) = xs"
proof (induction n arbitrary: xs)
  case (Suc n)
  have "concat (map (\<lambda>i. take 1024 (drop (1024 * i) xs)) [0..<Suc n]) =
      take 1024 xs @ concat (map (\<lambda>i. take 1024 (drop (1024 * i) (drop 1024 xs))) [0..<n])"
    by (simp add: upt_conv_Cons map_Suc_upt [symmetric] comp_def add.commute del: upt_Suc)
  also have "\<dots> = take 1024 xs @ drop 1024 xs"
    using Suc.IH [of "drop 1024 xs"] Suc.prems by simp
  finally show ?case by simp
qed simp

definition msg_data :: "u8 list \<Rightarrow> u8 list" where
  "msg_data m = take (length m - 48) (drop 32 m)"

lemma msg_data_atmel: "msg_data (atmel_msg a d) = d"
  by (simp add: msg_data_def atmel_msg_length) (simp add: atmel_msg_def Let_def)

text \<open>The write messages carry the image exactly once and in order; each one names the first and the last
  address of its data and fits into the control buffer.\<close>
theorem plan_carries_image:
  assumes "length img \<le> CUL_DFU_APP_LIMIT"
  shows "concat (map msg_data (plan img 0)) = img \<and>
    (\<forall>i<length (plan img 0). let m = plan img 0 ! i; n = length (msg_data m) in
       msg_data m \<noteq> [] \<and> 256 * unat (m ! 2) + unat (m ! 3) = 1024 * i \<and>
       256 * unat (m ! 4) + unat (m ! 5) = 1024 * i + n - 1 \<and> m ! 0 = 1 \<and> m ! 1 = 0 \<and>
       length m \<le> CTRL_BUF_BYTES - SETUP_BYTES)"
proof -
  let ?n = "(length img + 1023) div 1024"
  let ?blk = "\<lambda>i. take 1024 (drop (1024 * i) img)"
  have "concat (map msg_data (plan img 0)) = concat (map ?blk [0..<?n])"
    by (simp add: plan_def comp_def msg_data_atmel)
  also have "\<dots> = img" by (rule concat_chunks) linarith
  finally have 1: "concat (map msg_data (plan img 0)) = img" .
  have "let m = plan img 0 ! i; n = length (msg_data m) in
       msg_data m \<noteq> [] \<and> 256 * unat (m ! 2) + unat (m ! 3) = 1024 * i \<and>
       256 * unat (m ! 4) + unat (m ! 5) = 1024 * i + n - 1 \<and> m ! 0 = 1 \<and> m ! 1 = 0 \<and>
       length m \<le> CTRL_BUF_BYTES - SETUP_BYTES" if "i < length (plan img 0)" for i
  proof -
    from that have i: "i < ?n" by (simp add: plan_def)
    then have m: "plan img 0 ! i = atmel_msg (1024 * i) (?blk i)" by (simp add: plan_def)
    have lt: "1024 * i < length img" using i by linarith
    have "1024 * i + length (?blk i) \<le> length img" using lt by simp
    then have lim: "1024 * i + length (?blk i) \<le> 0x7000"
      using assms by (simp add: CUL_DFU_APP_LIMIT_def)
    have a: "256 * unat (hi8 (1024 * i)) + unat (lo8 (1024 * i)) = 1024 * i"
      by (rule hi_lo) (use lim in linarith)
    have b: "256 * unat (hi8 (1024 * i + length (?blk i) - 1)) + unat (lo8 (1024 * i + length (?blk i) - 1)) =
        1024 * i + length (?blk i) - 1"
      by (rule hi_lo) (use lim in linarith)
    have hd: "atmel_msg s d ! 0 = 1 \<and> atmel_msg s d ! 1 = 0 \<and> atmel_msg s d ! 2 = hi8 s \<and> atmel_msg s d ! 3 = lo8 s \<and>
        atmel_msg s d ! 4 = hi8 (s + length d - 1) \<and> atmel_msg s d ! 5 = lo8 (s + length d - 1)" for s d
      by (simp add: atmel_msg_def Let_def)
    have "?blk i \<noteq> []" using lt by simp
    moreover have "length (atmel_msg (1024 * i) (?blk i)) \<le> CTRL_BUF_BYTES - SETUP_BYTES"
      by (simp add: atmel_msg_length CTRL_BUF_BYTES_def ATMEL_CONTROL_BLOCK_SIZE_def ATMEL_MAX_TRANSFER_def
          ATMEL_FOOTER_SIZE_def)
    ultimately show ?thesis using a b hd unfolding m Let_def msg_data_atmel by metis
  qed
  with 1 show ?thesis by blast
qed

lemma plan_carries_image_witness: "concat (map msg_data (plan [1, 2, 3] 0)) = [1, 2, 3]"
  using plan_carries_image [of "[1, 2, 3]"] by (simp add: CUL_DFU_APP_LIMIT_def)

text \<open>Without a fall-back the erase commands name exactly the leading 16 KB blocks that hold the image; the
  full erase is sent only after a block was refused, and then the run reports it.\<close>
theorem erase_scope:
  assumes "atmel_erase_blocks (spying U) len sw = (fell_back, e, sw')" and "len \<le> CUL_DFU_APP_LIMIT"
  shows "\<exists>ms. dn sw' = dn sw @ ms \<and>
    (\<not> fell_back \<longrightarrow> e = ESP_OK \<and>
       ms = map erase_cmd (take ((len + 0x3FFF) div 0x4000) [0x00, 0x20])) \<and>
    (erase_cmd 0xFF \<in> set ms \<longrightarrow> fell_back)"
proof -
  have "erase_modes len = take ((len + 0x3FFF) div 0x4000) [0x00, 0x20]"
    using assms(2) by (auto simp: erase_modes_def CUL_DFU_APP_LIMIT_def take_Cons' div_eq_0_iff)
  moreover obtain ms where "dn sw' = dn sw @ ms" "\<not> fell_back \<longrightarrow> e = ESP_OK \<and> ms = map erase_cmd (erase_modes len)"
    using erase_loop_dn [OF assms(1) [unfolded atmel_erase_blocks_def]] by blast
  moreover have "erase_cmd 0xFF \<notin> set (map erase_cmd (take k [0x00, 0x20]))" for k
    by (auto simp: erase_cmd_def dest: in_set_takeD)
  ultimately show ?thesis by metis
qed

lemma erase_scope_witness:
  "\<exists>sw'. atmel_erase_blocks (spying good_host) 20000 (idle_dfu, (([], 0), [])) = (False, ESP_OK, sw') \<and>
    dn sw' = [erase_cmd 0, erase_cmd 0x20]"
proof -
  obtain sw' where r: "atmel_erase_blocks (spying good_host) 20000 (idle_dfu, (([], 0), [])) = (False, ESP_OK, sw')"
    using erase_live [OF cooperative_spying [OF good_host_cooperative], of "(idle_dfu, (([], 0), []))" "erase_modes 20000"]
    unfolding atmel_erase_blocks_def by (auto simp: live_def idle_dfu_def)
  have "(20000 + 0x3FFF) div 0x4000 = (2 :: nat)" and "20000 \<le> CUL_DFU_APP_LIMIT"
    by (simp_all add: CUL_DFU_APP_LIMIT_def)
  with erase_scope [OF r] show ?thesis using r by (simp add: numeral_2_eq_2 dn_def wire_def)
qed

subsection \<open>The wait budget\<close>

text \<open>Waiting for a command polls the device at most once per started 100 ms of the budget.\<close>

lemma wait_ok_polls:
  "polls (snd (wait_ok (spying U) tot sw)) \<le> polls sw + tot div 100 + 1"
proof -
  obtain e sw' where r: "wait_ok (spying U) tot sw = (e, sw')" by (metis surj_pair)
  have "(tot + 100 - 0) div 100 = tot div 100 + 1" by simp
  with wait_loop_dn [OF r [unfolded wait_ok_def]] r show ?thesis by simp
qed

text \<open>A bootloader that always answers status 3 (busy) with a poll time of \<open>65536 * p\<close> ms.\<close>

definition slow_host :: "nat \<Rightarrow> nat usb_api" where
  "slow_host p = \<lparr>usb_control = (\<lambda>s w. (Completed [3, 0, 0, of_nat p, 4, 0], w)), usb_gone = (\<lambda>_. False),
     usb_release = id, usb_delay_ms = (\<lambda>n w. w + n)\<rparr>"

lemma slow_getstatus:
  assumes "d_dev S" "d_xfer S" "p < 256"
  shows "dfu_getstatus (slow_host p) (S, w) = (ESP_OK, (3, 4, 65536 * p), (S, w))"
  using assms
  by (simp add: dfu_getstatus_def ctrl_def slow_host_def event_task_def CTRL_BUF_BYTES_def SETUP_BYTES_def
      ATMEL_CONTROL_BLOCK_SIZE_def ATMEL_MAX_TRANSFER_def ATMEL_FOOTER_SIZE_def unat_of_nat take_bit_nat_eq_self)

lemma slow_wait:
  assumes "d_dev S" "d_xfer S" "0 < p" "p < 256"
  shows "waited = 100 * j \<Longrightarrow> snd (snd (wait_loop (slow_host p) tot waited (S, w))) =
    w + (if waited > tot then 0 else (tot - waited) div 100 + 1) * (65536 * p)"
proof (induction "Suc tot - waited" arbitrary: j waited w rule: less_induct)
  case less
  show ?case
  proof (cases "waited > tot")
    case True
    then show ?thesis by (simp add: wait_loop.simps note_msg_def upd_st_def)
  next
    case False
    have "wait_loop (slow_host p) tot waited (S, w) =
        wait_loop (slow_host p) tot (waited + 100) (S, w + 65536 * p)"
      using False slow_getstatus [OF assms(1,2,4)] assms(3)
      by (subst wait_loop.simps) (simp add: slow_host_def)
    moreover have "snd (snd (wait_loop (slow_host p) tot (waited + 100) (S, w + 65536 * p))) =
        w + 65536 * p + (if waited + 100 > tot then 0 else (tot - (waited + 100)) div 100 + 1) * (65536 * p)"
      by (rule less.hyps [of _ "Suc j"]) (use False less.prems in auto)
    moreover have "(tot - waited) div 100 = Suc ((tot - (waited + 100)) div 100)" if "waited + 100 \<le> tot"
    proof -
      have "tot - waited = (tot - (waited + 100)) + 100" using that by simp
      then show ?thesis by (metis add.commute div_add_self1 plus_1_eq_Suc zero_neq_numeral)
    qed
    moreover have "(tot - waited) div 100 = 0" if "\<not> waited + 100 \<le> tot" using that False by simp
    ultimately show ?thesis using False by (cases "waited + 100 \<le> tot") (simp_all add: algebra_simps)
  qed
qed

text \<open>The budget counts 100 ms per poll even where the device's own poll time is slept, so a device that stays
  busy with poll time t holds the caller for (budget div 100 + 1) * t instead of the budget.\<close>
theorem wait_ok_overrun:
  assumes "d_dev S" and "d_xfer S" and "0 < p" and "p < 256"
  shows "snd (snd (wait_ok (slow_host p) tot (S, w))) = w + (tot div 100 + 1) * (65536 * p)"
  using slow_wait [OF assms, of 0 0 tot w] by (simp add: wait_ok_def)

lemma wait_ok_overrun_witness: "snd (snd (wait_ok (slow_host 1) 20000 (idle_dfu, 0))) = 13172736"
  using wait_ok_overrun [of idle_dfu 1 20000 0] by (simp add: idle_dfu_def)

end
