(* ===== verification/OtaCheck.thy ===== *)
theory OtaCheck
  imports Cdc_Prelude
begin

text \<open>
  \<^verbatim>\<open>ota_check.c\<close>: the comparison of the running version with the release manifest, and the HTTPS
  installation.  The HTTP client delivers a \<open>fetch\<close> result; the JSON library is the parameter \<open>J\<close> and
  \<^verbatim>\<open>esp_https_ota\<close> the parameter \<open>A\<close> over a world \<open>'w\<close> that has a clock.  What the build flags choose
  is the record \<open>build\<close>.  The snapshot under \<^verbatim>\<open>s_mtx\<close> is the record \<open>ota_state\<close>, the install state and
  its message are \<open>install_state\<close>.
\<close>

subsection \<open>State\<close>

definition MAX_RESP_BYTES :: nat where "MAX_RESP_BYTES = 2048"

definition VER_STR_MAX :: nat where "VER_STR_MAX = 24"

definition OTA_INSTALL_TIMEOUT_S :: int where "OTA_INSTALL_TIMEOUT_S = 300"

datatype ota_check_state =
  OTA_CHECK_IDLE | OTA_CHECK_CHECKING | OTA_CHECK_UP_TO_DATE | OTA_CHECK_AVAILABLE | OTA_CHECK_ERROR

record ota_state =
  oc_state :: ota_check_state
  oc_current :: string
  oc_latest :: string
  oc_error :: string
  oc_last_us :: int

datatype install_mode = InstallIdle | InstallRunning | InstallError

record install_state =
  is_mode :: install_mode
  is_err :: string

record build =
  b_tulx :: bool
  b_version :: string
  b_file :: string
  b_project :: "u8 list"

text \<open>The state \<^verbatim>\<open>mtx_ensure\<close> sets up.\<close>

definition ota_initial :: "build \<Rightarrow> ota_state" where
  "ota_initial B =
     \<lparr>oc_state = OTA_CHECK_IDLE, oc_current = fmt_s VER_STR_MAX (b_version B), oc_latest = [], oc_error = [],
      oc_last_us = 0\<rparr>"

subsection \<open>Versions\<close>

definition digit_val :: "char \<Rightarrow> nat option" where
  "digit_val c = (let n = of_char c :: nat in if 48 \<le> n \<and> n \<le> 57 then Some (n - 48) else None)"

definition is_digit :: "char \<Rightarrow> bool" where
  "is_digit c \<longleftrightarrow> digit_val c \<noteq> None"

definition digits_val :: "string \<Rightarrow> int" where
  "digits_val ds = foldl (\<lambda>a c. 10 * a + int (the (digit_val c))) 0 ds"

definition clamp_int :: "int \<Rightarrow> int" where
  "clamp_int i = max (- (2 ^ 31)) (min (2 ^ 31 - 1) i)"

definition c_space :: "char \<Rightarrow> bool" where
  "c_space c \<longleftrightarrow> c = CHR '' '' \<or> (9 \<le> (of_char c :: nat) \<and> (of_char c :: nat) \<le> 13)"

text \<open>\<^verbatim>\<open>%d\<close> of \<^verbatim>\<open>sscanf\<close>: blanks, a sign, digits; out of range it saturates as \<^verbatim>\<open>strtol\<close> does.\<close>

definition scan_int :: "string \<Rightarrow> (int \<times> string) option" where
  "scan_int s =
     (let s1 = dropWhile c_space s;
          neg = (case s1 of c # _ \<Rightarrow> c = CHR ''-'' | [] \<Rightarrow> False);
          s2 = (case s1 of c # r \<Rightarrow> if c = CHR ''-'' \<or> c = CHR ''+'' then r else s1 | [] \<Rightarrow> []);
          ds = takeWhile is_digit s2
      in if ds = [] then None
         else Some (clamp_int (if neg then - digits_val ds else digits_val ds), dropWhile is_digit s2))"

definition scan_dot :: "string \<Rightarrow> string option" where
  "scan_dot s = (case s of c # r \<Rightarrow> if c = CHR ''.'' then Some r else None | [] \<Rightarrow> None)"

definition parse_ver :: "string \<Rightarrow> (int \<times> int \<times> int) option" where
  "parse_ver s =
     (case scan_int s of None \<Rightarrow> None
      | Some (a, s1) \<Rightarrow>
     (case Option.bind (scan_dot s1) scan_int of None \<Rightarrow> None
      | Some (b, s2) \<Rightarrow>
     (case Option.bind (scan_dot s2) scan_int of None \<Rightarrow> None
      | Some (c, s3) \<Rightarrow> Some (a, b, c))))"

definition cmp_ver :: "string \<Rightarrow> string \<Rightarrow> int" where
  "cmp_ver a b =
     (case parse_ver a of None \<Rightarrow> 0
      | Some (am, an, ab) \<Rightarrow>
     (case parse_ver b of None \<Rightarrow> 0
      | Some (bm, bn, bb) \<Rightarrow>
          if am \<noteq> bm then (if am > bm then 1 else - 1)
          else if an \<noteq> bn then (if an > bn then 1 else - 1)
          else if ab \<noteq> bb then (if ab > bb then 1 else - 1)
          else 0))"

subsection \<open>Fetching the manifest\<close>

record accum =
  a_buf :: "u8 list"
  a_overflow :: bool

datatype http_event = HTTP_EVENT_ON_DATA "u8 list" | HTTP_EVENT_OTHER

definition http_event_cb :: "http_event \<Rightarrow> accum \<Rightarrow> accum" where
  "http_event_cb evt a =
     (case evt of
        HTTP_EVENT_OTHER \<Rightarrow> a
      | HTTP_EVENT_ON_DATA d \<Rightarrow>
          if a_overflow a then a
          else if length (a_buf a) + length d > MAX_RESP_BYTES then a\<lparr>a_overflow := True\<rparr>
          else a\<lparr>a_buf := a_buf a @ d\<rparr>)"

text \<open>One run of the HTTP client: \<open>None\<close> if it cannot be created, else its events, result and status code.\<close>

type_synonym fetch = "(http_event list \<times> esp_err \<times> int) option"

record 'j json_api =
  js_parse :: "string \<Rightarrow> 'j option"
  js_get :: "'j \<Rightarrow> string \<Rightarrow> 'j option"
  js_string :: "'j \<Rightarrow> string option"
  js_items :: "'j \<Rightarrow> 'j list"

definition manifest_version :: "build \<Rightarrow> 'j json_api \<Rightarrow> 'j \<Rightarrow> string option" where
  "manifest_version B J root =
     (if b_tulx B
      then Option.bind
        (find (\<lambda>it. Option.bind (js_get J it ''file'') (js_string J) = Some (b_file B))
           (case js_get J root ''images'' of Some a \<Rightarrow> js_items J a | None \<Rightarrow> []))
        (\<lambda>it. Option.bind (js_get J it ''version'') (js_string J))
      else Option.bind (js_get J root ''version'') (js_string J))"

definition sdec :: "int \<Rightarrow> string" where
  "sdec i = (if i < 0 then CHR ''-'' # dec (nat (- i)) else dec (nat i))"

definition check_failed :: "string \<Rightarrow> int \<Rightarrow> ota_state \<Rightarrow> ota_state" where
  "check_failed msg now s =
     s\<lparr>oc_state := OTA_CHECK_ERROR, oc_error := fmt_s 96 msg, oc_last_us := now\<rparr>"

definition check_done :: "build \<Rightarrow> string \<Rightarrow> int \<Rightarrow> ota_state \<Rightarrow> ota_state" where
  "check_done B v now s =
     (let latest = fmt_s VER_STR_MAX v
      in s\<lparr>oc_state := (if cmp_ver latest (b_version B) > 0 then OTA_CHECK_AVAILABLE else OTA_CHECK_UP_TO_DATE),
           oc_latest := latest, oc_current := fmt_s VER_STR_MAX (b_version B), oc_error := [],
           oc_last_us := now\<rparr>)"

definition ota_check_refresh ::
  "build \<Rightarrow> 'j json_api \<Rightarrow> (esp_err \<Rightarrow> string) \<Rightarrow> fetch \<Rightarrow> int \<Rightarrow> ota_state \<Rightarrow> esp_err \<times> ota_state" where
  "ota_check_refresh B J err_name f now s =
     (let s1 = s\<lparr>oc_state := OTA_CHECK_CHECKING, oc_error := []\<rparr> in
      case f of
        None \<Rightarrow> (ESP_FAIL, s1\<lparr>oc_state := OTA_CHECK_ERROR, oc_error := ''client_init failed''\<rparr>)
      | Some (evs, e, code) \<Rightarrow>
          (let a = fold http_event_cb evs \<lparr>a_buf = [], a_overflow = False\<rparr> in
           if e \<noteq> ESP_OK then (e, check_failed (''fetch: '' @ err_name e) now s1)
           else if code \<noteq> 200 then (ESP_FAIL, check_failed (''HTTP '' @ sdec code) now s1)
           else if a_overflow a \<or> a_buf a = []
           then (ESP_FAIL, check_failed (if a_overflow a then ''response too large'' else ''empty response'') now s1)
           else case js_parse J (cstr (a_buf a)) of
             None \<Rightarrow> (ESP_FAIL, check_failed ''JSON parse failed'' now s1)
           | Some root \<Rightarrow>
               (case manifest_version B J root of
                  None \<Rightarrow> (ESP_FAIL, check_failed (if b_tulx B then ''manifest lists no '' @ b_file B
                    else ''no version field'') now s1)
                | Some v \<Rightarrow> (ESP_OK, check_done B v now s1))))"

subsection \<open>Installing\<close>

definition IN_PROGRESS :: esp_err where "IN_PROGRESS = ESP_ERR_OTHER 0x9001"

definition VALIDATE_FAILED :: esp_err where "VALIDATE_FAILED = ESP_ERR_OTHER 0x1503"

text \<open>Starting gives an error code and whether there is a handle.\<close>

record 'w ota_api =
  ho_begin :: "'w \<Rightarrow> (esp_err \<times> bool) \<times> 'w"
  ho_img_desc :: "'w \<Rightarrow> (esp_err \<times> u8 list) \<times> 'w"
  ho_perform :: "'w \<Rightarrow> esp_err \<times> 'w"
  ho_complete :: "'w \<Rightarrow> bool"
  ho_abort :: "'w \<Rightarrow> 'w"
  ho_finish :: "'w \<Rightarrow> esp_err \<times> 'w"
  ho_restart :: "'w \<Rightarrow> 'w"
  ho_now :: "'w \<Rightarrow> int"

definition install_set_err :: "string \<Rightarrow> install_state \<Rightarrow> install_state" where
  "install_set_err msg i = i\<lparr>is_err := fmt_s 96 msg, is_mode := InstallError\<rparr>"

text \<open>\<^verbatim>\<open>strncmp\<close> on the 32-byte name fields, and the name as \<^verbatim>\<open>%.*s\<close> prints it.\<close>

definition name_of :: "u8 list \<Rightarrow> string" where
  "name_of b = cstr (take 32 b)"

text \<open>The download loop; it may not end, and then it has no value.\<close>

partial_function (option) download :: "'w ota_api \<Rightarrow> int \<Rightarrow> 'w \<Rightarrow> (esp_err \<times> 'w) option" where
  "download A deadline w =
     (case ho_perform A w of
        (e, w1) \<Rightarrow>
          if e \<noteq> IN_PROGRESS then Some (e, w1)
          else if ho_now A w1 > deadline then Some (ESP_ERR_TIMEOUT, w1)
          else download A deadline w1)"

declare download.simps [code]

definition install_downloaded ::
  "'w ota_api \<Rightarrow> (esp_err \<Rightarrow> string) \<Rightarrow> esp_err \<Rightarrow> install_state \<times> 'w \<Rightarrow> install_state \<times> 'w" where
  "install_downloaded A err_name e iw =
     (if e \<noteq> ESP_OK
      then (install_set_err
              (if e = ESP_ERR_INVALID_VERSION then ''incompatible image (chip_id or chip_revision mismatch)''
               else if e = ESP_ERR_TIMEOUT then ''download stalled (timed out)'' else err_name e) (fst iw),
            ho_abort A (snd iw))
      else if \<not> ho_complete A (snd iw)
      then (install_set_err ''incomplete download'' (fst iw), ho_abort A (snd iw))
      else case ho_finish A (snd iw) of
        (e, w1) \<Rightarrow>
          if e \<noteq> ESP_OK
          then (install_set_err (if e = VALIDATE_FAILED then ''image validation failed (corrupt)''
                  else err_name e) (fst iw), w1)
          else (fst iw, ho_restart A w1))"

definition ota_install_task ::
  "build \<Rightarrow> 'w ota_api \<Rightarrow> (esp_err \<Rightarrow> string) \<Rightarrow> install_state \<times> 'w \<Rightarrow> (install_state \<times> 'w) option" where
  "ota_install_task B A err_name iw =
     (case ho_begin A (snd iw) of
        ((e, handle), w1) \<Rightarrow>
          if e \<noteq> ESP_OK \<or> \<not> handle then Some (install_set_err (err_name e) (fst iw), w1)
          else (case ho_img_desc A w1 of
            ((e, name), w2) \<Rightarrow>
              if e \<noteq> ESP_OK then Some (install_set_err ''image header unreadable'' (fst iw), ho_abort A w2)
              else if name_of name \<noteq> name_of (b_project B)
              then Some (install_set_err (fmt_s 96 (''foreign image '' @ CHR 0x27 # name_of name @
                     CHR 0x27 # '' (expected '' @ CHR 0x27 # name_of (b_project B) @ CHR 0x27 # '')'')) (fst iw),
                     ho_abort A w2)
              else map_option (\<lambda>(e, w3). install_downloaded A err_name e (fst iw, w3))
                     (download A (ho_now A w2 + OTA_INSTALL_TIMEOUT_S * 1000000) w2)))"

text \<open>\<open>spawned\<close>: whether the task could be created.\<close>

definition ota_install_start :: "build \<Rightarrow> bool \<Rightarrow> install_state \<Rightarrow> esp_err \<times> install_state" where
  "ota_install_start B spawned i =
     (if b_tulx B
      then (ESP_ERR_NOT_SUPPORTED, install_set_err ''this product installs firmware from its recovery system'' i)
      else if is_mode i = InstallRunning then (ESP_ERR_INVALID_STATE, i)
      else let i1 = \<lparr>is_mode = InstallRunning, is_err = []\<rparr>
        in if spawned then (ESP_OK, i1) else (ESP_ERR_NO_MEM, install_set_err ''task spawn failed'' i1))"

subsection \<open>Status\<close>

fun state_name :: "ota_check_state \<Rightarrow> string" where
  "state_name OTA_CHECK_IDLE = ''idle''"
| "state_name OTA_CHECK_CHECKING = ''checking''"
| "state_name OTA_CHECK_UP_TO_DATE = ''up_to_date''"
| "state_name OTA_CHECK_AVAILABLE = ''available''"
| "state_name OTA_CHECK_ERROR = ''error''"

fun install_name :: "install_mode \<Rightarrow> string" where
  "install_name InstallRunning = ''running''"
| "install_name InstallError = ''error''"
| "install_name InstallIdle = ''idle''"

definition quoted :: "string \<Rightarrow> string" where
  "quoted s = CHR 0x22 # s @ [CHR 0x22]"

definition field :: "string \<Rightarrow> string \<Rightarrow> string" where
  "field k v = quoted k @ '':'' @ v"

definition age_s :: "int \<Rightarrow> ota_state \<Rightarrow> int" where
  "age_s now s =
     (if oc_last_us s > 0 then (let a = (now - oc_last_us s) div 1000000 in if a < 0 then 0 else a) else - 1)"

text \<open>The text in the buffer and the result: its length, or -1 if it did not fit.\<close>

definition ota_check_status_json :: "nat \<Rightarrow> int \<Rightarrow> ota_state \<Rightarrow> install_state \<Rightarrow> string \<times> int" where
  "ota_check_status_json cap now s i =
     (let t = ''{'' @ field ''state'' (quoted (state_name (oc_state s))) @ '','' @
            field ''current'' (quoted (oc_current s)) @ '','' @ field ''available'' (quoted (oc_latest s)) @ '','' @
            field ''update_available'' (if oc_state s = OTA_CHECK_AVAILABLE then ''true'' else ''false'') @ '','' @
            field ''checked_age_s'' (sdec (age_s now s)) @ '','' @ field ''error'' (quoted (oc_error s)) @ '','' @
            field ''install'' (quoted (install_name (is_mode i))) @ '','' @
            field ''install_err'' (quoted (is_err i)) @ ''}''
      in (fmt_s cap t, if length t \<ge> cap then - 1 else int (length t)))"

subsection \<open>Version comparison\<close>

lemma digit_val_hex: "d < 10 \<Longrightarrow> digit_val (hex_digit d) = Some d"
proof -
  assume "d < 10"
  then have "d \<in> {0, 1, 2, 3, 4, 5, 6, 7, 8, 9}" by auto
  then show ?thesis by (auto simp: digit_val_def hex_digit_def)
qed

lemma dec_digits: "list_all is_digit (dec n) \<and> dec n \<noteq> []"
proof (induction n rule: dec.induct)
  case (1 n)
  show ?case
  proof (cases "n < 10")
    case True
    then show ?thesis by (simp add: dec_digit is_digit_def digit_val_hex)
  next
    case False
    moreover have "is_digit (hex_digit (n mod 10))" by (simp add: is_digit_def digit_val_hex)
    ultimately show ?thesis using 1 by (subst (1 2) dec.simps) simp
  qed
qed

lemma digits_val_dec: "digits_val (dec n) = int n"
proof (induction n rule: dec.induct)
  case (1 n)
  show ?case
  proof (cases "n < 10")
    case True
    then show ?thesis by (simp add: dec_digit digits_val_def digit_val_hex)
  next
    case False
    then have "digits_val (dec n) = 10 * int (n div 10) + int (n mod 10)"
      using 1 by (subst dec.simps) (simp add: digits_val_def digit_val_hex)
    then show ?thesis by presburger
  qed
qed

lemma is_digit_plain: "is_digit c \<Longrightarrow> \<not> c_space c \<and> c \<noteq> CHR ''-'' \<and> c \<noteq> CHR ''+'' \<and> c \<noteq> CHR ''.''"
  by (auto simp: is_digit_def digit_val_def c_space_def Let_def split: if_splits)

lemma scan_int_dec:
  assumes "n < 2 ^ 31" and "r = [] \<or> \<not> is_digit (hd r)"
  shows "scan_int (dec n @ r) = Some (int n, r)"
proof -
  obtain c ds where d: "dec n = c # ds" using dec_digits [of n] by (cases "dec n") auto
  have all: "\<And>x. x \<in> set (dec n) \<Longrightarrow> is_digit x" using dec_digits [of n] by (simp add: list_all_iff)
  then have "\<not> c_space c \<and> c \<noteq> CHR ''-'' \<and> c \<noteq> CHR ''+''" using is_digit_plain d by auto
  moreover have "takeWhile is_digit (dec n @ r) = dec n" "dropWhile is_digit (dec n @ r) = r"
    using all assms(2) by (cases r; simp)+
  moreover have "clamp_int (int n) = int n" using assms(1) by (simp add: clamp_int_def)
  ultimately show ?thesis by (simp add: scan_int_def Let_def d digits_val_dec [of n, unfolded d])
qed

definition ver_str :: "nat \<Rightarrow> nat \<Rightarrow> nat \<Rightarrow> string" where
  "ver_str a b c = dec a @ ''.'' @ dec b @ ''.'' @ dec c"

lemma not_digit_dot: "\<not> is_digit CHR ''.''"
  using is_digit_plain by blast

lemma parse_ver_str:
  "a < 2 ^ 31 \<Longrightarrow> b < 2 ^ 31 \<Longrightarrow> c < 2 ^ 31 \<Longrightarrow> parse_ver (ver_str a b c) = Some (int a, int b, int c)"
  using scan_int_dec [of c "[]"]
  by (simp add: parse_ver_def ver_str_def scan_int_dec scan_dot_def not_digit_dot)

text \<open>On printed versions the comparison is the lexicographic order of their three numbers.\<close>
theorem cmp_ver_order:
  assumes "a < 2 ^ 31" "b < 2 ^ 31" "c < 2 ^ 31" and "a' < 2 ^ 31" "b' < 2 ^ 31" "c' < 2 ^ 31"
  shows "(cmp_ver (ver_str a b c) (ver_str a' b' c') > 0 \<longleftrightarrow>
      a' < a \<or> a' = a \<and> (b' < b \<or> b' = b \<and> c' < c)) \<and>
    (cmp_ver (ver_str a b c) (ver_str a' b' c') = 0 \<longleftrightarrow> (a, b, c) = (a', b', c'))"
  using parse_ver_str [OF assms(1-3)] parse_ver_str [OF assms(4-6)] by (simp add: cmp_ver_def)

lemma cmp_ver_order_witness: "cmp_ver (ver_str 1 10 0) (ver_str 1 9 4) > 0"
  using cmp_ver_order [of 1 10 0 1 9 4] by simp

subsection \<open>The refresh\<close>

definition data_of :: "http_event \<Rightarrow> u8 list" where
  "data_of ev = (case ev of HTTP_EVENT_ON_DATA d \<Rightarrow> d | HTTP_EVENT_OTHER \<Rightarrow> [])"

lemma overflow_stays: "a_overflow a \<Longrightarrow> a_overflow (fold http_event_cb evs a)"
  by (induction evs arbitrary: a) (auto simp: http_event_cb_def split: http_event.split)

lemma fold_http:
  "\<not> a_overflow a \<Longrightarrow> length (a_buf a) \<le> MAX_RESP_BYTES \<Longrightarrow>
    (if length (a_buf a) + length (concat (map data_of evs)) \<le> MAX_RESP_BYTES
     then fold http_event_cb evs a = a\<lparr>a_buf := a_buf a @ concat (map data_of evs)\<rparr>
     else a_overflow (fold http_event_cb evs a))"
proof (induction evs arbitrary: a)
  case (Cons ev evs)
  show ?case
  proof (cases "length (a_buf a) + length (data_of ev) \<le> MAX_RESP_BYTES")
    case True
    then have "http_event_cb ev a = a\<lparr>a_buf := a_buf a @ data_of ev\<rparr>"
      using Cons.prems by (cases ev) (simp_all add: http_event_cb_def data_of_def)
    then show ?thesis using Cons.IH [of "a\<lparr>a_buf := a_buf a @ data_of ev\<rparr>"] Cons.prems True by (simp add: add.assoc)
  next
    case False
    then have "a_overflow (http_event_cb ev a)"
      using Cons.prems by (cases ev) (simp_all add: http_event_cb_def data_of_def)
    then show ?thesis using False overflow_stays by simp
  qed
qed simp

text \<open>What a fetch must have delivered for a version to be found.\<close>

definition offers :: "build \<Rightarrow> 'j json_api \<Rightarrow> fetch \<Rightarrow> string \<Rightarrow> bool" where
  "offers B J f v \<longleftrightarrow>
     (\<exists>evs root. f = Some (evs, ESP_OK, 200) \<and> length (concat (map data_of evs)) \<le> MAX_RESP_BYTES \<and>
        concat (map data_of evs) \<noteq> [] \<and> js_parse J (cstr (concat (map data_of evs))) = Some root \<and>
        manifest_version B J root = Some v)"

lemma fmt_s_nonempty: "m \<noteq> [] \<Longrightarrow> 1 < cap \<Longrightarrow> fmt_s cap m \<noteq> []"
  by (simp add: fmt_s_def)

lemma refresh_cases:
  assumes "ota_check_refresh B J en f now s = (e, s')"
  shows "(e = ESP_OK \<and> (\<exists>v. offers B J f v \<and> s' = check_done B v now (s\<lparr>oc_state := OTA_CHECK_CHECKING, oc_error := []\<rparr>))) \<or>
    (e \<noteq> ESP_OK \<and> (\<forall>v. \<not> offers B J f v) \<and> oc_state s' = OTA_CHECK_ERROR \<and> oc_error s' \<noteq> [])"
proof (cases f)
  case None
  then show ?thesis using assms by (auto simp: ota_check_refresh_def offers_def)
next
  case (Some r)
  obtain evs e1 code where f: "f = Some (evs, e1, code)" using Some by (cases r) auto
  let ?d = "concat (map data_of evs)"
  let ?a = "fold http_event_cb evs \<lparr>a_buf = [], a_overflow = False\<rparr>"
  have a: "if length ?d \<le> MAX_RESP_BYTES then ?a = \<lparr>a_buf = ?d, a_overflow = False\<rparr> else a_overflow ?a"
    using fold_http [of "\<lparr>a_buf = [], a_overflow = False\<rparr>" evs] by simp
  show ?thesis
  proof (cases "e1 = ESP_OK \<and> code = 200 \<and> length ?d \<le> MAX_RESP_BYTES \<and> ?d \<noteq> []")
    case False
    then show ?thesis using assms f a
      by (auto simp: ota_check_refresh_def offers_def check_failed_def fmt_s_nonempty Let_def split: if_splits)
  next
    case True
    then have d: "a_buf ?a = ?d" "\<not> a_overflow ?a" using a by simp_all
    have good: "(a_overflow ?a \<or> a_buf ?a = []) = False" using True d by metis
    have run: "ota_check_refresh B J en f now s =
        (let s1 = s\<lparr>oc_state := OTA_CHECK_CHECKING, oc_error := []\<rparr> in
         case js_parse J (cstr ?d) of
           None \<Rightarrow> (ESP_FAIL, check_failed ''JSON parse failed'' now s1)
         | Some root \<Rightarrow>
             (case manifest_version B J root of
                None \<Rightarrow> (ESP_FAIL, check_failed (if b_tulx B then ''manifest lists no '' @ b_file B
                  else ''no version field'') now s1)
              | Some v \<Rightarrow> (ESP_OK, check_done B v now s1)))"
      unfolding ota_check_refresh_def Let_def f option.case prod.case good unfolding d(1)
      by (simp only: True if_False simp_thms)
    show ?thesis
    proof (cases "Option.bind (js_parse J (cstr ?d)) (manifest_version B J)")
      case None
      have "\<not> offers B J f v" for v using None f by (auto simp: offers_def)
      moreover have "e \<noteq> ESP_OK \<and> oc_state s' = OTA_CHECK_ERROR \<and> oc_error s' \<noteq> []"
        using assms None unfolding run
        by (auto simp: Let_def check_failed_def fmt_s_nonempty split: option.splits if_splits)
      ultimately show ?thesis by blast
    next
      case (Some v)
      then have "offers B J f v" using f True by (auto simp: offers_def bind_eq_Some_conv)
      moreover have "e = ESP_OK \<and> s' = check_done B v now (s\<lparr>oc_state := OTA_CHECK_CHECKING, oc_error := []\<rparr>)"
        using assms Some unfolding run by (auto simp: Let_def bind_eq_Some_conv)
      ultimately show ?thesis by blast
    qed
  qed
qed

text \<open>A refresh that succeeds shows exactly whether the version the manifest names is newer; it succeeds exactly
  when a manifest of at most 2048 bytes with a version arrived, and every other outcome is shown as an
  error with a message.  The state is never left at checking.\<close>
theorem ota_refresh_truthful:
  assumes "ota_check_refresh B J en f now s = (e, s')"
  shows "(oc_state s' = OTA_CHECK_AVAILABLE \<longleftrightarrow>
      (\<exists>v. offers B J f v \<and> cmp_ver (fmt_s VER_STR_MAX v) (b_version B) > 0)) \<and>
    (oc_state s' = OTA_CHECK_UP_TO_DATE \<longleftrightarrow>
      (\<exists>v. offers B J f v \<and> cmp_ver (fmt_s VER_STR_MAX v) (b_version B) \<le> 0)) \<and>
    (e = ESP_OK \<longleftrightarrow> (\<exists>v. offers B J f v)) \<and> (oc_state s' = OTA_CHECK_ERROR \<longleftrightarrow> e \<noteq> ESP_OK) \<and>
    (oc_error s' \<noteq> [] \<longleftrightarrow> e \<noteq> ESP_OK) \<and> oc_state s' \<notin> {OTA_CHECK_CHECKING, OTA_CHECK_IDLE}"
proof -
  have unique: "offers B J f v \<Longrightarrow> offers B J f v' \<Longrightarrow> v = v'" for v v' by (auto simp: offers_def)
  from refresh_cases [OF assms] show ?thesis
  proof (elim disjE conjE exE)
    fix v
    assume "e = ESP_OK" and v: "offers B J f v"
      and s': "s' = check_done B v now (s\<lparr>oc_state := OTA_CHECK_CHECKING, oc_error := []\<rparr>)"
    have only: "(\<exists>x. offers B J f x \<and> P x) \<longleftrightarrow> P v" for P using v unique by blast
    show ?thesis unfolding only using \<open>e = ESP_OK\<close> v by (auto simp: s' check_done_def Let_def)
  qed auto
qed

text \<open>A JSON library that reads the whole text as the version.\<close>

definition plain_json :: "string json_api" where
  "plain_json = \<lparr>js_parse = Some, js_get = (\<lambda>j k. if k = ''version'' then Some j else None),
     js_string = Some, js_items = (\<lambda>j. [])\<rparr>"

definition demo_build :: build where
  "demo_build = \<lparr>b_tulx = False, b_version = ver_str 1 2 0, b_file = [], b_project = bytes ''cdc2net''\<rparr>"

lemma ota_refresh_truthful_witness:
  "oc_state (snd (ota_check_refresh demo_build plain_json (\<lambda>e. ''x'')
     (Some ([HTTP_EVENT_ON_DATA (bytes (ver_str 1 3 0))], ESP_OK, 200)) 5 (ota_initial demo_build))) = OTA_CHECK_AVAILABLE"
proof -
  let ?f = "Some ([HTTP_EVENT_ON_DATA (bytes (ver_str 1 3 0))], ESP_OK, 200)"
  let ?r = "ota_check_refresh demo_build plain_json (\<lambda>e. ''x'') ?f 5 (ota_initial demo_build)"
  have v: "ver_str 1 3 0 = ''1.3.0''" by (simp add: ver_str_def dec_digit hex_digit_def)
  have "cstr (bytes (ver_str 1 3 0)) = ver_str 1 3 0" "length (ver_str 1 3 0) \<le> 2048" "bytes (ver_str 1 3 0) \<noteq> []"
    unfolding v by (code_simp, simp, simp add: bytes_def)
  then have o: "offers demo_build plain_json ?f (ver_str 1 3 0)"
    unfolding offers_def by (simp add: data_of_def plain_json_def manifest_version_def demo_build_def MAX_RESP_BYTES_def)
  moreover have "fmt_s VER_STR_MAX (ver_str 1 3 0) = ver_str 1 3 0" unfolding v by (simp add: VER_STR_MAX_def)
  then have "cmp_ver (fmt_s VER_STR_MAX (ver_str 1 3 0)) (b_version demo_build) > 0"
    using parse_ver_str [of 1 3 0] parse_ver_str [of 1 2 0] by (simp add: demo_build_def cmp_ver_def)
  ultimately show ?thesis using ota_refresh_truthful [of demo_build plain_json "\<lambda>e. ''x''" ?f 5 "ota_initial demo_build" "fst ?r" "snd ?r"]
    by auto
qed

subsection \<open>The installation\<close>

text \<open>The installer that records what ends an installation, and of a finish whether it succeeded.\<close>

datatype ota_op = OpAbort | OpFinish bool | OpRestart

definition taped :: "'w ota_api \<Rightarrow> ('w \<times> ota_op list) ota_api" where
  "taped A =
     \<lparr>ho_begin = (\<lambda>wl. apsnd (\<lambda>w. (w, snd wl)) (ho_begin A (fst wl))),
      ho_img_desc = (\<lambda>wl. apsnd (\<lambda>w. (w, snd wl)) (ho_img_desc A (fst wl))),
      ho_perform = (\<lambda>wl. apsnd (\<lambda>w. (w, snd wl)) (ho_perform A (fst wl))),
      ho_complete = (\<lambda>wl. ho_complete A (fst wl)),
      ho_abort = (\<lambda>wl. (ho_abort A (fst wl), snd wl @ [OpAbort])),
      ho_finish = (\<lambda>wl. case ho_finish A (fst wl) of (e, w) \<Rightarrow> (e, (w, snd wl @ [OpFinish (e = ESP_OK)]))),
      ho_restart = (\<lambda>wl. (ho_restart A (fst wl), snd wl @ [OpRestart])),
      ho_now = (\<lambda>wl. ho_now A (fst wl))\<rparr>"

lemma download_log:
  assumes "download (taped A) d wl = Some (e, wl')"
  shows "snd wl' = snd wl"
proof -
  let ?P = "\<lambda>A' d wl r. \<forall>A. A' = taped A \<longrightarrow> snd (snd r) = snd wl"
  have "?P (taped A) d wl (e, wl')"
  proof (rule download.raw_induct [of ?P, OF _ assms], intro allI impI)
    fix f A' d wl r A
    assume IH: "\<And>A' d wl r. f A' d wl = Some r \<Longrightarrow> ?P A' d wl r"
      and body: "(case ho_perform A' wl of (e, w1) \<Rightarrow>
          if e \<noteq> IN_PROGRESS then Some (e, w1)
          else if d < ho_now A' w1 then Some (ESP_ERR_TIMEOUT, w1) else f A' d w1) = Some r"
      and A': "A' = taped A"
    obtain e1 w1 where p: "ho_perform A (fst wl) = (e1, w1)" by (metis surj_pair)
    have p': "ho_perform A' wl = (e1, (w1, snd wl))" by (simp add: A' taped_def p)
    have "snd (snd r) = snd wl" if "f A' d (w1, snd wl) = Some r" using IH [OF that] A' by auto
    with body show "snd (snd r) = snd wl" unfolding p' by (auto split: if_splits)
  qed
  then show ?thesis by auto
qed

lemma downloaded_log:
  assumes "install_downloaded (taped A) en e (i, (w, l)) = (i', (w', l'))"
  shows "(l' = l @ [OpAbort] \<and> is_mode i' = InstallError \<and> \<not> (e = ESP_OK \<and> ho_complete A w)) \<or>
    (l' = l @ [OpFinish False] \<and> is_mode i' = InstallError \<and> e = ESP_OK \<and> ho_complete A w \<and>
      fst (ho_finish A w) \<noteq> ESP_OK) \<or>
    (l' = l @ [OpFinish True, OpRestart] \<and> i' = i \<and> e = ESP_OK \<and> ho_complete A w \<and> fst (ho_finish A w) = ESP_OK)"
proof -
  obtain f w1 where f: "ho_finish A w = (f, w1)" by (metis surj_pair)
  show ?thesis using assms f
    by (cases "e = ESP_OK"; cases "ho_complete A w"; cases "f = ESP_OK")
      (auto simp: install_downloaded_def taped_def install_set_err_def)
qed

text \<open>What must have happened for the image to be committed: \<open>w3\<close> is the state the download left.\<close>

definition whole_image :: "build \<Rightarrow> 'w ota_api \<Rightarrow> 'w \<Rightarrow> 'w \<Rightarrow> bool" where
  "whole_image B A w w3 \<longleftrightarrow>
     (\<exists>w1 name w2. ho_begin A w = ((ESP_OK, True), w1) \<and> ho_img_desc A w1 = ((ESP_OK, name), w2) \<and>
        name_of name = name_of (b_project B) \<and> ho_complete A w3 \<and>
        download (taped A) (ho_now A w2 + OTA_INSTALL_TIMEOUT_S * 1000000) (w2, []) = Some (ESP_OK, (w3, [])))"

text \<open>C23: An installation that ends is finished (which commits it) exactly if it could begin, the image carries the name
  of the running project, the download ended without an error and all data arrived.  One that could not begin calls
  nothing more, any other is aborted once and never finished.  The device restarts exactly when the finish succeeded; in
  every other case nothing follows, and an error is shown.\<close>
theorem ota_install_guard:
  assumes "ota_install_task B (taped A) en (i, (w, [])) = Some (i', (w', log))"
  shows "log \<in> {[], [OpAbort], [OpFinish False], [OpFinish True, OpRestart]} \<and>
    (log = [] \<longleftrightarrow> fst (ho_begin A w) \<noteq> (ESP_OK, True)) \<and>
    (log = [OpFinish False] \<longleftrightarrow> (\<exists>w3. whole_image B A w w3 \<and> fst (ho_finish A w3) \<noteq> ESP_OK)) \<and>
    (log = [OpFinish True, OpRestart] \<longleftrightarrow> (\<exists>w3. whole_image B A w w3 \<and> fst (ho_finish A w3) = ESP_OK)) \<and>
    (OpRestart \<notin> set log \<longrightarrow> is_mode i' = InstallError) \<and> (OpRestart \<in> set log \<longrightarrow> i' = i)"
proof -
  obtain e h w1 where b: "ho_begin A w = ((e, h), w1)" by (metis surj_pair)
  obtain e2 name w2 where d: "ho_img_desc A w1 = ((e2, name), w2)" by (metis surj_pair)
  have tb: "ho_begin (taped A) (w, []) = ((e, h), (w1, []))" and td: "ho_img_desc (taped A) (w1, []) = ((e2, name), (w2, []))"
    by (simp_all add: taped_def b d)
  have ab: "ho_abort (taped A) (w2, []) = (ho_abort A w2, [OpAbort])" and nw: "ho_now (taped A) (w2, []) = ho_now A w2"
    by (simp_all add: taped_def)
  note run = assms [unfolded ota_install_task_def snd_conv fst_conv tb td prod.case ab nw]
  consider (nobegin) "e \<noteq> ESP_OK \<or> \<not> h" | (nodesc) "e = ESP_OK" h "e2 \<noteq> ESP_OK"
    | (foreign) "e = ESP_OK" h "e2 = ESP_OK" "name_of name \<noteq> name_of (b_project B)"
    | (load) "e = ESP_OK" h "e2 = ESP_OK" "name_of name = name_of (b_project B)" by blast
  then show ?thesis
  proof cases
    case load
    let ?dl = "download (taped A) (ho_now A w2 + OTA_INSTALL_TIMEOUT_S * 1000000) (w2, [])"
    obtain e3 w3 l3 where dl: "?dl = Some (e3, (w3, l3))" using run load by (cases ?dl) auto
    have l3: "l3 = []" using download_log [OF dl] by simp
    have w: "whole_image B A w v \<longleftrightarrow> v = w3 \<and> e3 = ESP_OK \<and> ho_complete A v" for v
      using load dl l3 by (auto simp: whole_image_def b d)
    have "install_downloaded (taped A) en e3 (i, (w3, [])) = (i', (w', log))" using run load dl l3 by simp
    from downloaded_log [OF this] show ?thesis using load by (auto simp: w b)
  qed (use run in \<open>auto simp: install_set_err_def whole_image_def b d\<close>)
qed

text \<open>C32: If the clock advances with every piece of the download, the installation ends, however the server
  stalls.\<close>
theorem ota_install_ends:
  assumes "\<forall>w. ho_now A w < ho_now A (snd (ho_perform A w))"
  shows "ota_install_task B A en iw \<noteq> None"
proof -
  have dl: "download A d w \<noteq> None" for d w
  proof (induction "nat (d + 1 - ho_now A w)" arbitrary: w rule: less_induct)
    case less
    obtain e w1 where p: "ho_perform A w = (e, w1)" by (metis surj_pair)
    have t: "ho_now A w < ho_now A w1" using assms p by (metis snd_conv)
    show ?case
    proof (cases "e = IN_PROGRESS \<and> ho_now A w1 \<le> d")
      case True
      then have "nat (d + 1 - ho_now A w1) < nat (d + 1 - ho_now A w)" using t by linarith
      from less.hyps [OF this] True p show ?thesis by (subst download.simps) auto
    next
      case False
      then show ?thesis using p by (subst download.simps) auto
    qed
  qed
  show ?thesis
    using dl by (auto simp: ota_install_task_def simp del: not_None_eq split: prod.splits)
qed

text \<open>A server that stalls: every piece takes 20 s and reports progress.\<close>

definition stalled :: "u8 list \<Rightarrow> esp_err \<Rightarrow> int ota_api" where
  "stalled name e =
     \<lparr>ho_begin = (\<lambda>t. ((ESP_OK, True), t)), ho_img_desc = (\<lambda>t. ((ESP_OK, name), t)),
      ho_perform = (\<lambda>t. (e, t + 20000000)), ho_complete = (\<lambda>t. True), ho_abort = id,
      ho_finish = (\<lambda>t. (ESP_OK, t)), ho_restart = id, ho_now = id\<rparr>"

lemma ota_install_ends_witness:
  "ota_install_task demo_build (stalled (bytes ''cdc2net'') IN_PROGRESS) (\<lambda>e. ''x'') (\<lparr>is_mode = InstallRunning, is_err = []\<rparr>, 0) \<noteq> None"
  using ota_install_ends [of "stalled (bytes ''cdc2net'') IN_PROGRESS" demo_build] by (simp add: stalled_def)

lemma ota_install_guard_witness:
  "\<exists>i' w' log. ota_install_task demo_build (taped (stalled (bytes ''cdc2net'') ESP_OK)) (\<lambda>e. ''x'')
      (\<lparr>is_mode = InstallRunning, is_err = []\<rparr>, (0, [])) = Some (i', (w', log)) \<and>
     log = [OpFinish True, OpRestart] \<and> (\<exists>w3. whole_image demo_build (stalled (bytes ''cdc2net'') ESP_OK) 0 w3)"
proof -
  let ?A = "stalled (bytes ''cdc2net'') ESP_OK" and ?i = "\<lparr>is_mode = InstallRunning, is_err = []\<rparr>"
  have "download (taped ?A) d (t, []) = Some (ESP_OK, (t + 20000000, []))" for d t
    by (subst download.simps) (simp add: taped_def stalled_def IN_PROGRESS_def)
  then have r: "ota_install_task demo_build (taped ?A) (\<lambda>e. ''x'') (?i, (0, [])) =
      Some (?i, (20000000, [OpFinish True, OpRestart]))"
    by (simp add: ota_install_task_def taped_def stalled_def demo_build_def install_downloaded_def)
  from ota_install_guard [OF r] r show ?thesis by blast
qed

end
