(* ===== verification/OtaUpload.thy ===== *)
theory OtaUpload
  imports Radio
begin

text \<open>
  \<^verbatim>\<open>h_ota_body\<close> in \<^verbatim>\<open>webui.c\<close>: a firmware image posted over HTTP is streamed into the passive OTA slot,
  and the boot partition is switched when everything was accepted.  The OTA functions of the IDF, with
  the layout of its application descriptor, are the parameter \<open>A\<close> over a world \<open>'w\<close>; the events of
  the body socket are a list, and running out of them stands for a reset in the middle of the upload.
\<close>

subsection \<open>The handler\<close>

record 'w slot_api =
  slot_size :: nat
  slot_begin :: "nat \<Rightarrow> 'w \<Rightarrow> esp_err \<times> 'w"
  slot_write :: "u8 list \<Rightarrow> 'w \<Rightarrow> esp_err \<times> 'w"
  slot_end :: "'w \<Rightarrow> esp_err \<times> 'w"
  slot_abort :: "'w \<Rightarrow> 'w"
  slot_set_boot :: "'w \<Rightarrow> esp_err \<times> 'w"
  yield_tick :: "'w \<Rightarrow> 'w"
  spawn_reboot :: "'w \<Rightarrow> 'w"
  app_magic_ok :: "u8 list \<Rightarrow> bool"
  app_version :: "u8 list \<Rightarrow> u8 list"
  app_project :: "u8 list \<Rightarrow> u8 list"
  running_version :: "u8 list"
  running_project :: "u8 list"

definition HDR_LEN :: nat where "HDR_LEN = 288"

definition DESC_OFF :: nat where "DESC_OFF = 32"

definition OTA_BUF :: nat where "OTA_BUF = 1024"

definition field32 :: "u8 list \<Rightarrow> string" where
  "field32 b = cstr (take 32 b)"

datatype upload_res = OtaRejected nat | OtaInterrupted | OtaOk string

record 'w upload_st =
  up_rest :: "u8 list"
  up_remaining :: nat
  up_written :: nat
  up_hdr :: "u8 list"
  up_valid :: bool
  up_version :: string
  up_since :: nat
  up_world :: 'w

text \<open>The check of the header once all 288 bytes are there: an HTTP error, or the version of the image.\<close>

definition ota_hdr_check :: "'w slot_api \<Rightarrow> u8 list \<Rightarrow> nat + string" where
  "ota_hdr_check A hdr =
     (let nd = drop DESC_OFF hdr
      in if \<not> app_magic_ok A nd then Inl 400
         else if field32 (app_project A nd) \<noteq> field32 (running_project A) then Inl 400
         else Inr (fmt_s 33 (field32 (app_version A nd))))"

text \<open>The header buffer takes its part of a chunk while it is not validated.\<close>

definition ota_hdr_step :: "'w slot_api \<Rightarrow> u8 list \<Rightarrow> 'w upload_st \<Rightarrow> nat + 'w upload_st" where
  "ota_hdr_step A buf s =
     (if up_valid s then Inr s
      else
        let hdr = up_hdr s @ take (HDR_LEN - length (up_hdr s)) buf
        in if length hdr = HDR_LEN
           then (case ota_hdr_check A hdr of
                   Inl code \<Rightarrow> Inl code
                 | Inr v \<Rightarrow> Inr (s\<lparr>up_hdr := hdr, up_valid := True, up_version := v\<rparr>))
           else Inr (s\<lparr>up_hdr := hdr\<rparr>))"

text \<open>One receive call that did not fail; a result stops the loop.\<close>

definition ota_chunk :: "'w slot_api \<Rightarrow> nat \<Rightarrow> 'w upload_st \<Rightarrow> upload_res option \<times> 'w upload_st" where
  "ota_chunk A n s =
     (let buf = take (min n (min OTA_BUF (up_remaining s))) (up_rest s); r = length buf
      in if r = 0 then (Some (OtaRejected 500), s\<lparr>up_world := slot_abort A (up_world s)\<rparr>)
         else case ota_hdr_step A buf s of
           Inl code \<Rightarrow> (Some (OtaRejected code), s\<lparr>up_world := slot_abort A (up_world s)\<rparr>)
         | Inr s1 \<Rightarrow>
             (case slot_write A buf (up_world s1) of
                (err, w1) \<Rightarrow>
                  if err \<noteq> ESP_OK
                  then (Some (OtaRejected 500), s1\<lparr>up_world := slot_abort A w1\<rparr>)
                  else
                    let since = up_since s1 + r; full = since \<ge> 64 * 1024
                    in (None, s1\<lparr>up_rest := drop r (up_rest s1), up_remaining := up_remaining s1 - r,
                          up_written := up_written s1 + r, up_since := (if full then 0 else since),
                          up_world := (if full then yield_tick A w1 else w1)\<rparr>)))"

fun ota_loop :: "'w slot_api \<Rightarrow> recv_ev list \<Rightarrow> 'w upload_st \<Rightarrow> upload_res option \<times> 'w upload_st" where
  "ota_loop A [] s = (if up_remaining s = 0 then None else Some OtaInterrupted, s)"
| "ota_loop A (ev # evs) s =
     (if up_remaining s = 0 then (None, s)
      else case ev of
        RecvTimeout \<Rightarrow> ota_loop A evs s
      | RecvErr \<Rightarrow> (Some (OtaRejected 500), s\<lparr>up_world := slot_abort A (up_world s)\<rparr>)
      | Got n \<Rightarrow>
          (case ota_chunk A n s of
             (Some res, s1) \<Rightarrow> (Some res, s1)
           | (None, s1) \<Rightarrow> ota_loop A evs s1))"

definition ota_answer :: "'w slot_api \<Rightarrow> 'w upload_st \<Rightarrow> string" where
  "ota_answer A s =
     fmt_s 200 (''{'' @ [CHR 0x22] @ ''ota'' @ [CHR 0x22] @ '':'' @ [CHR 0x22] @ ''ok'' @ [CHR 0x22] @ '','' @
       [CHR 0x22] @ ''bytes'' @ [CHR 0x22] @ '':'' @ dec (up_written s) @ '','' @ [CHR 0x22] @ ''from'' @ [CHR 0x22] @
       '':'' @ [CHR 0x22] @ field32 (running_version A) @ [CHR 0x22] @ '','' @ [CHR 0x22] @ ''to'' @ [CHR 0x22] @ '':'' @
       [CHR 0x22] @ up_version s @ [CHR 0x22] @ ''}'')"

text \<open>The part behind the loop.\<close>

definition ota_commit :: "'w slot_api \<Rightarrow> 'w upload_st \<Rightarrow> upload_res \<times> 'w" where
  "ota_commit A s =
     (if \<not> up_valid s then (OtaRejected 400, slot_abort A (up_world s))
      else case slot_end A (up_world s) of
        (e1, w1) \<Rightarrow>
          if e1 \<noteq> ESP_OK then (OtaRejected 500, w1)
          else (case slot_set_boot A w1 of
            (e2, w2) \<Rightarrow>
              if e2 \<noteq> ESP_OK then (OtaRejected 500, w2) else (OtaOk (ota_answer A s), spawn_reboot A w2)))"

definition h_ota_body ::
  "'w slot_api option \<Rightarrow> recv_ev list \<Rightarrow> u8 list \<Rightarrow> nat \<Rightarrow> 'w \<Rightarrow> upload_res \<times> 'w" where
  "h_ota_body upd evs body content_len w =
     (case upd of
        None \<Rightarrow> (OtaRejected 500, w)
      | Some A \<Rightarrow>
          if content_len < 256 * 1024 \<or> int content_len > int (slot_size A) - 0x1000 then (OtaRejected 400, w)
          else (case slot_begin A content_len w of
            (e, w1) \<Rightarrow>
              if e \<noteq> ESP_OK then (OtaRejected 500, w1)
              else (case ota_loop A evs \<lparr>up_rest = body, up_remaining = content_len, up_written = 0, up_hdr = [],
                       up_valid = False, up_version = [], up_since = 0, up_world = w1\<rparr> of
                (Some res, s) \<Rightarrow> (res, up_world s)
              | (None, s) \<Rightarrow> ota_commit A s)))"

subsection \<open>The slot as a recorder\<close>

text \<open>Every call with its success.\<close>

datatype slot_op = OBegin nat bool | OWrite "u8 list" bool | OEnd bool | OAbort | OSetBoot bool | OReboot

abbreviation OWritten :: "u8 list \<Rightarrow> slot_op" where "OWritten d \<equiv> OWrite d True"

definition note_op :: "(bool \<Rightarrow> slot_op) \<Rightarrow> slot_op list \<Rightarrow> esp_err \<times> 'w \<Rightarrow> esp_err \<times> ('w \<times> slot_op list)" where
  "note_op f l r = (fst r, (snd r, l @ [f (fst r = ESP_OK)]))"

definition noted :: "'w slot_api \<Rightarrow> ('w \<times> slot_op list) slot_api" where
  "noted A =
     \<lparr>slot_size = slot_size A,
      slot_begin = (\<lambda>n wl. note_op (OBegin n) (snd wl) (slot_begin A n (fst wl))),
      slot_write = (\<lambda>d wl. note_op (OWrite d) (snd wl) (slot_write A d (fst wl))),
      slot_end = (\<lambda>wl. note_op OEnd (snd wl) (slot_end A (fst wl))),
      slot_abort = (\<lambda>wl. (slot_abort A (fst wl), snd wl @ [OAbort])),
      slot_set_boot = (\<lambda>wl. note_op OSetBoot (snd wl) (slot_set_boot A (fst wl))),
      yield_tick = apfst (yield_tick A),
      spawn_reboot = (\<lambda>wl. (spawn_reboot A (fst wl), snd wl @ [OReboot])),
      app_magic_ok = app_magic_ok A, app_version = app_version A, app_project = app_project A,
      running_version = running_version A, running_project = running_project A\<rparr>"

text \<open>The image is for this device: what the header check asks of the first 288 bytes.\<close>

definition own_image :: "'w slot_api \<Rightarrow> u8 list \<Rightarrow> bool" where
  "own_image A img \<longleftrightarrow>
     (let nd = drop DESC_OFF (take HDR_LEN img)
      in app_magic_ok A nd \<and> field32 (app_project A nd) = field32 (running_project A))"

text \<open>
  The loop invariant: \<open>img\<close> is what was received; it was written in chunks of at most 1024 bytes after
  the start of the slot, and the header buffer holds its beginning until it was found valid.
\<close>

definition up_inv :: "'w slot_api \<Rightarrow> u8 list \<Rightarrow> nat \<Rightarrow> slot_op list \<Rightarrow> ('w \<times> slot_op list) upload_st \<Rightarrow> bool" where
  "up_inv A body len start s \<longleftrightarrow>
     (\<exists>cs. snd (up_world s) = start @ map OWritten cs \<and> concat cs @ up_rest s = body \<and>
        (\<forall>c\<in>set cs. c \<noteq> [] \<and> length c \<le> OTA_BUF) \<and>
        length (concat cs) + up_remaining s = len \<and> up_written s = length (concat cs) \<and>
        up_hdr s = take HDR_LEN (concat cs) \<and>
        (if up_valid s then HDR_LEN \<le> length (concat cs) \<and> own_image A (concat cs)
         else length (concat cs) < HDR_LEN))"

lemma noted_simps [simp]:
  "ota_hdr_check (noted A) = ota_hdr_check A" "own_image (noted A) = own_image A"
  by (auto simp: noted_def ota_hdr_check_def own_image_def fun_eq_iff Let_def)

lemma own_image_append: "HDR_LEN \<le> length a \<Longrightarrow> own_image A (a @ b) = own_image A a"
  by (simp add: own_image_def)

lemma hdr_check_own: "ota_hdr_check A (take HDR_LEN img) = Inr v \<Longrightarrow> own_image A img"
  by (auto simp: ota_hdr_check_def own_image_def Let_def split: if_splits)

lemma hdr_step_inv:
  assumes inv: "up_hdr s = take HDR_LEN img"
    "if up_valid s then HDR_LEN \<le> length img \<and> own_image A img else length img < HDR_LEN"
    and step: "ota_hdr_step A buf s = Inr s1"
  shows "up_hdr s1 = take HDR_LEN (img @ buf) \<and>
    (if up_valid s1 then HDR_LEN \<le> length (img @ buf) \<and> own_image A (img @ buf) else length (img @ buf) < HDR_LEN) \<and>
    up_rest s1 = up_rest s \<and> up_remaining s1 = up_remaining s \<and> up_written s1 = up_written s \<and> up_world s1 = up_world s"
proof (cases "up_valid s")
  case True
  then show ?thesis using assms by (simp add: ota_hdr_step_def own_image_append)
next
  case False
  then have img: "length img < HDR_LEN" "up_hdr s = img" using inv by simp_all
  have hdr: "up_hdr s @ take (HDR_LEN - length (up_hdr s)) buf = take HDR_LEN (img @ buf)"
    using img by simp
  show ?thesis
  proof (cases "length (take HDR_LEN (img @ buf)) = HDR_LEN")
    case full: True
    then obtain v where "ota_hdr_check A (take HDR_LEN (img @ buf)) = Inr v"
      and s1: "s1 = s\<lparr>up_hdr := take HDR_LEN (img @ buf), up_valid := True, up_version := v\<rparr>"
      using step False unfolding ota_hdr_step_def hdr Let_def by (auto split: sum.splits if_splits)
    then have "own_image A (img @ buf)" by (rule_tac hdr_check_own)
    then show ?thesis using full s1 by auto
  next
    case short: False
    then have "(Inr (s\<lparr>up_hdr := take HDR_LEN (img @ buf)\<rparr>) :: nat + _) = Inr s1"
      using step unfolding ota_hdr_step_def hdr Let_def by (simp only: False if_False)
    then have "s1 = s\<lparr>up_hdr := take HDR_LEN (img @ buf)\<rparr>" by simp
    then show ?thesis using short False by auto
  qed
qed

definition aborted :: "slot_op list \<Rightarrow> slot_op list \<Rightarrow> bool" where
  "aborted start log \<longleftrightarrow> (\<exists>cs t. log = start @ map OWritten cs @ t @ [OAbort] \<and> (t = [] \<or> (\<exists>c. t = [OWrite c False])))"

lemma abort_noted: "slot_abort (noted A) (w, l) = (slot_abort A w, l @ [OAbort])"
  by (simp add: noted_def)

lemma yield_noted: "snd (yield_tick (noted A) wl) = snd wl"
  by (simp add: noted_def)

lemma take_length_drop: "take m xs @ drop (length (take m xs)) xs = xs"
  by (metis append_take_drop_id append_eq_conv_conj)

lemma chunk_inv:
  assumes inv: "up_inv A body len start s" and pos: "up_remaining s > 0"
    and c: "ota_chunk (noted A) n s = (r, s1)"
  shows "case r of None \<Rightarrow> up_inv A body len start s1
    | Some x \<Rightarrow> (\<exists>code. x = OtaRejected code) \<and> aborted start (snd (up_world s1))"
proof -
  obtain cs where cs: "snd (up_world s) = start @ map OWritten cs" "concat cs @ up_rest s = body"
    "\<forall>c\<in>set cs. c \<noteq> [] \<and> length c \<le> OTA_BUF" "length (concat cs) + up_remaining s = len"
    "up_written s = length (concat cs)" and h: "up_hdr s = take HDR_LEN (concat cs)"
    "if up_valid s then HDR_LEN \<le> length (concat cs) \<and> own_image A (concat cs) else length (concat cs) < HDR_LEN"
    using inv unfolding up_inv_def by blast
  define buf where "buf = take (min n (min OTA_BUF (up_remaining s))) (up_rest s)"
  have buf: "length buf \<le> OTA_BUF" "length buf \<le> up_remaining s" "buf @ drop (length buf) (up_rest s) = up_rest s"
    by (simp_all only: buf_def take_length_drop) simp_all
  note c' = c [unfolded ota_chunk_def Let_def, folded buf_def]
  have ab: "aborted start (snd (slot_abort (noted A) (up_world s)))"
    using cs(1) by (cases "up_world s") (auto simp: abort_noted aborted_def)
  show ?thesis
  proof (cases "length buf = 0")
    case True
    then have "r = Some (OtaRejected 500) \<and> s1 = s\<lparr>up_world := slot_abort (noted A) (up_world s)\<rparr>"
      using c' by simp
    then show ?thesis using ab by simp
  next
    case nonempty: False
    show ?thesis
    proof (cases "ota_hdr_step (noted A) buf s")
      case (Inl code)
      then have "r = Some (OtaRejected code) \<and> s1 = s\<lparr>up_world := slot_abort (noted A) (up_world s)\<rparr>"
        using c' nonempty by simp
      then show ?thesis using ab by simp
    next
      case (Inr s2)
      have hh: "if up_valid s then HDR_LEN \<le> length (concat cs) \<and> own_image (noted A) (concat cs)
          else length (concat cs) < HDR_LEN" using h(2) by simp
      note s2 = hdr_step_inv [OF h(1) hh Inr, unfolded noted_simps]
      obtain e w1 where w: "slot_write A buf (fst (up_world s)) = (e, w1)" by (metis surj_pair)
      have wn: "slot_write (noted A) buf (up_world s2) = (e, (w1, snd (up_world s) @ [OWrite buf (e = ESP_OK)]))"
        using s2 w by (simp add: noted_def note_op_def)
      note run = c' [unfolded Inr sum.case wn prod.case]
      show ?thesis
      proof (cases "e = ESP_OK")
        case False
        then have "r = Some (OtaRejected 500) \<and>
            s1 = s2\<lparr>up_world := slot_abort (noted A) (w1, snd (up_world s) @ [OWrite buf False])\<rparr>"
          using run nonempty by auto
        moreover have "aborted start (snd (slot_abort (noted A) (w1, snd (up_world s) @ [OWrite buf False])))"
          unfolding abort_noted aborted_def using cs(1) by (intro exI [of _ cs] exI [of _ "[OWrite buf False]"]) simp
        ultimately show ?thesis by simp
      next
        case ok: True
        define full where "full = (64 * 1024 \<le> up_since s2 + length buf)"
        let ?wl = "(w1, snd (up_world s) @ [OWritten buf])"
        let ?s3 = "s2\<lparr>up_rest := drop (length buf) (up_rest s2), up_remaining := up_remaining s2 - length buf,
            up_written := up_written s2 + length buf, up_since := (if full then 0 else up_since s2 + length buf),
            up_world := (if full then yield_tick (noted A) ?wl else ?wl)\<rparr>"
        have r: "r = None" and s1: "s1 = ?s3"
          using run [unfolded ok] nonempty unfolding full_def by auto
        have log: "snd (up_world ?s3) = start @ map OWritten (cs @ [buf])"
          using cs(1) by (simp add: yield_noted)
        have rest: "concat (cs @ [buf]) @ up_rest ?s3 = body" using cs(2) s2 buf(3) by simp
        have nb: "buf \<noteq> []" using nonempty by (metis list.size(3))
        have "up_inv A body len start ?s3"
          unfolding up_inv_def
        proof (intro exI [of _ "cs @ [buf]"] conjI)
          show "\<forall>c\<in>set (cs @ [buf]). c \<noteq> [] \<and> length c \<le> OTA_BUF" using cs(3) nb buf(1) by auto
          show "length (concat (cs @ [buf])) + up_remaining ?s3 = len"
            "up_written ?s3 = length (concat (cs @ [buf]))" using cs(4,5) s2 buf(2) by simp_all
          show "up_hdr ?s3 = take HDR_LEN (concat (cs @ [buf]))" using s2 by simp
          show "if up_valid ?s3 then HDR_LEN \<le> length (concat (cs @ [buf])) \<and> own_image A (concat (cs @ [buf]))
              else length (concat (cs @ [buf])) < HDR_LEN" using s2 by (auto split: if_splits)
        qed (rule log, rule rest)
        then show ?thesis by (simp add: r s1)
      qed
    qed
  qed
qed

lemma loop_inv:
  assumes "up_inv A body len start s" and "ota_loop (noted A) evs s = (r, s1)"
  shows "case r of None \<Rightarrow> up_inv A body len start s1 \<and> up_remaining s1 = 0
    | Some x \<Rightarrow> x = OtaInterrupted \<and> up_inv A body len start s1 \<or>
        (\<exists>code. x = OtaRejected code) \<and> aborted start (snd (up_world s1))"
  using assms
proof (induction evs arbitrary: s)
  case Nil
  then show ?case by (auto split: if_splits)
next
  case (Cons ev evs)
  show ?case
  proof (cases "up_remaining s = 0")
    case True
    then show ?thesis using Cons.prems by auto
  next
    case False
    show ?thesis
    proof (cases ev)
      case (Got n)
      obtain x s2 where c: "ota_chunk (noted A) n s = (x, s2)" by (metis surj_pair)
      from chunk_inv [OF Cons.prems(1) _ c] False Cons.IH [of s2] Cons.prems(2) c Got
      show ?thesis by (cases x) auto
    next
      case RecvTimeout
      then show ?thesis using Cons.IH [OF Cons.prems(1)] Cons.prems(2) False by simp
    next
      case RecvErr
      have "aborted start (snd (slot_abort (noted A) (up_world s)))"
        using Cons.prems(1) by (cases "up_world s") (auto simp: up_inv_def abort_noted aborted_def)
      then show ?thesis using Cons.prems(2) RecvErr False by auto
    qed
  qed
qed

text \<open>
  What an upload does to the slot.  It is refused for its length or because the slot does not open; it is reset, or given
  up by an abort, after some successful writes and at most one that failed; or all of it was written and the slot was
  closed, and only a slot that closed without an error is made the boot partition.
\<close>

definition upload_shape :: "'w slot_api \<Rightarrow> u8 list \<Rightarrow> nat \<Rightarrow> upload_res \<Rightarrow> slot_op list \<Rightarrow> bool" where
  "upload_shape A body len res log \<longleftrightarrow>
     (log \<in> {[], [OBegin len False]} \<and> (\<exists>code. res = OtaRejected code)) \<or>
     (\<exists>cs tail. log = OBegin len True # map OWritten cs @ tail \<and>
        (tail = [] \<and> res = OtaInterrupted \<or>
         (\<exists>c code. tail \<in> {[OAbort], [OWrite c False, OAbort], [OEnd False], [OEnd True, OSetBoot False]} \<and>
            res = OtaRejected code) \<or>
         (\<exists>j. tail = [OEnd True, OSetBoot True, OReboot] \<and> res = OtaOk j)) \<and>
        (tail \<noteq> [] \<and> OAbort \<notin> set tail \<longrightarrow> concat cs = take len body \<and> length (concat cs) = len \<and> own_image A body \<and>
           256 * 1024 \<le> len \<and> len + 0x1000 \<le> slot_size A \<and> (\<forall>c\<in>set cs. length c \<le> OTA_BUF)))"

lemma stopped_shape:
  assumes "x = OtaInterrupted \<and> up_inv A body len [OBegin len True] s \<or>
      (\<exists>code. x = OtaRejected code) \<and> aborted [OBegin len True] (snd (up_world s))"
  shows "upload_shape A body len x (snd (up_world s))"
  using assms
proof (elim disjE conjE exE)
  assume x: "x = OtaInterrupted" and "up_inv A body len [OBegin len True] s"
  then obtain cs where "snd (up_world s) = OBegin len True # map OWritten cs @ []" by (auto simp: up_inv_def)
  then show ?thesis using x unfolding upload_shape_def by blast
next
  fix code
  assume x: "x = OtaRejected code" and "aborted [OBegin len True] (snd (up_world s))"
  then obtain cs t where "snd (up_world s) = OBegin len True # map OWritten cs @ t @ [OAbort]"
    "t = [] \<or> (\<exists>c. t = [OWrite c False])" by (auto simp: aborted_def)
  then show ?thesis using x unfolding upload_shape_def by (intro disjI2 exI [of _ cs] exI [of _ "t @ [OAbort]"]) auto
qed

lemma commit_shape:
  assumes inv: "up_inv A body len [OBegin len True] s" and rem: "up_remaining s = 0"
    and range: "256 * 1024 \<le> len" "len + 0x1000 \<le> slot_size A"
    and c: "ota_commit (noted A) s = (res, (w', log))"
  shows "upload_shape A body len res log"
proof -
  obtain cs where cs: "snd (up_world s) = OBegin len True # map OWritten cs" "concat cs @ up_rest s = body"
    "\<forall>c\<in>set cs. length c \<le> OTA_BUF" "length (concat cs) = len"
    "if up_valid s then HDR_LEN \<le> length (concat cs) \<and> own_image A (concat cs) else length (concat cs) < HDR_LEN"
    using inv rem by (auto simp: up_inv_def)
  have valid: "up_valid s" using cs(4,5) range by (auto simp: HDR_LEN_def split: if_splits)
  then have good: "concat cs = take len body \<and> length (concat cs) = len \<and> own_image A body \<and>
      256 * 1024 \<le> len \<and> len + 0x1000 \<le> slot_size A \<and> (\<forall>c\<in>set cs. length c \<le> OTA_BUF)"
    using cs own_image_append [of "concat cs" A "up_rest s"] range by auto
  obtain w2 where up: "up_world s = (w2, OBegin len True # map OWritten cs)" using cs(1) by (cases "up_world s") auto
  obtain e1 w3 where e1: "slot_end A w2 = (e1, w3)" by (metis surj_pair)
  obtain e2 w4 where e2: "slot_set_boot A w3 = (e2, w4)" by (metis surj_pair)
  define tail where "tail = (if e1 \<noteq> ESP_OK then [OEnd False] else if e2 \<noteq> ESP_OK then [OEnd True, OSetBoot False]
      else [OEnd True, OSetBoot True, OReboot])"
  have log: "log = OBegin len True # map OWritten cs @ tail"
    using c valid by (auto simp: ota_commit_def up noted_def note_op_def e1 e2 tail_def)
  have "tail \<in> {[OEnd False], [OEnd True, OSetBoot False]} \<and> (\<exists>code. res = OtaRejected code) \<or>
      tail = [OEnd True, OSetBoot True, OReboot] \<and> (\<exists>j. res = OtaOk j)"
    using c valid by (auto simp: ota_commit_def up noted_def note_op_def e1 e2 tail_def)
  then show ?thesis unfolding upload_shape_def using log good by blast
qed

subsection \<open>A slot on which everything works\<close>

definition slot_works :: "'w slot_api \<Rightarrow> bool" where
  "slot_works A \<longleftrightarrow> (\<forall>n w. fst (slot_begin A n w) = ESP_OK) \<and> (\<forall>d w. fst (slot_write A d w) = ESP_OK) \<and>
     (\<forall>w. fst (slot_end A w) = ESP_OK) \<and> (\<forall>w. fst (slot_set_boot A w) = ESP_OK)"

lemma noted_works: "slot_works A \<Longrightarrow> slot_works (noted A)"
  by (simp add: slot_works_def noted_def note_op_def)

lemma own_hdr_ok: "own_image A img \<Longrightarrow> \<exists>v. ota_hdr_check A (take HDR_LEN img) = Inr v"
  by (simp add: own_image_def ota_hdr_check_def Let_def)

lemma chunk_progress:
  assumes inv: "up_inv A body len start s" and works: "slot_works A" and own: "own_image A body" "len \<le> length body"
    and n: "0 < n" and rem: "0 < up_remaining s"
  shows "\<exists>s1. ota_chunk (noted A) n s = (None, s1) \<and> up_inv A body len start s1 \<and> up_remaining s1 < up_remaining s"
proof -
  obtain cs where cs: "concat cs @ up_rest s = body" "length (concat cs) + up_remaining s = len"
    "up_hdr s = take HDR_LEN (concat cs)" "if up_valid s then HDR_LEN \<le> length (concat cs) else length (concat cs) < HDR_LEN"
    using inv unfolding up_inv_def by (metis (full_types))
  define buf where "buf = take (min n (min OTA_BUF (up_remaining s))) (up_rest s)"
  have "length (up_rest s) \<ge> up_remaining s" using cs(1,2) own(2) by (metis add_le_cancel_left length_append)
  then have r: "length buf \<noteq> 0" "length buf \<le> up_remaining s" using n rem by (auto simp: buf_def OTA_BUF_def)
  have "\<exists>s2. ota_hdr_step (noted A) buf s = Inr s2"
  proof (cases "up_valid s")
    case False
    then have h: "up_hdr s @ take (HDR_LEN - length (up_hdr s)) buf = take HDR_LEN (concat cs @ buf)" using cs(3,4) by simp
    have "take HDR_LEN (concat cs @ buf) = take HDR_LEN body" if "length (take HDR_LEN (concat cs @ buf)) = HDR_LEN"
    proof -
      have "buf @ drop (length buf) (up_rest s) = up_rest s" unfolding buf_def by (rule take_length_drop)
      then have "body = (concat cs @ buf) @ drop (length buf) (up_rest s)" using cs(1) by simp
      then have "take HDR_LEN body = take HDR_LEN (concat cs @ buf) @ take (HDR_LEN - length (concat cs @ buf)) (drop (length buf) (up_rest s))"
        by (simp only: take_append)
      moreover have "HDR_LEN \<le> length (concat cs @ buf)" using that by (simp only: length_take min_def split: if_splits)
      ultimately show ?thesis by (simp only: diff_is_0_eq' take0 append_Nil2)
    qed
    then show ?thesis
      using False own_hdr_ok [OF own(1)] unfolding ota_hdr_step_def h Let_def by (auto simp: )
  qed (simp add: ota_hdr_step_def)
  then obtain s2 where s2: "ota_hdr_step (noted A) buf s = Inr s2" by blast
  have u: "up_remaining s2 = up_remaining s" using s2 by (auto simp: ota_hdr_step_def Let_def split: if_splits sum.splits)
  obtain w1 where w: "slot_write (noted A) buf (up_world s2) = (ESP_OK, w1)"
    using noted_works [OF works] by (metis slot_works_def prod.collapse)
  obtain r1 s1 where c: "ota_chunk (noted A) n s = (r1, s1)" by (metis surj_pair)
  have "r1 = None" "up_remaining s1 = up_remaining s - length buf"
    using c [unfolded ota_chunk_def Let_def, folded buf_def] r(1) s2 w u by (auto simp del: length_0_conv)
  then show ?thesis using chunk_inv [OF inv rem c] c r rem by auto
qed

lemma loop_accepts:
  assumes "slot_works A" "own_image A body" "len \<le> length body"
  shows "up_inv A body len start s \<Longrightarrow> delivers evs \<Longrightarrow> up_remaining s \<le> gots evs \<Longrightarrow>
    \<exists>s1. ota_loop (noted A) evs s = (None, s1)"
proof (induction evs arbitrary: s)
  case (Cons ev evs)
  show ?case
  proof (cases "up_remaining s = 0")
    case rem: False
    show ?thesis
    proof (cases ev)
      case (Got n)
      then have "0 < n" using Cons.prems(2) by (auto simp: delivers_def)
      then obtain s1 where "ota_chunk (noted A) n s = (None, s1)" "up_inv A body len start s1" "up_remaining s1 < up_remaining s"
        using chunk_progress [OF Cons.prems(1) assms, of n] rem by auto
      then show ?thesis using Cons.IH [of s1] Cons.prems(2,3) Got rem by (auto simp: delivers_def gots_def)
    qed (use Cons rem in \<open>auto simp: delivers_def gots_def\<close>)
  qed simp
qed (simp add: gots_def)

lemma commit_accepts:
  assumes "slot_works A" "up_inv A body len start s" "up_remaining s = 0" "HDR_LEN \<le> len"
  shows "\<exists>j. fst (ota_commit (noted A) s) = OtaOk j"
proof -
  have "up_valid s" using assms(2,3,4) by (auto simp: up_inv_def split: if_splits)
  moreover obtain w1 where "slot_end (noted A) (up_world s) = (ESP_OK, w1)"
    using noted_works [OF assms(1)] by (metis slot_works_def prod.collapse)
  moreover obtain w2 where "slot_set_boot (noted A) w1 = (ESP_OK, w2)"
    using noted_works [OF assms(1)] by (metis slot_works_def prod.collapse)
  ultimately show ?thesis by (simp add: ota_commit_def)
qed

text \<open>C7: The boot partition is switched only after the announced number of bytes, the whole of an image that has
  the magic and the project of this firmware and fits the slot, was written in order, every write succeeded and the slot
  was closed without an error, and the upload is answered with success exactly when the switch succeeded too; any other
  outcome (a refusal, a lost connection, a failed write, a failed close) never switches it.  On a slot that works such an
  image is accepted, however the socket delivers it.\<close>
theorem ota_upload_commits:
  assumes "h_ota_body (Some (noted A)) evs body len (w, []) = (res, (w', log))"
  shows "upload_shape A body len res log \<and>
    (slot_works A \<and> own_image A body \<and> len \<le> length body \<and> 256 * 1024 \<le> len \<and> len + 0x1000 \<le> slot_size A \<and>
       delivers evs \<and> len \<le> gots evs \<longrightarrow> (\<exists>j. res = OtaOk j))"
proof (cases "len < 256 * 1024 \<or> int len > int (slot_size A) - 0x1000")
  case True
  then show ?thesis using assms by (auto simp: h_ota_body_def noted_def upload_shape_def)
next
  case range: False
  obtain e w1 where b: "slot_begin A len w = (e, w1)" by (metis surj_pair)
  have bn: "slot_begin (noted A) len (w, []) = (e, (w1, [OBegin len (e = ESP_OK)]))" by (simp add: noted_def note_op_def b)
  have size: "slot_size (noted A) = slot_size A" by (simp add: noted_def)
  let ?s0 = "\<lparr>up_rest = body, up_remaining = len, up_written = 0, up_hdr = [], up_valid = False, up_version = [],
      up_since = 0, up_world = (w1, [OBegin len True])\<rparr>"
  note run = assms [unfolded h_ota_body_def option.case size bn prod.case]
  show ?thesis
  proof (cases "e = ESP_OK")
    case False
    then have "log = [OBegin len False]" "\<exists>code. res = OtaRejected code" using run range by auto
    moreover have "\<not> slot_works A" using False b by (metis slot_works_def fst_conv)
    ultimately show ?thesis by (simp add: upload_shape_def)
  next
    case True
    obtain r s where l: "ota_loop (noted A) evs ?s0 = (r, s)" by (metis surj_pair)
    have i0: "up_inv A body len [OBegin len True] ?s0"
      unfolding up_inv_def by (intro exI [of _ "[]"]) (simp add: HDR_LEN_def)
    note inv = loop_inv [OF i0 l]
    show ?thesis
    proof (cases r)
      case (Some x)
      then have "res = x" "log = snd (up_world s)" using run range True l by auto
      moreover have "\<not> (slot_works A \<and> own_image A body \<and> len \<le> length body \<and> delivers evs \<and> len \<le> gots evs)"
        using loop_accepts [OF _ _ _ i0, of evs] l Some by auto
      ultimately show ?thesis using inv Some stopped_shape [of x A body len s] by auto
    next
      case None
      then have c: "ota_commit (noted A) s = (res, (w', log))" using run range True l by simp
      then have "upload_shape A body len res log" using inv None range by (intro commit_shape) auto
      moreover have "\<exists>j. res = OtaOk j" if "slot_works A"
        using commit_accepts [OF that, of body len "[OBegin len True]" s] inv None range c by (simp add: HDR_LEN_def)
      ultimately show ?thesis by blast
    qed
  qed
qed

text \<open>A slot that takes everything; any header is fine.\<close>

definition open_slot :: "unit slot_api" where
  "open_slot =
     \<lparr>slot_size = 0x300000, slot_begin = (\<lambda>n w. (ESP_OK, w)), slot_write = (\<lambda>d w. (ESP_OK, w)),
      slot_end = (\<lambda>w. (ESP_OK, w)), slot_abort = id, slot_set_boot = (\<lambda>w. (ESP_OK, w)), yield_tick = id,
      spawn_reboot = id, app_magic_ok = (\<lambda>d. True), app_version = id, app_project = (\<lambda>d. []),
      running_version = [], running_project = []\<rparr>"

lemma ota_upload_commits_witness:
  "\<exists>log cs j. h_ota_body (Some (noted open_slot)) (RecvTimeout # replicate 262144 (Got 1000)) (replicate 262144 0) 262144 ((), []) =
     (OtaOk j, ((), log)) \<and> log = OBegin 262144 True # map OWritten cs @ [OEnd True, OSetBoot True, OReboot] \<and>
     concat cs = replicate 262144 0"
proof -
  let ?b = "replicate 262144 0 :: u8 list" and ?evs = "RecvTimeout # replicate 262144 (Got 1000)"
  obtain res u log where r: "h_ota_body (Some (noted open_slot)) ?evs ?b 262144 ((), []) = (res, (u, log))"
    by (metis surj_pair)
  have "slot_works open_slot \<and> own_image open_slot ?b" by (simp add: slot_works_def own_image_def open_slot_def)
  moreover have "delivers ?evs" "gots ?evs = 262144" by (auto simp: delivers_def gots_def)
  moreover have "262144 + 0x1000 \<le> slot_size open_slot" by (simp add: open_slot_def)
  ultimately obtain j where j: "res = OtaOk j" using ota_upload_commits [OF r] by auto
  then obtain cs where "log = OBegin 262144 True # map OWritten cs @ [OEnd True, OSetBoot True, OReboot]" "concat cs = take 262144 ?b"
    using ota_upload_commits [OF r] unfolding upload_shape_def by auto
  then show ?thesis using r j by auto
qed

end
