(* ===== verification/LogBuffer.thy ===== *)
theory LogBuffer
  imports Cdc_Prelude
begin

text \<open>
  \<^verbatim>\<open>log_buffer.c\<close>: the ring of the last log lines behind \<^verbatim>\<open>/api/log\<close>.  The static array, the next
  sequence number and the count of lines lost to contention are the record \<open>log_buf\<close>; \<open>N\<close> is
  \<^verbatim>\<open>LB_MAX_LINES\<close>, which the build configures.  The hook takes the text that \<^verbatim>\<open>vsnprintf\<close> renders,
  whether the mutex was free, and the two time stamps it reads; printing to the UART is left out.
  The abstract log is the list of all lines since boot.
\<close>

subsection \<open>The hook\<close>

definition LB_LINE_CAP :: nat where "LB_LINE_CAP = 200"

record log_line =
  ll_ts :: u32
  ll_msg :: string

record log_buf =
  lb_lines :: "log_line list"
  lb_head :: u32
  lb_dropped :: u32

definition ESC :: char where "ESC = CHR 0x1B"

definition skip_seq :: "string \<Rightarrow> string" where
  "skip_seq s = drop 1 (dropWhile (\<lambda>c. c \<noteq> CHR ''m'') s)"

lemma length_skip_seq: "length (skip_seq s) \<le> length s"
  by (metis diff_le_self length_drop length_dropWhile_le order.trans skip_seq_def)

function strip_ansi :: "string \<Rightarrow> string" where
  "strip_ansi [] = []"
| "strip_ansi (c # s) =
     (if c = ESC \<and> s \<noteq> [] \<and> hd s = CHR ''['' then strip_ansi (skip_seq (tl s)) else c # strip_ansi s)"
  by pat_completeness auto

termination
  by (relation "measure length") (auto simp: less_Suc_eq_le intro: order.trans [OF length_skip_seq])

definition crlf :: "char \<Rightarrow> bool" where
  "crlf c \<longleftrightarrow> c = CHR 0x0A \<or> c = CHR 0x0D"

text \<open>The text stored for one call; \<open>None\<close> if nothing is left of it.\<close>

definition log_text :: "string \<Rightarrow> string option" where
  "log_text rendered =
     (let t = rev (dropWhile crlf (rev (strip_ansi (fmt_s LB_LINE_CAP rendered))))
      in if rendered = [] \<or> t = [] then None else Some (takeWhile (\<lambda>c. c \<noteq> CHR 0x0A) t))"

definition log_push :: "nat \<Rightarrow> log_line \<Rightarrow> log_buf \<Rightarrow> log_buf" where
  "log_push N l b = b\<lparr>lb_lines := (lb_lines b)[unat (lb_head b) mod N := l], lb_head := lb_head b + 1\<rparr>"

definition drop_msg :: "u32 \<Rightarrow> string" where
  "drop_msg n = ''<'' @ dec (unat n) @ '' log lines dropped (mutex contention)>''"

definition log_hook :: "nat \<Rightarrow> string \<Rightarrow> bool \<Rightarrow> u32 \<Rightarrow> u32 \<Rightarrow> log_buf \<Rightarrow> log_buf" where
  "log_hook N rendered got_mutex t1 t2 b =
     (case log_text rendered of
        None \<Rightarrow> b
      | Some m \<Rightarrow>
          if got_mutex
          then log_push N \<lparr>ll_ts = t2, ll_msg = m\<rparr>
                 (if lb_dropped b \<noteq> 0
                  then log_push N \<lparr>ll_ts = t1, ll_msg = fmt_s LB_LINE_CAP (drop_msg (lb_dropped b))\<rparr>
                         (b\<lparr>lb_dropped := 0\<rparr>)
                  else b)
          else b\<lparr>lb_dropped := lb_dropped b + 1\<rparr>)"

subsection \<open>Reading\<close>

definition json_hex4 :: "nat \<Rightarrow> string" where
  "json_hex4 n = map (\<lambda>k. ''0123456789abcdef'' ! (n div 16 ^ k mod 16)) [3, 2, 1, 0]"

definition esc_char :: "char \<Rightarrow> string" where
  "esc_char c =
     (if c = CHR 0x22 \<or> c = CHR 0x5C then [CHR 0x5C, c]
      else if (of_char c :: nat) < 0x20 then CHR 0x5C # CHR ''u'' # json_hex4 (of_char c)
      else [c])"

text \<open>
  The text put out so far is a list; its length is \<^verbatim>\<open>pos\<close>.  A \<^verbatim>\<open>snprintf\<close> that does not fit still
  advances \<^verbatim>\<open>pos\<close> and leaves a terminator in the last byte, so the caller sees the first \<open>cap - 1\<close> characters.
\<close>

fun put_chars :: "nat \<Rightarrow> string \<Rightarrow> string \<Rightarrow> string" where
  "put_chars cap [] out = out"
| "put_chars cap (c # cs) out =
     (if length out + 7 < cap then put_chars cap cs (out @ esc_char c) else out)"

definition entry_head :: "nat \<Rightarrow> log_line \<Rightarrow> string" where
  "entry_head s l =
     ''{'' @ [CHR 0x22] @ ''seq'' @ [CHR 0x22] @ '':'' @ dec s @ '','' @ [CHR 0x22] @ ''ts'' @ [CHR 0x22] @ '':'' @
     dec (unat (ll_ts l)) @ '','' @ [CHR 0x22] @ ''msg'' @ [CHR 0x22] @ '':'' @ [CHR 0x22]"

definition need :: "log_line \<Rightarrow> nat" where
  "need l = 32 + length (ll_msg l) * 2 + 4"

fun put_lines :: "nat \<Rightarrow> (nat \<times> log_line) list \<Rightarrow> nat \<Rightarrow> string \<Rightarrow> nat \<times> string" where
  "put_lines cap [] count out = (count, out)"
| "put_lines cap ((s, l) # ls) count out =
     (if length out + need l \<ge> cap then (count, out)
      else
        let o1 = put_chars cap (ll_msg l) (out @ (if count = 0 then [] else '','') @ entry_head s l)
        in if length o1 + 2 \<ge> cap then (count, o1)
           else put_lines cap ls (count + 1) (o1 @ [CHR 0x22, CHR ''}'']))"

text \<open>Count, text, next and oldest sequence number.\<close>

definition oldest :: "nat \<Rightarrow> log_buf \<Rightarrow> nat" where
  "oldest N b = (if unat (lb_head b) > N then unat (lb_head b) - N else 0)"

definition log_buffer_get_since :: "nat \<Rightarrow> u32 \<Rightarrow> nat \<Rightarrow> log_buf \<Rightarrow> nat \<times> string \<times> nat \<times> nat" where
  "log_buffer_get_since N since cap b =
     (if cap = 0 then (0, [], 0, 0)
      else
        let h = unat (lb_head b); first = max (unat since) (oldest N b)
        in case put_lines cap (map (\<lambda>s. (s, lb_lines b ! (s mod N))) [first..<h]) 0 [] of
             (count, out) \<Rightarrow> (count, take (cap - 1) out, h, oldest N b))"

definition log_init :: "nat \<Rightarrow> log_buf" where
  "log_init N = \<lparr>lb_lines = replicate N \<lparr>ll_ts = 0, ll_msg = []\<rparr>, lb_head = 0, lb_dropped = 0\<rparr>"

subsection \<open>The ring holds the tail of the log\<close>

text \<open>The abstract log: all lines since boot and the count of lines lost since the last one stored.\<close>

type_synonym alog = "log_line list \<times> nat"

definition represents :: "nat \<Rightarrow> log_buf \<Rightarrow> alog \<Rightarrow> bool" where
  "represents N b a \<longleftrightarrow>
     length (lb_lines b) = N \<and> unat (lb_head b) = length (fst a) \<and> unat (lb_dropped b) = snd a \<and>
     (\<forall>i<length (fst a). length (fst a) \<le> i + N \<longrightarrow> lb_lines b ! (i mod N) = fst a ! i)"

definition log_abs :: "string \<Rightarrow> bool \<Rightarrow> u32 \<Rightarrow> u32 \<Rightarrow> alog \<Rightarrow> alog" where
  "log_abs rendered got_mutex t1 t2 a =
     (case log_text rendered of
        None \<Rightarrow> a
      | Some m \<Rightarrow>
          if got_mutex
          then (fst a @ (if snd a \<noteq> 0 then [\<lparr>ll_ts = t1, ll_msg = fmt_s LB_LINE_CAP (drop_msg (of_nat (snd a)))\<rparr>] else []) @
                [\<lparr>ll_ts = t2, ll_msg = m\<rparr>], 0)
          else (fst a, snd a + 1))"

lemma represents_push:
  assumes r: "represents N b a" and N: "0 < N" and sz: "length (fst a) + 1 < 2 ^ 32"
  shows "represents N (log_push N l b) (fst a @ [l], snd a)"
proof -
  let ?n = "length (fst a)"
  have h: "unat (lb_head b) = ?n" and len: "length (lb_lines b) = N" using r by (simp_all add: represents_def)
  have h1: "unat (lb_head b + 1) = ?n + 1" using h sz by (simp add: unat_word_ariths)
  have "lb_lines (log_push N l b) ! (i mod N) = (fst a @ [l]) ! i" if "i < ?n + 1" "?n + 1 \<le> i + N" for i
  proof (cases "i = ?n")
    case True
    then show ?thesis using N len by (simp add: log_push_def h)
  next
    case False
    then have i: "i < ?n" "?n \<le> i + N" using that by auto
    have "i mod N \<noteq> ?n mod N"
    proof
      assume "i mod N = ?n mod N"
      then have "N dvd ?n - i" using i by (metis mod_eq_dvd_iff_nat less_imp_le)
      then show False using i that False by (auto dest: dvd_imp_le)
    qed
    then show ?thesis using i r by (simp add: log_push_def h nth_append represents_def)
  qed
  then show ?thesis using r h1 by (simp add: represents_def log_push_def)
qed

lemma represents_dropped: "represents N b a \<Longrightarrow> represents N (b\<lparr>lb_dropped := 0\<rparr>) (fst a, 0)"
  by (simp add: represents_def)

lemma represents_hook:
  assumes r: "represents N b a" and N: "0 < N" and sz: "length (fst a) + 2 < 2 ^ 32" "snd a + 1 < 2 ^ 32"
  shows "represents N (log_hook N m g t1 t2 b) (log_abs m g t1 t2 a)"
proof (cases "log_text m")
  case None
  then show ?thesis using r by (simp add: log_hook_def log_abs_def)
next
  case (Some t)
  have d: "unat (lb_dropped b) = snd a" using r by (simp add: represents_def)
  then have dn: "lb_dropped b = of_nat (snd a)" by (simp flip: d)
  have z: "lb_dropped b = 0 \<longleftrightarrow> snd a = 0" by (simp flip: d add: unat_0_iff)
  show ?thesis
  proof (cases g)
    case False
    have "unat (lb_dropped b + 1) = snd a + 1" using d sz by (simp add: unat_word_ariths)
    then show ?thesis using r Some False by (simp add: log_hook_def log_abs_def represents_def)
  next
    case True
    show ?thesis
    proof (cases "snd a = 0")
      case zero: True
      then show ?thesis using represents_push [OF r N, of "\<lparr>ll_ts = t2, ll_msg = t\<rparr>"] Some True z sz
        by (simp add: log_hook_def log_abs_def)
    next
      case False
      let ?mk = "\<lparr>ll_ts = t1, ll_msg = fmt_s LB_LINE_CAP (drop_msg (lb_dropped b))\<rparr>"
      have 1: "represents N (log_push N ?mk (b\<lparr>lb_dropped := 0\<rparr>)) (fst a @ [?mk], 0)"
        using represents_push [OF represents_dropped [OF r] N, of ?mk] sz by simp
      from represents_push [OF 1 N, of "\<lparr>ll_ts = t2, ll_msg = t\<rparr>"] sz
      show ?thesis using Some True False z by (simp add: log_hook_def log_abs_def dn)
    qed
  qed
qed

text \<open>A run of the hook, on the ring and on the abstract log.\<close>

definition hook_run :: "nat \<Rightarrow> (string \<times> bool \<times> u32 \<times> u32) list \<Rightarrow> log_buf \<Rightarrow> log_buf" where
  "hook_run N calls b = fold (\<lambda>(m, g, t1, t2). log_hook N m g t1 t2) calls b"

definition abs_run :: "(string \<times> bool \<times> u32 \<times> u32) list \<Rightarrow> alog \<Rightarrow> alog" where
  "abs_run calls a = fold (\<lambda>(m, g, t1, t2). log_abs m g t1 t2) calls a"

lemma log_abs_size:
  "length (fst (log_abs m g t1 t2 a)) \<le> length (fst a) + 2 \<and> snd (log_abs m g t1 t2 a) \<le> snd a + 1"
  by (simp add: log_abs_def split: option.split)

lemma represents_run:
  "represents N b a \<Longrightarrow> 0 < N \<Longrightarrow> length (fst a) + 2 * length calls < 2 ^ 32 \<Longrightarrow> snd a + length calls < 2 ^ 32 \<Longrightarrow>
    represents N (hook_run N calls b) (abs_run calls a)"
proof (induction calls arbitrary: b a)
  case Nil
  then show ?case by (simp add: hook_run_def abs_run_def)
next
  case (Cons c calls)
  obtain m g t1 t2 where c: "c = (m, g, t1, t2)" by (metis surj_pair)
  have 1: "represents N (log_hook N m g t1 t2 b) (log_abs m g t1 t2 a)"
    by (rule represents_hook [OF Cons.prems(1,2)]) (use Cons.prems(3,4) in simp_all)
  have "represents N (hook_run N calls (log_hook N m g t1 t2 b)) (abs_run calls (log_abs m g t1 t2 a))"
    by (rule Cons.IH [OF 1 Cons.prems(2)]) (use Cons.prems(3,4) log_abs_size [of m g t1 t2 a] in simp_all)
  then show ?case by (simp add: hook_run_def abs_run_def c)
qed

lemma represents_init: "represents N (log_init N) ([], 0)"
  by (simp add: represents_def log_init_def)

text \<open>C22: After any calls of the hook (fewer than 2^31), the ring holds the last N lines of the abstract log, numbered
  from the start, and the count of lines lost since; the lost lines show up as one line of their own.\<close>
theorem log_ring_refines:
  assumes "0 < N" and "length calls < 2 ^ 31"
  shows "represents N (hook_run N calls (log_init N)) (abs_run calls ([], 0))"
  by (rule represents_run [OF represents_init assms(1)]) (use assms(2) in simp_all)

lemma log_ring_refines_witness:
  "represents 2 (hook_run 2 [(''a'', True, 1, 1), (''b'', False, 2, 2), (''c'', True, 3, 4)] (log_init 2))
     (abs_run [(''a'', True, 1, 1), (''b'', False, 2, 2), (''c'', True, 3, 4)] ([], 0))"
  using log_ring_refines [of 2 "[(''a'', True, 1, 1), (''b'', False, 2, 2), (''c'', True, 3, 4)]"] by simp

subsection \<open>What a reader gets\<close>

definition escaped :: "string \<Rightarrow> string" where
  "escaped m = concat (map esc_char m)"

definition entry_json :: "nat \<Rightarrow> log_line \<Rightarrow> string" where
  "entry_json s l = entry_head s l @ escaped (ll_msg l) @ [CHR 0x22, CHR ''}'']"

text \<open>The entries with commas between them.\<close>

fun joined :: "string list \<Rightarrow> string" where
  "joined [] = []"
| "joined [x] = x"
| "joined (x # y # xs) = x @ '','' @ joined (y # xs)"

lemma joined_snoc: "joined (xs @ [x]) = joined xs @ (if xs = [] then [] else '','') @ x"
  by (induction xs rule: joined.induct) auto

text \<open>The estimate of the room an entry needs is not too small for it.\<close>

definition fits :: "nat \<times> log_line \<Rightarrow> bool" where
  "fits sl \<longleftrightarrow> (case sl of (s, l) \<Rightarrow>
     length (dec s) + length (dec (unat (ll_ts l))) + length (escaped (ll_msg l)) \<le> 2 * length (ll_msg l) + 8)"

lemma length_entry_head: "length (entry_head s l) = 21 + length (dec s) + length (dec (unat (ll_ts l)))"
  by (simp add: entry_head_def)

lemma esc_char_pos: "1 \<le> length (esc_char c)"
  by (simp add: esc_char_def)

lemma put_chars_all:
  "length out + length (escaped m) + 6 < cap \<Longrightarrow> put_chars cap m out = out @ escaped m"
proof (induction m arbitrary: out)
  case (Cons c m)
  then have "length out + 7 < cap" using esc_char_pos [of c] by (simp add: escaped_def)
  then show ?case using Cons by (simp add: escaped_def)
qed (simp add: escaped_def)

lemma put_lines_complete:
  "\<forall>sl\<in>set ls. fits sl \<Longrightarrow> length pre = count \<Longrightarrow> out = joined pre \<Longrightarrow>
    \<exists>k\<le>length ls. put_lines cap ls count out = (count + k, joined (pre @ map (\<lambda>(s, l). entry_json s l) (take k ls))) \<and>
      (k < length ls \<longrightarrow> cap \<le> length (joined (pre @ map (\<lambda>(s, l). entry_json s l) (take k ls))) + need (snd (ls ! k)))"
proof (induction ls arbitrary: pre count out)
  case (Cons sl ls)
  obtain s l where sl: "sl = (s, l)" by (cases sl)
  show ?case
  proof (cases "length out + need l \<ge> cap")
    case True
    then show ?thesis using Cons.prems by (intro exI [of _ 0]) (simp add: sl)
  next
    case False
    let ?o = "out @ (if count = 0 then [] else '','') @ entry_head s l"
    have f: "length (dec s) + length (dec (unat (ll_ts l))) + length (escaped (ll_msg l)) \<le> 2 * length (ll_msg l) + 8"
      using Cons.prems(1) by (simp add: sl fits_def)
    have room: "length ?o + length (escaped (ll_msg l)) + 6 < cap"
      using False f by (simp add: need_def length_entry_head)
    let ?o2 = "?o @ escaped (ll_msg l)"
    have emp: "count = 0 \<longleftrightarrow> pre = []" using Cons.prems(2) by auto
    have next_out: "?o2 @ [CHR 0x22, CHR ''}''] = joined (pre @ [entry_json s l])"
      using Cons.prems(3) emp by (simp add: joined_snoc entry_json_def)
    have run: "put_lines cap (sl # ls) count out = put_lines cap ls (count + 1) (?o2 @ [CHR 0x22, CHR ''}''])"
      using False room put_chars_all [OF room] by (simp add: sl Let_def)
    obtain k where k: "k \<le> length ls"
      "put_lines cap ls (count + 1) (?o2 @ [CHR 0x22, CHR ''}'']) =
         (count + 1 + k, joined ((pre @ [entry_json s l]) @ map (\<lambda>(s, l). entry_json s l) (take k ls)))"
      "k < length ls \<longrightarrow> cap \<le> length (joined ((pre @ [entry_json s l]) @ map (\<lambda>(s, l). entry_json s l) (take k ls))) +
         need (snd (ls ! k))"
      using Cons.IH [of "pre @ [entry_json s l]" "count + 1" "?o2 @ [CHR 0x22, CHR ''}'']"] Cons.prems(1,2) next_out
      by auto
    show ?thesis unfolding run using k by (intro exI [of _ "Suc k"]) (simp add: sl)
  qed
qed simp


text \<open>If the ring holds the tail of a log and the size estimate fits its entries, a reader gets the JSON text of the
  first lines from the requested or the oldest one on, complete and in order, with their number, and it
  gets all of them unless the buffer had no room for the next one.\<close>
theorem log_reader_complete:
  assumes "represents N b a" and "0 < cap" and "unat since \<le> length (fst a)"
    and "\<forall>s<length (fst a). fits (s, fst a ! s)"
  shows "\<exists>k. let first = max (unat since) (oldest N b); h = length (fst a);
      text = joined (map (\<lambda>s. entry_json s (fst a ! s)) [first..<first + k]) in
    first + k \<le> h \<and> log_buffer_get_since N since cap b = (k, take (cap - 1) text, h, h - N) \<and>
    (first + k < h \<longrightarrow> cap \<le> length text + need (fst a ! (first + k)))"
proof -
  let ?h = "length (fst a)" and ?f = "max (unat since) (oldest N b)"
  have h: "unat (lb_head b) = ?h" using assms(1) by (simp add: represents_def)
  then have old: "oldest N b = ?h - N" by (simp add: oldest_def)
  have line: "lb_lines b ! (s mod N) = fst a ! s" if "s \<in> set [?f..<?h]" for s
  proof -
    have "s < ?h" "?h \<le> s + N" using that by (auto simp: old)
    then show ?thesis using assms(1) by (simp add: represents_def)
  qed
  let ?ls = "map (\<lambda>s. (s, fst a ! s)) [?f..<?h]"
  have ls: "map (\<lambda>s. (s, lb_lines b ! (s mod N))) [?f..<?h] = ?ls" using line by simp
  have "\<forall>sl\<in>set ?ls. fits sl" using assms(4) by auto
  from put_lines_complete [OF this, of "[]" 0 "[]" cap] obtain k where k: "k \<le> length ?ls"
    "put_lines cap ?ls 0 [] = (k, joined (map (\<lambda>(s, l). entry_json s l) (take k ?ls)))"
    "k < length ?ls \<longrightarrow> cap \<le> length (joined (map (\<lambda>(s, l). entry_json s l) (take k ?ls))) + need (snd (?ls ! k))"
    by auto
  have fh: "?f \<le> ?h" using assms(3) old by simp
  have len: "length ?ls = ?h - ?f" by simp
  have kf: "?f + k \<le> ?h" using k(1) fh len by linarith
  have tk: "map (\<lambda>(s, l). entry_json s l) (take k ?ls) = map (\<lambda>s. entry_json s (fst a ! s)) [?f..<?f + k]"
    using kf by (simp add: take_map comp_def)
  have "put_lines cap (map (\<lambda>s. (s, lb_lines b ! (s mod N))) [?f..<?h]) 0 [] =
      (k, joined (map (\<lambda>s. entry_json s (fst a ! s)) [?f..<?f + k]))" unfolding ls k(2) tk ..
  then have run: "log_buffer_get_since N since cap b =
      (k, take (cap - 1) (joined (map (\<lambda>s. entry_json s (fst a ! s)) [?f..<?f + k])), ?h, ?h - N)"
    using assms(2) by (simp add: log_buffer_get_since_def Let_def h old)
  have more: "cap \<le> length (joined (map (\<lambda>s. entry_json s (fst a ! s)) [?f..<?f + k])) + need (fst a ! (?f + k))"
    if "?f + k < ?h"
    using k(3) that unfolding tk len by (simp add: less_diff_conv add.commute)
  show ?thesis unfolding Let_def using kf run more by blast
qed

lemma log_reader_complete_witness:
  "\<exists>k. fst (log_buffer_get_since 2 0 7000 (hook_run 2 [(''a'', True, 1, 1)] (log_init 2))) = k \<and> k \<le> 1"
proof -
  let ?b = "hook_run 2 [(''a'', True, 1, 1)] (log_init 2)"
  let ?a = "([\<lparr>ll_ts = 1, ll_msg = ''a''\<rparr>], 0) :: alog"
  have t: "log_text ''a'' = Some ''a''" by (simp add: log_text_def LB_LINE_CAP_def crlf_def ESC_def)
  have r: "represents 2 ?b ?a"
    using represents_run [OF represents_init, of 2 "[(''a'', True, 1, 1)]"] by (simp add: abs_run_def log_abs_def t)
  have "\<forall>s<length (fst ?a). fits (s, fst ?a ! s)"
    by (simp add: fits_def escaped_def esc_char_def dec_digit)
  from log_reader_complete [OF r, of 7000 0, OF _ _ this] show ?thesis by (auto simp: Let_def)
qed

end
