(* ===== verification/Config.thy ===== *)
theory Config
  imports Nvs
begin

text \<open>
  \<^verbatim>\<open>config.c\<close>: the configuration kept in the NVS namespace \<^verbatim>\<open>cdc2net\<close>, loaded over the defaults and
  saved key by key.  The store is the parameter \<open>N\<close> over a flash state \<open>'w\<close>.
\<close>

subsection \<open>Loading and saving\<close>

record cfg =
  tcp_port :: u16
  static_ip :: bool
  ip4 :: string
  mask4 :: string
  gw4 :: string
  dns4 :: string
  eth_static_ip :: bool
  eth_ip :: string
  eth_mask :: string
  eth_gw :: string
  eth_dns :: string
  wdt_enable :: bool
  wdt_timeout_s :: u32

definition CONFIG_TCP_PORT_DEFAULT :: u16 where "CONFIG_TCP_PORT_DEFAULT = 2329"

definition CONFIG_WDT_TIMEOUT_DEFAULT :: u32 where "CONFIG_WDT_TIMEOUT_DEFAULT = 300"

definition CFG_NS :: string where "CFG_NS = ''cdc2net''"

definition IP_CAP :: nat where "IP_CAP = 16"

definition config_default :: cfg where
  "config_default =
     \<lparr>tcp_port = CONFIG_TCP_PORT_DEFAULT, static_ip = False, ip4 = [], mask4 = [], gw4 = [], dns4 = [],
      eth_static_ip = False, eth_ip = [], eth_mask = [], eth_gw = [], eth_dns = [], wdt_enable = False,
      wdt_timeout_s = CONFIG_WDT_TIMEOUT_DEFAULT\<rparr>"

definition get_flag :: "'w nvs_api \<Rightarrow> string \<Rightarrow> 'w \<Rightarrow> bool \<Rightarrow> bool" where
  "get_flag N k w d = (case nvs_get_u8 N CFG_NS k w of Some v \<Rightarrow> v \<noteq> 0 | None \<Rightarrow> d)"

definition get_text :: "'w nvs_api \<Rightarrow> string \<Rightarrow> 'w \<Rightarrow> string" where
  "get_text N k w = (case nvs_get_str N CFG_NS k IP_CAP w of Some v \<Rightarrow> v | None \<Rightarrow> [])"

definition config_load :: "'w nvs_api \<Rightarrow> 'w \<Rightarrow> cfg" where
  "config_load N w =
     (if nvs_open N CFG_NS NVS_READONLY w \<noteq> ESP_OK then config_default
      else
        \<lparr>tcp_port = (case nvs_get_u16 N CFG_NS ''tcp_port'' w of
           Some v \<Rightarrow> if v \<noteq> 0 then v else CONFIG_TCP_PORT_DEFAULT | None \<Rightarrow> CONFIG_TCP_PORT_DEFAULT),
         static_ip = get_flag N ''static_ip'' w False,
         ip4 = get_text N ''ip'' w, mask4 = get_text N ''mask'' w, gw4 = get_text N ''gw'' w,
         dns4 = get_text N ''dns'' w, eth_static_ip = get_flag N ''eth_static'' w False,
         eth_ip = get_text N ''eth_ip'' w, eth_mask = get_text N ''eth_mask'' w,
         eth_gw = get_text N ''eth_gw'' w, eth_dns = get_text N ''eth_dns'' w,
         wdt_enable = get_flag N ''wdt_en'' w False,
         wdt_timeout_s = (case nvs_get_u32 N CFG_NS ''wdt_to'' w of
           Some v \<Rightarrow> if v \<noteq> 0 then v else CONFIG_WDT_TIMEOUT_DEFAULT | None \<Rightarrow> CONFIG_WDT_TIMEOUT_DEFAULT)\<rparr>)"

text \<open>One of the writes: a function of the flash, run if the former ones succeeded.\<close>

definition also_set :: "('w \<Rightarrow> esp_err \<times> 'w) \<Rightarrow> esp_err \<times> 'w \<Rightarrow> esp_err \<times> 'w" where
  "also_set f r = (if fst r = ESP_OK then f (snd r) else r)"

definition flag8 :: "bool \<Rightarrow> u8" where
  "flag8 b = (if b then 1 else 0)"

definition config_writes :: "'w nvs_api \<Rightarrow> cfg \<Rightarrow> ('w \<Rightarrow> esp_err \<times> 'w) list" where
  "config_writes N c =
     [nvs_set_u16 N CFG_NS ''tcp_port'' (tcp_port c), nvs_set_u8 N CFG_NS ''static_ip'' (flag8 (static_ip c)),
      nvs_set_str N CFG_NS ''ip'' (ip4 c), nvs_set_str N CFG_NS ''mask'' (mask4 c),
      nvs_set_str N CFG_NS ''gw'' (gw4 c), nvs_set_str N CFG_NS ''dns'' (dns4 c),
      nvs_set_u8 N CFG_NS ''eth_static'' (flag8 (eth_static_ip c)),
      nvs_set_str N CFG_NS ''eth_ip'' (eth_ip c), nvs_set_str N CFG_NS ''eth_mask'' (eth_mask c),
      nvs_set_str N CFG_NS ''eth_gw'' (eth_gw c), nvs_set_str N CFG_NS ''eth_dns'' (eth_dns c),
      nvs_set_u8 N CFG_NS ''wdt_en'' (flag8 (wdt_enable c)), nvs_set_u32 N CFG_NS ''wdt_to'' (wdt_timeout_s c),
      nvs_commit N CFG_NS]"

definition config_save :: "'w nvs_api \<Rightarrow> cfg \<Rightarrow> 'w \<Rightarrow> esp_err \<times> 'w" where
  "config_save N c w =
     (let err = nvs_open N CFG_NS NVS_READWRITE w
      in if err \<noteq> ESP_OK then (err, w) else fold also_set (config_writes N c) (ESP_OK, w))"

subsection \<open>Saving and loading again\<close>

text \<open>The configurations the program can hold: the texts fit their arrays.\<close>

definition cfg_ok :: "cfg \<Rightarrow> bool" where
  "cfg_ok c \<longleftrightarrow> list_all (\<lambda>s. length s < IP_CAP)
     [ip4 c, mask4 c, gw4 c, dns4 c, eth_ip c, eth_mask c, eth_gw c, eth_dns c]"

text \<open>What is loaded for one that was saved: zero stands for the default.\<close>

definition cfg_norm :: "cfg \<Rightarrow> cfg" where
  "cfg_norm c = c\<lparr>tcp_port := (if tcp_port c = 0 then CONFIG_TCP_PORT_DEFAULT else tcp_port c),
     wdt_timeout_s := (if wdt_timeout_s c = 0 then CONFIG_WDT_TIMEOUT_DEFAULT else wdt_timeout_s c)\<rparr>"

text \<open>What a write leaves behind: the view of its key, nothing elsewhere.\<close>

definition wrote :: "'w nvs_api \<Rightarrow> string \<Rightarrow> ('w \<Rightarrow> bool) \<Rightarrow> ('w \<Rightarrow> esp_err \<times> 'w) \<Rightarrow> bool" where
  "wrote N k P f \<longleftrightarrow>
     (\<forall>w w'. f w = (ESP_OK, w') \<longrightarrow> P w' \<and> nvs_open N CFG_NS NVS_READONLY w' = ESP_OK \<and>
        (\<forall>k'. k' \<noteq> k \<longrightarrow> nvs_view N w' CFG_NS k' = nvs_view N w CFG_NS k'))"

lemma nvs_set_wrote:
  assumes "nvs_laws N"
  shows "wrote N k (\<lambda>w. nvs_get_u8 N CFG_NS k w = Some v8) (nvs_set_u8 N CFG_NS k v8)"
    and "wrote N k (\<lambda>w. nvs_get_u16 N CFG_NS k w = Some v16) (nvs_set_u16 N CFG_NS k v16)"
    and "wrote N k (\<lambda>w. nvs_get_u32 N CFG_NS k w = Some v32) (nvs_set_u32 N CFG_NS k v32)"
    and "length s < IP_CAP \<Longrightarrow> wrote N k (\<lambda>w. nvs_get_str N CFG_NS k IP_CAP w = Some s) (nvs_set_str N CFG_NS k s)"
  using assms unfolding nvs_laws_def nvs_write_frame_def wrote_def by (metis fst_conv snd_conv prod.inject)+

text \<open>A fact about one key only.\<close>

definition about_key :: "'w nvs_api \<Rightarrow> string \<Rightarrow> ('w \<Rightarrow> bool) \<Rightarrow> bool" where
  "about_key N k P \<longleftrightarrow> (\<forall>w w'. nvs_view N w' CFG_NS k = nvs_view N w CFG_NS k \<longrightarrow> P w' = P w)"

lemma about_keys:
  "about_key N k (\<lambda>w. nvs_get_u8 N CFG_NS k w = x8)" "about_key N k (\<lambda>w. nvs_get_u16 N CFG_NS k w = x16)"
  "about_key N k (\<lambda>w. nvs_get_u32 N CFG_NS k w = x32)" "about_key N k (\<lambda>w. nvs_get_str N CFG_NS k cap w = xs)"
  by (auto simp: about_key_def nvs_view_def fun_eq_iff)

lemma fold_also_fail: "fst r \<noteq> ESP_OK \<Longrightarrow> fold also_set fs r = r"
  by (induction fs) (simp_all add: also_set_def)

lemma fold_also_ok: "fold also_set fs (e, w1) = (ESP_OK, w') \<Longrightarrow> e = ESP_OK"
  using fold_also_fail [of "(e, w1)" fs] by (cases "e = ESP_OK") simp_all

lemma also_set_ok: "also_set f (ESP_OK, w) = f w"
  by (simp add: also_set_def)

text \<open>A chain of writes to different keys leaves all their facts.\<close>

lemma writes_kept:
  assumes "fold also_set (map (\<lambda>(k, P, f). f) ws) (ESP_OK, w) = (ESP_OK, w')"
    and "\<forall>(k, P, f)\<in>set ws. wrote N k P f \<and> about_key N k P" and "k0 \<notin> fst ` set ws" and "about_key N k0 Q" and "Q w"
  shows "Q w'"
  using assms
proof (induction ws arbitrary: w)
  case (Cons x ws)
  obtain k P f where x: "x = (k, P, f)" by (metis surj_pair)
  obtain e w1 where f: "f w = (e, w1)" by (metis surj_pair)
  have e: "e = ESP_OK"
    using Cons.prems(1) by (auto simp: x also_set_ok f dest: fold_also_ok)
  have "wrote N k P f" using Cons.prems(2) by (auto simp: x)
  then have "nvs_view N w1 CFG_NS k0 = nvs_view N w CFG_NS k0"
    using f e Cons.prems(3) unfolding wrote_def x by (metis fst_conv image_eqI list.set_intros(1))
  then have "Q w1" using Cons.prems(4,5) unfolding about_key_def by blast
  then show ?case using Cons.IH [of w1] Cons.prems by (simp add: x also_set_ok f e)
qed simp

lemma writes_facts:
  assumes "fold also_set (map (\<lambda>(k, P, f). f) ws) (ESP_OK, w) = (ESP_OK, w')"
    and "\<forall>(k, P, f)\<in>set ws. wrote N k P f \<and> about_key N k P" and "distinct (map fst ws)"
  shows "\<forall>(k, P, f)\<in>set ws. P w'"
  using assms
proof (induction ws arbitrary: w)
  case (Cons x ws)
  obtain k P f where x: "x = (k, P, f)" by (metis surj_pair)
  obtain e w1 where f: "f w = (e, w1)" by (metis surj_pair)
  have e: "e = ESP_OK"
    using Cons.prems(1) by (auto simp: x also_set_ok f dest: fold_also_ok)
  have run: "fold also_set (map (\<lambda>(k, P, f). f) ws) (ESP_OK, w1) = (ESP_OK, w')"
    using Cons.prems(1) by (simp add: x also_set_ok f e)
  have ws: "\<forall>(k, P, f)\<in>set ws. wrote N k P f \<and> about_key N k P" using Cons.prems(2) by auto
  have "wrote N k P f \<and> about_key N k P" using Cons.prems(2) by (auto simp: x)
  then have "P w1" "about_key N k P" using f e by (auto simp: wrote_def)
  moreover have "k \<notin> fst ` set ws" using Cons.prems(3) by (simp add: x)
  ultimately have "P w'" using writes_kept [OF run ws] by blast
  then show ?case using Cons.IH [OF run ws] Cons.prems(3) by (auto simp: x)
qed simp

lemma writes_open:
  assumes "fold also_set (map (\<lambda>(k, P, f). f) ws) (ESP_OK, w) = (ESP_OK, w')" and "ws \<noteq> []"
    and "\<forall>(k, P, f)\<in>set ws. wrote N k P f"
  shows "nvs_open N CFG_NS NVS_READONLY w' = ESP_OK"
  using assms
proof (induction ws arbitrary: w)
  case (Cons x ws)
  obtain k P f where x: "x = (k, P, f)" by (metis surj_pair)
  obtain e w1 where f: "f w = (e, w1)" by (metis surj_pair)
  have e: "e = ESP_OK"
    using Cons.prems(1) by (auto simp: x also_set_ok f dest: fold_also_ok)
  have "nvs_open N CFG_NS NVS_READONLY w1 = ESP_OK" using Cons.prems(3) f e by (auto simp: x wrote_def)
  then show ?case using Cons by (cases "ws = []") (auto simp: x also_set_ok f e)
qed simp

text \<open>The keyed writes of \<open>config_save\<close>, each with the fact it leaves; the commit follows them.\<close>

definition cfg_facts :: "'w nvs_api \<Rightarrow> cfg \<Rightarrow> (string \<times> ('w \<Rightarrow> bool) \<times> ('w \<Rightarrow> esp_err \<times> 'w)) list" where
  "cfg_facts N c =
     (let s16 = (\<lambda>k v. (k, \<lambda>w. nvs_get_u16 N CFG_NS k w = Some v, nvs_set_u16 N CFG_NS k v));
          s8 = (\<lambda>k v. (k, \<lambda>w. nvs_get_u8 N CFG_NS k w = Some v, nvs_set_u8 N CFG_NS k v));
          s32 = (\<lambda>k v. (k, \<lambda>w. nvs_get_u32 N CFG_NS k w = Some v, nvs_set_u32 N CFG_NS k v));
          st = (\<lambda>k v. (k, \<lambda>w. nvs_get_str N CFG_NS k IP_CAP w = Some v, nvs_set_str N CFG_NS k v))
      in [s16 ''tcp_port'' (tcp_port c), s8 ''static_ip'' (flag8 (static_ip c)), st ''ip'' (ip4 c),
          st ''mask'' (mask4 c), st ''gw'' (gw4 c), st ''dns'' (dns4 c),
          s8 ''eth_static'' (flag8 (eth_static_ip c)), st ''eth_ip'' (eth_ip c),
          st ''eth_mask'' (eth_mask c), st ''eth_gw'' (eth_gw c), st ''eth_dns'' (eth_dns c),
          s8 ''wdt_en'' (flag8 (wdt_enable c)), s32 ''wdt_to'' (wdt_timeout_s c)])"

lemma cfg_facts_writes: "config_writes N c = map (\<lambda>(k, P, f). f) (cfg_facts N c) @ [nvs_commit N CFG_NS]"
  by (simp add: config_writes_def cfg_facts_def Let_def)

lemma cfg_facts_ok:
  assumes "nvs_laws N" and "cfg_ok c"
  shows "\<forall>(k, P, f)\<in>set (cfg_facts N c). wrote N k P f \<and> about_key N k P"
  using assms(2) nvs_set_wrote [OF assms(1)]
  by (simp add: cfg_facts_def Let_def about_keys cfg_ok_def)

lemma cfg_facts_keys: "distinct (map fst (cfg_facts N c))" "cfg_facts N c \<noteq> []"
  by (simp_all add: cfg_facts_def Let_def)

lemma flag8_read [simp]: "flag8 b \<noteq> 0 \<longleftrightarrow> b" "flag8 b = 0 \<longleftrightarrow> \<not> b"
  by (simp_all add: flag8_def)

lemma cfg_facts_load:
  assumes "\<forall>(k, P, f)\<in>set (cfg_facts N c). P w" and "nvs_open N CFG_NS NVS_READONLY w = ESP_OK"
  shows "config_load N w = cfg_norm c"
  using assms by (simp add: cfg_facts_def Let_def config_load_def cfg_norm_def get_flag_def get_text_def)

lemma cfg_facts_view:
  assumes "\<forall>(k, P, f)\<in>set (cfg_facts N c). P w" and "\<And>k. nvs_view N w' CFG_NS k = nvs_view N w CFG_NS k"
  shows "\<forall>(k, P, f)\<in>set (cfg_facts N c). P w'"
  using assms(1) about_keys assms(2) by (simp add: cfg_facts_def Let_def nvs_view_def fun_eq_iff)

lemma config_saved:
  assumes "nvs_laws N" and "cfg_ok c" and "config_save N c w = (ESP_OK, w')"
  shows "config_load N w' = cfg_norm c"
proof -
  let ?ws = "map (\<lambda>(k, P, f). f) (cfg_facts N c)"
  obtain e w1 where run: "fold also_set ?ws (ESP_OK, w) = (e, w1)" by (metis surj_pair)
  have last: "also_set (nvs_commit N CFG_NS) (e, w1) = (ESP_OK, w')"
    using assms(3) run by (simp add: config_save_def Let_def cfg_facts_writes split: if_splits)
  then have e: "e = ESP_OK" by (cases "e = ESP_OK") (simp_all add: also_set_def)
  have w': "w' = snd (nvs_commit N CFG_NS w1)" using last by (simp add: e also_set_def)
  note run = run [unfolded e] and ok = cfg_facts_ok [OF assms(1,2)]
  have wr: "\<forall>(k, P, f)\<in>set (cfg_facts N c). wrote N k P f" using ok by (auto simp: split_beta)
  have "\<forall>(k, P, f)\<in>set (cfg_facts N c). P w1" by (rule writes_facts [OF run ok cfg_facts_keys(1)])
  then have "\<forall>(k, P, f)\<in>set (cfg_facts N c). P w'"
    by (rule cfg_facts_view) (simp add: w' nvs_commitD [OF assms(1)])
  moreover have "nvs_open N CFG_NS NVS_READONLY w' = ESP_OK"
    using writes_open [OF run cfg_facts_keys(2) wr] by (simp add: w' nvs_commitD [OF assms(1)])
  ultimately show ?thesis by (rule cfg_facts_load)
qed

text \<open>A save that stopped: the store did not open, or the writes up to one that failed were made and no other.\<close>

definition save_stopped :: "'w nvs_api \<Rightarrow> cfg \<Rightarrow> 'w \<Rightarrow> esp_err \<Rightarrow> 'w \<Rightarrow> bool" where
  "save_stopped N c w e w' \<longleftrightarrow>
     nvs_open N CFG_NS NVS_READWRITE w = e \<and> w' = w \<or>
     (\<exists>done_ws f rest w1. config_writes N c = done_ws @ f # rest \<and> fold also_set done_ws (ESP_OK, w) = (ESP_OK, w1) \<and>
        f w1 = (e, w'))"

lemma fold_also_stop:
  "fold also_set fs (ESP_OK, w) = (e, w') \<Longrightarrow> e \<noteq> ESP_OK \<Longrightarrow>
    \<exists>as f bs w1. fs = as @ f # bs \<and> fold also_set as (ESP_OK, w) = (ESP_OK, w1) \<and> f w1 = (e, w')"
proof (induction fs arbitrary: w)
  case (Cons g fs)
  obtain e1 w1 where g: "g w = (e1, w1)" by (metis surj_pair)
  show ?case
  proof (cases "e1 = ESP_OK")
    case True
    then obtain as f bs w2 where "fs = as @ f # bs" "fold also_set as (ESP_OK, w1) = (ESP_OK, w2)" "f w2 = (e, w')"
      using Cons.IH [of w1] Cons.prems g by (auto simp: also_set_ok)
    then show ?thesis using g True by (intro exI [of _ "g # as"]) (auto simp: also_set_ok)
  next
    case False
    then have "(e1, w1) = (e, w')" using Cons.prems(1) g by (simp add: also_set_ok fold_also_fail)
    then show ?thesis using g by (intro exI [of _ "[]"] exI [of _ g] exI [of _ fs]) simp
  qed
qed simp

lemma save_stops: "config_save N c w = (e, w') \<Longrightarrow> e \<noteq> ESP_OK \<Longrightarrow> save_stopped N c w e w'"
  using fold_also_stop [of "config_writes N c" w e w']
  by (simp add: config_save_def save_stopped_def Let_def split: if_split_asm) blast

text \<open>
  C33: whatever configuration that fits its arrays is saved without an error is what the next boot loads, except
  that a zero port or timeout reads as the default; and a save that returns an error was stopped by the call that
  returned it, the opening of the store or one of the writes, with the writes before it made and none behind it.
\<close>

theorem config_roundtrip:
  assumes "nvs_laws N" and "cfg_ok c" and "config_save N c w = (e, w')"
  shows "if e = ESP_OK then config_load N w' = cfg_norm c else save_stopped N c w e w'"
proof (cases "e = ESP_OK")
  case True
  then show ?thesis using config_saved [OF assms(1,2)] assms(3) by simp
qed (use save_stops [OF assms(3)] in simp)

definition cfg_ex :: cfg where
  "cfg_ex = config_default\<lparr>tcp_port := 0, static_ip := True, ip4 := ''192.168.1.5'', wdt_timeout_s := 60\<rparr>"

theorem config_roundtrip_witness:
  "config_load nvs_ram (snd (config_save nvs_ram cfg_ex (\<lambda>_. None))) = cfg_ex\<lparr>tcp_port := 2329\<rparr>"
proof -
  have "fst (config_save nvs_ram cfg_ex (\<lambda>_. None)) = ESP_OK"
    by (simp add: config_save_def Let_def config_writes_def also_set_def nvs_ram_def)
  moreover have "cfg_ok cfg_ex" by (simp add: cfg_ex_def cfg_ok_def config_default_def IP_CAP_def)
  ultimately show ?thesis
    using config_roundtrip [OF nvs_ram_laws, of cfg_ex "\<lambda>_. None" ESP_OK "snd (config_save nvs_ram cfg_ex (\<lambda>_. None))"]
    by (simp add: prod_eq_iff cfg_norm_def cfg_ex_def CONFIG_TCP_PORT_DEFAULT_def)
qed

subsection \<open>What is loaded is well-formed\<close>

text \<open>\<^verbatim>\<open>nvs_get_str\<close> succeeds only if the text fits the buffer.\<close>

definition nvs_str_fit :: "'w nvs_api \<Rightarrow> bool" where
  "nvs_str_fit N \<longleftrightarrow> (\<forall>ns k cap w v. nvs_get_str N ns k cap w = Some v \<longrightarrow> length v < cap)"

lemma nvs_ram_fit: "nvs_str_fit nvs_ram"
  by (auto simp: nvs_str_fit_def nvs_ram_def split: option.splits nvs_val.splits if_splits)

lemma get_text_fits: "nvs_str_fit N \<Longrightarrow> length (get_text N k w) < IP_CAP"
  by (auto simp: get_text_def nvs_str_fit_def IP_CAP_def split: option.splits)

lemma config_load_ok: "nvs_str_fit N \<Longrightarrow> cfg_ok (config_load N w)"
  by (simp add: cfg_ok_def config_load_def config_default_def get_text_fits) (simp add: IP_CAP_def)

lemma config_load_nonzero: "tcp_port (config_load N w) \<noteq> 0 \<and> wdt_timeout_s (config_load N w) \<noteq> 0"
  by (simp add: config_load_def config_default_def CONFIG_TCP_PORT_DEFAULT_def CONFIG_WDT_TIMEOUT_DEFAULT_def
      split: option.split)

end
