(* ===== verification/Json.thy ===== *)
theory Json
  imports LogBuffer OtaCheck Radio
begin

text \<open>
  The text helpers of \<^verbatim>\<open>webui.c\<close>: escaping for a JSON string, extracting one field of a posted object,
  and reading a request body.  A C string is a \<open>string\<close> without its terminator, so the pointer \<^verbatim>\<open>p\<close>
  into the body is the rest of the text from there on.  The object grammar below serves as the
  reference for the extraction.
\<close>

subsection \<open>Escaping\<close>

text \<open>The loop of \<^verbatim>\<open>json_escape\<close> is that of the log reader: seven bytes must be free for one character.\<close>

definition json_escape :: "string option \<Rightarrow> nat \<Rightarrow> string" where
  "json_escape src cap =
     (if cap = 0 then [] else put_chars cap (case src of Some s \<Rightarrow> s | None \<Rightarrow> []) [])"

subsection \<open>Extracting a field\<close>

text \<open>\<^verbatim>\<open>strstr(s, needle) + strlen(needle)\<close>, and \<^verbatim>\<open>strchr(s, c) + 1\<close>.\<close>

fun after_str :: "string \<Rightarrow> string \<Rightarrow> string option" where
  "after_str needle [] = (if needle = [] then Some [] else None)"
| "after_str needle (c # s) =
     (if take (length needle) (c # s) = needle then Some (drop (length needle) (c # s))
      else after_str needle s)"

fun after_chr :: "char \<Rightarrow> string \<Rightarrow> string option" where
  "after_chr x [] = None"
| "after_chr x (c # s) = (if c = x then Some s else after_chr x s)"

definition blank :: "char \<Rightarrow> bool" where
  "blank c \<longleftrightarrow> c = CHR '' '' \<or> c = CHR 0x09"

definition raw_end :: "char \<Rightarrow> bool" where
  "raw_end c \<longleftrightarrow> c \<in> set [CHR '','', CHR ''}'', CHR '']'', CHR '' '', CHR 0x09, CHR 0x0A, CHR 0x0D]"

text \<open>The quoted value: whether it ended with its quote, and what was put into the buffer.\<close>

fun quoted_loop :: "nat \<Rightarrow> string \<Rightarrow> string \<Rightarrow> bool \<times> string" where
  "quoted_loop cap out [] = (False, out)"
| "quoted_loop cap out [c] =
     (if c = CHR 0x22 then (True, out)
      else if length out + 1 < cap then quoted_loop cap (out @ [c]) []
      else (False, out))"
| "quoted_loop cap out (c # d # p) =
     (if c = CHR 0x22 then (True, out)
      else if length out + 1 < cap
      then (if c = CHR 0x5C then quoted_loop cap (out @ [d]) p else quoted_loop cap (out @ [c]) (d # p))
      else (False, out))"

definition json_needle :: "string \<Rightarrow> string" where
  "json_needle key = fmt_s 40 (CHR 0x22 # key @ [CHR 0x22])"

text \<open>Where the value of a key starts, blanks skipped.\<close>

definition field_at :: "(char \<Rightarrow> bool) \<Rightarrow> string \<Rightarrow> string \<Rightarrow> string option" where
  "field_at skip text key =
     (case after_str (json_needle key) text of None \<Rightarrow> None
      | Some p \<Rightarrow> map_option (dropWhile skip) (after_chr (CHR '':'') p))"

text \<open>The result 0 is \<open>True\<close>; the buffer, where it is written, is \<open>Some\<close>.\<close>

definition json_field :: "string \<Rightarrow> string \<Rightarrow> nat \<Rightarrow> bool \<times> string option" where
  "json_field text key cap =
     (case field_at blank text key of
        None \<Rightarrow> (False, None)
      | Some p \<Rightarrow>
          (case p of
             c # q \<Rightarrow>
               if c = CHR 0x22 then apsnd Some (quoted_loop cap [] q)
               else (let out = take (cap - 1) (takeWhile (\<lambda>c. \<not> raw_end c) p) in (out \<noteq> [], Some out))
           | [] \<Rightarrow> (False, Some [])))"

definition is_true :: "string \<Rightarrow> bool" where
  "is_true v \<longleftrightarrow> take 4 v = ''true'' \<or> (v \<noteq> [] \<and> hd v = CHR ''1'')"

definition json_field_truthy :: "string \<Rightarrow> string \<Rightarrow> bool" where
  "json_field_truthy text key =
     (case field_at (\<lambda>c. blank c \<or> c = CHR 0x22) text key of None \<Rightarrow> False | Some p \<Rightarrow> is_true p)"

text \<open>\<^verbatim>\<open>atoi\<close> and \<^verbatim>\<open>atol\<close>, which clamp on the 32-bit target.\<close>

definition atoi :: "string \<Rightarrow> int" where
  "atoi v = (case scan_int v of Some (n, _) \<Rightarrow> n | None \<Rightarrow> 0)"

subsection \<open>The request body\<close>

text \<open>
  The events of the socket are a list; when it is used up, the body is at its end and a receive call
  returns 0.  The result is the buffer in front of its terminator.
\<close>

fun read_loop :: "nat \<Rightarrow> recv_ev list \<Rightarrow> u8 list \<Rightarrow> u8 list \<Rightarrow> u8 list" where
  "read_loop cap [] rest buf = buf"
| "read_loop cap (ev # evs) rest buf =
     (if length buf < cap - 1
      then (case ev of
        RecvTimeout \<Rightarrow> read_loop cap evs rest buf
      | RecvErr \<Rightarrow> buf
      | Got n \<Rightarrow>
          let d = take (min n (cap - 1 - length buf)) rest
          in if d = [] then buf else read_loop cap evs (drop (length d) rest) (buf @ d))
      else buf)"

definition read_body :: "nat \<Rightarrow> recv_ev list \<Rightarrow> u8 list \<Rightarrow> u8 list" where
  "read_body cap evs body = read_loop cap evs body []"

subsection \<open>The reference: members of an object\<close>

datatype jval = JText string | JRaw string

definition jval_text :: "jval \<Rightarrow> string" where
  "jval_text v = (case v of JText s \<Rightarrow> CHR 0x22 # escaped s @ [CHR 0x22] | JRaw r \<Rightarrow> r)"

definition jmember :: "string \<times> jval \<Rightarrow> string" where
  "jmember kv = CHR 0x22 # fst kv @ CHR 0x22 # CHR '':'' # jval_text (snd kv)"

definition jobject :: "(string \<times> jval) list \<Rightarrow> string" where
  "jobject kvs = ''{'' @ joined (map jmember kvs) @ ''}''"

definition plain_text :: "string \<Rightarrow> bool" where
  "plain_text s \<longleftrightarrow> CHR 0x22 \<notin> set s \<and> CHR 0x5C \<notin> set s \<and> list_all (\<lambda>c. 0x20 \<le> (of_char c :: nat)) s"

text \<open>Keys that the search finds where they are.\<close>

definition key_text :: "string \<Rightarrow> bool" where
  "key_text k \<longleftrightarrow> k \<noteq> [] \<and> length k < 38 \<and> CHR 0x22 \<notin> set k \<and> hd k \<notin> set [CHR '':'', CHR '','', CHR ''}'']"

text \<open>A member in front that the search for \<open>k\<close> passes.\<close>

definition quiet :: "string \<Rightarrow> string \<times> jval \<Rightarrow> bool" where
  "quiet k kv \<longleftrightarrow> CHR 0x22 \<notin> set (fst kv) \<and> fst kv \<noteq> k \<and>
     (case snd kv of JText s \<Rightarrow> plain_text s \<and> s \<noteq> k | JRaw r \<Rightarrow> CHR 0x22 \<notin> set r)"

lemma needle_key: "key_text k \<Longrightarrow> json_needle k = CHR 0x22 # k @ [CHR 0x22]"
  by (simp add: json_needle_def key_text_def)

lemma after_str_skip: "CHR 0x22 \<notin> set a \<Longrightarrow> after_str (CHR 0x22 # n) (a @ r) = after_str (CHR 0x22 # n) r"
  by (induction a) auto

lemma take_quoted:
  assumes "CHR 0x22 \<notin> set a" and "CHR 0x22 \<notin> set k"
  shows "take (Suc (length k)) (a @ CHR 0x22 # r) = k @ [CHR 0x22] \<longleftrightarrow> a = k"
  using assms
proof (induction k arbitrary: a)
  case Nil
  then show ?case by (cases a) auto
next
  case (Cons x k)
  then show ?case by (cases a) auto
qed

lemma after_str_hit: "after_str (CHR 0x22 # k @ [CHR 0x22]) (CHR 0x22 # k @ CHR 0x22 # r) = Some r"
  by simp

lemma after_str_close:
  assumes "key_text k" and "r = [] \<or> hd r \<in> set [CHR '':'', CHR '','', CHR ''}'']"
  shows "after_str (CHR 0x22 # k @ [CHR 0x22]) (CHR 0x22 # r) = after_str (CHR 0x22 # k @ [CHR 0x22]) r"
  using assms by (cases k; cases r) (auto simp: key_text_def)

lemma after_str_pass:
  assumes "key_text k" and "CHR 0x22 \<notin> set a" and "a \<noteq> k"
    and "r = [] \<or> hd r \<in> set [CHR '':'', CHR '','', CHR ''}'']"
  shows "after_str (CHR 0x22 # k @ [CHR 0x22]) (CHR 0x22 # a @ CHR 0x22 # r) =
    after_str (CHR 0x22 # k @ [CHR 0x22]) r"
proof -
  have "CHR 0x22 \<notin> set k" using assms(1) by (simp add: key_text_def)
  then have "take (Suc (length k)) (a @ CHR 0x22 # r) \<noteq> k @ [CHR 0x22]" using take_quoted assms(2,3) by blast
  then have "after_str (CHR 0x22 # k @ [CHR 0x22]) (CHR 0x22 # a @ CHR 0x22 # r) =
      after_str (CHR 0x22 # k @ [CHR 0x22]) (a @ CHR 0x22 # r)" by simp
  then show ?thesis by (simp only: after_str_skip [OF assms(2)] after_str_close [OF assms(1,4)])
qed

lemma escaped_plain: "plain_text s \<Longrightarrow> escaped s = s"
  by (induction s) (auto simp: escaped_def esc_char_def plain_text_def)

lemma after_str_member:
  assumes "key_text k" and "quiet k kv" and "r = [] \<or> hd r \<in> set [CHR '','', CHR ''}'']"
  shows "after_str (CHR 0x22 # k @ [CHR 0x22]) (jmember kv @ r) = after_str (CHR 0x22 # k @ [CHR 0x22]) r"
proof -
  let ?n = "CHR 0x22 # k @ [CHR 0x22]"
  obtain a v where kv: "kv = (a, v)" by (cases kv)
  have "after_str ?n (jmember kv @ r) = after_str ?n (CHR '':'' # jval_text v @ r)"
    using after_str_pass [OF assms(1), of a "CHR '':'' # jval_text v @ r"] assms(2)
    by (simp add: jmember_def kv quiet_def)
  also have "\<dots> = after_str ?n (jval_text v @ r)" by simp
  also have "\<dots> = after_str ?n r"
  proof (cases v)
    case (JText s)
    then show ?thesis
      using after_str_pass [OF assms(1), of s r] assms(2,3) by (auto simp: jval_text_def kv quiet_def plain_text_def escaped_plain)
  next
    case (JRaw x)
    then show ?thesis using after_str_skip [of x "k @ [CHR 0x22]" r] assms(2) by (simp add: jval_text_def kv quiet_def)
  qed
  finally show ?thesis .
qed

lemma after_str_joined:
  assumes "key_text k" and "\<forall>kv\<in>set pre. quiet k kv"
  shows "\<exists>r. after_str (CHR 0x22 # k @ [CHR 0x22]) (joined (map jmember (pre @ (k, v) # post)) @ ''}'') =
    Some (CHR '':'' # jval_text v @ r) \<and> r \<noteq> [] \<and> raw_end (hd r)"
  using assms(2)
proof (induction pre)
  case Nil
  show ?case by (cases post) (auto simp: jmember_def raw_end_def)
next
  case (Cons kv pre)
  let ?n = "CHR 0x22 # k @ [CHR 0x22]" and ?t = "joined (map jmember (pre @ (k, v) # post)) @ ''}''"
  have j: "joined (map jmember ((kv # pre) @ (k, v) # post)) @ ''}'' = jmember kv @ '','' @ ?t"
    by (cases "map jmember (pre @ (k, v) # post)") auto
  have "after_str ?n (jmember kv @ '','' @ ?t) = after_str ?n ('','' @ ?t)"
    using after_str_member [OF assms(1), of kv "'','' @ ?t"] Cons.prems by simp
  also have "\<dots> = after_str ?n ?t" by simp
  finally show ?case using Cons by (simp only: j) simp
qed

lemma field_at_object:
  assumes "key_text k" and "\<forall>kv\<in>set pre. quiet k kv"
  shows "\<exists>r. field_at skip (jobject (pre @ (k, v) # post)) k = Some (dropWhile skip (jval_text v @ r)) \<and>
    r \<noteq> [] \<and> raw_end (hd r)"
proof -
  obtain r where r: "after_str (CHR 0x22 # k @ [CHR 0x22]) (joined (map jmember (pre @ (k, v) # post)) @ ''}'') =
      Some (CHR '':'' # jval_text v @ r)" "r \<noteq> []" "raw_end (hd r)"
    using after_str_joined [OF assms] by blast
  have "after_str (json_needle k) (jobject (pre @ (k, v) # post)) = Some (CHR '':'' # jval_text v @ r)"
    using r(1) by (simp only: jobject_def needle_key [OF assms(1)]) simp
  then show ?thesis using r(2,3) by (auto simp: field_at_def)
qed

text \<open>Texts without control characters are read back as they were before they were escaped.\<close>

definition printable :: "string \<Rightarrow> bool" where
  "printable s \<longleftrightarrow> list_all (\<lambda>c. 0x20 \<le> (of_char c :: nat)) s"

lemma quoted_step: "c \<noteq> CHR 0x22 \<Longrightarrow> c \<noteq> CHR 0x5C \<Longrightarrow> length out + 1 < cap \<Longrightarrow>
    quoted_loop cap out (c # p) = quoted_loop cap (out @ [c]) p"
  by (cases p) auto

lemma quoted_loop_escaped:
  assumes "printable s"
  shows "length out + length s < cap \<Longrightarrow> quoted_loop cap out (escaped s @ CHR 0x22 # r) = (True, out @ s)"
  using assms
proof (induction s arbitrary: out)
  case Nil
  then show ?case by (cases r) (simp_all add: escaped_def)
next
  case (Cons c s)
  have p: "printable s" and c: "\<not> (of_char c :: nat) < 0x20" using Cons.prems(2) by (simp_all add: printable_def)
  have e: "escaped (c # s) = esc_char c @ escaped s" by (simp add: escaped_def)
  have "quoted_loop cap out (escaped (c # s) @ CHR 0x22 # r) = quoted_loop cap (out @ [c]) (escaped s @ CHR 0x22 # r)"
  proof (cases "c = CHR 0x22 \<or> c = CHR 0x5C")
    case True
    then show ?thesis using Cons.prems(1) by (auto simp: e esc_char_def)
  next
    case False
    then show ?thesis using Cons.prems(1) c quoted_step by (simp add: e esc_char_def)
  qed
  then show ?case using Cons.IH [of "out @ [c]"] Cons.prems(1) p by simp
qed

text \<open>What a field holds for a value of the reference.\<close>

definition raw_text :: "string \<Rightarrow> bool" where
  "raw_text r \<longleftrightarrow> r \<noteq> [] \<and> list_all (\<lambda>c. \<not> raw_end c \<and> c \<noteq> CHR 0x22) r"

definition jval_ok :: "nat \<Rightarrow> jval \<Rightarrow> bool" where
  "jval_ok cap v = (case v of JText s \<Rightarrow> printable s \<and> length s < cap | JRaw r \<Rightarrow> raw_text r \<and> length r < cap)"

definition jval_str :: "jval \<Rightarrow> string" where
  "jval_str v = (case v of JText s \<Rightarrow> s | JRaw r \<Rightarrow> r)"

lemma field_value:
  assumes "jval_ok cap v" and "r \<noteq> []" and "raw_end (hd r)" and "field_at blank text k = Some (dropWhile blank (jval_text v @ r))"
  shows "json_field text k cap = (True, Some (jval_str v))"
proof (cases v)
  case (JText s)
  then have "field_at blank text k = Some (CHR 0x22 # escaped s @ CHR 0x22 # r)"
    using assms(4) by (simp add: jval_text_def blank_def)
  then show ?thesis
    using assms(1) quoted_loop_escaped [of s "[]" cap r] by (simp add: JText jval_ok_def json_field_def jval_str_def)
next
  case (JRaw x)
  have x: "x \<noteq> []" "\<forall>c\<in>set x. \<not> raw_end c \<and> c \<noteq> CHR 0x22" "length x < cap"
    using assms(1) by (auto simp: JRaw jval_ok_def raw_text_def list_all_iff)
  have b: "\<not> blank (hd x)" using x(1,2) by (cases x) (auto simp: blank_def raw_end_def)
  then have "field_at blank text k = Some (x @ r)" using assms(4) x(1) by (cases x) (simp_all add: JRaw jval_text_def)
  moreover have "takeWhile (\<lambda>c. \<not> raw_end c) (x @ r) = x"
    using x(2) assms(2,3) by (cases r) (simp_all add: takeWhile_append2)
  moreover obtain c q where "x = c # q" "c \<noteq> CHR 0x22" using x(1,2) by (cases x) auto
  ultimately show ?thesis using x(3) by (simp add: json_field_def JRaw jval_str_def)
qed

text \<open>The members of an object with different keys, of which no text value is itself a key.\<close>

definition object_ok :: "(string \<times> jval) list \<Rightarrow> bool" where
  "object_ok kvs \<longleftrightarrow> distinct (map fst kvs) \<and> (\<forall>kv\<in>set kvs. key_text (fst kv)) \<and>
     (\<forall>kv\<in>set kvs. case snd kv of JText s \<Rightarrow> plain_text s \<and> s \<notin> fst ` set kvs | JRaw r \<Rightarrow> raw_text r)"

lemma object_quiet:
  assumes "object_ok kvs" and "kvs = pre @ (k, v) # post"
  shows "key_text k" "\<forall>kv\<in>set pre. quiet k kv"
proof -
  show "key_text k" using assms by (auto simp: object_ok_def)
  show "\<forall>kv\<in>set pre. quiet k kv"
  proof
    fix kv
    assume kv: "kv \<in> set pre"
    obtain a u where [simp]: "kv = (a, u)" by (cases kv)
    have m: "(a, u) \<in> set kvs" using kv assms(2) by simp
    have "distinct (map fst (pre @ (k, v) # post))" using assms unfolding object_ok_def by blast
    then have "k \<notin> fst ` set pre" by auto
    then have ne: "a \<noteq> k" using image_eqI [of a fst "(a, u)" "set pre"] kv by auto
    have "k \<in> fst ` set kvs" by (simp add: assms(2))
    moreover have "key_text (fst (a, u))" using assms(1) m unfolding object_ok_def by blast
    moreover have "case snd (a, u) of JText s \<Rightarrow> plain_text s \<and> s \<notin> fst ` set kvs | JRaw r \<Rightarrow> raw_text r"
      using assms(1) m unfolding object_ok_def by blast
    ultimately show "quiet k kv" using ne
      by (cases u) (auto simp: quiet_def key_text_def raw_text_def list_all_iff)
  qed
qed

lemma after_str_none:
  assumes "key_text k" and "\<forall>kv\<in>set kvs. quiet k kv"
  shows "after_str (CHR 0x22 # k @ [CHR 0x22]) (joined (map jmember kvs) @ ''}'') = None"
  using assms(2)
proof (induction kvs)
  case (Cons kv kvs)
  let ?n = "CHR 0x22 # k @ [CHR 0x22]"
  show ?case
  proof (cases "map jmember kvs")
    case Nil
    then show ?thesis using after_str_member [OF assms(1), of kv "''}''"] Cons.prems by simp
  next
    case (Cons m ms)
    let ?t = "joined (map jmember kvs) @ ''}''"
    have "after_str ?n (jmember kv @ '','' @ ?t) = after_str ?n ('','' @ ?t)"
      using after_str_member [OF assms(1), of kv "'','' @ ?t"] Cons.prems by simp
    then show ?thesis using Cons Cons.IH Cons.prems by simp
  qed
qed simp

lemma object_absent:
  assumes "object_ok kvs" and "key_text k" and "k \<notin> fst ` set kvs" and "\<forall>kv\<in>set kvs. snd kv \<noteq> JText k"
  shows "json_field (jobject kvs) k cap = (False, None)"
proof -
  have "quiet k kv" if kv: "kv \<in> set kvs" for kv
  proof -
    have "key_text (fst kv)" "case snd kv of JText s \<Rightarrow> plain_text s \<and> s \<notin> fst ` set kvs | JRaw r \<Rightarrow> raw_text r"
      using assms(1) kv unfolding object_ok_def by blast+
    moreover have "fst kv \<noteq> k" "snd kv \<noteq> JText k" using assms(3,4) kv by auto
    ultimately show ?thesis
      by (cases "snd kv") (auto simp: quiet_def key_text_def raw_text_def list_all_iff)
  qed
  then have "after_str (json_needle k) (jobject kvs) = None"
    using after_str_none [OF assms(2)] by (simp add: jobject_def needle_key [OF assms(2)])
  then show ?thesis by (simp add: json_field_def field_at_def)
qed

lemma object_lookup:
  assumes "object_ok kvs" and "key_text k" and "JText k \<notin> snd ` set kvs"
    and "\<forall>v. map_of kvs k = Some v \<longrightarrow> jval_ok cap v"
  shows "json_field (jobject kvs) k cap =
    (case map_of kvs k of Some v \<Rightarrow> (True, Some (jval_str v)) | None \<Rightarrow> (False, None))"
proof (cases "map_of kvs k")
  case None
  then have "k \<notin> fst ` set kvs" by (simp add: map_of_eq_None_iff)
  moreover have "\<forall>kv\<in>set kvs. snd kv \<noteq> JText k" using assms(3) by (metis image_eqI)
  ultimately show ?thesis using object_absent [OF assms(1,2)] None by simp
next
  case (Some v)
  then obtain pre post where kvs: "kvs = pre @ (k, v) # post" by (meson map_of_SomeD split_list)
  obtain r where r: "field_at blank (jobject kvs) k = Some (dropWhile blank (jval_text v @ r))" "r \<noteq> []" "raw_end (hd r)"
    using field_at_object [OF object_quiet [OF assms(1) kvs], of blank v post] kvs by blast
  have "jval_ok cap v" using assms(4) Some by blast
  then show ?thesis using field_value [OF _ r(2,3,1)] Some by simp
qed

text \<open>the extraction by text search is the lookup of the key in the object, for every object with
  different keys of which no text value is the searched or another key: a key that is there is found with its
  value (unescaped), a key that is not there is not found and the buffer is left alone.\<close>

theorem json_field_object:
  assumes "object_ok kvs" and "key_text k" and "JText k \<notin> snd ` set kvs"
    and "\<forall>v. map_of kvs k = Some v \<longrightarrow> jval_ok cap v"
  shows "json_field (jobject kvs) k cap =
    (case map_of kvs k of Some v \<Rightarrow> (True, Some (jval_str v)) | None \<Rightarrow> (False, None))"
  by (rule object_lookup [OF assms])

definition json_ex :: "(string \<times> jval) list" where
  "json_ex = [(''static_ip'', JRaw ''true''), (''ip'', JText ''10.0.0.2''), (''gw'', JText ''10.0.0.1'')]"

lemma json_ex_ok: "object_ok json_ex"
  by (simp add: json_ex_def object_ok_def key_text_def plain_text_def raw_text_def raw_end_def)

lemma json_field_object_witness: "json_field (jobject json_ex) ''ip'' 16 = (True, Some ''10.0.0.2'')"
proof -
  have "key_text ''ip''" "JText ''ip'' \<notin> snd ` set json_ex"
    by (simp_all add: key_text_def json_ex_def)
  moreover have "map_of json_ex ''ip'' = Some (JText ''10.0.0.2'')" by (simp add: json_ex_def)
  moreover have "jval_ok 16 (JText ''10.0.0.2'')" by (simp add: jval_ok_def printable_def)
  ultimately show ?thesis using json_field_object [OF json_ex_ok, of "''ip''" 16] by (simp add: jval_str_def)
qed

text \<open>The buffer never overflows: at most \<^verbatim>\<open>cap - 1\<close> characters are put into it.\<close>

lemma quoted_loop_bound: "length out < cap \<Longrightarrow> length (snd (quoted_loop cap out p)) < cap"
  by (induction cap out p rule: quoted_loop.induct) auto

lemma json_field_bound: "json_field text k cap = (r, Some out) \<Longrightarrow> 0 < cap \<Longrightarrow> length out < cap"
  using quoted_loop_bound [of "[]" cap]
  by (auto simp: json_field_def Let_def apsnd_def map_prod_def split: option.splits list.splits if_splits prod.splits)
    (metis snd_conv)

lemma read_loop_bound: "length buf < cap \<Longrightarrow> length (read_loop cap evs rest buf) < cap"
  by (induction cap evs rest buf rule: read_loop.induct) (auto simp: Let_def split: recv_ev.splits)

lemma put_chars_bound: "length out < cap \<Longrightarrow> length (put_chars cap s out) < cap"
  by (induction cap s out rule: put_chars.induct) (auto simp: esc_char_def json_hex4_def)

lemma json_escape_full: "length (escaped s) + 6 < cap \<Longrightarrow> json_escape (Some s) cap = escaped s"
  using put_chars_all [of "[]" s cap] by (simp add: json_escape_def)

end
