(* ===== verification/WebForms.thy ===== *)
theory WebForms
  imports Json Config SourceUsb
begin

text \<open>
  The handlers of \<^verbatim>\<open>webui.c\<close> that change settings: \<^verbatim>\<open>/api/config\<close> and \<^verbatim>\<open>/api/serial\<close>.  A handler takes the
  events of its request's socket and its body and gives the response and the world afterwards; the
  results of sending the response are not looked at by the code.
\<close>

datatype http_res = HttpErr nat string | HttpOk string

definition quoted :: "string \<Rightarrow> string" where
  "quoted s = CHR 0x22 # s @ [CHR 0x22]"

definition jfield :: "string \<Rightarrow> string \<Rightarrow> string" where
  "jfield k t = quoted k @ CHR '':'' # t"

definition json_bool :: "bool \<Rightarrow> string" where
  "json_bool b = (if b then ''true'' else ''false'')"

subsection \<open>The configuration form\<close>

definition CONFIG_BODY :: nat where "CONFIG_BODY = 512"

definition CONFIG_GET_BUF :: nat where "CONFIG_GET_BUF = 512"

text \<open>The text of \<^verbatim>\<open>h_config_get\<close>; the stored texts are printed as they are.\<close>

definition config_text :: "cfg \<Rightarrow> string" where
  "config_text c = ''{'' @ joined
     [jfield ''tcp_port'' (dec (unat (tcp_port c))), jfield ''static_ip'' (json_bool (static_ip c)),
      jfield ''ip'' (quoted (ip4 c)), jfield ''mask'' (quoted (mask4 c)), jfield ''gw'' (quoted (gw4 c)),
      jfield ''dns'' (quoted (dns4 c)), jfield ''eth_static_ip'' (json_bool (eth_static_ip c)),
      jfield ''eth_ip'' (quoted (eth_ip c)), jfield ''eth_mask'' (quoted (eth_mask c)),
      jfield ''eth_gw'' (quoted (eth_gw c)), jfield ''eth_dns'' (quoted (eth_dns c)),
      jfield ''wdt_enable'' (json_bool (wdt_enable c)), jfield ''wdt_timeout_s'' (dec (unat (wdt_timeout_s c)))] @ ''}''"

definition h_config_get :: "'w nvs_api \<Rightarrow> 'w \<Rightarrow> http_res" where
  "h_config_get N w = HttpOk (config_text (config_load N w))"

text \<open>A text field is written by \<^verbatim>\<open>json_field\<close> directly, also when its result is an error.\<close>

definition overlay_text :: "string \<Rightarrow> string \<Rightarrow> string \<Rightarrow> string" where
  "overlay_text body key old = (case snd (json_field body key IP_CAP) of Some s \<Rightarrow> s | None \<Rightarrow> old)"

definition field_ok :: "string \<Rightarrow> string \<Rightarrow> nat \<Rightarrow> string option" where
  "field_ok body key cap = (case json_field body key cap of (True, out) \<Rightarrow> out | _ \<Rightarrow> None)"

definition overlay_flag :: "string \<Rightarrow> string \<Rightarrow> bool \<Rightarrow> bool" where
  "overlay_flag body key old = (case field_ok body key 24 of Some v \<Rightarrow> is_true v | None \<Rightarrow> old)"

definition overlay_port :: "string \<Rightarrow> u16 \<Rightarrow> u16" where
  "overlay_port body old =
     (case field_ok body ''tcp_port'' 24 of
        Some v \<Rightarrow> (let p = atoi v in if 0 < p \<and> p < 65536 then of_int p else old) | None \<Rightarrow> old)"

definition overlay_timeout :: "string \<Rightarrow> u32 \<Rightarrow> u32" where
  "overlay_timeout body old =
     (case field_ok body ''wdt_timeout_s'' 24 of
        Some v \<Rightarrow> (let t = atoi v in if 30 \<le> t then of_int t else old) | None \<Rightarrow> old)"

definition config_overlay :: "string \<Rightarrow> cfg \<Rightarrow> cfg" where
  "config_overlay b c =
     \<lparr>tcp_port = overlay_port b (tcp_port c), static_ip = overlay_flag b ''static_ip'' (static_ip c),
      ip4 = overlay_text b ''ip'' (ip4 c), mask4 = overlay_text b ''mask'' (mask4 c),
      gw4 = overlay_text b ''gw'' (gw4 c), dns4 = overlay_text b ''dns'' (dns4 c),
      eth_static_ip = overlay_flag b ''eth_static_ip'' (eth_static_ip c),
      eth_ip = overlay_text b ''eth_ip'' (eth_ip c), eth_mask = overlay_text b ''eth_mask'' (eth_mask c),
      eth_gw = overlay_text b ''eth_gw'' (eth_gw c), eth_dns = overlay_text b ''eth_dns'' (eth_dns c),
      wdt_enable = overlay_flag b ''wdt_enable'' (wdt_enable c),
      wdt_timeout_s = overlay_timeout b (wdt_timeout_s c)\<rparr>"

definition wifi_incomplete :: "cfg \<Rightarrow> bool" where
  "wifi_incomplete c \<longleftrightarrow> static_ip c \<and> (ip4 c = [] \<or> mask4 c = [] \<or> gw4 c = [])"

definition eth_incomplete :: "cfg \<Rightarrow> bool" where
  "eth_incomplete c \<longleftrightarrow> eth_static_ip c \<and> (eth_ip c = [] \<or> eth_mask c = [] \<or> eth_gw c = [])"

definition saved_answer :: string where
  "saved_answer = ''{'' @ joined [jfield ''saved'' ''true'', jfield ''reboot_required'' ''true''] @ ''}''"

definition h_config_post :: "'w nvs_api \<Rightarrow> recv_ev list \<Rightarrow> u8 list \<Rightarrow> 'w \<Rightarrow> http_res \<times> 'w" where
  "h_config_post N evs body w =
     (let c = config_overlay (cstr (read_body CONFIG_BODY evs body)) (config_load N w)
      in if wifi_incomplete c then (HttpErr 400 ''static IP needs ip/mask/gw'', w)
         else if eth_incomplete c then (HttpErr 400 ''eth static IP needs ip/mask/gw'', w)
         else case config_save N c w of
           (e, w') \<Rightarrow> if e \<noteq> ESP_OK then (HttpErr 500 ''save failed'', w') else (HttpOk saved_answer, w'))"

subsection \<open>The serial form\<close>

definition num_field :: "string \<Rightarrow> string \<Rightarrow> int \<Rightarrow> int \<Rightarrow> int option" where
  "num_field body key lo hi =
     (case field_ok body key 16 of
        Some v \<Rightarrow> (let n = atoi v in if lo \<le> n \<and> n \<le> hi then Some n else None) | None \<Rightarrow> None)"

definition posted_lc :: "string \<Rightarrow> lc" where
  "posted_lc b =
     (let d = serialcfg_default; num = (\<lambda>key lo hi old. case num_field b key lo hi of Some n \<Rightarrow> of_int n | None \<Rightarrow> old)
      in \<lparr>baud = (case num_field b ''baud'' 300 4000000 of Some n \<Rightarrow> of_int n | None \<Rightarrow> baud d),
          bits = num ''bits'' 5 8 (bits d), parity = num ''parity'' 0 4 (parity d), stop = num ''stop'' 0 2 (stop d)\<rparr>)"

text \<open>
  Both branches apply a coding to the attached device when it has the posted key and no RFC 2217
  client set its coding; the store is reached through \<open>N\<close> over the same world as the source.
\<close>

definition apply_live :: "'v source_ops option \<Rightarrow> string \<Rightarrow> lc \<Rightarrow> u8 \<Rightarrow> 'v \<Rightarrow> bool \<times> 'v" where
  "apply_live src key l lc_src w =
     (let si = source_get_serial_info src w
      in if si_connected si \<and> si_lc_source si \<noteq> 2 \<and> si_key si = key
         then (case source_apply_line_coding src l lc_src w of (e, w') \<Rightarrow> (e = ESP_OK, w'))
         else (False, w))"

definition h_serial_post ::
  "'v nvs_api \<Rightarrow> 'v source_ops option \<Rightarrow> recv_ev list \<Rightarrow> u8 list \<Rightarrow> 'v \<Rightarrow> http_res \<times> 'v" where
  "h_serial_post N src evs body w =
     (let b = cstr (read_body 256 evs body)
      in case field_ok b ''key'' SERIALCFG_KEY_LEN of
        None \<Rightarrow> (HttpErr 400 ''key required'', w)
      | Some key \<Rightarrow>
          if key = [] then (HttpErr 400 ''key required'', w)
          else if json_field_truthy b ''delete''
          then (case apply_live src key serialcfg_default 0 (snd (serialcfg_delete N key w)) of
            (reverted, w') \<Rightarrow>
              (HttpOk (fmt_s 48 (''{'' @ joined [jfield ''deleted'' ''true'', jfield ''reverted'' (json_bool reverted)] @ ''}'')), w'))
          else (case serialcfg_upsert N key (posted_lc b) w of
            (e, w1) \<Rightarrow>
              if e \<noteq> ESP_OK then (HttpErr 500 ''save failed'', w1)
              else (case apply_live src key (posted_lc b) 1 w1 of
                (applied, w') \<Rightarrow>
                  (HttpOk (fmt_s 64 (''{'' @ joined [jfield ''saved'' ''true'', jfield ''applied'' (json_bool applied)] @ ''}'')), w'))))"

subsection \<open>What the form shows is what it saves\<close>

definition cfg_members :: "cfg \<Rightarrow> (string \<times> jval) list" where
  "cfg_members c =
     [(''tcp_port'', JRaw (dec (unat (tcp_port c)))), (''static_ip'', JRaw (json_bool (static_ip c))),
      (''ip'', JText (ip4 c)), (''mask'', JText (mask4 c)), (''gw'', JText (gw4 c)), (''dns'', JText (dns4 c)),
      (''eth_static_ip'', JRaw (json_bool (eth_static_ip c))), (''eth_ip'', JText (eth_ip c)),
      (''eth_mask'', JText (eth_mask c)), (''eth_gw'', JText (eth_gw c)), (''eth_dns'', JText (eth_dns c)),
      (''wdt_enable'', JRaw (json_bool (wdt_enable c))), (''wdt_timeout_s'', JRaw (dec (unat (wdt_timeout_s c))))]"

text \<open>The configurations the form can carry: no quote or backslash in a text, and no text that is a key.\<close>

definition cfg_texts :: "cfg \<Rightarrow> string list" where
  "cfg_texts c = [ip4 c, mask4 c, gw4 c, dns4 c, eth_ip c, eth_mask c, eth_gw c, eth_dns c]"

definition cfg_keys :: "string list" where
  "cfg_keys = map fst (cfg_members config_default)"

definition cfg_plain :: "cfg \<Rightarrow> bool" where
  "cfg_plain c \<longleftrightarrow> (\<forall>s\<in>set (cfg_texts c). plain_text s \<and> s \<notin> set cfg_keys \<and> length s < IP_CAP) \<and>
     tcp_port c \<noteq> 0 \<and> 30 \<le> unat (wdt_timeout_s c) \<and> unat (wdt_timeout_s c) < 2 ^ 31"

lemma cfg_member_keys: "map fst (cfg_members c) = cfg_keys"
  by (simp add: cfg_members_def cfg_keys_def)

lemma config_text_object:
  assumes "cfg_plain c"
  shows "config_text c = jobject (cfg_members c)"
proof -
  have "escaped s = s" if "s \<in> set (cfg_texts c)" for s
    using assms that by (simp add: cfg_plain_def escaped_plain)
  then show ?thesis
    by (simp add: cfg_texts_def config_text_def jobject_def cfg_members_def jmember_def jval_text_def jfield_def quoted_def)
qed

lemma length_dec: "n < 10 ^ k \<Longrightarrow> 0 < k \<Longrightarrow> length (dec n) \<le> k"
proof (induction k arbitrary: n)
  case (Suc k)
  show ?case
  proof (cases "n < 10")
    case True
    then show ?thesis by (simp add: dec_digit)
  next
    case False
    then have "0 < k" "n div 10 < 10 ^ k" using Suc.prems by (auto simp: less_mult_imp_div_less intro: gr0I)
    then show ?thesis using Suc.IH [of "n div 10"] False by (simp add: dec.simps [of n])
  qed
qed simp

lemma dec_raw: "raw_text (dec n)"
proof -
  have "\<not> raw_end c \<and> c \<noteq> CHR 0x22" if "is_digit c" for c
    using that by (auto simp: is_digit_def digit_val_def raw_end_def Let_def)
  then show ?thesis using dec_digits [of n] by (auto simp: raw_text_def list_all_iff)
qed

lemma bool_raw: "raw_text (json_bool b)"
  by (simp add: json_bool_def raw_text_def raw_end_def)

lemma atoi_dec: "n < 2 ^ 31 \<Longrightarrow> atoi (dec n) = int n"
  using scan_int_dec [of n "[]"] by (simp add: atoi_def)

lemma dec_u32_length: "length (dec (unat (x :: u32))) < 16"
  using length_dec [of "unat x" 10] unsigned_less [where ?'a=nat, of x] by simp

lemma dec_u16_length: "length (dec (unat (x :: u16))) < 16"
  using length_dec [of "unat x" 5] unsigned_less [where ?'a=nat, of x] by simp

lemma members_ok:
  assumes "cfg_plain c"
  shows "object_ok (cfg_members c)"
proof -
  have k: "distinct cfg_keys" "\<forall>k\<in>set cfg_keys. key_text k"
    by (simp_all add: cfg_keys_def cfg_members_def key_text_def)
  have t: "plain_text s" "s \<notin> set cfg_keys" if "s \<in> set (cfg_texts c)" for s
    using assms that by (auto simp: cfg_plain_def)
  have v: "case v of JText s \<Rightarrow> s \<in> set (cfg_texts c) | JRaw r \<Rightarrow> raw_text r"
    if "v \<in> set (map snd (cfg_members c))" for v
    using that by (auto simp: cfg_members_def cfg_texts_def dec_raw bool_raw)
  have "case snd kv of JText s \<Rightarrow> plain_text s \<and> s \<notin> fst ` set (cfg_members c) | JRaw r \<Rightarrow> raw_text r"
    if "kv \<in> set (cfg_members c)" for kv
  proof -
    have "fst ` set (cfg_members c) = set cfg_keys" by (metis cfg_member_keys list.set_map)
    moreover have "snd kv \<in> set (map snd (cfg_members c))" using that by simp
    ultimately show ?thesis using v [of "snd kv"] t by (simp split: jval.splits)
  qed
  moreover have "key_text (fst kv)" if "kv \<in> set (cfg_members c)" for kv
    using k(2) that by (metis cfg_member_keys image_eqI list.set_map)
  ultimately show ?thesis using k(1) unfolding object_ok_def cfg_member_keys by blast
qed

text \<open>The value of one key, as the form prints it, is what the field of that key reads.\<close>

lemma member_field:
  assumes "cfg_plain c" and "(k, v) \<in> set (cfg_members c)" and "jval_ok cap v"
  shows "json_field (config_text c) k cap = (True, Some (jval_str v))"
proof -
  note ok = members_ok [OF assms(1)]
  have d: "distinct (map fst (cfg_members c))" using ok unfolding object_ok_def by blast
  have m: "map_of (cfg_members c) k = Some v" by (rule map_of_is_SomeI [OF d assms(2)])
  have "key_text k" using ok assms(2) unfolding object_ok_def by force
  moreover have "JText k \<notin> snd ` set (cfg_members c)"
  proof
    assume "JText k \<in> snd ` set (cfg_members c)"
    then obtain a where "(a, JText k) \<in> set (cfg_members c)" by auto
    then have "k \<notin> fst ` set (cfg_members c)" using ok unfolding object_ok_def by force
    then show False using assms(2) by force
  qed
  ultimately show ?thesis using object_lookup [OF ok, of k cap] m assms(3) config_text_object [OF assms(1)] by simp
qed

lemma text_reads:
  assumes "cfg_plain c" and "(k, JText s) \<in> set (cfg_members c)"
  shows "overlay_text (config_text c) k old = s"
proof -
  have "s \<in> set (cfg_texts c)" using assms(2) by (auto simp: cfg_members_def cfg_texts_def)
  then have "jval_ok IP_CAP (JText s)"
    using assms(1) by (simp add: cfg_plain_def jval_ok_def printable_def plain_text_def)
  then show ?thesis using member_field [OF assms] by (simp add: overlay_text_def jval_str_def)
qed

lemma flag_reads:
  assumes "cfg_plain c" and "(k, JRaw (json_bool b)) \<in> set (cfg_members c)"
  shows "overlay_flag (config_text c) k old = b"
proof -
  have "jval_ok 24 (JRaw (json_bool b))" by (simp add: jval_ok_def bool_raw) (simp add: json_bool_def)
  then show ?thesis using member_field [OF assms]
    by (simp add: overlay_flag_def field_ok_def jval_str_def is_true_def json_bool_def)
qed

lemma number_reads:
  assumes "cfg_plain c" and "(k, JRaw (dec n)) \<in> set (cfg_members c)" and "length (dec n) < 16"
  shows "field_ok (config_text c) k 24 = Some (dec n)"
  using member_field [OF assms(1,2), of 24] assms(3) by (simp add: field_ok_def jval_ok_def dec_raw jval_str_def)

text \<open>The text the form gets, laid over any configuration, gives the one it shows.\<close>

lemma form_overlay:
  assumes "cfg_plain c"
  shows "config_overlay (config_text c) c0 = c"
proof -
  note t = text_reads [OF assms] and f = flag_reads [OF assms] and n = number_reads [OF assms]
  have p: "overlay_port (config_text c) old = tcp_port c" for old
  proof -
    have lt: "unat (tcp_port c) < 65536" using unsigned_less [where ?'a = nat, of "tcp_port c"] by simp
    then have "atoi (dec (unat (tcp_port c))) = int (unat (tcp_port c))" by (intro atoi_dec) simp
    moreover have "uint (tcp_port c) < 65536" using unsigned_less [where ?'a = int, of "tcp_port c"] by simp
    moreover have "0 < uint (tcp_port c)" using assms by (simp add: cfg_plain_def word_neq_0_conv word_less_def)
    moreover have "field_ok (config_text c) ''tcp_port'' 24 = Some (dec (unat (tcp_port c)))"
      by (rule n [OF _ dec_u16_length]) (simp add: cfg_members_def)
    ultimately show ?thesis by (simp add: overlay_port_def)
  qed
  have w: "overlay_timeout (config_text c) old = wdt_timeout_s c" for old
  proof -
    have "atoi (dec (unat (wdt_timeout_s c))) = int (unat (wdt_timeout_s c))"
      using assms by (intro atoi_dec) (simp add: cfg_plain_def)
    moreover have "field_ok (config_text c) ''wdt_timeout_s'' 24 = Some (dec (unat (wdt_timeout_s c)))"
      by (rule n [OF _ dec_u32_length]) (simp add: cfg_members_def)
    moreover have "30 \<le> uint (wdt_timeout_s c)"
      using assms by (metis cfg_plain_def of_nat_le_iff of_nat_numeral of_nat_unat)
    ultimately show ?thesis by (simp add: overlay_timeout_def)
  qed
  show ?thesis
    by (simp add: config_overlay_def p w t f cfg_members_def)
qed

definition cfg_shown :: cfg where
  "cfg_shown = config_default\<lparr>tcp_port := 23, static_ip := True, ip4 := ''10.0.0.2'', mask4 := ''255.0.0.0'', gw4 := ''10.0.0.1''\<rparr>"

lemma cfg_shown_plain: "cfg_plain cfg_shown"
  by (simp add: cfg_plain_def cfg_texts_def cfg_shown_def config_default_def cfg_keys_def cfg_members_def plain_text_def
      IP_CAP_def CONFIG_WDT_TIMEOUT_DEFAULT_def)

subsection \<open>Posting a configuration\<close>

lemma overlay_text_fits: "length old < IP_CAP \<Longrightarrow> length (overlay_text b k old) < IP_CAP"
  using json_field_bound [of b k IP_CAP "fst (json_field b k IP_CAP)"]
  by (auto simp: overlay_text_def IP_CAP_def prod_eq_iff split: option.split)

lemma overlay_ok: "cfg_ok c \<Longrightarrow> cfg_ok (config_overlay b c)"
  by (simp add: cfg_ok_def config_overlay_def overlay_text_fits)

lemma of_int_nonzero: "0 < i \<Longrightarrow> i < 2 ^ LENGTH('a) \<Longrightarrow> (of_int i :: 'a::len word) \<noteq> 0"
proof
  assume i: "0 < i" "i < 2 ^ LENGTH('a)" and "(of_int i :: 'a word) = 0"
  then have "uint (of_int i :: 'a word) = 0" by simp
  then have "i mod 2 ^ LENGTH('a) = 0" by (simp only: uint_word_of_int)
  then show False using i by simp
qed

lemma atoi_bound: "atoi v < 2 ^ 31"
  by (auto simp: atoi_def scan_int_def Let_def clamp_int_def split: option.split)

lemma overlay_nonzero:
  assumes "tcp_port c \<noteq> 0" and "wdt_timeout_s c \<noteq> 0"
  shows "tcp_port (config_overlay b c) \<noteq> 0" and "wdt_timeout_s (config_overlay b c) \<noteq> 0"
proof -
  have "(of_int (atoi v) :: u16) \<noteq> 0" if "0 < atoi v" "atoi v < 65536" for v
    using of_int_nonzero [of "atoi v", where 'a = 16] that by simp
  then show "tcp_port (config_overlay b c) \<noteq> 0"
    using assms(1) by (simp add: config_overlay_def overlay_port_def Let_def split: option.split)
  have "(of_int (atoi v) :: u32) \<noteq> 0" if "30 \<le> atoi v" for v
    using of_int_nonzero [of "atoi v", where 'a = 32] that atoi_bound [of v] by simp
  then show "wdt_timeout_s (config_overlay b c) \<noteq> 0"
    using assms(2) by (simp add: config_overlay_def overlay_timeout_def Let_def split: option.split)
qed

lemma post_runs:
  assumes "nvs_laws N" and "nvs_str_fit N" and "h_config_post N evs body w = (res, w')"
  shows "let c = config_overlay (cstr (read_body CONFIG_BODY evs body)) (config_load N w)
    in if wifi_incomplete c \<or> eth_incomplete c then (\<exists>msg. res = HttpErr 400 msg) \<and> w' = w
       else \<exists>e. config_save N c w = (e, w') \<and>
         (if e = ESP_OK then res = HttpOk saved_answer \<and> config_load N w' = c
          else res = HttpErr 500 ''save failed'' \<and> save_stopped N c w e w')"
proof -
  define c where "c = config_overlay (cstr (read_body CONFIG_BODY evs body)) (config_load N w)"
  note run = assms(3) [unfolded h_config_post_def Let_def, folded c_def]
  have ok: "cfg_ok c" unfolding c_def by (intro overlay_ok config_load_ok assms(2))
  have "tcp_port c \<noteq> 0" "wdt_timeout_s c \<noteq> 0"
    unfolding c_def using config_load_nonzero [of N w] by (simp_all add: overlay_nonzero)
  then have norm: "cfg_norm c = c" by (cases c) (simp add: cfg_norm_def)
  obtain e w1 where s: "config_save N c w = (e, w1)" by (metis surj_pair)
  have saved: "e = ESP_OK \<Longrightarrow> config_load N w1 = c"
    using config_saved [OF assms(1) ok, of w w1] s norm by simp
  have "if wifi_incomplete c \<or> eth_incomplete c then (\<exists>msg. res = HttpErr 400 msg) \<and> w' = w
       else \<exists>e. config_save N c w = (e, w') \<and>
         (if e = ESP_OK then res = HttpOk saved_answer \<and> config_load N w' = c
          else res = HttpErr 500 ''save failed'' \<and> save_stopped N c w e w')"
    using run saved s save_stops [OF s] by (auto split: if_splits)
  then show ?thesis by (simp only: Let_def flip: c_def)
qed

text \<open>C19: a post is refused because a static address is incomplete, with the store untouched; or the overlay of
  the posted fields on the former configuration is saved.  If that succeeds, the post is answered by success and the next
  boot loads exactly this overlay; if it fails, the post is answered by 500, and the store holds what the save made
  before the call that failed.\<close>

theorem config_post_effect:
  assumes "nvs_laws N" and "nvs_str_fit N" and "h_config_post N evs body w = (res, w')"
  shows "let c = config_overlay (cstr (read_body CONFIG_BODY evs body)) (config_load N w)
    in if wifi_incomplete c \<or> eth_incomplete c then (\<exists>msg. res = HttpErr 400 msg) \<and> w' = w
       else \<exists>e. config_save N c w = (e, w') \<and>
         (if e = ESP_OK then res = HttpOk saved_answer \<and> config_load N w' = c
          else res = HttpErr 500 ''save failed'' \<and> save_stopped N c w e w')"
  by (rule post_runs [OF assms])

definition post_ex :: string where
  "post_ex = jobject [(''tcp_port'', JRaw ''23'')]"

lemma cstr_bytes: "no_nul s \<Longrightarrow> cstr (bytes s) = s"
  by (induction s) (auto simp: cstr_def bytes_def)

lemma read_one: "length body < cap - 1 \<Longrightarrow> length body \<le> n \<Longrightarrow> read_body cap [Got n] body = body"
  by (cases body) (auto simp: read_body_def Let_def)

lemma post_ex_body: "cstr (read_body CONFIG_BODY [Got 64] (bytes post_ex)) = post_ex"
proof -
  have l: "length post_ex = 15" "no_nul post_ex"
    by (simp_all add: post_ex_def jobject_def jmember_def jval_text_def byte_of_char_def)
  then have "read_body CONFIG_BODY [Got 64] (bytes post_ex) = bytes post_ex"
    by (intro read_one) (simp_all add: CONFIG_BODY_def)
  then show ?thesis using cstr_bytes [OF l(2)] by simp
qed

lemma post_ex_overlay: "config_overlay post_ex config_default = config_default\<lparr>tcp_port := 23\<rparr>"
proof -
  have n: "field_at blank post_ex k = None" if "k \<in> set (tl cfg_keys)" for k
    using that by (auto simp: cfg_keys_def cfg_members_def post_ex_def jobject_def jmember_def jval_text_def
        field_at_def json_needle_def fmt_s_def)
  then have "overlay_text post_ex k x = x" "overlay_flag post_ex k y = y" if "k \<in> set (tl cfg_keys)" for k x y
    using that by (simp_all add: overlay_text_def overlay_flag_def field_ok_def json_field_def)
  moreover have "overlay_timeout post_ex x = x" for x
    using n [of "''wdt_timeout_s''"] by (simp add: overlay_timeout_def field_ok_def json_field_def cfg_keys_def cfg_members_def)
  moreover have "overlay_port post_ex x = 23" for x
    by (simp add: overlay_port_def field_ok_def json_field_def post_ex_def jobject_def jmember_def jval_text_def
        field_at_def json_needle_def fmt_s_def blank_def raw_end_def atoi_def scan_int_def c_space_def is_digit_def
        digit_val_def digits_val_def clamp_int_def)
  ultimately show ?thesis by (simp add: config_overlay_def config_default_def cfg_keys_def cfg_members_def)
qed

lemma save_ram: "fst (config_save nvs_ram c w) = ESP_OK"
  by (simp add: config_save_def Let_def config_writes_def also_set_def nvs_ram_def)

lemma load_ram: "config_load nvs_ram Map.empty = config_default"
  by (simp add: config_load_def nvs_ram_def get_flag_def get_text_def config_default_def)

lemma config_post_effect_witness:
  "\<exists>w'. h_config_post nvs_ram [Got 64] (bytes post_ex) Map.empty = (HttpOk saved_answer, w') \<and>
    tcp_port (config_load nvs_ram w') = 23"
proof -
  obtain res w' where run: "h_config_post nvs_ram [Got 64] (bytes post_ex) Map.empty = (res, w')" by (metis surj_pair)
  have "\<not> wifi_incomplete (config_default\<lparr>tcp_port := 23\<rparr>)" "\<not> eth_incomplete (config_default\<lparr>tcp_port := 23\<rparr>)"
    by (simp_all add: wifi_incomplete_def eth_incomplete_def config_default_def)
  moreover from this have "res = HttpOk saved_answer"
    using run save_ram by (auto simp: h_config_post_def post_ex_body load_ram post_ex_overlay Let_def split: prod.splits)
      (metis fst_conv)
  ultimately show ?thesis
    using config_post_effect [OF nvs_ram_laws nvs_ram_fit run] run
    by (auto simp: post_ex_body load_ram post_ex_overlay Let_def split: if_splits)
qed

subsection \<open>Posting a line coding\<close>

text \<open>The store next to the state of the USB source.\<close>

definition nvs_dev :: "'w nvs_api \<Rightarrow> ('s \<times> 'w) nvs_api" where
  "nvs_dev N =
     \<lparr>nvs_open = (\<lambda>ns m sw. nvs_open N ns m (snd sw)), nvs_get_u8 = (\<lambda>ns k sw. nvs_get_u8 N ns k (snd sw)),
      nvs_get_u16 = (\<lambda>ns k sw. nvs_get_u16 N ns k (snd sw)), nvs_get_u32 = (\<lambda>ns k sw. nvs_get_u32 N ns k (snd sw)),
      nvs_get_str = (\<lambda>ns k cap sw. nvs_get_str N ns k cap (snd sw)),
      nvs_get_blob = (\<lambda>ns k cap sw. nvs_get_blob N ns k cap (snd sw)),
      nvs_set_u8 = (\<lambda>ns k v sw. apsnd (Pair (fst sw)) (nvs_set_u8 N ns k v (snd sw))),
      nvs_set_u16 = (\<lambda>ns k v sw. apsnd (Pair (fst sw)) (nvs_set_u16 N ns k v (snd sw))),
      nvs_set_u32 = (\<lambda>ns k v sw. apsnd (Pair (fst sw)) (nvs_set_u32 N ns k v (snd sw))),
      nvs_set_str = (\<lambda>ns k v sw. apsnd (Pair (fst sw)) (nvs_set_str N ns k v (snd sw))),
      nvs_set_blob = (\<lambda>ns k v sw. apsnd (Pair (fst sw)) (nvs_set_blob N ns k v (snd sw))),
      nvs_erase_key = (\<lambda>ns k sw. apsnd (Pair (fst sw)) (nvs_erase_key N ns k (snd sw))),
      nvs_commit = (\<lambda>ns sw. apsnd (Pair (fst sw)) (nvs_commit N ns (snd sw)))\<rparr>"

lemma dev_load [simp]: "load_slot (nvs_dev N) (S, w) = load_slot N w"
  by (simp add: fun_eq_iff load_slot_def nvs_dev_def)

lemma dev_store [simp]: "store_commit (nvs_dev N) (S, w) i e = apsnd (Pair S) (store_commit N w i e)"
  by (simp add: store_commit_def store_slot_def nvs_dev_def split: prod.split)

lemma dev_scan [simp]: "upsert_scan (nvs_dev N) (S, w) key is free = upsert_scan N w key is free"
  by (induction "is" arbitrary: free) (simp_all split: option.split)

lemma dev_upsert: "serialcfg_upsert (nvs_dev N) key l (S, w) = apsnd (Pair S) (serialcfg_upsert N key l w)"
  by (simp add: serialcfg_upsert_def Let_def upsert_slot_def) (simp add: nvs_dev_def)

lemma dev_delete_scan: "delete_scan (nvs_dev N) (S, w) key is = apsnd (Pair S) (delete_scan N w key is)"
  by (induction "is") (simp_all split: option.split)

lemma dev_delete: "serialcfg_delete (nvs_dev N) key (S, w) = apsnd (Pair S) (serialcfg_delete N key w)"
  by (simp add: serialcfg_delete_def Let_def dev_delete_scan) (simp add: nvs_dev_def)

text \<open>A field never holds a character that is not in the body, so a key from a C string has no NUL.\<close>

lemma quoted_loop_set: "set (snd (quoted_loop cap out p)) \<subseteq> set out \<union> set p"
  by (induction cap out p rule: quoted_loop.induct) auto

lemma after_str_set: "after_str n s = Some r \<Longrightarrow> set r \<subseteq> set s"
  by (induction n s rule: after_str.induct) (auto split: if_splits dest: in_set_dropD)

lemma after_chr_set: "after_chr x s = Some r \<Longrightarrow> set r \<subseteq> set s"
  by (induction x s rule: after_chr.induct) (auto split: if_splits)

lemma field_at_set: "field_at skip text k = Some p \<Longrightarrow> set p \<subseteq> set text"
  by (auto simp: field_at_def split: option.splits dest!: after_str_set after_chr_set set_dropWhileD)

lemma json_field_set:
  assumes "json_field text k cap = (r, Some out)"
  shows "set out \<subseteq> set text"
proof -
  obtain p where p: "field_at blank text k = Some p" using assms by (auto simp: json_field_def split: option.splits)
  have t: "set (take n (takeWhile P p)) \<subseteq> set p" for n P
    by (meson in_set_takeD set_takeWhileD subsetI)
  have q: "set (snd (quoted_loop cap [] (tl p))) \<subseteq> set p"
    using quoted_loop_set [of cap "[]" "tl p"] by (cases p) auto
  have "set out \<subseteq> set p"
  proof (cases p)
    case (Cons c q')
    then show ?thesis using assms p q t [of "cap - 1" "\<lambda>c. \<not> raw_end c"]
      by (cases "c = CHR 0x22") (auto simp: json_field_def Let_def prod_eq_iff)
  qed (use assms p in \<open>simp add: json_field_def\<close>)
  then show ?thesis using field_at_set [OF p] by blast
qed

lemma byte_of_char_of_byte: "byte_of_char (char_of_byte b) = b"
proof -
  have "unat b < 256" using unsigned_less [where ?'a = nat, of b] by simp
  then show ?thesis by (simp add: byte_of_char_def char_of_byte_def)
qed

lemma cstr_no_nul: "no_nul (cstr bs)"
  by (auto simp: no_nul_def cstr_def list_all_iff byte_of_char_of_byte dest!: set_takeWhileD)

text \<open>The key of an accepted post is one the store can hold.\<close>

lemma posted_key:
  assumes "field_ok (cstr bs) ''key'' SERIALCFG_KEY_LEN = Some key" and "key \<noteq> []"
  shows "valid_key key"
proof -
  have f: "json_field (cstr bs) ''key'' SERIALCFG_KEY_LEN = (True, Some key)"
    using assms(1) by (auto simp: field_ok_def split: prod.splits bool.splits)
  have "no_nul key" using json_field_set [OF f] cstr_no_nul [of bs] by (auto simp: no_nul_def list_all_iff)
  moreover have "length key < SERIALCFG_KEY_LEN" using json_field_bound [OF f] by (simp add: SERIALCFG_KEY_LEN_def)
  ultimately show ?thesis using assms(2) by (simp add: valid_key_def)
qed

definition serial_saved :: "bool \<Rightarrow> string" where
  "serial_saved a = fmt_s 64 (''{'' @ joined [jfield ''saved'' ''true'', jfield ''applied'' (json_bool a)] @ ''}'')"

text \<open>The attached device has the key, and its coding is not an RFC 2217 client's.\<close>

definition live_target :: "string \<Rightarrow> usb_state \<Rightarrow> bool" where
  "live_target key S \<longleftrightarrow> us_connected S \<and> us_lc_source S \<noteq> 2 \<and> fmt_s SERIALCFG_KEY_LEN (us_key S) = key"

lemma apply_live_usb:
  "apply_live (Some (usb_ops D N)) key l src (S, w) =
     (if live_target key S then (case usb_apply_lc D l src (S, w) of (e, sw) \<Rightarrow> (e = ESP_OK, sw)) else (False, (S, w)))"
  by (simp add: apply_live_def source_get_serial_info_def source_apply_line_coding_def src_op_def usb_ops_def
      usb_op_get_serial_info_def live_target_def Let_def)

definition lc_range :: "lc \<Rightarrow> bool" where
  "lc_range l \<longleftrightarrow> 300 \<le> baud l \<and> baud l \<le> 4000000 \<and> 5 \<le> bits l \<and> bits l \<le> 8 \<and> parity l \<le> 4 \<and> stop l \<le> 2"

lemma of_int_range:
  assumes "0 \<le> lo" and "lo \<le> n" and "n \<le> hi" and "hi < 2 ^ LENGTH('a)"
  shows "(of_int lo :: 'a::len word) \<le> of_int n" and "(of_int n :: 'a word) \<le> of_int hi"
  using assms by (simp_all add: word_le_def uint_word_of_int)

lemma num_field_range: "num_field b k lo hi = Some n \<Longrightarrow> lo \<le> n \<and> n \<le> hi"
  by (auto simp: num_field_def Let_def split: option.splits if_splits)

lemma posted_lc_range: "lc_range (posted_lc b)"
proof -
  have 1: "(300 :: u32) \<le> of_int n \<and> (of_int n :: u32) \<le> 4000000" if "num_field b ''baud'' 300 4000000 = Some n" for n
    using of_int_range [of 300 n 4000000, where 'a = 32] num_field_range [OF that] by simp
  have 2: "(5 :: u8) \<le> of_int n \<and> (of_int n :: u8) \<le> 8" if "num_field b ''bits'' 5 8 = Some n" for n
    using of_int_range [of 5 n 8, where 'a = 8] num_field_range [OF that] by simp
  have 3: "(of_int n :: u8) \<le> 4" if "num_field b ''parity'' 0 4 = Some n" for n
    using of_int_range [of 0 n 4, where 'a = 8] num_field_range [OF that] by simp
  have 4: "(of_int n :: u8) \<le> 2" if "num_field b ''stop'' 0 2 = Some n" for n
    using of_int_range [of 0 n 2, where 'a = 8] num_field_range [OF that] by simp
  show ?thesis
    using 1 2 3 4 by (simp add: lc_range_def posted_lc_def Let_def serialcfg_default_def SERIALCFG_DEFAULT_BAUD_def
        split: option.split)
qed

text \<open>a post with a key that is answered with success has stored the posted coding, within the ranges
  the driver knows, under that key; and the attached device has it at once exactly if the answer says so,
  which needs that it has that key and no RFC 2217 client set its coding, and which a driver that does not
  fail then grants.\<close>

theorem serial_post_live:
  assumes "nvs_laws N" and "tbl_inv (tbl N w)"
    and frame: "\<forall>h l v k. serialcfg_lookup N (snd (cdc_lc_set D h l v)) k = serialcfg_lookup N v k"
    and key: "field_ok (cstr (read_body 256 evs body)) ''key'' SERIALCFG_KEY_LEN = Some key"
    and put: "\<not> json_field_truthy (cstr (read_body 256 evs body)) ''delete''"
    and l: "l = posted_lc (cstr (read_body 256 evs body))"
    and run: "h_serial_post (nvs_dev N) (Some (usb_ops D N)) evs body (S, w) = (HttpOk msg, (S', w'))"
  shows "lc_range l \<and> serialcfg_lookup N w' key = Some l \<and>
    (\<exists>a. msg = serial_saved a \<and> S' = (if a then S\<lparr>us_lc := l, us_lc_source := 1\<rparr> else S) \<and>
      (a \<longrightarrow> live_target key S) \<and> (live_target key S \<and> (\<forall>h l v. fst (cdc_lc_set D h l v) = ESP_OK) \<longrightarrow> a))"
proof -
  let ?l = "posted_lc (cstr (read_body 256 evs body))"
  have ne: "key \<noteq> []" using run key by (auto simp: h_serial_post_def)
  obtain e w1 where up: "serialcfg_upsert N key ?l w = (e, w1)" by (metis surj_pair)
  obtain a S2 w2 where live: "apply_live (Some (usb_ops D N)) key ?l 1 (S, w1) = (a, (S2, w2))" by (metis surj_pair)
  have e: "e = ESP_OK" "msg = serial_saved a" "S' = S2" "w' = w2"
    using run key put ne up live
    by (auto simp: h_serial_post_def dev_upsert serial_saved_def split: if_splits)
  have "tbl N w1 = tbl_upsert key ?l (tbl N w)" "nvs_open N scfg_ns NVS_READONLY w1 = ESP_OK"
    using upsert_tbl [OF assms(1) posted_key [OF key ne]] up e(1) by auto
  then have look: "serialcfg_lookup N w1 key = Some ?l"
    using tbl_lookup_upsert [OF assms(2), of key ?l key] ne by (simp add: serialcfg_lookup_tbl)
  have set: "serialcfg_lookup N (snd (snd (usb_apply_lc D ?l 1 (S, w1)))) key = Some ?l"
    using look frame by (simp add: usb_apply_lc_def split: prod.split option.split) (metis snd_conv)
  have "serialcfg_lookup N w2 key = Some ?l"
    using live look set by (auto simp: apply_live_usb split: if_splits prod.splits)
  moreover have "S2 = (if a then S\<lparr>us_lc := ?l, us_lc_source := 1\<rparr> else S)"
    using live by (auto simp: apply_live_usb usb_apply_lc_def split: if_splits prod.splits option.splits)
  moreover have "a \<longrightarrow> live_target key S" using live by (auto simp: apply_live_usb split: if_splits)
  moreover have "a" if "live_target key S" "\<forall>h l v. fst (cdc_lc_set D h l v) = ESP_OK"
    using live that by (auto simp: apply_live_usb usb_apply_lc_def split: prod.splits option.splits if_splits)
      (metis fst_conv)+
  ultimately show ?thesis using posted_lc_range [of "cstr (read_body 256 evs body)"] e unfolding l by blast
qed

definition serial_ex :: string where
  "serial_ex = jobject [(''key'', JText ''1A86:7523''), (''baud'', JRaw ''9600'')]"

definition stick_ex :: usb_state where
  "stick_ex = (y_S (source_usb_init ()))\<lparr>us_connected := True, us_key := ''1A86:7523'', us_cdc := Some 1, us_is_vcp := True\<rparr>"

lemma serial_ex_body: "cstr (read_body 256 [Got 64] (bytes serial_ex)) = serial_ex"
proof -
  have l: "length serial_ex = 31" "no_nul serial_ex"
    by (simp_all add: serial_ex_def jobject_def jmember_def jval_text_def byte_of_char_def escaped_def esc_char_def)
  then have "read_body 256 [Got 64] (bytes serial_ex) = bytes serial_ex" by (intro read_one) simp_all
  then show ?thesis using cstr_bytes [OF l(2)] by simp
qed

lemma serial_ex_fields:
  "field_ok serial_ex ''key'' SERIALCFG_KEY_LEN = Some ''1A86:7523''" "\<not> json_field_truthy serial_ex ''delete''"
  by (simp_all add: serial_ex_def field_ok_def json_field_def json_field_truthy_def jobject_def jmember_def jval_text_def
      escaped_def esc_char_def field_at_def json_needle_def fmt_s_def blank_def SERIALCFG_KEY_LEN_def)

lemma serial_post_live_witness:
  "\<exists>l S' w'. h_serial_post (nvs_dev nvs_ram) (Some (usb_ops cdc_null nvs_ram)) [Got 64] (bytes serial_ex)
      (stick_ex, Map.empty) = (HttpOk (serial_saved True), (S', w')) \<and> us_lc S' = l \<and>
    serialcfg_lookup nvs_ram w' ''1A86:7523'' = Some l"
proof -
  obtain res S' w' where run: "h_serial_post (nvs_dev nvs_ram) (Some (usb_ops cdc_null nvs_ram)) [Got 64]
      (bytes serial_ex) (stick_ex, Map.empty) = (res, (S', w'))" by (metis surj_pair)
  obtain w1 where up: "serialcfg_upsert nvs_ram ''1A86:7523'' (posted_lc serial_ex) Map.empty = (ESP_OK, w1)"
    using upsert_ram [of "posted_lc serial_ex" Map.empty] by (metis prod.collapse)
  obtain msg where res: "res = HttpOk msg"
    using run by (auto simp: h_serial_post_def serial_ex_body serial_ex_fields dev_upsert up Let_def split: prod.splits)
  have live: "live_target ''1A86:7523'' stick_ex"
    by (simp add: live_target_def stick_ex_def source_usb_init_def SERIALCFG_KEY_LEN_def)
  have lk: "\<forall>h l v k. serialcfg_lookup nvs_ram (snd (cdc_lc_set cdc_null h l v)) k = serialcfg_lookup nvs_ram v k"
    "\<forall>h l v. fst (cdc_lc_set cdc_null h l v) = ESP_OK" by (simp_all add: cdc_null_def)
  have inv: "tbl_inv (tbl nvs_ram Map.empty)" by (simp add: tbl_empty_ram tbl_inv_empty)
  obtain a where a: "serialcfg_lookup nvs_ram w' ''1A86:7523'' = Some (posted_lc serial_ex)" "msg = serial_saved a"
      "S' = (if a then stick_ex\<lparr>us_lc := posted_lc serial_ex, us_lc_source := 1\<rparr> else stick_ex)" "a"
    using serial_post_live [OF nvs_ram_laws inv lk(1) _ _ refl run [unfolded res], unfolded serial_ex_body,
        OF serial_ex_fields] live lk(2) by blast
  then show ?thesis using run res by simp
qed

subsection \<open>Every configuration is well-formed\<close>

definition cfg_typed :: "cfg \<Rightarrow> bool" where
  "cfg_typed c \<longleftrightarrow> cfg_ok c \<and> tcp_port c \<noteq> 0 \<and> wdt_timeout_s c \<noteq> 0"

lemma length_jfield: "length (jfield k v) = length k + length v + 3"
  by (simp add: jfield_def quoted_def)

lemma length_json_bool: "length (json_bool b) \<le> 5"
  by (simp add: json_bool_def)

lemma length_quoted: "length (quoted s) = length s + 2"
  by (simp add: quoted_def)

lemma config_text_fits:
  assumes "cfg_ok c"
  shows "length (config_text c) < CONFIG_GET_BUF"
proof -
  have fits: "length (ip4 c) \<le> 15" "length (mask4 c) \<le> 15" "length (gw4 c) \<le> 15" "length (dns4 c) \<le> 15"
    "length (eth_ip c) \<le> 15" "length (eth_mask c) \<le> 15" "length (eth_gw c) \<le> 15" "length (eth_dns c) \<le> 15"
    using assms by (simp_all add: cfg_ok_def IP_CAP_def)
  show ?thesis
    using fits length_json_bool [of "static_ip c"] length_json_bool [of "eth_static_ip c"] length_json_bool [of "wdt_enable c"]
      dec_u16_length [of "tcp_port c"] dec_u32_length [of "wdt_timeout_s c"]
    by (simp add: config_text_def length_jfield length_quoted CONFIG_GET_BUF_def)
qed

subsection \<open>From one device's form to another\<close>

lemma read_loop_all:
  "length buf + length rest \<le> cap - 1 \<Longrightarrow> delivers evs \<Longrightarrow> length rest \<le> gots evs \<Longrightarrow>
    read_loop cap evs rest buf = buf @ rest"
proof (induction evs arbitrary: rest buf)
  case (Cons ev evs)
  show ?case
  proof (cases "length buf < cap - 1 \<and> rest \<noteq> []")
    case True
    show ?thesis
    proof (cases ev)
      case (Got n)
      define d where "d = take (min n (cap - 1 - length buf)) rest"
      have n: "0 < n" using Cons.prems(2) Got by (simp add: delivers_def)
      then have d: "d \<noteq> []" "length d \<le> length rest" using True by (auto simp: d_def)
      have "read_loop cap evs (drop (length d) rest) (buf @ d) = (buf @ d) @ drop (length d) rest"
      proof (rule Cons.IH)
        show "length (drop (length d) rest) \<le> gots evs"
          using Cons.prems(3) d Got by (cases d) (auto simp: gots_def)
      qed (use Cons.prems(1,2) d in \<open>auto simp: delivers_def\<close>)
      moreover have "d @ drop (length d) rest = rest" unfolding d_def by (metis append_take_drop_id append_eq_conv_conj)
      moreover have "read_loop cap (ev # evs) rest buf = read_loop cap evs (drop (length d) rest) (buf @ d)"
        using conjunct1 [OF True] d(1) by (simp only: read_loop.simps Got recv_ev.case Let_def if_True if_False flip: d_def)
      ultimately show ?thesis by simp
    qed (use Cons True in \<open>auto simp: delivers_def gots_def\<close>)
  next
    case False
    then have "rest = []" using Cons.prems(1) by (cases rest) auto
    then show ?thesis using Cons by (cases ev) (auto simp: delivers_def gots_def Let_def)
  qed
qed (simp add: gots_def)

lemma no_nul_append [simp]: "no_nul (a @ b) \<longleftrightarrow> no_nul a \<and> no_nul b"
  by (simp add: no_nul_def)

lemma no_nul_dec: "no_nul (dec n)"
proof -
  have "byte_of_char c \<noteq> 0" if "is_digit c" for c
  proof -
    have "(of_char c :: nat) \<noteq> 0" using that by (auto simp: is_digit_def digit_val_def Let_def split: if_splits)
    then show ?thesis using unat_byte_of_char [of c] by auto
  qed
  then show ?thesis using dec_digits [of n] by (auto simp: no_nul_def list_all_iff)
qed

lemma no_nul_plain: "plain_text s \<Longrightarrow> no_nul s"
proof -
  have "byte_of_char c \<noteq> 0" if "0x20 \<le> (of_char c :: nat)" for c using that unat_byte_of_char [of c] by auto
  then show "plain_text s \<Longrightarrow> no_nul s" by (auto simp: plain_text_def no_nul_def list_all_iff)
qed

lemma no_nul_config: "cfg_plain c \<Longrightarrow> no_nul (config_text c)"
  using no_nul_plain
  by (simp add: config_text_def cfg_plain_def cfg_texts_def jfield_def quoted_def json_bool_def no_nul_dec byte_of_char_def)

text \<open>C27: what one device's form shows, sent to a device (this one later or another, with any settings of its own)
  in whatever pieces the socket delivers all of it, makes that device load the same configuration after its next boot, or the post is
  answered by 500 because saving failed.  This needs a configuration whose addresses are free of quotes, backslashes
  and control characters and are no key of the form (the page prints texts as they are), with a timeout of 30
  to 2147483647 seconds and with complete static addresses.\<close>

theorem config_get_post:
  assumes "nvs_laws N2" and "nvs_str_fit N" and "nvs_str_fit N2"
    and "cfg_plain (config_load N w)" and "\<not> wifi_incomplete (config_load N w)" and "\<not> eth_incomplete (config_load N w)"
    and "h_config_get N w = HttpOk t" and "delivers evs" and "length t \<le> gots evs"
    and "h_config_post N2 evs (bytes t) w2 = (res, w3)"
  shows "(res = HttpOk saved_answer \<and> config_load N2 w3 = config_load N w) \<or>
    (res = HttpErr 500 ''save failed'' \<and> fst (config_save N2 (config_load N w) w2) \<noteq> ESP_OK)"
proof -
  have t: "t = config_text (config_load N w)" using assms(7) by (simp add: h_config_get_def)
  have "length t < 512" using config_text_fits [OF config_load_ok [OF assms(2)], of w] by (simp add: t CONFIG_GET_BUF_def)
  then have "read_body CONFIG_BODY evs (bytes t) = bytes t"
    using read_loop_all [of "[]" "bytes t" CONFIG_BODY evs] assms(8,9) by (simp add: read_body_def CONFIG_BODY_def)
  then have b: "cstr (read_body CONFIG_BODY evs (bytes t)) = t" using cstr_bytes no_nul_config [OF assms(4)] t by simp
  have o: "config_overlay t (config_load N2 w2) = config_load N w" unfolding t by (rule form_overlay [OF assms(4)])
  show ?thesis
    using post_runs [OF assms(1,3,10)] assms(5,6) unfolding b o Let_def by (auto split: if_splits)
qed

definition shown_dev :: nvs_mem where
  "shown_dev = snd (config_save nvs_ram cfg_shown Map.empty)"

lemma shown_load: "config_load nvs_ram shown_dev = cfg_shown"
proof -
  have "cfg_ok cfg_shown" by (simp add: cfg_ok_def cfg_shown_def config_default_def IP_CAP_def)
  from config_saved [OF nvs_ram_laws this, of Map.empty shown_dev] show ?thesis
    using save_ram [of cfg_shown Map.empty]
    by (simp add: shown_dev_def prod_eq_iff cfg_norm_def cfg_shown_def config_default_def CONFIG_WDT_TIMEOUT_DEFAULT_def)
qed

lemma config_get_post_witness:
  "\<exists>w3. h_config_post nvs_ram (RecvTimeout # replicate 512 (Got 100)) (bytes (config_text cfg_shown)) Map.empty =
      (HttpOk saved_answer, w3) \<and> config_load nvs_ram w3 = cfg_shown"
proof -
  let ?evs = "RecvTimeout # replicate 512 (Got 100)"
  obtain res w3 where run: "h_config_post nvs_ram ?evs (bytes (config_text cfg_shown)) Map.empty = (res, w3)" by (metis surj_pair)
  have "length (config_text cfg_shown) \<le> gots ?evs"
    using config_text_fits [of cfg_shown] config_load_ok [OF nvs_ram_fit, of shown_dev]
    by (simp add: shown_load CONFIG_GET_BUF_def gots_def)
  moreover have "delivers ?evs" by (auto simp: delivers_def)
  moreover have "\<not> wifi_incomplete cfg_shown" "\<not> eth_incomplete cfg_shown"
    by (simp_all add: wifi_incomplete_def eth_incomplete_def cfg_shown_def config_default_def)
  ultimately show ?thesis
    using config_get_post [OF nvs_ram_laws nvs_ram_fit nvs_ram_fit, of shown_dev "config_text cfg_shown" ?evs Map.empty res w3]
      run save_ram cfg_shown_plain by (auto simp: shown_load h_config_get_def)
qed

subsection \<open>All configurations\<close>

text \<open>C31: every configuration the device works with is well-formed, whatever the store holds and
  whatever is posted: the texts fit their arrays, port and timeout are not zero, and its text fits the buffer
  of the page.\<close>

theorem config_typed:
  assumes "nvs_str_fit N"
  shows "cfg_typed (config_load N w) \<and> cfg_typed (config_overlay body (config_load N w)) \<and>
    (\<forall>msg. h_config_get N w = HttpOk msg \<longrightarrow> length msg < CONFIG_GET_BUF)"
  using config_load_ok [OF assms] config_load_nonzero [of N w] overlay_ok overlay_nonzero config_text_fits
  by (simp add: cfg_typed_def h_config_get_def)

lemma config_typed_witness: "cfg_typed (config_overlay post_ex (config_load nvs_ram (\<lambda>_. None)))"
  using config_typed [OF nvs_ram_fit] by blast

end
