(* ===== verification/Health.thy ===== *)
theory Health
  imports Nvs
begin

text \<open>
  \<^verbatim>\<open>health.c\<close>: counters of boots, crashes and connectivity reboots, kept in the namespace
  \<^verbatim>\<open>cdc2net\<close>.  The results of the writes are not looked at by the code.
\<close>

subsection \<open>State and operations\<close>

datatype reset_reason =
    RST_UNKNOWN | RST_POWERON | RST_EXT | RST_SW | RST_PANIC | RST_INT_WDT | RST_TASK_WDT | RST_WDT
  | RST_DEEPSLEEP | RST_BROWNOUT | RST_SDIO | RST_USB | RST_JTAG | RST_EFUSE | RST_PWR_GLITCH | RST_CPU_LOCKUP

record health =
  s_boot :: u32
  s_crash :: u32
  s_wdt_reboots :: u32
  s_wdt_subscribed :: bool

definition health_zero :: health where
  "health_zero = \<lparr>s_boot = 0, s_crash = 0, s_wdt_reboots = 0, s_wdt_subscribed = False\<rparr>"

definition HEALTH_NS :: string where "HEALTH_NS = ''cdc2net''"

definition K_BOOT :: string where "K_BOOT = ''boot_cnt''"

definition K_CRASH :: string where "K_CRASH = ''crash_cnt''"

definition K_WDTRB :: string where "K_WDTRB = ''wdt_reboots''"

definition nvs_u32_or_0 :: "'w nvs_api \<Rightarrow> string \<Rightarrow> 'w \<Rightarrow> u32" where
  "nvs_u32_or_0 N k w = (case nvs_get_u32 N HEALTH_NS k w of Some v \<Rightarrow> v | None \<Rightarrow> 0)"

definition is_crash :: "reset_reason \<Rightarrow> bool" where
  "is_crash r \<longleftrightarrow> r \<in> {RST_PANIC, RST_TASK_WDT, RST_INT_WDT, RST_WDT, RST_BROWNOUT}"

definition health_boot_init :: "'w nvs_api \<Rightarrow> reset_reason \<Rightarrow> health \<times> 'w \<Rightarrow> health \<times> 'w" where
  "health_boot_init N r hw =
     (case hw of (h, w) \<Rightarrow>
        if nvs_open N HEALTH_NS NVS_READWRITE w \<noteq> ESP_OK then (h, w)
        else
          let boot = nvs_u32_or_0 N K_BOOT w + 1;
              crash = nvs_u32_or_0 N K_CRASH w + (if is_crash r then 1 else 0);
              h' = h\<lparr>s_boot := boot, s_crash := crash, s_wdt_reboots := nvs_u32_or_0 N K_WDTRB w\<rparr>;
              w1 = snd (nvs_set_u32 N HEALTH_NS K_BOOT boot w);
              w2 = (if is_crash r then snd (nvs_set_u32 N HEALTH_NS K_CRASH crash w1) else w1)
          in (h', snd (nvs_commit N HEALTH_NS w2)))"

definition health_note_connectivity_reboot :: "'w nvs_api \<Rightarrow> health \<times> 'w \<Rightarrow> health \<times> 'w" where
  "health_note_connectivity_reboot N hw =
     (case hw of (h, w) \<Rightarrow>
        if nvs_open N HEALTH_NS NVS_READWRITE w \<noteq> ESP_OK then (h, w)
        else
          let v = nvs_u32_or_0 N K_WDTRB w + 1
          in (h\<lparr>s_wdt_reboots := v\<rparr>, snd (nvs_commit N HEALTH_NS (snd (nvs_set_u32 N HEALTH_NS K_WDTRB v w)))))"

definition health_set_wdt_subscribed :: "bool \<Rightarrow> health \<Rightarrow> health" where
  "health_set_wdt_subscribed on h = h\<lparr>s_wdt_subscribed := on\<rparr>"

text \<open>\<^verbatim>\<open>reset_reason_str\<close> of the status page.\<close>

fun reset_reason_str :: "reset_reason \<Rightarrow> string" where
  "reset_reason_str RST_POWERON = ''POWERON''"
| "reset_reason_str RST_EXT = ''EXT''"
| "reset_reason_str RST_SW = ''SW''"
| "reset_reason_str RST_PANIC = ''PANIC''"
| "reset_reason_str RST_INT_WDT = ''INT_WDT''"
| "reset_reason_str RST_TASK_WDT = ''TASK_WDT''"
| "reset_reason_str RST_WDT = ''WDT''"
| "reset_reason_str RST_DEEPSLEEP = ''DEEPSLEEP''"
| "reset_reason_str RST_BROWNOUT = ''BROWNOUT''"
| "reset_reason_str RST_SDIO = ''SDIO''"
| "reset_reason_str RST_USB = ''USB''"
| "reset_reason_str RST_JTAG = ''JTAG''"
| "reset_reason_str RST_EFUSE = ''EFUSE''"
| "reset_reason_str RST_PWR_GLITCH = ''PWR_GLITCH''"
| "reset_reason_str RST_CPU_LOCKUP = ''CPU_LOCKUP''"
| "reset_reason_str RST_UNKNOWN = ''UNKNOWN''"

subsection \<open>Counting\<close>

text \<open>
  The life of a device: boots, each with the reason of the reset before it and with the statics of the
  program zeroed, and reboots of the connectivity watchdog.
\<close>

datatype life = Boot reset_reason | ConnReboot

fun live :: "'w nvs_api \<Rightarrow> life \<Rightarrow> health \<times> 'w \<Rightarrow> health \<times> 'w" where
  "live N (Boot r) hw = health_boot_init N r (health_zero, snd hw)"
| "live N ConnReboot hw = health_note_connectivity_reboot N hw"

definition boots :: "life list \<Rightarrow> nat" where
  "boots ls = length (filter (\<lambda>l. case l of Boot _ \<Rightarrow> True | _ \<Rightarrow> False) ls)"

definition crashes :: "life list \<Rightarrow> nat" where
  "crashes ls = length (filter (\<lambda>l. case l of Boot r \<Rightarrow> is_crash r | _ \<Rightarrow> False) ls)"

definition conn_reboots :: "life list \<Rightarrow> nat" where
  "conn_reboots ls = length (filter (\<lambda>l. l = ConnReboot) ls)"

text \<open>A store whose writes succeed.\<close>

definition nvs_works :: "'w nvs_api \<Rightarrow> bool" where
  "nvs_works N \<longleftrightarrow> (\<forall>ns m w. nvs_open N ns m w = ESP_OK) \<and> (\<forall>ns k v w. fst (nvs_set_u32 N ns k v w) = ESP_OK)"

lemma stored_after:
  assumes "nvs_laws N" and "nvs_works N"
  shows "nvs_u32_or_0 N k' (snd (nvs_set_u32 N HEALTH_NS k v w)) = (if k' = k then v else nvs_u32_or_0 N k' w)"
proof -
  have ok: "fst (nvs_set_u32 N HEALTH_NS k v w) = ESP_OK" using assms(2) unfolding nvs_works_def by blast
  have both: "nvs_write_frame N HEALTH_NS k w (nvs_set_u32 N HEALTH_NS k v w) \<and>
      (fst (nvs_set_u32 N HEALTH_NS k v w) = ESP_OK \<longrightarrow> nvs_get_u32 N HEALTH_NS k (snd (nvs_set_u32 N HEALTH_NS k v w)) = Some v)"
    using assms(1) unfolding nvs_laws_def by simp
  then have frame: "nvs_write_frame N HEALTH_NS k w (nvs_set_u32 N HEALTH_NS k v w)" by blast
  have "nvs_get_u32 N HEALTH_NS k (snd (nvs_set_u32 N HEALTH_NS k v w)) = Some v" using both ok by blast
  moreover have "k' \<noteq> k \<Longrightarrow> nvs_get_u32 N HEALTH_NS k' (snd (nvs_set_u32 N HEALTH_NS k v w)) = nvs_get_u32 N HEALTH_NS k' w"
    using frame unfolding nvs_write_frame_def nvs_view_def by (metis prod.inject)
  ultimately show ?thesis by (simp add: nvs_u32_or_0_def)
qed

lemma stored_commit: "nvs_laws N \<Longrightarrow> nvs_u32_or_0 N k (snd (nvs_commit N ns w)) = nvs_u32_or_0 N k w"
  using nvs_commitD(1) [of N ns w HEALTH_NS k] by (simp add: nvs_u32_or_0_def nvs_view_def)

lemma health_keys [simp]: "K_BOOT \<noteq> K_CRASH" "K_BOOT \<noteq> K_WDTRB" "K_CRASH \<noteq> K_WDTRB"
    "K_CRASH \<noteq> K_BOOT" "K_WDTRB \<noteq> K_BOOT" "K_WDTRB \<noteq> K_CRASH"
  by (simp_all add: K_BOOT_def K_CRASH_def K_WDTRB_def)

text \<open>What one event adds to the three stored counters, and that a boot shows them.\<close>

lemma live_step:
  assumes "nvs_laws N" and "nvs_works N" and "live N l (h, w) = (h', w')"
  shows "nvs_u32_or_0 N K_BOOT w' = nvs_u32_or_0 N K_BOOT w + of_nat (boots [l])"
    and "nvs_u32_or_0 N K_CRASH w' = nvs_u32_or_0 N K_CRASH w + of_nat (crashes [l])"
    and "nvs_u32_or_0 N K_WDTRB w' = nvs_u32_or_0 N K_WDTRB w + of_nat (conn_reboots [l])"
    and "boots [l] = 1 \<Longrightarrow> s_boot h' = nvs_u32_or_0 N K_BOOT w' \<and> s_crash h' = nvs_u32_or_0 N K_CRASH w' \<and>
      s_wdt_reboots h' = nvs_u32_or_0 N K_WDTRB w'"
proof -
  note stored [simp] = stored_after [OF assms(1,2)] stored_commit [OF assms(1)]
  have op: "nvs_open N ns m v = ESP_OK" for ns m v using assms(2) by (simp add: nvs_works_def)
  note run = assms(3)
  show "nvs_u32_or_0 N K_BOOT w' = nvs_u32_or_0 N K_BOOT w + of_nat (boots [l])"
    and "nvs_u32_or_0 N K_CRASH w' = nvs_u32_or_0 N K_CRASH w + of_nat (crashes [l])"
    and "nvs_u32_or_0 N K_WDTRB w' = nvs_u32_or_0 N K_WDTRB w + of_nat (conn_reboots [l])"
    and "boots [l] = 1 \<Longrightarrow> s_boot h' = nvs_u32_or_0 N K_BOOT w' \<and> s_crash h' = nvs_u32_or_0 N K_CRASH w' \<and>
      s_wdt_reboots h' = nvs_u32_or_0 N K_WDTRB w'"
    using run by (cases l; auto simp: health_boot_init_def health_note_connectivity_reboot_def op Let_def boots_def
        crashes_def conn_reboots_def)+
qed

lemma live_all:
  assumes "nvs_laws N" and "nvs_works N" and "fold (live N) ls (h, w) = (h', w')"
  shows "nvs_u32_or_0 N K_BOOT w' = nvs_u32_or_0 N K_BOOT w + of_nat (boots ls) \<and>
    nvs_u32_or_0 N K_CRASH w' = nvs_u32_or_0 N K_CRASH w + of_nat (crashes ls) \<and>
    nvs_u32_or_0 N K_WDTRB w' = nvs_u32_or_0 N K_WDTRB w + of_nat (conn_reboots ls)"
  using assms(3)
proof (induction ls arbitrary: h w)
  case Nil
  then show ?case by (simp add: boots_def crashes_def conn_reboots_def)
next
  case (Cons l ls)
  obtain h1 w1 where l: "live N l (h, w) = (h1, w1)" by (metis surj_pair)
  have "boots (l # ls) = boots [l] + boots ls" "crashes (l # ls) = crashes [l] + crashes ls"
    "conn_reboots (l # ls) = conn_reboots [l] + conn_reboots ls"
    by (simp_all add: boots_def crashes_def conn_reboots_def)
  then show ?case using Cons.IH [of h1 w1] Cons.prems live_step(1-3) [OF assms(1,2) l] by (simp add: l)
qed

text \<open>over any life of the device on a working store, the counters a boot reports are the numbers of boots,
  of boots after a crash and of connectivity reboots since the store was empty (modulo 2^32): each boot and
  crash counts once, and the reboot of the connectivity watchdog is attributed to it across the reset.\<close>

theorem health_counts:
  assumes "nvs_laws N" and "nvs_works N" and "\<forall>k. nvs_u32_or_0 N k w = 0"
    and "fold (live N) (ls @ [Boot r]) (h, w) = (h', w')"
  shows "s_boot h' = of_nat (boots (ls @ [Boot r])) \<and> s_crash h' = of_nat (crashes (ls @ [Boot r])) \<and>
    s_wdt_reboots h' = of_nat (conn_reboots ls)"
proof -
  obtain h1 w1 where "fold (live N) ls (h, w) = (h1, w1)" by (metis surj_pair)
  then have "live N (Boot r) (h1, w1) = (h', w')" using assms(4) by simp
  from live_step(4) [OF assms(1,2) this] live_all [OF assms(1,2,4)] assms(3)
  show ?thesis by (simp add: boots_def conn_reboots_def)
qed

lemma health_counts_witness:
  "s_crash (fst (fold (live nvs_ram) ([Boot RST_POWERON, Boot RST_PANIC, ConnReboot] @ [Boot RST_SW])
      (health_zero, Map.empty))) = 1"
proof -
  have "nvs_works nvs_ram" "\<forall>k. nvs_u32_or_0 nvs_ram k Map.empty = 0"
    by (simp_all add: nvs_works_def nvs_ram_def nvs_u32_or_0_def)
  then show ?thesis
    using health_counts [OF nvs_ram_laws, of Map.empty "[Boot RST_POWERON, Boot RST_PANIC, ConnReboot]" RST_SW health_zero]
    by (simp add: crashes_def is_crash_def prod_eq_iff)
qed

end
