(* ===== verification/Net.thy ===== *)
theory Net
  imports Config
begin

text \<open>
  \<^verbatim>\<open>net.c\<close> and the events of \<^verbatim>\<open>net_eth.c\<close>: the station and its retries, the open captive access point with
  its teardown, the supervisor and the connectivity watchdog.  The static variables are the record
  \<open>net\<close>, to which the positions of the tasks are added.  The event handlers run in one task, one after
  the other; the other tasks interleave with them, at the points where the step relation below cuts
  them.  The calls of the Wi-Fi driver, of the network interfaces and of the scheduler are recorded
  in \<open>n_calls\<close>; \<open>call_ok E\<close> says which of them succeed.  A call under \<^verbatim>\<open>ESP_ERROR_CHECK\<close> that fails
  resets the device, which is \<open>None\<close>.  A build without Ethernet is one in which no Ethernet event occurs.
\<close>

subsection \<open>State\<close>

type_synonym ip4 = "u8 \<times> u8 \<times> u8 \<times> u8"

datatype wifi_mode = MODE_STA | MODE_APSTA

datatype net_task = TaskDns | TaskRecovery | TaskTeardown | TaskFallback | TaskWdt

datatype net_if = IfSta | IfEth

datatype net_call =
    WifiConnect | WifiSetMode wifi_mode | WifiStaConfig string string | WifiApConfig string | WifiStart
  | WifiMaxTx nat | Spawn net_task | DhcpStop net_if | DhcpStart net_if | SetIp net_if string string string
  | SetDns net_if string | EthInit | EthStart

datatype td_pc = TdNone | TdWait | TdEnd

datatype fb_pc = FbNone | FbWait | FbStart

datatype dns_pc = DnsNone | DnsOpen | DnsRun | DnsClosing

record net_env =
  call_ok :: "net_call \<Rightarrow> bool"
  base_mac :: "u8 \<times> u8"
  tulx_build :: bool
  built_ssid :: string
  built_pass :: string
  driver_creds :: "(string \<times> string) option"

record net_disc_evt =
  ts_ms :: u32
  reason :: u8
  rssi :: "8 word"

record net =
  n_connected :: bool
  n_retry :: nat
  n_external :: bool
  n_ssid :: string
  n_pass :: string
  n_ip :: string
  n_gw :: string
  n_host :: string
  n_ap_ssid :: string
  n_last_us :: int
  n_cfg :: cfg
  n_ap :: bool
  n_ap_clients :: nat
  n_pending :: bool
  n_teardown :: td_pc
  n_fallback :: fb_pc
  n_recov :: bool
  n_wdt :: bool
  n_dns :: dns_pc
  n_dns_stop :: bool
  n_eth_up :: bool
  n_eth_ip :: string
  n_eth_gw :: string
  n_got_ip :: bool
  n_fail :: bool
  n_scan_done :: bool
  n_disc :: "net_disc_evt list"
  n_disc_head :: u32
  n_disc_total :: u32
  n_calls :: "net_call list"

definition MAX_RETRY :: nat where "MAX_RETRY = 8"

definition NET_DISC_HISTORY_MAX :: nat where "NET_DISC_HISTORY_MAX = 8"

definition ip_str :: "ip4 \<Rightarrow> string" where
  "ip_str a = (case a of (x, y, z, u) \<Rightarrow>
     dec (unat x) @ ''.'' @ dec (unat y) @ ''.'' @ dec (unat z) @ ''.'' @ dec (unat u))"

definition no_ip :: string where "no_ip = ''0.0.0.0''"

definition emit :: "net_call \<Rightarrow> net \<Rightarrow> net" where
  "emit c s = s\<lparr>n_calls := n_calls s @ [c]\<rparr>"

text \<open>\<^verbatim>\<open>ESP_ERROR_CHECK\<close> of a call.\<close>

definition checked :: "net_env \<Rightarrow> net_call \<Rightarrow> net \<Rightarrow> net option" where
  "checked E c s = (if call_ok E c then Some (emit c s) else None)"

text \<open>\<^verbatim>\<open>"%02X"\<close>.\<close>

definition hex2 :: "u8 \<Rightarrow> string" where
  "hex2 b = [hex_digit (unat b div 16), hex_digit (unat b mod 16)]"

definition compute_names :: "net_env \<Rightarrow> net \<Rightarrow> net" where
  "compute_names E s =
     (if n_host s \<noteq> [] then s
      else
        let suffix = hex2 (fst (base_mac E)) @ hex2 (snd (base_mac E))
        in s\<lparr>n_host := fmt_s 24 (''cdc2net-'' @ suffix), n_ap_ssid := fmt_s 33 (''CDC2NET '' @ suffix)\<rparr>)"

subsection \<open>The history of disconnects\<close>

definition disc_record :: "u8 \<Rightarrow> 8 word \<Rightarrow> u32 \<Rightarrow> net \<Rightarrow> net" where
  "disc_record r q t s =
     s\<lparr>n_disc := (n_disc s)[unat (n_disc_head s) mod NET_DISC_HISTORY_MAX := \<lparr>ts_ms = t, reason = r, rssi = q\<rparr>],
       n_disc_head := n_disc_head s + 1, n_disc_total := n_disc_total s + 1\<rparr>"

definition net_disc_history :: "nat \<Rightarrow> net \<Rightarrow> net_disc_evt list" where
  "net_disc_history cap s =
     (let h = n_disc_head s;
          n = min cap (if unat h < NET_DISC_HISTORY_MAX then unat h else NET_DISC_HISTORY_MAX)
      in map (\<lambda>i. n_disc s ! (unat (h - 1 - of_nat i) mod NET_DISC_HISTORY_MAX)) [0..<n])"

subsection \<open>Uplink and getters\<close>

definition net_uplink_is_up :: "net \<Rightarrow> bool" where
  "net_uplink_is_up s \<longleftrightarrow> n_connected s \<or> n_eth_up s"

definition net_is_connected :: "net \<Rightarrow> bool" where
  "net_is_connected s \<longleftrightarrow> n_eth_up s \<or> n_connected s"

definition net_wifi_ip_str :: "net \<Rightarrow> string" where
  "net_wifi_ip_str s = (if n_ap s \<and> \<not> n_connected s then ''192.168.4.1'' else n_ip s)"

definition net_ip_str :: "net \<Rightarrow> string" where
  "net_ip_str s = (if n_eth_up s then n_eth_ip s else if n_ap s \<and> \<not> n_connected s then ''192.168.4.1'' else n_ip s)"

definition net_gw_str :: "net \<Rightarrow> string" where
  "net_gw_str s = (if n_eth_up s then n_eth_gw s else n_gw s)"

definition net_ssid :: "net \<Rightarrow> string" where
  "net_ssid s = (if n_ap s \<and> \<not> n_connected s then n_ap_ssid s else if n_ssid s \<noteq> [] then n_ssid s else ''(none)'')"

subsection \<open>The captive access point\<close>

definition spawn_dns :: "net_env \<Rightarrow> net \<Rightarrow> net" where
  "spawn_dns E s =
     (if n_dns s \<noteq> DnsNone then s
      else (emit (Spawn TaskDns) s)\<lparr>n_dns := (if call_ok E (Spawn TaskDns) then DnsOpen else DnsNone)\<rparr>)"

definition spawn_recovery :: "net_env \<Rightarrow> net \<Rightarrow> net" where
  "spawn_recovery E s =
     (if n_recov s then s else (emit (Spawn TaskRecovery) s)\<lparr>n_recov := call_ok E (Spawn TaskRecovery)\<rparr>)"

definition net_start_softap :: "net_env \<Rightarrow> net \<Rightarrow> net option" where
  "net_start_softap E s =
     (if n_ap s then Some s
      else if n_eth_up s then Some s
      else
        let s0 = compute_names E s
        in case checked E (WifiSetMode MODE_APSTA) s0 of
             None \<Rightarrow> None
           | Some s1 \<Rightarrow>
               (case checked E (WifiApConfig (take 32 (n_ap_ssid s1))) s1 of
                  None \<Rightarrow> None
                | Some s2 \<Rightarrow>
                    let s3 = spawn_dns E ((emit WifiStart s2)\<lparr>n_ap := True, n_dns_stop := False\<rparr>)
                    in Some (if n_ssid s3 \<noteq> [] then spawn_recovery E s3 else s3)))"

definition net_stop_softap :: "net \<Rightarrow> net" where
  "net_stop_softap s =
     (if \<not> n_ap s then s
      else emit (WifiSetMode MODE_STA) (s\<lparr>n_dns_stop := True, n_ap := False, n_ap_clients := 0\<rparr>))"

definition net_note_uplink_up :: "net_env \<Rightarrow> net \<Rightarrow> net" where
  "net_note_uplink_up E s =
     (if n_ap s \<and> \<not> n_pending s
      then (emit (Spawn TaskTeardown) s)\<lparr>n_pending := True,
             n_teardown := (if call_ok E (Spawn TaskTeardown) then TdWait else n_teardown s)\<rparr>
      else s)"

text \<open>\<^verbatim>\<open>deferred_ap_teardown_task\<close> after its delay: the check, and the end behind it.\<close>

definition teardown_check :: "net \<Rightarrow> net" where
  "teardown_check s = (if net_uplink_is_up s \<and> n_ap s then net_stop_softap s else s)\<lparr>n_teardown := TdEnd\<rparr>"

definition teardown_end :: "net \<Rightarrow> net" where
  "teardown_end s = s\<lparr>n_pending := False, n_teardown := TdNone\<rparr>"

text \<open>\<^verbatim>\<open>deferred_ap_fallback_task\<close> after its delay: the check, and the start behind it.\<close>

definition fallback_check :: "net \<Rightarrow> net" where
  "fallback_check s = s\<lparr>n_fallback := (if \<not> net_is_connected s \<and> \<not> n_ap s then FbStart else FbNone)\<rparr>"

definition fallback_start :: "net_env \<Rightarrow> net \<Rightarrow> net option" where
  "fallback_start E s = map_option (\<lambda>s. s\<lparr>n_fallback := FbNone\<rparr>) (net_start_softap E s)"

subsection \<open>Events\<close>

datatype wifi_ev =
    EvStaStart | EvDisconnected "(u8 \<times> 8 word) option" u32 | EvGotIp ip4 ip4 int | EvScanDone | EvApJoined | EvApLeft

definition on_disconnected :: "net_env \<Rightarrow> (u8 \<times> 8 word) option \<Rightarrow> u32 \<Rightarrow> net \<Rightarrow> net option" where
  "on_disconnected E dis t s =
     (let (r, q) = (case dis of Some d \<Rightarrow> d | None \<Rightarrow> (0, 0)); s1 = disc_record r q t (s\<lparr>n_connected := False\<rparr>)
      in if n_external s1 then Some s1
         else if n_retry s1 < MAX_RETRY \<and> n_ssid s1 \<noteq> [] then Some (emit WifiConnect (s1\<lparr>n_retry := n_retry s1 + 1\<rparr>))
         else if n_ssid s1 \<noteq> [] then net_start_softap E (s1\<lparr>n_fail := True\<rparr>)
         else Some s1)"

fun event_cb :: "net_env \<Rightarrow> wifi_ev \<Rightarrow> net \<Rightarrow> net option" where
  "event_cb E EvStaStart s = Some (if \<not> n_external s \<and> n_ssid s \<noteq> [] then emit WifiConnect s else s)"
| "event_cb E (EvDisconnected dis t) s = on_disconnected E dis t s"
| "event_cb E (EvGotIp ip gw now) s =
     Some (net_note_uplink_up E
       (s\<lparr>n_connected := True, n_retry := 0, n_last_us := now, n_ip := fmt_s 16 (ip_str ip), n_gw := fmt_s 16 (ip_str gw),
          n_got_ip := True\<rparr>))"
| "event_cb E EvScanDone s = Some (s\<lparr>n_scan_done := True\<rparr>)"
| "event_cb E EvApJoined s = Some (s\<lparr>n_ap_clients := n_ap_clients s + 1\<rparr>)"
| "event_cb E EvApLeft s = Some (s\<lparr>n_ap_clients := n_ap_clients s - 1\<rparr>)"

datatype eth_ev = EthConnected | EthDisconnected | EthStarted | EthStopped | EthGotIp ip4 ip4

fun eth_event_handler :: "net_env \<Rightarrow> eth_ev \<Rightarrow> net \<Rightarrow> net" where
  "eth_event_handler E EthConnected s = s"
| "eth_event_handler E EthDisconnected s = s\<lparr>n_eth_up := False, n_eth_ip := no_ip, n_eth_gw := no_ip\<rparr>"
| "eth_event_handler E EthStarted s = s"
| "eth_event_handler E EthStopped s = s\<lparr>n_eth_up := False\<rparr>"
| "eth_event_handler E (EthGotIp ip gw) s =
     net_note_uplink_up E (s\<lparr>n_eth_ip := fmt_s 16 (ip_str ip), n_eth_gw := fmt_s 16 (ip_str gw), n_eth_up := True\<rparr>)"

subsection \<open>Supervisor, watchdog and external control\<close>

text \<open>One period of \<^verbatim>\<open>sta_recovery_task\<close>.\<close>

definition sta_recovery_tick :: "net \<Rightarrow> net" where
  "sta_recovery_tick s =
     (if n_external s then s
      else if n_connected s then s
      else if n_ssid s = [] then s
      else emit WifiConnect (if n_ap s then s\<lparr>n_retry := 0\<rparr> else s))"

text \<open>One period of \<^verbatim>\<open>net_wdt_task\<close>: whether the device restarts.\<close>

definition net_wdt_tick :: "int \<Rightarrow> net \<Rightarrow> bool \<times> net" where
  "net_wdt_tick now s =
     (if net_is_connected s \<or> 0 < n_ap_clients s \<or> n_ssid s = [] then (False, s\<lparr>n_last_us := now\<rparr>)
      else (now - n_last_us s > int (unat (wdt_timeout_s (n_cfg s))) * 1000000, s))"

definition net_set_external_control :: "bool \<Rightarrow> net \<Rightarrow> net" where
  "net_set_external_control on s =
     (let s1 = s\<lparr>n_external := on\<rparr>
      in if \<not> on \<and> \<not> n_connected s1 \<and> \<not> n_ap s1 \<and> n_ssid s1 \<noteq> [] then emit WifiConnect (s1\<lparr>n_retry := 0\<rparr>) else s1)"

subsection \<open>Credentials\<close>

definition NET_NVS_NS :: string where "NET_NVS_NS = ''cdc2net''"

definition NET_NVS_SSID :: string where "NET_NVS_SSID = ''wifi_ssid''"

definition NET_NVS_PASS :: string where "NET_NVS_PASS = ''wifi_pass''"

text \<open>The result is whether \<^verbatim>\<open>ESP_OK\<close> was returned.\<close>

definition load_creds :: "net_env \<Rightarrow> 'w nvs_api \<Rightarrow> 'w \<Rightarrow> net \<Rightarrow> bool \<times> net" where
  "load_creds E N w s =
     (if built_ssid E \<noteq> [] then (True, s\<lparr>n_ssid := fmt_s 33 (built_ssid E), n_pass := fmt_s 65 (built_pass E)\<rparr>)
      else if nvs_open N NET_NVS_NS NVS_READONLY w \<noteq> ESP_OK then (False, s)
      else case nvs_get_str N NET_NVS_NS NET_NVS_SSID 33 w of
        None \<Rightarrow> (False, s)
      | Some ssid \<Rightarrow>
          (case nvs_get_str N NET_NVS_NS NET_NVS_PASS 65 w of
             None \<Rightarrow> (False, s\<lparr>n_ssid := ssid\<rparr>)
           | Some pass \<Rightarrow> (True, s\<lparr>n_ssid := ssid, n_pass := pass\<rparr>)))"

definition net_persist_creds ::
  "'w nvs_api \<Rightarrow> string \<Rightarrow> string option \<Rightarrow> net \<times> 'w \<Rightarrow> esp_err \<times> (net \<times> 'w)" where
  "net_persist_creds N ssid psk sw =
     (let err = nvs_open N NET_NVS_NS NVS_READWRITE (snd sw); pass = (case psk of Some p \<Rightarrow> p | None \<Rightarrow> [])
      in if err \<noteq> ESP_OK then (err, sw)
         else case fold also_set
             [nvs_set_str N NET_NVS_NS NET_NVS_SSID ssid, nvs_set_str N NET_NVS_NS NET_NVS_PASS pass, nvs_commit N NET_NVS_NS]
             (ESP_OK, snd sw) of
           (e, w') \<Rightarrow>
             (e, (if e = ESP_OK then (fst sw)\<lparr>n_ssid := fmt_s 33 ssid, n_pass := fmt_s 65 pass\<rparr> else fst sw, w')))"

definition net_clear_creds :: "'w nvs_api \<Rightarrow> net \<times> 'w \<Rightarrow> esp_err \<times> (net \<times> 'w)" where
  "net_clear_creds N sw =
     (let err = nvs_open N NET_NVS_NS NVS_READWRITE (snd sw)
      in if err \<noteq> ESP_OK then (err, sw)
         else
           let w1 = snd (nvs_erase_key N NET_NVS_NS NET_NVS_SSID (snd sw));
               w2 = snd (nvs_erase_key N NET_NVS_NS NET_NVS_PASS w1)
           in case nvs_commit N NET_NVS_NS w2 of
                (e, w') \<Rightarrow> (e, (if e = ESP_OK then (fst sw)\<lparr>n_ssid := [], n_pass := []\<rparr> else fst sw, w')))"

definition net_has_creds :: "net_env \<Rightarrow> 'w nvs_api \<Rightarrow> 'w \<Rightarrow> bool" where
  "net_has_creds E N w \<longleftrightarrow>
     built_ssid E \<noteq> [] \<or>
     nvs_open N NET_NVS_NS NVS_READONLY w = ESP_OK \<and>
     (case nvs_get_str N NET_NVS_NS NET_NVS_SSID 33 w of Some ssid \<Rightarrow> ssid \<noteq> [] | None \<Rightarrow> False)"

subsection \<open>Bring-up\<close>

definition net_boot :: net where
  "net_boot =
     \<lparr>n_connected = False, n_retry = 0, n_external = False, n_ssid = [], n_pass = [], n_ip = no_ip, n_gw = no_ip,
      n_host = [], n_ap_ssid = [], n_last_us = 0, n_cfg = config_default, n_ap = False, n_ap_clients = 0,
      n_pending = False, n_teardown = TdNone, n_fallback = FbNone, n_recov = False, n_wdt = False, n_dns = DnsNone,
      n_dns_stop = False, n_eth_up = False, n_eth_ip = no_ip, n_eth_gw = no_ip, n_got_ip = False, n_fail = False,
      n_scan_done = False, n_disc = replicate NET_DISC_HISTORY_MAX \<lparr>ts_ms = 0, reason = 0, rssi = 0\<rparr>,
      n_disc_head = 0, n_disc_total = 0, n_calls = []\<rparr>"

text \<open>
  A static address: the DHCP client is stopped and the address set.  The station of \<^verbatim>\<open>net.c\<close> always
  sets the DNS server and leaves the client stopped when the address is refused; the Ethernet side of
  \<^verbatim>\<open>net_eth.c\<close> starts it again.
\<close>

definition sta_static :: "net_env \<Rightarrow> net \<Rightarrow> net" where
  "sta_static E s =
     (let c = n_cfg s; set = SetIp IfSta (ip4 c) (mask4 c) (gw4 c)
      in if \<not> static_ip c then s
         else if call_ok E set then emit (SetDns IfSta (dns4 c)) (emit set (emit (DhcpStop IfSta) s))
         else emit set (emit (DhcpStop IfSta) s))"

definition eth_static :: "net_env \<Rightarrow> cfg \<Rightarrow> net \<Rightarrow> net" where
  "eth_static E c s =
     (let set = SetIp IfEth (eth_ip c) (eth_mask c) (eth_gw c)
      in if eth_static_ip c \<and> eth_ip c \<noteq> [] \<and> eth_mask c \<noteq> [] \<and> eth_gw c \<noteq> []
         then (if call_ok E set
               then (let s1 = emit set (emit (DhcpStop IfEth) s)
                     in if eth_dns c \<noteq> [] then emit (SetDns IfEth (eth_dns c)) s1 else s1)
               else emit (DhcpStart IfEth) (emit set (emit (DhcpStop IfEth) s)))
         else s)"

text \<open>\<^verbatim>\<open>net_eth_init\<close>: without a chip (\<^verbatim>\<open>EthInit\<close> fails) Ethernet stays off.\<close>

definition net_eth_init :: "net_env \<Rightarrow> 'w nvs_api \<Rightarrow> 'w \<Rightarrow> net \<Rightarrow> net option" where
  "net_eth_init E N w s =
     (if \<not> call_ok E EthInit then Some (emit EthInit s)
      else checked E EthStart (eth_static E (config_load N w) (emit EthInit s)))"

definition adopt_creds :: "net_env \<Rightarrow> bool \<times> net \<Rightarrow> bool \<times> net" where
  "adopt_creds E r =
     (case r of (have, s) \<Rightarrow>
        if tulx_build E \<and> \<not> have
        then (case driver_creds E of
                Some (ssid, pass) \<Rightarrow>
                  if ssid \<noteq> [] then (True, s\<lparr>n_ssid := take 32 ssid, n_pass := take 64 pass\<rparr>) else r
              | None \<Rightarrow> r)
        else r)"

text \<open>The station with credentials, and without.\<close>

definition start_sta :: "net_env \<Rightarrow> bool \<Rightarrow> net \<Rightarrow> net option" where
  "start_sta E have s =
     (let cap = (\<lambda>s. if tulx_build E then emit (WifiMaxTx 72) s else s)
      in case checked E (WifiSetMode MODE_STA) s of None \<Rightarrow> None
         | Some s1 \<Rightarrow>
             if have
             then (case checked E (WifiStaConfig (take 32 (n_ssid s1)) (take 64 (n_pass s1))) s1 of None \<Rightarrow> None
                   | Some s2 \<Rightarrow>
                       (case checked E WifiStart s2 of None \<Rightarrow> None
                        | Some s3 \<Rightarrow> Some (spawn_recovery E (cap s3))))
             else (case checked E WifiStart s1 of None \<Rightarrow> None
                   | Some s3 \<Rightarrow>
                       Some ((emit (Spawn TaskFallback) (cap s3))\<lparr>n_fallback :=
                         (if call_ok E (Spawn TaskFallback) then FbWait else FbNone)\<rparr>)))"

text \<open>\<^verbatim>\<open>net_init\<close> behind the bring-up of NVS, TCP/IP stack and driver; \<open>with_eth\<close> is the build flag.\<close>

definition net_init :: "net_env \<Rightarrow> bool \<Rightarrow> 'w nvs_api \<Rightarrow> 'w \<Rightarrow> int \<Rightarrow> net option" where
  "net_init E with_eth N w now =
     (case load_creds E N w net_boot of (ok, s0) \<Rightarrow>
      case adopt_creds E (ok \<and> n_ssid s0 \<noteq> [], s0) of (have, s1) \<Rightarrow>
        let s2 = sta_static E ((compute_names E s1)\<lparr>n_cfg := config_load N w, n_last_us := now\<rparr>)
        in case Option.bind (start_sta E have s2) (if with_eth then net_eth_init E N w else Some) of
             None \<Rightarrow> None
           | Some s3 \<Rightarrow>
               Some (if wdt_enable (n_cfg s3)
                     then (emit (Spawn TaskWdt) s3)\<lparr>n_wdt := call_ok E (Spawn TaskWdt)\<rparr> else s3))"

subsection \<open>Credentials survive a reboot\<close>

lemma nvs_set_strD:
  assumes "nvs_laws N" and "nvs_set_str N ns k v w = (ESP_OK, w')"
  shows "k' \<noteq> k \<Longrightarrow> nvs_view N w' ns k' = nvs_view N w ns k'" and "nvs_open N ns NVS_READONLY w' = ESP_OK"
    and "length v < cap \<Longrightarrow> nvs_get_str N ns k cap w' = Some v"
proof -
  have "nvs_write_frame N ns k w (nvs_set_str N ns k v w) \<and>
      (fst (nvs_set_str N ns k v w) = ESP_OK \<longrightarrow> length v < cap \<longrightarrow>
         nvs_get_str N ns k cap (snd (nvs_set_str N ns k v w)) = Some v)"
    using assms(1) unfolding nvs_laws_def by simp
  then show "k' \<noteq> k \<Longrightarrow> nvs_view N w' ns k' = nvs_view N w ns k'" "nvs_open N ns NVS_READONLY w' = ESP_OK"
    "length v < cap \<Longrightarrow> nvs_get_str N ns k cap w' = Some v"
    using assms(2) by (auto simp: nvs_write_frame_def)
qed

lemma nvs_view_str: "nvs_view N w ns k = nvs_view N w' ns k \<Longrightarrow> nvs_get_str N ns k cap w = nvs_get_str N ns k cap w'"
  by (simp add: nvs_view_def fun_eq_iff)

text \<open>credentials that were persisted without an error are those in use at once and those the next boot loads, and
  the provisioning window sees that there are some.\<close>

theorem creds_roundtrip:
  assumes "nvs_laws N" and "built_ssid E = []" and "length ssid < 33" and "length psk < 65"
    and "net_persist_creds N ssid (Some psk) (s, w) = (ESP_OK, (s', w'))"
  shows "load_creds E N w' b = (True, b\<lparr>n_ssid := ssid, n_pass := psk\<rparr>) \<and> n_ssid s' = ssid \<and> n_pass s' = psk \<and>
    net_has_creds E N w' = (ssid \<noteq> [])"
proof -
  obtain e1 w1 where 1: "nvs_set_str N NET_NVS_NS NET_NVS_SSID ssid w = (e1, w1)" by (metis surj_pair)
  obtain e2 w2 where 2: "nvs_set_str N NET_NVS_NS NET_NVS_PASS psk w1 = (e2, w2)" by (metis surj_pair)
  have e: "e1 = ESP_OK" "e2 = ESP_OK" "nvs_commit N NET_NVS_NS w2 = (ESP_OK, w')"
    "s' = s\<lparr>n_ssid := ssid, n_pass := psk\<rparr>"
    using assms(3-5) 1 2 by (auto simp: net_persist_creds_def Let_def also_set_def split: if_splits prod.splits)
  note w1 = nvs_set_strD [OF assms(1) 1 [unfolded e]] and w2 = nvs_set_strD [OF assms(1) 2 [unfolded e]]
  have view: "nvs_view N w' ns k = nvs_view N w2 ns k" "nvs_open N ns m w' = nvs_open N ns m w2" for ns k m
    using nvs_commitD [OF assms(1), where ns = NET_NVS_NS and w = w2] e(3) by simp_all
  have "nvs_view N w2 NET_NVS_NS NET_NVS_SSID = nvs_view N w1 NET_NVS_NS NET_NVS_SSID"
    by (rule w2(1)) (simp add: NET_NVS_SSID_def NET_NVS_PASS_def)
  then have "nvs_get_str N NET_NVS_NS NET_NVS_SSID 33 w' = Some ssid"
    using w1(3) [of 33] assms(3) view(1) by (metis nvs_view_str)
  moreover have "nvs_get_str N NET_NVS_NS NET_NVS_PASS 65 w' = Some psk"
    using w2(3) [of 65] assms(4) view(1) by (metis nvs_view_str)
  moreover have "nvs_open N NET_NVS_NS NVS_READONLY w' = ESP_OK" using w2(2) view(2) by simp
  ultimately show ?thesis using assms(2) e(4) by (simp add: load_creds_def net_has_creds_def)
qed

definition env_ok :: net_env where
  "env_ok = \<lparr>call_ok = (\<lambda>c. True), base_mac = (0xAB, 0x12), tulx_build = False, built_ssid = [], built_pass = [],
     driver_creds = None\<rparr>"

lemma creds_roundtrip_witness:
  "\<exists>s' w'. net_persist_creds nvs_ram ''home'' (Some ''secret'') (net_boot, Map.empty) = (ESP_OK, (s', w')) \<and>
    n_ssid (snd (load_creds env_ok nvs_ram w' net_boot)) = ''home''"
proof -
  obtain e s' w' where r: "net_persist_creds nvs_ram ''home'' (Some ''secret'') (net_boot, Map.empty) = (e, (s', w'))"
    by (metis surj_pair)
  then have "e = ESP_OK" by (auto simp: net_persist_creds_def also_set_def nvs_ram_def Let_def)
  then show ?thesis
    using creds_roundtrip [OF nvs_ram_laws, of env_ok "''home''" "''secret''" net_boot Map.empty s' w' net_boot] r
    by (simp add: env_ok_def)
qed

subsection \<open>The history holds the last disconnects\<close>

text \<open>\<open>evs\<close> are the disconnects since boot.\<close>

definition disc_holds :: "net \<Rightarrow> net_disc_evt list \<Rightarrow> bool" where
  "disc_holds s evs \<longleftrightarrow>
     length (n_disc s) = NET_DISC_HISTORY_MAX \<and> n_disc_head s = of_nat (length evs) \<and> n_disc_total s = of_nat (length evs) \<and>
     (\<forall>i<length evs. length evs \<le> i + NET_DISC_HISTORY_MAX \<longrightarrow> n_disc s ! (i mod NET_DISC_HISTORY_MAX) = evs ! i)"

lemma disc_holds_boot: "disc_holds net_boot []"
  by (simp add: disc_holds_def net_boot_def)

lemma slot_other:
  fixes i n :: nat
  assumes "i < n" and "n < i + 8"
  shows "i mod 8 \<noteq> n mod 8"
proof
  assume "i mod 8 = n mod 8"
  then have "8 dvd n - i" using assms(1) by (metis mod_eq_dvd_iff_nat less_imp_le)
  then show False using assms by (auto dest: dvd_imp_le)
qed

lemma disc_holds_record:
  assumes "disc_holds s evs" and "length evs + 1 < 2 ^ 32"
  shows "disc_holds (disc_record r q t s) (evs @ [\<lparr>ts_ms = t, reason = r, rssi = q\<rparr>])"
proof -
  let ?n = "length evs"
  have h: "unat (n_disc_head s) = ?n" using assms by (simp add: disc_holds_def unat_of_nat)
  have len: "length (n_disc s) = 8" using assms(1) by (simp add: disc_holds_def NET_DISC_HISTORY_MAX_def)
  have "n_disc (disc_record r q t s) ! (i mod 8) = (evs @ [\<lparr>ts_ms = t, reason = r, rssi = q\<rparr>]) ! i"
    if "i < ?n + 1" "?n + 1 \<le> i + 8" for i
  proof (cases "i = ?n")
    case True
    then show ?thesis using len by (simp add: disc_record_def h NET_DISC_HISTORY_MAX_def)
  next
    case False
    then have i: "i < ?n" "?n < i + 8" using that by auto
    then have "n_disc s ! (i mod 8) = evs ! i" using assms(1) by (simp add: disc_holds_def NET_DISC_HISTORY_MAX_def)
    then show ?thesis using slot_other [OF i] i
      by (simp add: disc_record_def h NET_DISC_HISTORY_MAX_def nth_append)
  qed
  then show ?thesis using assms(1) by (simp add: disc_holds_def disc_record_def NET_DISC_HISTORY_MAX_def)
qed

lemma disc_history_holds:
  assumes "disc_holds s evs" and "length evs < 2 ^ 32"
  shows "net_disc_history cap s = take (min cap NET_DISC_HISTORY_MAX) (rev evs)"
proof (rule nth_equalityI)
  let ?n = "length evs"
  have h: "n_disc_head s = of_nat ?n" "unat (n_disc_head s) = ?n"
    using assms by (simp_all add: disc_holds_def unat_of_nat)
  show len: "length (net_disc_history cap s) = length (take (min cap NET_DISC_HISTORY_MAX) (rev evs))"
    by (simp add: net_disc_history_def h(2) Let_def min_def)
  fix i
  assume "i < length (net_disc_history cap s)"
  then have i: "i < ?n" "i < 8" "i < cap" by (simp_all add: len NET_DISC_HISTORY_MAX_def)
  have "n_disc_head s - 1 - of_nat i = of_nat (?n - 1 - i)" using i(1) by (simp add: h(1) of_nat_diff)
  then have "unat (n_disc_head s - 1 - of_nat i) = ?n - 1 - i" using assms(2) by (simp add: unat_of_nat)
  then have "net_disc_history cap s ! i = n_disc s ! ((?n - 1 - i) mod 8)"
    using i by (simp add: net_disc_history_def h(2) Let_def NET_DISC_HISTORY_MAX_def)
  also have "\<dots> = evs ! (?n - 1 - i)" using assms(1) i by (simp add: disc_holds_def NET_DISC_HISTORY_MAX_def)
  finally show "net_disc_history cap s ! i = take (min cap NET_DISC_HISTORY_MAX) (rev evs) ! i"
    using i by (simp add: NET_DISC_HISTORY_MAX_def rev_nth)
qed

end
