(* ===== verification/NetRun.thy ===== *)
theory NetRun
  imports Net
begin

text \<open>
  The network state machine of \<^verbatim>\<open>net.c\<close> as a step relation: handlers of events, and the points at which
  the tasks act.  A run is taken under a condition \<open>Q\<close> on its steps, which names the interleavings a
  property needs to exclude.
\<close>

subsection \<open>Steps and runs\<close>

datatype net_act =
    Wifi wifi_ev | Eth eth_ev | TeardownCheck | TeardownEnd | FallbackCheck | FallbackStart | Supervisor
  | WdtTick int | DnsBound | DnsFailed | DnsLoopEnd | DnsExit | External bool | Provision | Forget

inductive net_step :: "net_env \<Rightarrow> 'w nvs_api \<Rightarrow> net_act \<Rightarrow> net \<Rightarrow> net \<Rightarrow> bool" for E N where
  step_wifi: "event_cb E ev s = Some s' \<Longrightarrow> net_step E N (Wifi ev) s s'"
| step_eth: "net_step E N (Eth ev) s (eth_event_handler E ev s)"
| step_td_check: "n_teardown s = TdWait \<Longrightarrow> net_step E N TeardownCheck s (teardown_check s)"
| step_td_end: "n_teardown s = TdEnd \<Longrightarrow> net_step E N TeardownEnd s (teardown_end s)"
| step_fb_check: "n_fallback s = FbWait \<Longrightarrow> net_step E N FallbackCheck s (fallback_check s)"
| step_fb_start: "n_fallback s = FbStart \<Longrightarrow> fallback_start E s = Some s' \<Longrightarrow> net_step E N FallbackStart s s'"
| step_supervisor: "n_recov s \<Longrightarrow> net_step E N Supervisor s (sta_recovery_tick s)"
| step_wdt: "n_wdt s \<Longrightarrow> net_wdt_tick now s = (False, s') \<Longrightarrow> net_step E N (WdtTick now) s s'"
| step_dns_bound: "n_dns s = DnsOpen \<Longrightarrow> net_step E N DnsBound s (s\<lparr>n_dns := DnsRun\<rparr>)"
| step_dns_failed: "n_dns s = DnsOpen \<Longrightarrow> net_step E N DnsFailed s (s\<lparr>n_dns := DnsNone\<rparr>)"
| step_dns_end: "n_dns s = DnsRun \<Longrightarrow> n_dns_stop s \<Longrightarrow> net_step E N DnsLoopEnd s (s\<lparr>n_dns := DnsClosing\<rparr>)"
| step_dns_exit: "n_dns s = DnsClosing \<Longrightarrow> net_step E N DnsExit s (s\<lparr>n_dns := DnsNone, n_dns_stop := False\<rparr>)"
| step_external: "net_step E N (External on) s (net_set_external_control on s)"
| step_provision: "net_persist_creds N ssid psk (s, w) = (e, (s', w')) \<Longrightarrow> net_step E N Provision s s'"
| step_forget: "net_clear_creds N (s, w) = (e, (s', w')) \<Longrightarrow> net_step E N Forget s s'"

inductive net_run :: "(net \<Rightarrow> net_act \<Rightarrow> bool) \<Rightarrow> net_env \<Rightarrow> 'w nvs_api \<Rightarrow> net \<Rightarrow> net_act list \<Rightarrow> net \<Rightarrow> bool"
  for Q E N s0 where
  run_start: "net_run Q E N s0 [] s0"
| run_step: "net_run Q E N s0 tr s \<Longrightarrow> Q s a \<Longrightarrow> net_step E N a s s' \<Longrightarrow> net_run Q E N s0 (tr @ [a]) s'"

lemma run_inv:
  assumes "net_run Q E N s0 tr s" and "I s0" and "\<And>s a s'. I s \<Longrightarrow> Q s a \<Longrightarrow> net_step E N a s s' \<Longrightarrow> I s'"
  shows "I s"
  using assms(1) by induction (use assms(2,3) in blast)+

subsection \<open>What the helpers leave alone\<close>

lemma emit_sel [simp]:
  "n_connected (emit c s) = n_connected s" "n_retry (emit c s) = n_retry s" "n_external (emit c s) = n_external s"
  "n_ssid (emit c s) = n_ssid s" "n_last_us (emit c s) = n_last_us s" "n_cfg (emit c s) = n_cfg s" "n_ap (emit c s) = n_ap s"
  "n_ap_clients (emit c s) = n_ap_clients s" "n_pending (emit c s) = n_pending s" "n_teardown (emit c s) = n_teardown s"
  "n_fallback (emit c s) = n_fallback s" "n_recov (emit c s) = n_recov s" "n_wdt (emit c s) = n_wdt s"
  "n_dns (emit c s) = n_dns s" "n_dns_stop (emit c s) = n_dns_stop s" "n_eth_up (emit c s) = n_eth_up s"
  "n_disc (emit c s) = n_disc s" "n_disc_head (emit c s) = n_disc_head s" "n_disc_total (emit c s) = n_disc_total s"
  "n_calls (emit c s) = n_calls s @ [c]" "n_ap_ssid (emit c s) = n_ap_ssid s" "n_host (emit c s) = n_host s"
  "n_pass (emit c s) = n_pass s"
  by (simp_all add: emit_def)

text \<open>The part of the state the access point does not touch.\<close>

definition link_part where
  "link_part s = (n_connected s, n_retry s, n_external s, n_ssid s, n_last_us s, n_cfg s, n_pending s, n_teardown s,
     n_fallback s, n_wdt s, n_eth_up s, n_ap_clients s)"

definition disc_part where
  "disc_part s = (n_disc s, n_disc_head s, n_disc_total s)"

lemma compute_names_frame [simp]:
  "link_part (compute_names E s) = link_part s" "disc_part (compute_names E s) = disc_part s"
  "n_calls (compute_names E s) = n_calls s" "n_recov (compute_names E s) = n_recov s" "n_dns (compute_names E s) = n_dns s"
  by (simp_all add: compute_names_def link_part_def disc_part_def Let_def)

lemma emit_frame [simp]: "link_part (emit c s) = link_part s" "disc_part (emit c s) = disc_part s"
  by (simp_all add: link_part_def disc_part_def)

lemma spawn_frame [simp]:
  "link_part (spawn_dns E s) = link_part s" "disc_part (spawn_dns E s) = disc_part s"
  "link_part (spawn_recovery E s) = link_part s" "disc_part (spawn_recovery E s) = disc_part s"
  "n_ap (spawn_dns E s) = n_ap s" "n_ap (spawn_recovery E s) = n_ap s"
  "n_dns_stop (spawn_dns E s) = n_dns_stop s" "n_dns_stop (spawn_recovery E s) = n_dns_stop s"
  "n_recov (spawn_dns E s) = n_recov s" "n_dns (spawn_recovery E s) = n_dns s" "n_ssid (spawn_dns E s) = n_ssid s"
  by (simp_all add: spawn_dns_def spawn_recovery_def link_part_def disc_part_def)

lemma ap_part_frame [simp]:
  "link_part (s\<lparr>n_ap := b\<rparr>) = link_part s" "link_part (s\<lparr>n_dns_stop := c\<rparr>) = link_part s"
  "link_part (s\<lparr>n_fail := d\<rparr>) = link_part s" "disc_part (s\<lparr>n_ap := b\<rparr>) = disc_part s"
  "disc_part (s\<lparr>n_dns_stop := c\<rparr>) = disc_part s" "disc_part (s\<lparr>n_fail := d\<rparr>) = disc_part s"
  "link_part (s\<lparr>n_ap := b, n_dns_stop := c\<rparr>) = link_part s"
  "disc_part (s\<lparr>n_ap := b, n_dns_stop := c\<rparr>) = disc_part s"
  by (simp_all add: link_part_def disc_part_def)

text \<open>Starting the access point: nothing happens if it runs or Ethernet is up; otherwise it is up.\<close>

lemma softap_cases:
  assumes "net_start_softap E s = Some s'"
  obtains (same) "n_ap s \<or> n_eth_up s" "s' = s"
  | (up) "\<not> n_ap s" "\<not> n_eth_up s" "n_ap s'" "\<not> n_dns_stop s'" "link_part s' = link_part s" "disc_part s' = disc_part s"
      "n_dns s' = (if n_dns s \<noteq> DnsNone then n_dns s else if call_ok E (Spawn TaskDns) then DnsOpen else DnsNone)"
      "n_recov s \<Longrightarrow> n_recov s'"
proof (cases "n_ap s \<or> n_eth_up s")
  case True
  moreover from this have "s' = s" using assms by (auto simp: net_start_softap_def split: if_splits)
  ultimately show ?thesis by (rule same)
next
  case False
  let ?s0 = "compute_names E s"
  define s2 where "s2 = emit (WifiApConfig (take 32 (n_ap_ssid ?s0))) (emit (WifiSetMode MODE_APSTA) ?s0)"
  define s3 where "s3 = spawn_dns E ((emit WifiStart s2)\<lparr>n_ap := True, n_dns_stop := False\<rparr>)"
  have s': "s' = (if n_ssid s3 \<noteq> [] then spawn_recovery E s3 else s3)"
    using assms False by (auto simp: net_start_softap_def checked_def s2_def s3_def Let_def split: if_splits)
  have f: "link_part s3 = link_part s" "disc_part s3 = disc_part s" "n_ap s3" "\<not> n_dns_stop s3" "n_recov s3 = n_recov s"
    by (simp_all add: s3_def s2_def)
  have d: "n_dns s3 = (if n_dns s \<noteq> DnsNone then n_dns s else if call_ok E (Spawn TaskDns) then DnsOpen else DnsNone)"
    by (simp add: s3_def s2_def spawn_dns_def)
  have "n_recov s \<Longrightarrow> n_recov s'" using f(5) by (simp add: s' spawn_recovery_def)
  then show ?thesis using False f d up by (simp add: s')
qed

subsection \<open>The open access point does not outlive the outage\<close>

text \<open>
  The two windows a check leaves open: an uplink event between the check of a delayed task and what the
  task does next.  Where the DNS responder matters (\<open>dns\<close>), it must also not be on its way out when the access point
  starts, and its socket must have opened.
\<close>

fun is_uplink :: "net_act \<Rightarrow> bool" where
  "is_uplink (Wifi (EvGotIp ip gw now)) = True"
| "is_uplink (Eth (EthGotIp ip gw)) = True"
| "is_uplink a = False"

fun starts_ap :: "net_act \<Rightarrow> bool" where
  "starts_ap (Wifi (EvDisconnected d t)) = True"
| "starts_ap FallbackStart = True"
| "starts_ap a = False"

definition calm :: "bool \<Rightarrow> net \<Rightarrow> net_act \<Rightarrow> bool" where
  "calm dns s a \<longleftrightarrow> (is_uplink a \<longrightarrow> n_teardown s \<noteq> TdEnd \<and> n_fallback s \<noteq> FbStart) \<and>
     (dns \<longrightarrow> (starts_ap a \<longrightarrow> n_dns s \<noteq> DnsClosing) \<and> a \<noteq> DnsFailed)"

definition ap_inv :: "bool \<Rightarrow> net \<Rightarrow> bool" where
  "ap_inv dns s \<longleftrightarrow>
     (n_ap s \<and> net_uplink_is_up s \<longrightarrow> n_teardown s = TdWait) \<and> (n_pending s \<longleftrightarrow> n_teardown s \<noteq> TdNone) \<and>
     (n_fallback s = FbStart \<longrightarrow> \<not> net_uplink_is_up s) \<and>
     (dns \<longrightarrow> n_ap s \<longrightarrow> n_dns s \<in> {DnsOpen, DnsRun} \<and> \<not> n_dns_stop s) \<and> n_retry s \<le> MAX_RETRY"

text \<open>What the invariant reads.\<close>

definition ap_core where
  "ap_core s = (n_ap s, n_connected s, n_eth_up s, n_teardown s, n_pending s, n_fallback s, n_dns s, n_dns_stop s, n_retry s)"

lemma ap_inv_cong: "ap_core s' = ap_core s \<Longrightarrow> ap_inv dns s' = ap_inv dns s"
  by (simp add: ap_core_def ap_inv_def net_uplink_is_up_def)

lemma ap_inv_emit [simp]: "ap_inv dns (emit c s) = ap_inv dns s"
  by (rule ap_inv_cong) (simp add: ap_core_def)

lemma ap_inv_softap:
  assumes "ap_inv dns s" and "net_start_softap E s = Some s'" and "dns \<longrightarrow> call_ok E (Spawn TaskDns)" and "\<not> n_connected s"
    and "dns \<longrightarrow> n_dns s \<noteq> DnsClosing"
  shows "ap_inv dns s' \<and> link_part s' = link_part s"
  using assms(2)
proof (cases rule: softap_cases)
  case same
  then show ?thesis using assms(1) by simp
next
  case up
  then have "dns \<longrightarrow> n_dns s' \<in> {DnsOpen, DnsRun}" using assms(3,5) by (cases "n_dns s") simp_all
  then show ?thesis using up assms(1,4) by (auto simp: ap_inv_def link_part_def net_uplink_is_up_def)
qed

lemma ap_inv_note:
  assumes "call_ok E (Spawn TaskTeardown)" and "n_teardown s \<noteq> TdEnd" and "n_fallback s \<noteq> FbStart"
    and "n_pending s \<longleftrightarrow> n_teardown s \<noteq> TdNone" and "dns \<longrightarrow> n_ap s \<longrightarrow> n_dns s \<in> {DnsOpen, DnsRun} \<and> \<not> n_dns_stop s"
    and "n_retry s \<le> MAX_RETRY"
  shows "ap_inv dns (net_note_uplink_up E s)"
  using assms by (cases "n_teardown s") (auto simp: net_note_uplink_up_def ap_inv_def)

lemma disc_record_frame [simp]: "link_part (disc_record r q t s) = link_part s" "n_ap (disc_record r q t s) = n_ap s"
    "n_dns (disc_record r q t s) = n_dns s" "n_dns_stop (disc_record r q t s) = n_dns_stop s"
    "n_calls (disc_record r q t s) = n_calls s" "n_recov (disc_record r q t s) = n_recov s"
  by (simp_all add: disc_record_def link_part_def)

lemma disc_record_sel [simp]:
  "n_connected (disc_record r q t s) = n_connected s" "n_retry (disc_record r q t s) = n_retry s"
  "n_external (disc_record r q t s) = n_external s" "n_ssid (disc_record r q t s) = n_ssid s"
  "n_pending (disc_record r q t s) = n_pending s" "n_teardown (disc_record r q t s) = n_teardown s"
  "n_fallback (disc_record r q t s) = n_fallback s" "n_eth_up (disc_record r q t s) = n_eth_up s"
  by (simp_all add: disc_record_def)

lemma ap_inv_disconnected:
  assumes "ap_inv dns s" and "on_disconnected E d t s = Some s'" and "dns \<longrightarrow> call_ok E (Spawn TaskDns)" and "dns \<longrightarrow> n_dns s \<noteq> DnsClosing"
  shows "ap_inv dns s'"
proof -
  obtain r q where rq: "(case d of Some x \<Rightarrow> x | None \<Rightarrow> (0, 0)) = (r, q)" by (metis surj_pair)
  define s1 where "s1 = disc_record r q t (s\<lparr>n_connected := False\<rparr>)"
  have 1: "ap_inv dns s1" "\<not> n_connected s1" "dns \<longrightarrow> n_dns s1 \<noteq> DnsClosing"
    using assms(1,4) by (auto simp: s1_def ap_inv_def net_uplink_is_up_def)
  have 2: "ap_inv dns (s1\<lparr>n_fail := True\<rparr>)" "\<not> n_connected (s1\<lparr>n_fail := True\<rparr>)" "dns \<longrightarrow> n_dns (s1\<lparr>n_fail := True\<rparr>) \<noteq> DnsClosing"
    using 1 by (simp_all add: ap_inv_def net_uplink_is_up_def)
  have run: "on_disconnected E d t s =
      (if n_external s1 then Some s1
       else if n_retry s1 < MAX_RETRY \<and> n_ssid s1 \<noteq> [] then Some (emit WifiConnect (s1\<lparr>n_retry := n_retry s1 + 1\<rparr>))
       else if n_ssid s1 \<noteq> [] then net_start_softap E (s1\<lparr>n_fail := True\<rparr>) else Some s1)"
    by (simp add: on_disconnected_def rq s1_def Let_def)
  have "ap_inv dns (emit WifiConnect (s1\<lparr>n_retry := n_retry s1 + 1\<rparr>))" if "n_retry s1 < MAX_RETRY"
    using 1(1) that by (simp add: ap_inv_def net_uplink_is_up_def)
  then show ?thesis using assms(2) 1(1) ap_inv_softap [OF 2(1) _ assms(3) 2(2,3)]
    by (auto simp: run split: if_splits)
qed

lemma ap_inv_events:
  assumes "ap_inv dns s" and "calm dns s (Wifi ev)" and "event_cb E ev s = Some s'"
    and "dns \<longrightarrow> call_ok E (Spawn TaskDns)" and "call_ok E (Spawn TaskTeardown)"
  shows "ap_inv dns s'"
proof (cases ev)
  case (EvDisconnected d t)
  then show ?thesis using ap_inv_disconnected [OF assms(1) _ assms(4)] assms(2,3) by (simp add: calm_def)
next
  case (EvGotIp ip gw now)
  then have "n_teardown s \<noteq> TdEnd" "n_fallback s \<noteq> FbStart" using assms(2) by (simp_all add: calm_def)
  moreover have "n_pending s \<longleftrightarrow> n_teardown s \<noteq> TdNone" "dns \<longrightarrow> n_ap s \<longrightarrow> n_dns s \<in> {DnsOpen, DnsRun} \<and> \<not> n_dns_stop s"
    using assms(1) unfolding ap_inv_def by blast+
  ultimately have "ap_inv dns (net_note_uplink_up E (s\<lparr>n_connected := True, n_retry := 0, n_last_us := now,
      n_ip := fmt_s 16 (ip_str ip), n_gw := fmt_s 16 (ip_str gw), n_got_ip := True\<rparr>))"
    by (intro ap_inv_note assms(5)) simp_all
  then show ?thesis using assms(3) EvGotIp by simp
next
  case EvStaStart
  then show ?thesis using assms(1,3) by (cases "\<not> n_external s \<and> n_ssid s \<noteq> []") auto
next
  case EvScanDone
  then have "ap_core s' = ap_core s" using assms(3) by (auto simp: ap_core_def)
  then show ?thesis using ap_inv_cong assms(1) by blast
next
  case EvApJoined
  then have "ap_core s' = ap_core s" using assms(3) by (auto simp: ap_core_def)
  then show ?thesis using ap_inv_cong assms(1) by blast
next
  case EvApLeft
  then have "ap_core s' = ap_core s" using assms(3) by (auto simp: ap_core_def)
  then show ?thesis using ap_inv_cong assms(1) by blast
qed

lemma ap_inv_eth:
  assumes "ap_inv dns s" and "calm dns s (Eth ev)" and "call_ok E (Spawn TaskTeardown)"
  shows "ap_inv dns (eth_event_handler E ev s)"
proof (cases ev)
  case (EthGotIp ip gw)
  then have "n_teardown s \<noteq> TdEnd" "n_fallback s \<noteq> FbStart" using assms(2) by (simp_all add: calm_def)
  moreover have "n_pending s \<longleftrightarrow> n_teardown s \<noteq> TdNone" "n_retry s \<le> MAX_RETRY"
    "dns \<longrightarrow> n_ap s \<longrightarrow> n_dns s \<in> {DnsOpen, DnsRun} \<and> \<not> n_dns_stop s"
    using assms(1) unfolding ap_inv_def by blast+
  ultimately have "ap_inv dns (net_note_uplink_up E (s\<lparr>n_eth_ip := fmt_s 16 (ip_str ip), n_eth_gw := fmt_s 16 (ip_str gw),
      n_eth_up := True\<rparr>))"
    by (intro ap_inv_note assms(3)) simp_all
  then show ?thesis using EthGotIp by simp
qed (use assms(1) in \<open>auto simp: ap_inv_def net_uplink_is_up_def\<close>)

lemma persist_frame:
  "net_persist_creds N ssid psk (s, w) = (e, (s', w')) \<Longrightarrow> \<exists>a b. s' = s\<lparr>n_ssid := a, n_pass := b\<rparr>"
  by (auto simp: net_persist_creds_def Let_def split: if_splits prod.splits)
    (metis net.surjective net.update_convs(4,5))+

lemma clear_frame:
  "net_clear_creds N (s, w) = (e, (s', w')) \<Longrightarrow> \<exists>a b. s' = s\<lparr>n_ssid := a, n_pass := b\<rparr>"
  by (auto simp: net_clear_creds_def Let_def split: if_splits prod.splits)
    (metis net.surjective net.update_convs(4,5))+

lemma ap_inv_creds: "ap_inv dns (s\<lparr>n_ssid := a, n_pass := b\<rparr>) = ap_inv dns s"
  by (simp add: ap_inv_def net_uplink_is_up_def)

lemma ap_inv_fallback:
  assumes "ap_inv dns s" and "n_fallback s = FbStart" and "dns \<longrightarrow> n_dns s \<noteq> DnsClosing" and "fallback_start E s = Some s'"
    and "dns \<longrightarrow> call_ok E (Spawn TaskDns)"
  shows "ap_inv dns s'"
proof -
  obtain s1 where s1: "net_start_softap E s = Some s1" "s' = s1\<lparr>n_fallback := FbNone\<rparr>"
    using assms(4) by (auto simp: fallback_start_def)
  have "\<not> n_connected s" using assms(1,2) by (simp add: ap_inv_def net_uplink_is_up_def)
  from ap_inv_softap [OF assms(1) s1(1) assms(5) this assms(3)] show ?thesis
    by (simp add: s1(2) ap_inv_def net_uplink_is_up_def)
qed

lemma ap_inv_teardown:
  assumes "ap_inv dns s"
  shows "n_teardown s = TdWait \<Longrightarrow> ap_inv dns (teardown_check s)" and "n_teardown s = TdEnd \<Longrightarrow> ap_inv dns (teardown_end s)"
proof -
  show "ap_inv dns (teardown_check s)" if "n_teardown s = TdWait"
    using assms that by (cases "net_uplink_is_up s \<and> n_ap s")
      (auto simp: teardown_check_def net_stop_softap_def ap_inv_def net_uplink_is_up_def)
  show "ap_inv dns (teardown_end s)" if "n_teardown s = TdEnd"
    using assms that by (simp add: teardown_end_def ap_inv_def net_uplink_is_up_def)
qed

lemma ap_inv_tasks:
  assumes "ap_inv dns s"
  shows "ap_inv dns (fallback_check s)" and "ap_inv dns (sta_recovery_tick s)" and "ap_inv dns (net_set_external_control on s)"
    and "net_wdt_tick now s = (False, s') \<Longrightarrow> ap_inv dns s'"
proof -
  have r: "ap_inv dns (s\<lparr>n_retry := 0\<rparr>)" using assms by (simp add: ap_inv_def net_uplink_is_up_def)
  show "ap_inv dns (fallback_check s)"
    using assms by (cases "net_is_connected s") (simp_all add: fallback_check_def ap_inv_def net_uplink_is_up_def net_is_connected_def)
  show "ap_inv dns (sta_recovery_tick s)" using assms r by (simp add: sta_recovery_tick_def)
  have e: "ap_inv dns (s\<lparr>n_external := on\<rparr>)" "ap_inv dns (s\<lparr>n_external := on, n_retry := 0\<rparr>)"
    using assms r by (simp_all add: ap_inv_def net_uplink_is_up_def)
  show "ap_inv dns (net_set_external_control on s)" using e by (cases on) (simp_all add: net_set_external_control_def Let_def)
  show "ap_inv dns s'" if "net_wdt_tick now s = (False, s')"
  proof -
    have "ap_core s' = ap_core s" using that by (auto simp: net_wdt_tick_def ap_core_def split: if_splits)
    then show ?thesis using ap_inv_cong assms by blast
  qed
qed

lemma ap_inv_step:
  assumes "ap_inv dns s" and "calm dns s a" and "net_step E N a s s'"
    and "dns \<longrightarrow> call_ok E (Spawn TaskDns)" and "call_ok E (Spawn TaskTeardown)"
  shows "ap_inv dns s'"
  using assms(3)
proof cases
  case (step_wifi ev)
  then show ?thesis using ap_inv_events [OF assms(1) _ _ assms(4,5)] assms(2) by blast
next
  case (step_eth ev)
  then show ?thesis using ap_inv_eth [OF assms(1) _ assms(5)] assms(2) by blast
next
  case step_fb_start
  then show ?thesis using ap_inv_fallback [OF assms(1) _ _ _ assms(4)] assms(2) by (simp add: calm_def)
next
  case (step_provision ssid psk w e w')
  then show ?thesis using persist_frame assms(1) ap_inv_creds by metis
next
  case (step_forget w e w')
  then show ?thesis using clear_frame assms(1) ap_inv_creds by metis
next
  case step_dns_bound
  then show ?thesis using assms(1) by (simp add: ap_inv_def net_uplink_is_up_def)
next
  case step_dns_failed
  then show ?thesis using assms(1,2) by (auto simp: calm_def ap_inv_def net_uplink_is_up_def)
next
  case step_dns_end
  then show ?thesis using assms(1) by (auto simp: ap_inv_def net_uplink_is_up_def)
next
  case step_dns_exit
  then show ?thesis using assms(1) by (auto simp: ap_inv_def net_uplink_is_up_def)
qed (use ap_inv_teardown [OF assms(1)] ap_inv_tasks [OF assms(1)] in \<open>simp_all\<close>)

text \<open>What bring-up leaves as it is at boot.\<close>

definition boot_part where
  "boot_part s = (n_ap s, n_connected s, n_eth_up s, n_teardown s, n_pending s, n_retry s, n_dns s, n_dns_stop s,
     n_fallback s = FbStart, disc_part s, n_external s)"

lemma boot_emit [simp]: "boot_part (emit c s) = boot_part s"
  by (simp add: boot_part_def)

lemma boot_load: "load_creds E N w s = (ok, s') \<Longrightarrow> boot_part s' = boot_part s"
  by (auto simp: load_creds_def boot_part_def disc_part_def split: if_splits option.splits)

lemma boot_adopt: "adopt_creds E (h, s) = (h', s') \<Longrightarrow> boot_part s' = boot_part s"
  by (auto simp: adopt_creds_def boot_part_def disc_part_def split: if_splits option.splits prod.splits)

lemma boot_names: "boot_part ((compute_names E s)\<lparr>n_cfg := c, n_last_us := t\<rparr>) = boot_part s"
  by (simp add: compute_names_def boot_part_def disc_part_def Let_def)

lemma boot_static: "boot_part (sta_static E s) = boot_part s" "boot_part (eth_static E c s) = boot_part s"
  by (simp_all add: sta_static_def eth_static_def Let_def)

lemma boot_recovery: "boot_part (spawn_recovery E s) = boot_part s"
  by (simp add: boot_part_def spawn_recovery_def disc_part_def)

lemma boot_recov: "boot_part (s\<lparr>n_recov := b\<rparr>) = boot_part s"
  by (simp add: boot_part_def disc_part_def)

lemma boot_fallback: "p \<noteq> FbStart \<Longrightarrow> n_fallback s \<noteq> FbStart \<Longrightarrow> boot_part (s\<lparr>n_fallback := p\<rparr>) = boot_part s"
  by (simp add: boot_part_def disc_part_def)

lemma boot_start:
  assumes "start_sta E have s = Some s'" and "n_fallback s \<noteq> FbStart"
  shows "boot_part s' = boot_part s" and "have \<Longrightarrow> call_ok E (Spawn TaskRecovery) \<Longrightarrow> n_recov s'"
  using assms by (auto simp: start_sta_def checked_def Let_def boot_recov spawn_recovery_def boot_fallback split: if_splits)

lemma boot_eth: "net_eth_init E N w s = Some s' \<Longrightarrow> boot_part s' = boot_part s \<and> n_recov s' = n_recov s"
  by (auto simp: net_eth_init_def checked_def boot_static eth_static_def Let_def split: if_splits)

lemma boot_wdt: "boot_part (s\<lparr>n_wdt := b\<rparr>) = boot_part s"
  by (simp add: boot_part_def disc_part_def)

lemma net_init_boot:
  assumes "net_init E with_eth N w now = Some s"
  shows "boot_part s = boot_part net_boot"
proof -
  obtain ok s0 where l: "load_creds E N w net_boot = (ok, s0)" by (metis surj_pair)
  obtain h s1 where a: "adopt_creds E (ok \<and> n_ssid s0 \<noteq> [], s0) = (h, s1)" by (metis surj_pair)
  define s2 where "s2 = sta_static E ((compute_names E s1)\<lparr>n_cfg := config_load N w, n_last_us := now\<rparr>)"
  have 2: "boot_part s2 = boot_part net_boot" using boot_load [OF l] boot_adopt [OF a] by (simp add: s2_def boot_static boot_names)
  then have f: "n_fallback s2 \<noteq> FbStart" by (simp add: boot_part_def net_boot_def)
  from assms obtain s3 s4 where 3: "start_sta E h s2 = Some s3" "(if with_eth then net_eth_init E N w else Some) s3 = Some s4"
    and s: "s = (if wdt_enable (n_cfg s4) then (emit (Spawn TaskWdt) s4)\<lparr>n_wdt := call_ok E (Spawn TaskWdt)\<rparr> else s4)"
    by (auto simp: net_init_def l a s2_def bind_eq_Some_conv Let_def split: option.splits)
  have "boot_part s4 = boot_part s3" using 3(2) boot_eth [of E N w s3 s4] by (cases with_eth) simp_all
  then show ?thesis using boot_start(1) [OF 3(1) f] 2 by (simp add: s boot_wdt)
qed

lemma net_init_inv:
  assumes "net_init E with_eth N w now = Some s"
  shows "ap_inv dns s"
  using net_init_boot [OF assms] by (simp add: boot_part_def net_boot_def ap_inv_def)


text \<open>A fresh device without credentials whose cable is plugged in while its access point runs.\<close>

definition fresh :: net where
  "fresh = the (net_init env_ok True nvs_ram Map.empty 0)"

lemma fresh_init: "net_init env_ok True nvs_ram Map.empty 0 = Some fresh"
proof -
  have "net_init env_ok True nvs_ram Map.empty 0 \<noteq> None"
    by (simp add: net_init_def load_creds_def env_ok_def nvs_ram_def adopt_creds_def start_sta_def checked_def
        net_eth_init_def Let_def)
  then show ?thesis by (simp add: fresh_def)
qed

lemma fresh_state: "n_fallback fresh = FbWait" "\<not> n_ap fresh" "\<not> n_connected fresh" "\<not> n_eth_up fresh"
    "n_dns fresh = DnsNone" "n_teardown fresh = TdNone" "\<not> n_pending fresh"
proof -
  have "boot_part fresh = boot_part net_boot" by (rule net_init_boot [OF fresh_init])
  then show "\<not> n_ap fresh" "\<not> n_connected fresh" "\<not> n_eth_up fresh" "n_dns fresh = DnsNone" "n_teardown fresh = TdNone"
    "\<not> n_pending fresh" by (simp_all add: boot_part_def net_boot_def)
  show "n_fallback fresh = FbWait"
    by (simp add: fresh_def net_init_def load_creds_def env_ok_def nvs_ram_def adopt_creds_def start_sta_def checked_def
        net_eth_init_def eth_static_def config_load_def config_default_def get_flag_def Let_def)
qed

lemma softap_starts:
  assumes "\<And>c. call_ok E c" and "\<not> n_ap s" and "\<not> n_eth_up s"
  shows "\<exists>s'. net_start_softap E s = Some s' \<and> n_ap s' \<and> link_part s' = link_part s"
proof -
  have "\<exists>s'. net_start_softap E s = Some s'" using assms by (simp add: net_start_softap_def checked_def Let_def)
  then obtain s' where s': "net_start_softap E s = Some s'" ..
  from s' show ?thesis by (cases rule: softap_cases) (use assms s' in auto)
qed


end
