(* ===== verification/NetLife.thy ===== *)
theory NetLife
  imports NetRun
begin

text \<open>
  The network over time: the retries of the station up to the access point, the connectivity watchdog,
  the supervisor that never lets the station sit idle, and the history of disconnects.
\<close>

subsection \<open>Retries, then the access point\<close>

definition connects :: "net \<Rightarrow> nat" where
  "connects s = length (filter (\<lambda>c. c = WifiConnect) (n_calls s))"

fun disconnect_run :: "net_env \<Rightarrow> ((u8 \<times> 8 word) option \<times> u32) list \<Rightarrow> net \<Rightarrow> net option" where
  "disconnect_run E [] s = Some s"
| "disconnect_run E (d # ds) s = Option.bind (event_cb E (EvDisconnected (fst d) (snd d)) s) (disconnect_run E ds)"

definition sta_alone :: "net \<Rightarrow> bool" where
  "sta_alone s \<longleftrightarrow> n_ssid s \<noteq> [] \<and> \<not> n_external s \<and> \<not> n_eth_up s"

lemma softap_calls:
  assumes "net_start_softap E s = Some s'"
  shows "connects s' = connects s" and "sta_alone s' = sta_alone s" and "n_retry s' = n_retry s"
proof -
  show "connects s' = connects s"
  proof (cases "n_ap s \<or> n_eth_up s")
    case True
    then show ?thesis using assms by (auto simp: net_start_softap_def split: if_splits)
  next
    case False
    then show ?thesis using assms
      by (auto simp: net_start_softap_def checked_def Let_def spawn_dns_def spawn_recovery_def connects_def split: if_splits)
  qed
  show "sta_alone s' = sta_alone s" "n_retry s' = n_retry s"
    using assms by (cases rule: softap_cases; simp add: sta_alone_def link_part_def)+
qed

lemma disconnect_retries:
  assumes "sta_alone s" and "n_retry s < MAX_RETRY"
  shows "\<exists>s'. event_cb E (EvDisconnected d t) s = Some s' \<and> sta_alone s' \<and> n_retry s' = n_retry s + 1 \<and>
    connects s' = connects s + 1 \<and> n_ap s' = n_ap s"
  using assms by (auto simp: on_disconnected_def Let_def sta_alone_def connects_def split: prod.split)

lemma disconnect_gives_up:
  assumes "sta_alone s" and "n_retry s = MAX_RETRY" and "\<And>c. call_ok E c"
  shows "\<exists>s'. event_cb E (EvDisconnected d t) s = Some s' \<and> sta_alone s' \<and> n_retry s' = MAX_RETRY \<and>
    connects s' = connects s \<and> n_ap s'"
proof -
  obtain r q where rq: "(case d of Some x \<Rightarrow> x | None \<Rightarrow> (0, 0)) = (r, q)" by (metis surj_pair)
  define s1 where "s1 = (disc_record r q t (s\<lparr>n_connected := False\<rparr>))\<lparr>n_fail := True\<rparr>"
  have 1: "sta_alone s1" "n_retry s1 = MAX_RETRY" "connects s1 = connects s" "\<not> n_eth_up s1"
    using assms(1,2) by (simp_all add: s1_def sta_alone_def connects_def disc_record_def)
  have run: "event_cb E (EvDisconnected d t) s = net_start_softap E s1"
    using assms(1,2) by (simp add: on_disconnected_def rq s1_def Let_def sta_alone_def)
  show ?thesis
  proof (cases "n_ap s1")
    case True
    then have "net_start_softap E s1 = Some s1" by (simp add: net_start_softap_def)
    then show ?thesis using True 1 run by auto
  next
    case False
    then obtain s' where "net_start_softap E s1 = Some s'" "n_ap s'"
      using softap_starts [of E s1] assms(3) 1(4) by blast
    then show ?thesis using softap_calls [of E s1 s'] 1 run by auto
  qed
qed

lemma disconnect_run_count:
  assumes "\<And>c. call_ok E c"
  shows "sta_alone s \<Longrightarrow> n_retry s \<le> MAX_RETRY \<Longrightarrow>
    \<exists>s'. disconnect_run E ds s = Some s' \<and> connects s' = connects s + min (length ds) (MAX_RETRY - n_retry s) \<and>
      (n_ap s' \<longleftrightarrow> n_ap s \<or> MAX_RETRY - n_retry s < length ds)"
proof (induction ds arbitrary: s)
  case (Cons d ds)
  show ?case
  proof (cases "n_retry s < MAX_RETRY")
    case True
    obtain s1 where s1: "event_cb E (EvDisconnected (fst d) (snd d)) s = Some s1" "sta_alone s1"
      "n_retry s1 = n_retry s + 1" "connects s1 = connects s + 1" "n_ap s1 = n_ap s"
      using disconnect_retries [OF Cons.prems(1) True] by blast
    obtain s' where "disconnect_run E ds s1 = Some s'"
      "connects s' = connects s1 + min (length ds) (MAX_RETRY - n_retry s1)"
      "n_ap s' \<longleftrightarrow> n_ap s1 \<or> MAX_RETRY - n_retry s1 < length ds"
      using Cons.IH [OF s1(2)] s1(3) True by auto
    then show ?thesis using s1 True by (auto simp del: event_cb.simps)
  next
    case False
    then have r: "n_retry s = MAX_RETRY" using Cons.prems(2) by simp
    obtain s1 where s1: "event_cb E (EvDisconnected (fst d) (snd d)) s = Some s1" "sta_alone s1"
      "n_retry s1 = MAX_RETRY" "connects s1 = connects s" "n_ap s1"
      using disconnect_gives_up [OF Cons.prems(1) r assms] by blast
    then show ?thesis using Cons.IH [OF s1(2)] r by (auto simp del: event_cb.simps)
  qed
qed simp

text \<open>a station with credentials that loses its network and never gets it back asks the driver for a connection
  eight times, once per disconnect, and raises the access point at the ninth; later disconnects change nothing.\<close>

theorem retries_then_ap:
  assumes "n_ssid s \<noteq> []" and "\<not> n_external s" and "\<not> n_eth_up s" and "\<not> n_ap s" and "n_retry s = 0" and "\<forall>c. call_ok E c"
  shows "\<exists>s'. disconnect_run E ds s = Some s' \<and> connects s' = connects s + min (length ds) MAX_RETRY \<and>
    (n_ap s' \<longleftrightarrow> MAX_RETRY < length ds)"
  using disconnect_run_count [of E s ds] assms by (auto simp: sta_alone_def)

lemma retries_then_ap_witness:
  "\<exists>s'. disconnect_run env_ok (replicate 9 (None, 0)) (net_boot\<lparr>n_ssid := ''home''\<rparr>) = Some s' \<and>
    connects s' = 8 \<and> n_ap s'"
  using retries_then_ap [of "net_boot\<lparr>n_ssid := ''home''\<rparr>" env_ok "replicate 9 (None, 0)"]
  by (auto simp: net_boot_def env_ok_def connects_def MAX_RETRY_def)

subsection \<open>The connectivity watchdog\<close>

definition unattended_offline :: "net \<Rightarrow> bool" where
  "unattended_offline s \<longleftrightarrow> \<not> net_is_connected s \<and> n_ap_clients s = 0 \<and> n_ssid s \<noteq> []"

definition clock_part where
  "clock_part s = (n_last_us s, n_cfg s)"

lemma clock_emit [simp]: "clock_part (emit c s) = clock_part s"
  by (simp add: clock_part_def)

lemma clock_softap: "net_start_softap E s = Some s' \<Longrightarrow> clock_part s' = clock_part s"
  by (cases rule: softap_cases) (auto simp: clock_part_def link_part_def)

lemma clock_disconnected:
  assumes "on_disconnected E d t s = Some s'"
  shows "clock_part s' = clock_part s"
proof -
  obtain r q where rq: "(case d of Some x \<Rightarrow> x | None \<Rightarrow> (0, 0)) = (r, q)" by (metis surj_pair)
  define s1 where "s1 = disc_record r q t (s\<lparr>n_connected := False\<rparr>)"
  have 1: "clock_part s1 = clock_part s" "clock_part (s1\<lparr>n_fail := True\<rparr>) = clock_part s"
    "clock_part (s1\<lparr>n_retry := k\<rparr>) = clock_part s" for k
    by (simp_all add: s1_def clock_part_def disc_record_def)
  have run: "on_disconnected E d t s =
      (if n_external s1 then Some s1
       else if n_retry s1 < MAX_RETRY \<and> n_ssid s1 \<noteq> [] then Some (emit WifiConnect (s1\<lparr>n_retry := n_retry s1 + 1\<rparr>))
       else if n_ssid s1 \<noteq> [] then net_start_softap E (s1\<lparr>n_fail := True\<rparr>) else Some s1)"
    by (simp add: on_disconnected_def rq s1_def Let_def)
  show ?thesis using assms 1 clock_softap [of E "s1\<lparr>n_fail := True\<rparr>" s'] by (auto simp: run split: if_splits)
qed

lemma clock_note: "clock_part (net_note_uplink_up E s) = clock_part s"
  by (simp add: net_note_uplink_up_def clock_part_def)

lemma clock_small:
  "clock_part (teardown_check s) = clock_part s" "clock_part (teardown_end s) = clock_part s"
  "clock_part (fallback_check s) = clock_part s" "clock_part (sta_recovery_tick s) = clock_part s"
  "clock_part (net_set_external_control on s) = clock_part s" "clock_part (s\<lparr>n_dns := x\<rparr>) = clock_part s"
  "clock_part (s\<lparr>n_dns := x, n_dns_stop := b\<rparr>) = clock_part s" "clock_part (s\<lparr>n_fallback := f\<rparr>) = clock_part s"
  "clock_part (s\<lparr>n_ssid := a, n_pass := p\<rparr>) = clock_part s"
  by (simp_all add: teardown_check_def net_stop_softap_def teardown_end_def fallback_check_def sta_recovery_tick_def
      net_set_external_control_def Let_def clock_part_def)

lemma clock_eth: "clock_part (eth_event_handler E ev s) = clock_part s"
  by (cases ev) (simp_all add: clock_note, simp_all add: clock_part_def)

lemma clock_wifi:
  assumes "event_cb E ev s = Some s'" and "\<not> n_connected s'"
  shows "clock_part s' = clock_part s"
proof (cases ev)
  case (EvDisconnected d t)
  then show ?thesis using assms(1) clock_disconnected by simp
next
  case (EvGotIp ip gw now)
  then have "n_connected s'" using assms(1) by (auto simp: net_note_uplink_up_def)
  then show ?thesis using assms(2) by simp
qed (use assms(1) in \<open>auto simp: clock_part_def split: if_splits\<close>)

lemma clock_step:
  assumes "net_step E N a s s'" and "unattended_offline s" and "unattended_offline s'"
  shows "clock_part s' = clock_part s"
  using assms(1)
proof cases
  case (step_wifi ev)
  moreover have "\<not> n_connected s'" using assms(3) by (simp add: unattended_offline_def net_is_connected_def)
  ultimately show ?thesis using clock_wifi by blast
next
  case step_fb_start
  then show ?thesis using clock_softap clock_small by (auto simp: fallback_start_def)
next
  case (step_wdt now)
  then show ?thesis using assms(2) by (auto simp: net_wdt_tick_def unattended_offline_def clock_part_def)
next
  case (step_provision ssid psk w e w')
  then show ?thesis using persist_frame clock_small(9) by metis
next
  case (step_forget w e w')
  then show ?thesis using clear_frame clock_small(9) by metis
qed (simp_all add: clock_small clock_eth)



subsection \<open>The supervisor\<close>

lemma recov_softap: "net_start_softap E s = Some s' \<Longrightarrow> n_recov s \<Longrightarrow> n_recov s'"
  by (cases rule: softap_cases) auto

lemma recov_disconnected:
  assumes "on_disconnected E d t s = Some s'" and "n_recov s"
  shows "n_recov s'"
proof -
  obtain r q where rq: "(case d of Some x \<Rightarrow> x | None \<Rightarrow> (0, 0)) = (r, q)" by (metis surj_pair)
  show ?thesis using assms recov_softap [of E _ s']
    by (auto simp: on_disconnected_def rq Let_def split: if_splits)
qed

lemma recov_wifi: "event_cb E ev s = Some s' \<Longrightarrow> n_recov s \<Longrightarrow> n_recov s'"
  using recov_disconnected by (cases ev) (auto simp: net_note_uplink_up_def split: if_splits)

lemma recov_eth: "n_recov (eth_event_handler E ev s) = n_recov s"
  by (cases ev) (simp_all add: net_note_uplink_up_def)

lemma recov_small:
  "n_recov (teardown_check s) = n_recov s" "n_recov (teardown_end s) = n_recov s" "n_recov (fallback_check s) = n_recov s"
  "n_recov (sta_recovery_tick s) = n_recov s" "n_recov (net_set_external_control on s) = n_recov s"
  by (simp_all add: teardown_check_def net_stop_softap_def teardown_end_def fallback_check_def sta_recovery_tick_def
      net_set_external_control_def Let_def)

lemma recov_step:
  assumes "n_recov s" and "net_step E N a s s'"
  shows "n_recov s'"
  using assms(2)
proof cases
  case (step_wifi ev)
  then show ?thesis using recov_wifi assms(1) by blast
next
  case step_fb_start
  then show ?thesis using recov_softap assms(1) by (auto simp: fallback_start_def)
next
  case (step_wdt now)
  then show ?thesis using assms(1) by (auto simp: net_wdt_tick_def split: if_splits)
next
  case (step_provision ssid psk w e w')
  then show ?thesis using persist_frame assms(1) by fastforce
next
  case (step_forget w e w')
  then show ?thesis using clear_frame assms(1) by fastforce
qed (use assms(1) in \<open>simp_all add: recov_small recov_eth\<close>)

text \<open>Bring-up with credentials: those of the build or of the store, or those the recovery system left.\<close>

definition boots_with_creds :: "net_env \<Rightarrow> 'w nvs_api \<Rightarrow> 'w \<Rightarrow> bool" where
  "boots_with_creds E N w \<longleftrightarrow>
     (case load_creds E N w net_boot of (ok, s) \<Rightarrow> fst (adopt_creds E (ok \<and> n_ssid s \<noteq> [], s)))"

lemma init_recov:
  assumes "net_init E with_eth N w now = Some s" and "boots_with_creds E N w" and "call_ok E (Spawn TaskRecovery)"
  shows "n_recov s"
proof -
  obtain ok s0 where l: "load_creds E N w net_boot = (ok, s0)" by (metis surj_pair)
  obtain h s1 where a: "adopt_creds E (ok \<and> n_ssid s0 \<noteq> [], s0) = (h, s1)" by (metis surj_pair)
  have h: h using assms(2) by (simp add: boots_with_creds_def l a)
  define s2 where "s2 = sta_static E ((compute_names E s1)\<lparr>n_cfg := config_load N w, n_last_us := now\<rparr>)"
  have "boot_part s2 = boot_part net_boot" using boot_load [OF l] boot_adopt [OF a] by (simp add: s2_def boot_static boot_names)
  then have f: "n_fallback s2 \<noteq> FbStart" by (simp add: boot_part_def net_boot_def)
  from assms obtain s3 s4 where 3: "start_sta E h s2 = Some s3" "(if with_eth then net_eth_init E N w else Some) s3 = Some s4"
    and s: "s = (if wdt_enable (n_cfg s4) then (emit (Spawn TaskWdt) s4)\<lparr>n_wdt := call_ok E (Spawn TaskWdt)\<rparr> else s4)"
    by (auto simp: net_init_def l a s2_def bind_eq_Some_conv Let_def split: option.splits)
  have "n_recov s3" by (rule boot_start(2) [OF 3(1) f h assms(3)])
  moreover have "n_recov s4 = n_recov s3" using 3(2) boot_eth [of E N w s3 s4] by (cases with_eth) simp_all
  ultimately show ?thesis by (simp add: s)
qed

text \<open>A device that booted with credentials and could create its supervisor: in every state it reaches in which the
  station has no IP, credentials are there and Improv does not own the radio, the supervisor can take its
  step, and the step asks the driver for a connection; in captive mode it also gives the next series of retries its
  full budget.\<close>

theorem supervisor_reconnects:
  assumes "net_init E with_eth N w now = Some s0" and "boots_with_creds E N w" and "call_ok E (Spawn TaskRecovery)"
    and "net_run (\<lambda>s a. True) E N s0 tr s" and "\<not> n_connected s" and "n_ssid s \<noteq> []" and "\<not> n_external s"
  shows "\<exists>s'. net_step E N Supervisor s s' \<and> connects s' = connects s + 1 \<and> (n_ap s \<longrightarrow> n_retry s' = 0)"
proof -
  have "n_recov s" by (rule run_inv [where I = n_recov, OF assms(4) init_recov [OF assms(1-3)]]) (rule recov_step)
  then have "net_step E N Supervisor s (sta_recovery_tick s)" by (rule step_supervisor)
  moreover have "connects (sta_recovery_tick s) = connects s + 1" "n_ap s \<longrightarrow> n_retry (sta_recovery_tick s) = 0"
    using assms(5-7) by (simp_all add: sta_recovery_tick_def connects_def)
  ultimately show ?thesis by blast
qed

definition env_built :: net_env where
  "env_built = env_ok\<lparr>built_ssid := ''home''\<rparr>"

definition homed :: net where
  "homed = the (net_init env_built False nvs_ram Map.empty 0)"

lemma homed_init: "net_init env_built False nvs_ram Map.empty 0 = Some homed"
proof -
  have "net_init env_built False nvs_ram Map.empty 0 \<noteq> None"
    by (simp add: net_init_def load_creds_def env_built_def env_ok_def nvs_ram_def adopt_creds_def start_sta_def checked_def
        Let_def)
  then show ?thesis by (simp add: homed_def)
qed

lemma homed_state: "\<not> n_connected homed" "\<not> n_external homed" "n_ssid homed = ''home''"
proof -
  have "boot_part homed = boot_part net_boot" by (rule net_init_boot [OF homed_init])
  then show "\<not> n_connected homed" "\<not> n_external homed" by (simp_all add: boot_part_def net_boot_def)
  show "n_ssid homed = ''home''"
    by (simp add: homed_def net_init_def load_creds_def env_built_def env_ok_def nvs_ram_def adopt_creds_def start_sta_def
        checked_def config_load_def config_default_def get_flag_def Let_def sta_static_def compute_names_def spawn_recovery_def)
qed

lemma supervisor_reconnects_witness:
  "\<exists>s'. net_step env_built nvs_ram Supervisor homed s' \<and> connects s' = connects homed + 1"
proof -
  have "boots_with_creds env_built nvs_ram Map.empty"
    by (simp add: boots_with_creds_def load_creds_def env_built_def adopt_creds_def env_ok_def)
  moreover have "call_ok env_built (Spawn TaskRecovery)" by (simp add: env_built_def env_ok_def)
  ultimately show ?thesis
    using supervisor_reconnects [OF homed_init _ _ run_start] homed_state by fastforce
qed

subsection \<open>The history over a run\<close>

definition disc_of :: "net_act \<Rightarrow> net_disc_evt list" where
  "disc_of a = (case a of Wifi (EvDisconnected d t) \<Rightarrow>
       [\<lparr>ts_ms = t, reason = (case d of Some x \<Rightarrow> fst x | None \<Rightarrow> 0), rssi = (case d of Some x \<Rightarrow> snd x | None \<Rightarrow> 0)\<rparr>]
     | _ \<Rightarrow> [])"

lemma disc_holds_cong: "disc_part s' = disc_part s \<Longrightarrow> disc_holds s' evs = disc_holds s evs"
  by (simp add: disc_part_def disc_holds_def)

lemma disc_softap: "net_start_softap E s = Some s' \<Longrightarrow> disc_part s' = disc_part s"
  by (cases rule: softap_cases) auto

lemma disc_disconnected:
  assumes "on_disconnected E d t s = Some s'"
  shows "\<exists>r q. (case d of Some x \<Rightarrow> x | None \<Rightarrow> (0, 0)) = (r, q) \<and> disc_part s' = disc_part (disc_record r q t s)"
proof -
  obtain r q where rq: "(case d of Some x \<Rightarrow> x | None \<Rightarrow> (0, 0)) = (r, q)" by (metis surj_pair)
  define s1 where "s1 = disc_record r q t (s\<lparr>n_connected := False\<rparr>)"
  have 1: "disc_part s1 = disc_part (disc_record r q t s)" "disc_part (s1\<lparr>n_retry := k\<rparr>) = disc_part s1" for k
    by (simp_all add: s1_def disc_part_def disc_record_def)
  have run: "on_disconnected E d t s =
      (if n_external s1 then Some s1
       else if n_retry s1 < MAX_RETRY \<and> n_ssid s1 \<noteq> [] then Some (emit WifiConnect (s1\<lparr>n_retry := n_retry s1 + 1\<rparr>))
       else if n_ssid s1 \<noteq> [] then net_start_softap E (s1\<lparr>n_fail := True\<rparr>) else Some s1)"
    by (simp add: on_disconnected_def rq s1_def Let_def)
  have "disc_part s' = disc_part s1"
    using assms disc_softap [of E "s1\<lparr>n_fail := True\<rparr>" s'] by (auto simp: run 1(2) split: if_splits)
  then show ?thesis using rq 1(1) by auto
qed

lemma disc_small:
  "disc_part (teardown_check s) = disc_part s" "disc_part (teardown_end s) = disc_part s"
  "disc_part (fallback_check s) = disc_part s" "disc_part (sta_recovery_tick s) = disc_part s"
  "disc_part (net_set_external_control on s) = disc_part s" "disc_part (s\<lparr>n_dns := x\<rparr>) = disc_part s"
  "disc_part (s\<lparr>n_dns := x, n_dns_stop := b\<rparr>) = disc_part s" "disc_part (s\<lparr>n_fallback := f\<rparr>) = disc_part s"
  "disc_part (s\<lparr>n_ssid := a, n_pass := p\<rparr>) = disc_part s" "disc_part (net_note_uplink_up E s) = disc_part s"
  by (simp_all add: teardown_check_def net_stop_softap_def teardown_end_def fallback_check_def sta_recovery_tick_def
      net_set_external_control_def Let_def disc_part_def net_note_uplink_up_def)

lemma disc_wifi:
  assumes "event_cb E ev s = Some s'" and "disc_of (Wifi ev) = []"
  shows "disc_part s' = disc_part s"
proof (cases ev)
  case (EvGotIp ip gw now)
  then show ?thesis using assms(1) by (auto simp: disc_small) (simp add: disc_part_def)
qed (use assms in \<open>auto simp: disc_of_def disc_part_def split: if_splits\<close>)

lemma disc_eth: "disc_part (eth_event_handler E ev s) = disc_part s"
  by (cases ev) (simp_all add: disc_small, simp_all add: disc_part_def)

lemma disc_step:
  assumes "net_step E N a s s'" and "disc_of a = []"
  shows "disc_part s' = disc_part s"
  using assms(1)
proof cases
  case (step_wifi ev)
  then show ?thesis using disc_wifi assms(2) by blast
next
  case step_fb_start
  then show ?thesis using disc_softap disc_small by (auto simp: fallback_start_def)
next
  case (step_wdt now)
  then show ?thesis by (auto simp: net_wdt_tick_def disc_part_def split: if_splits)
next
  case (step_provision ssid psk w e w')
  then show ?thesis using persist_frame disc_small(9) by metis
next
  case (step_forget w e w')
  then show ?thesis using clear_frame disc_small(9) by metis
qed (simp_all add: disc_small disc_eth)

inductive_cases wifi_stepE: "net_step E N (Wifi ev) s s'"

lemma disc_holds_step:
  assumes "net_step E N a s s'" and "disc_holds s evs" and "length evs + 1 < 2 ^ 32"
  shows "disc_holds s' (evs @ disc_of a)"
proof (cases "disc_of a")
  case Nil
  then show ?thesis using disc_holds_cong [OF disc_step [OF assms(1) Nil], of evs] assms(2) by simp
next
  case (Cons x xs)
  then obtain d t where a: "a = Wifi (EvDisconnected d t)" by (auto simp: disc_of_def split: net_act.splits wifi_ev.splits)
  have "on_disconnected E d t s = Some s'" using assms(1) unfolding a by (auto elim: wifi_stepE)
  then obtain r q where rq: "(case d of Some x \<Rightarrow> x | None \<Rightarrow> (0, 0)) = (r, q)"
    and p: "disc_part s' = disc_part (disc_record r q t s)"
    using disc_disconnected by blast
  have "disc_of a = [\<lparr>ts_ms = t, reason = r, rssi = q\<rparr>]" using rq by (cases d) (auto simp: a disc_of_def)
  then show ?thesis using disc_holds_record [OF assms(2,3), of r q t] disc_holds_cong [OF p] by simp
qed

text \<open>whatever else happens, the history the status page shows is the last eight disconnects since boot, newest
  first, and the total is their number (below 2^32).\<close>

theorem disc_history_complete:
  assumes "net_init E with_eth N w now = Some s0" and "net_run (\<lambda>s a. True) E N s0 tr s" and "length tr < 2 ^ 32 - 1"
  shows "net_disc_history cap s = take (min cap NET_DISC_HISTORY_MAX) (rev (concat (map disc_of tr))) \<and>
    n_disc_total s = of_nat (length (concat (map disc_of tr)))"
proof -
  have len: "length (concat (map disc_of tr)) \<le> length tr" for tr
    by (induction tr) (auto simp: disc_of_def split: net_act.splits wifi_ev.splits)
  have "disc_holds s (concat (map disc_of tr))" using assms(2,3)
  proof induction
    case run_start
    have "disc_part s0 = disc_part net_boot" using net_init_boot [OF assms(1)] by (simp add: boot_part_def)
    then show ?case using disc_holds_cong [of s0 net_boot "[]"] disc_holds_boot by simp
  next
    case (run_step tr s a s')
    then have "length (concat (map disc_of tr)) + 1 < 2 ^ 32" using len [of tr] by simp
    then show ?case using disc_holds_step [OF run_step(3)] run_step by simp
  qed
  moreover have "length (concat (map disc_of tr)) < 2 ^ 32" using len [of tr] assms(3) by simp
  ultimately show ?thesis using disc_history_holds by (simp add: disc_holds_def)
qed

lemma disc_history_complete_witness: "net_disc_history 8 homed = []"
  using disc_history_complete [OF homed_init run_start, of 8] by simp

end
