(* ===== verification/CaptiveDns.thy ===== *)
theory CaptiveDns
  imports Cdc_Prelude
begin

text \<open>
  The DNS responder of \<^verbatim>\<open>captive_dns_task\<close> in \<^verbatim>\<open>net.c\<close>.  The buffer has 256 bytes; a datagram of \<open>n\<close>
  bytes fills its front, and what is behind stays from earlier datagrams.  The answer is the
  bytes that are sent back, \<open>None\<close> where the loop continues without one.
\<close>

subsection \<open>The responder\<close>

definition DNS_BUF :: nat where "DNS_BUF = 256"

text \<open>\<^verbatim>\<open>recvfrom\<close>: a longer datagram is cut.\<close>

definition dns_recv :: "u8 list \<Rightarrow> u8 list \<Rightarrow> u8 list \<times> nat" where
  "dns_recv buf d = (let n = min (length d) DNS_BUF in (take n d @ drop n buf, n))"

text \<open>QR, AA and RA set, one answer, no other records.\<close>

definition dns_header :: "u8 list \<Rightarrow> u8 list" where
  "dns_header buf = buf[2 := 0x84, 3 := 0x80, 6 := 0, 7 := 1, 8 := 0, 9 := 0, 10 := 0, 11 := 0]"

text \<open>The walk over the labels of the name: where the type of the question starts, if it ends in the datagram.\<close>

function dns_walk :: "u8 list \<Rightarrow> nat \<Rightarrow> nat \<Rightarrow> nat option" where
  "dns_walk buf n p =
     (if p < n then
        (if buf ! p = 0 then Some (p + 1)
         else if buf ! p \<ge> 0xC0 then Some (p + 2)
         else dns_walk buf n (p + 1 + unat (buf ! p)))
      else None)"
  by pat_completeness auto

termination
  by (relation "measure (\<lambda>(buf, n, p). n - p)") auto

declare dns_walk.simps [simp del]

definition dns_record :: "u8 list" where
  "dns_record = [0xC0, 0x0C, 0, 1, 0, 1, 0, 0, 0, 0x3C, 0, 4, 192, 168, 4, 1]"

definition dns_answer :: "u8 list \<Rightarrow> nat \<Rightarrow> u8 list option" where
  "dns_answer buf n =
     (if n < 12 then None
      else
        let b = dns_header buf
        in case dns_walk b n 12 of
             None \<Rightarrow> None
           | Some p \<Rightarrow>
               if p + 4 > DNS_BUF then None
               else if p + 4 + 16 > DNS_BUF then None
               else Some (take (p + 4) b @ dns_record))"

subsection \<open>Answers to well-formed queries\<close>

text \<open>A name as a query carries it: labels of 1 to 63 bytes, and the root.\<close>

definition label_ok :: "u8 list \<Rightarrow> bool" where
  "label_ok l \<longleftrightarrow> 0 < length l \<and> length l < 64"

definition dns_label :: "u8 list \<Rightarrow> u8 list" where
  "dns_label l = of_nat (length l) # l"

definition dns_name :: "u8 list list \<Rightarrow> u8 list" where
  "dns_name ls = concat (map dns_label ls) @ [0]"

lemma label_byte: "label_ok l \<Longrightarrow> unat (of_nat (length l) :: u8) = length l"
  by (simp add: label_ok_def unat_of_nat)

lemma walk_name:
  assumes "\<forall>l\<in>set ls. label_ok l"
  shows "length pre + length (dns_name ls) \<le> n \<Longrightarrow>
    dns_walk (pre @ dns_name ls @ rest) n (length pre) = Some (length pre + length (dns_name ls))"
  using assms
proof (induction ls arbitrary: pre)
  case Nil
  then show ?case by (simp add: dns_walk.simps dns_name_def nth_append)
next
  case (Cons l ls)
  have l: "label_ok l" using Cons.prems(2) by simp
  let ?b = "pre @ dns_name (l # ls) @ rest"
  have len: "length (dns_name (l # ls)) = 1 + length l + length (dns_name ls)" by (simp add: dns_name_def dns_label_def)
  have byte: "?b ! length pre = of_nat (length l)" by (simp add: dns_name_def dns_label_def nth_append)
  have small: "(of_nat (length l) :: u8) \<noteq> 0" "\<not> (of_nat (length l) :: u8) \<ge> 0xC0"
    using label_byte [OF l] l by (auto simp: label_ok_def word_le_nat_alt unat_eq_0 [symmetric])
  have step: "dns_walk ?b n (length pre) = dns_walk ?b n (length pre + 1 + length l)"
    using Cons.prems(1) small label_byte [OF l] by (subst dns_walk.simps) (simp add: byte len)
  have bb: "?b = (pre @ dns_label l) @ dns_name ls @ rest" by (simp add: dns_name_def)
  have "dns_walk ((pre @ dns_label l) @ dns_name ls @ rest) n (length (pre @ dns_label l)) =
      Some (length (pre @ dns_label l) + length (dns_name ls))"
    by (rule Cons.IH) (use Cons.prems len in \<open>simp_all add: dns_label_def\<close>)
  then have "dns_walk ?b n (length pre + 1 + length l) = Some (length pre + 1 + length l + length (dns_name ls))"
    unfolding bb by (simp add: dns_label_def)
  then show ?case unfolding step by (simp add: len)
qed

text \<open>The header of the answer: the id and the number of questions are those of the query.\<close>

lemma header_split:
  assumes "length hdr = 12"
  shows "dns_header (hdr @ r) = [hdr ! 0, hdr ! 1, 0x84, 0x80, hdr ! 4, hdr ! 5, 0, 1, 0, 0, 0, 0] @ r"
proof -
  obtain a b c d e f g h i j k l where "hdr = [a, b, c, d, e, f, g, h, i, j, k, l]"
    using assms by (auto simp: numeral_eq_Suc length_Suc_conv)
  then show ?thesis by (simp add: dns_header_def numeral_eq_Suc)
qed

text \<open>a query with one question is answered, whatever follows the question and whatever the buffer held
  before, with its own id and question and one address record for 192.168.4.1, provided the answer fits
  the buffer.\<close>

theorem captive_answer:
  assumes "length buf = DNS_BUF" and "length hdr = 12" and "\<forall>l\<in>set ls. label_ok l" and "length q = 4"
    and "length (hdr @ dns_name ls @ q @ more) \<le> DNS_BUF" and "length (dns_name ls) + 32 \<le> DNS_BUF"
  shows "(case dns_recv buf (hdr @ dns_name ls @ q @ more) of (b, n) \<Rightarrow> dns_answer b n) =
    Some ([hdr ! 0, hdr ! 1, 0x84, 0x80, hdr ! 4, hdr ! 5, 0, 1, 0, 0, 0, 0] @ dns_name ls @ q @ dns_record)"
proof -
  define n where "n = length (hdr @ dns_name ls @ q @ more)"
  define rest where "rest = q @ more @ drop n buf"
  define h where "h = [hdr ! 0, hdr ! 1, 0x84, 0x80, hdr ! 4, hdr ! 5, 0, 1, 0, 0, 0, 0]"
  have r: "dns_recv buf (hdr @ dns_name ls @ q @ more) = (hdr @ dns_name ls @ rest, n)"
    using assms(5) by (simp add: dns_recv_def Let_def n_def rest_def)
  have hd: "dns_header (hdr @ dns_name ls @ rest) = h @ dns_name ls @ rest"
    using header_split [OF assms(2)] by (simp add: h_def)
  have lh: "length h = 12" by (simp add: h_def)
  have "length h + length (dns_name ls) \<le> n" using assms(2,4) by (simp add: lh n_def)
  from walk_name [OF assms(3) this, of rest]
  have w: "dns_walk (h @ dns_name ls @ rest) n 12 = Some (12 + length (dns_name ls))" by (simp add: lh)
  have "take (12 + length (dns_name ls) + 4) (h @ dns_name ls @ rest) = h @ dns_name ls @ q"
    using assms(4) by (simp add: lh rest_def)
  moreover have "\<not> n < 12" using assms(2) by (simp add: n_def)
  ultimately have "dns_answer (hdr @ dns_name ls @ rest) n = Some (h @ dns_name ls @ q @ dns_record)"
    using assms(6) by (simp add: dns_answer_def Let_def hd w)
  then show ?thesis by (simp add: r h_def)
qed

definition query_ex :: "u8 list" where
  "query_ex = [0x12, 0x34, 1, 0, 0, 1, 0, 0, 0, 0, 0, 0]"

lemma captive_answer_witness:
  "(case dns_recv (replicate 256 0) (query_ex @ dns_name [[97, 98]] @ [0, 1, 0, 1] @ []) of (b, n) \<Rightarrow> dns_answer b n) =
    Some ([0x12, 0x34, 0x84, 0x80, 0, 1, 0, 1, 0, 0, 0, 0, 2, 97, 98, 0, 0, 1, 0, 1] @ dns_record)"
  using captive_answer [of "replicate 256 0" query_ex "[[97, 98]]" "[0, 1, 0, 1]" "[]"]
  by (simp add: query_ex_def DNS_BUF_def label_ok_def dns_name_def dns_label_def)

subsection \<open>Any datagram\<close>

lemma walk_bound: "dns_walk buf n p = Some k \<Longrightarrow> p < k \<and> k \<le> n + 1"
proof (induction buf n p rule: dns_walk.induct)
  case (1 buf n p)
  then show ?case by (subst (asm) dns_walk.simps) (force split: if_splits)
qed

text \<open>whatever is received, the walk over it ends, reads and writes stay inside the buffer, and an answer is at
  most as long as the buffer and at most 21 bytes longer than the datagram.\<close>

theorem captive_bounds:
  assumes "length buf = DNS_BUF" and "dns_recv buf d = (b, n)" and "dns_answer b n = Some a"
  shows "length b = DNS_BUF \<and> length a \<le> DNS_BUF \<and> length a \<le> length d + 21 \<and> take 2 a = take 2 d"
proof -
  have n: "n = min (length d) 256" and b: "b = take n d @ drop n buf"
    using assms(2) by (auto simp: dns_recv_def Let_def DNS_BUF_def)
  have lb: "length b = 256" using assms(1) n b by (simp add: DNS_BUF_def)
  from assms(3) obtain k where k: "dns_walk (dns_header b) n 12 = Some k" "k + 20 \<le> 256" "12 \<le> n"
    and a: "a = take (k + 4) (dns_header b) @ dns_record"
    by (auto simp: dns_answer_def Let_def DNS_BUF_def split: if_splits option.splits)
  have lh: "length (dns_header b) = 256" using lb by (simp add: dns_header_def)
  have kb: "12 < k" "k \<le> n + 1" using walk_bound [OF k(1)] by auto
  have la: "length a = k + 20" using k(2) lh by (simp add: a dns_record_def)
  have "take 2 (dns_header b) = take 2 b" by (simp add: dns_header_def)
  also have "\<dots> = take 2 d" using k(3) n by (simp add: b)
  finally have "take 2 a = take 2 d" using kb lh by (simp add: a)
  then show ?thesis using la kb n k(2) lb by (simp add: DNS_BUF_def)
qed

lemma captive_bounds_witness:
  "\<exists>a. dns_answer (fst (dns_recv (replicate 256 0) (query_ex @ [0]))) 13 = Some a \<and> length a = 33 \<and> take 2 a = [0x12, 0x34]"
proof -
  define b where "b = query_ex @ [0] @ replicate 243 0"
  have r: "dns_recv (replicate 256 0) (query_ex @ [0]) = (b, 13)"
    by (simp add: dns_recv_def query_ex_def DNS_BUF_def b_def)
  have "dns_walk (dns_header b) 13 12 = Some 13"
    by (subst dns_walk.simps) (simp add: dns_header_def b_def query_ex_def)
  then obtain a where a: "dns_answer b 13 = Some a" "length a = 33"
    by (simp add: dns_answer_def DNS_BUF_def dns_header_def b_def query_ex_def dns_record_def)
  then show ?thesis using captive_bounds [OF _ r a(1)] r by (auto simp: DNS_BUF_def query_ex_def)
qed

text \<open>
  A datagram that ends before its question does is answered with what the buffer held behind it: two
  buffers that agree on the datagram give different answers.
\<close>

theorem captive_stale:
  assumes "length old = 243" and "old ! 0 \<noteq> 0"
  shows "dns_answer (query_ex @ [0] @ old) 13 \<noteq> dns_answer (query_ex @ [0] @ replicate 243 0) 13"
proof -
  have w: "dns_walk (dns_header (query_ex @ [0] @ r)) 13 12 = Some 13" for r
    by (subst dns_walk.simps) (simp add: dns_header_def query_ex_def)
  have a: "dns_answer (query_ex @ [0] @ r) 13 = Some (take 17 (dns_header (query_ex @ [0] @ r)) @ dns_record)" for r
    using w [of r] by (simp add: dns_answer_def DNS_BUF_def Let_def)
  have t: "take 17 (dns_header (query_ex @ [0] @ r)) ! 13 = r ! 0" if "length r = 243" for r
    using that by (simp add: dns_header_def query_ex_def numeral_eq_Suc)
  have l: "13 < length (take 17 (dns_header (query_ex @ [0] @ r)))" if "length r = 243" for r
    using that by (simp add: dns_header_def query_ex_def)
  show ?thesis
  proof
    assume "dns_answer (query_ex @ [0] @ old) 13 = dns_answer (query_ex @ [0] @ replicate 243 0) 13"
    then have "take 17 (dns_header (query_ex @ [0] @ old)) = take 17 (dns_header (query_ex @ [0] @ replicate 243 0))"
      by (simp only: a option.inject append_same_eq)
    then show False using t [OF assms(1)] t [of "replicate 243 0"] assms(2) by simp
  qed
qed

end
