(* ===== verification/SourceCherry.thy ===== *)
theory SourceCherry
  imports SourceUsb
begin

text \<open>
  \<^verbatim>\<open>source_usb_cherry.c\<close>: the USB source on the CherryUSB host stack.  The stack is the parameter \<open>H\<close>
  over a world \<open>'w\<close>; a serial instance is a number, with the device name \<open>dn\<close> the stack gave it, and
  \<open>k_freed\<close> records the instances the stack has freed.  The hub thread, which runs the stack's events
  and \<^verbatim>\<open>usbh_serial_stop\<close> before it frees an instance, the stick task and the senders interleave in
  \<open>ch_step\<close>, cut where they block or give the others a chance.
\<close>

subsection \<open>State, stack and identity\<close>

record cherry =
  ch_ser :: "nat option"
  ch_conn_sem :: bool
  ch_ready :: bool
  ch_connected :: bool
  ch_want_close :: bool
  ch_claimed :: bool
  ch_rx_idle :: bool
  ch_hub_index :: u8
  ch_hub_port :: u8
  ch_devname :: string
  ch_vid :: u16
  ch_pid :: u16
  ch_manuf :: string
  ch_product :: string
  ch_serial :: string
  ch_key :: string
  ch_is_vcp :: bool
  ch_kind :: "string option"
  ch_lc :: lc
  ch_lc_source :: u8
  ch_rx_bytes :: u32
  ch_tx_bytes :: u32

datatype ch_read_res = ReadData "u8 list" | ReadTimeout | ReadErr

record 'w host_api =
  h_driver :: "nat \<Rightarrow> string option"
  h_set_attr :: "nat \<Rightarrow> lc \<Rightarrow> 'w \<Rightarrow> bool \<times> 'w"
  h_write :: "nat \<Rightarrow> u8 list \<Rightarrow> 'w \<Rightarrow> int \<times> 'w"
  h_gone :: "nat \<Rightarrow> 'w \<Rightarrow> bool"
  h_close :: "nat \<Rightarrow> 'w \<Rightarrow> 'w"

definition DEVNAME_LEN :: nat where "DEVNAME_LEN = 16"

definition copy_str :: "nat \<Rightarrow> string option \<Rightarrow> string" where
  "copy_str cap s = fmt_s cap (case s of Some t \<Rightarrow> t | None \<Rightarrow> [])"

text \<open>The loop over the serial number, and the key of a device without one.\<close>

definition key_plain :: "char \<Rightarrow> bool" where
  "key_plain c \<longleftrightarrow>
     (let n = of_char c :: nat
      in (65 \<le> n \<and> n \<le> 90) \<or> (97 \<le> n \<and> n \<le> 122) \<or> (48 \<le> n \<and> n \<le> 57) \<or>
         c = CHR ''.'' \<or> c = CHR ''_'' \<or> c = CHR ''-'')"

fun key_loop :: "nat \<Rightarrow> string \<Rightarrow> string \<Rightarrow> string" where
  "key_loop cap [] out = out"
| "key_loop cap (c # p) out =
     (if length out + 1 < cap then key_loop cap p (out @ [if key_plain c then c else CHR ''_'']) else out)"

definition ch_derive_key :: "string \<Rightarrow> u16 \<Rightarrow> u16 \<Rightarrow> nat \<Rightarrow> string" where
  "ch_derive_key serial vid pid cap =
     (if serial \<noteq> [] then key_loop cap serial [] else fmt_s cap (hex4 vid @ '':'' @ hex4 pid))"

text \<open>A string descriptor: nothing for index 0 or a failed request; the 128-byte buffer ends it.\<close>

definition fetch_str :: "nat \<Rightarrow> u8 \<times> u8 list option \<Rightarrow> string" where
  "fetch_str cap d =
     (if fst d = 0 then []
      else case snd d of None \<Rightarrow> [] | Some b \<Rightarrow> fmt_s cap (cstr (take 127 b)))"

subsection \<open>Events of the hub thread\<close>

text \<open>What the stack knows of the port and the interface of an event.\<close>

record intf_dev =
  i_port_ok :: bool
  i_intf_ok :: bool
  i_devname :: "string option"
  i_vid :: u16
  i_pid :: u16
  i_manuf :: "u8 \<times> u8 list option"
  i_product :: "u8 \<times> u8 list option"
  i_serial :: "u8 \<times> u8 list option"
  i_hub_index :: u8
  i_hub_port :: u8

definition tty_prefix :: string where "tty_prefix = ''/dev/tty''"

definition evt_interface_start :: "intf_dev \<Rightarrow> cherry \<Rightarrow> cherry" where
  "evt_interface_start d S =
     (if ch_claimed S then S
      else if \<not> i_port_ok d then S
      else if \<not> i_intf_ok d then S
      else case i_devname d of
        None \<Rightarrow> S
      | Some n \<Rightarrow>
          if take 8 n \<noteq> tty_prefix then S
          else S\<lparr>ch_devname := fmt_s DEVNAME_LEN n, ch_vid := i_vid d, ch_pid := i_pid d,
                 ch_manuf := fetch_str 48 (i_manuf d), ch_product := fetch_str 48 (i_product d),
                 ch_serial := fetch_str SERIALCFG_KEY_LEN (i_serial d), ch_hub_index := i_hub_index d,
                 ch_hub_port := i_hub_port d, ch_want_close := False, ch_claimed := True, ch_conn_sem := True\<rparr>)"

definition evt_disconnected :: "u8 \<Rightarrow> u8 \<Rightarrow> cherry \<Rightarrow> cherry" where
  "evt_disconnected hi hp S =
     (if ch_claimed S \<and> hi = ch_hub_index S \<and> hp = ch_hub_port S then S\<lparr>ch_want_close := True\<rparr> else S)"

text \<open>\<^verbatim>\<open>usbh_serial_stop\<close>: whether the instance is ours.\<close>

definition stop_mine :: "(nat \<Rightarrow> string) \<Rightarrow> nat \<Rightarrow> cherry \<Rightarrow> bool" where
  "stop_mine dn i S \<longleftrightarrow> ch_ser S = Some i \<or> (ch_devname S \<noteq> [] \<and> dn i = ch_devname S)"

subsection \<open>Line coding and source operations\<close>

definition ch_apply_lc :: "'w host_api \<Rightarrow> lc \<Rightarrow> u8 \<Rightarrow> cherry \<times> 'w \<Rightarrow> esp_err \<times> (cherry \<times> 'w)" where
  "ch_apply_lc H l src sw =
     (case (case ch_ser (fst sw) of
              Some h \<Rightarrow> (case h_set_attr H h l (snd sw) of (ok, w1) \<Rightarrow> (if ok then ESP_OK else ESP_FAIL, w1))
            | None \<Rightarrow> (ESP_OK, snd sw)) of
        (e, w1) \<Rightarrow>
          (e, (if e = ESP_OK then (fst sw)\<lparr>ch_lc := l, ch_lc_source := src\<rparr> else fst sw, w1)))"

definition ch_resolve :: "'w nvs_api \<Rightarrow> string \<Rightarrow> 'w \<Rightarrow> lc \<times> u8" where
  "ch_resolve N key w =
     (case (if key = [] then None else serialcfg_lookup N w key) of
        Some l \<Rightarrow> (l, 1) | None \<Rightarrow> (serialcfg_default, 0))"

definition ch_op_tx :: "'w host_api \<Rightarrow> u8 list \<Rightarrow> cherry \<times> 'w \<Rightarrow> esp_err \<times> (cherry \<times> 'w)" where
  "ch_op_tx H d sw =
     (if d = [] then (ESP_ERR_INVALID_ARG, sw)
      else case ch_ser (fst sw) of
        None \<Rightarrow> (ESP_ERR_INVALID_STATE, sw)
      | Some h \<Rightarrow>
          (case h_write H h d (snd sw) of
             (n, w1) \<Rightarrow>
               if n = int (length d)
               then (ESP_OK, ((fst sw)\<lparr>ch_tx_bytes := ch_tx_bytes (fst sw) + of_nat (length d)\<rparr>, w1))
               else (if n < 0 then ESP_FAIL else ESP_ERR_TIMEOUT, (fst sw, w1))))"

definition ch_op_set_line_coding :: "'w host_api \<Rightarrow> lc \<Rightarrow> cherry \<times> 'w \<Rightarrow> esp_err \<times> (cherry \<times> 'w)" where
  "ch_op_set_line_coding H l sw = ch_apply_lc H l 2 sw"

definition ch_op_revert_line_coding :: "'w host_api \<Rightarrow> 'w nvs_api \<Rightarrow> cherry \<times> 'w \<Rightarrow> cherry \<times> 'w" where
  "ch_op_revert_line_coding H N sw =
     (case ch_resolve N (fmt_s SERIALCFG_KEY_LEN (ch_key (fst sw))) (snd sw) of
        (l, src) \<Rightarrow> snd (ch_apply_lc H l src sw))"

definition ch_op_get_line_coding :: "cherry \<times> 'w \<Rightarrow> lc" where
  "ch_op_get_line_coding sw = ch_lc (fst sw)"

definition ch_op_reset :: "cherry \<times> 'w \<Rightarrow> esp_err \<times> (cherry \<times> 'w)" where
  "ch_op_reset sw = (ESP_ERR_NOT_SUPPORTED, sw)"

definition ch_op_describe :: "cherry \<times> 'w \<Rightarrow> string" where
  "ch_op_describe sw =
     (let S = fst sw
      in fmt_s 48 ((case ch_kind S of Some k \<Rightarrow> k | None \<Rightarrow> ''USB'') @ '' '' @ hex4 (ch_vid S) @ '':'' @
           hex4 (ch_pid S) @ '' '' @ (if ch_connected S then ''open'' else ''closed'')))"

definition ch_op_get_stats :: "cherry \<times> 'w \<Rightarrow> source_stats" where
  "ch_op_get_stats sw =
     (let S = fst sw
      in \<lparr>st_connected = ch_connected S, st_vid = ch_vid S, st_pid = ch_pid S,
          st_manuf = fmt_s 48 (ch_manuf S), st_product = fmt_s 48 (ch_product S),
          st_rx_bytes = ch_rx_bytes S, st_tx_bytes = ch_tx_bytes S\<rparr>)"

definition ch_op_get_serial_info :: "cherry \<times> 'w \<Rightarrow> source_serial_info" where
  "ch_op_get_serial_info sw =
     (let S = fst sw
      in \<lparr>si_connected = ch_connected S, si_is_vcp = ch_is_vcp S, si_vid = ch_vid S, si_pid = ch_pid S,
          si_serial = fmt_s SERIALCFG_KEY_LEN (ch_serial S), si_key = fmt_s SERIALCFG_KEY_LEN (ch_key S),
          si_lc = ch_lc S, si_lc_source = ch_lc_source S\<rparr>)"

definition ch_ops :: "'w host_api \<Rightarrow> 'w nvs_api \<Rightarrow> (cherry \<times> 'w) source_ops" where
  "ch_ops H N =
     \<lparr>op_tx = Some (ch_op_tx H), op_ready = Some (\<lambda>sw. ch_ready (fst sw)), op_reset = Some ch_op_reset,
      op_describe = Some ch_op_describe, op_set_line_coding = Some (ch_op_set_line_coding H),
      op_revert_line_coding = Some (ch_op_revert_line_coding H N),
      op_get_line_coding = Some ch_op_get_line_coding, op_get_stats = Some ch_op_get_stats,
      op_get_serial_info = Some ch_op_get_serial_info, op_apply_line_coding = Some (ch_apply_lc H)\<rparr>"

interpretation cherry: line_port "ch_op_set_line_coding H" ch_op_get_line_coding "\<lambda>_. True"
  for H :: "'w host_api"
  by unfold_locales (auto simp: ch_op_set_line_coding_def ch_op_get_line_coding_def ch_apply_lc_def
      split: prod.splits option.splits if_splits)

subsection \<open>The tasks\<close>

text \<open>Where \<^verbatim>\<open>stick_task\<close> stands, with the handle it holds, and where the hub thread stands in the removal of an instance.\<close>

datatype ch_pc =
    CIdle | COpen | CRetry | CDelay | CAbandon | CPublish nat | CApply nat | CReady nat | CFail nat | CFailClose nat
  | CRead nat | CInRead nat | CDown nat | CClose nat | CNotify | CRelease

datatype hub_pc = HIdle | HMutex nat | HPoll nat nat | HFree nat

record 'w ch_sys =
  k_S :: cherry
  k_w :: 'w
  k_pc :: ch_pc
  k_hub :: hub_pc
  k_tx :: "(nat \<times> u8 list) option"
  k_freed :: "nat set"

definition STOP_POLLS :: nat where "STOP_POLLS = 500"

definition ch_publish :: "'w host_api \<Rightarrow> nat \<Rightarrow> cherry \<Rightarrow> cherry" where
  "ch_publish H h S =
     (let kind = (case h_driver H h of Some k \<Rightarrow> k | None \<Rightarrow> ''serial'')
      in S\<lparr>ch_ser := Some h, ch_connected := True, ch_kind := Some kind, ch_is_vcp := kind \<noteq> ''cdc_acm'',
           ch_key := ch_derive_key (ch_serial S) (ch_vid S) (ch_pid S) SERIALCFG_KEY_LEN\<rparr>)"

definition ch_clear :: "cherry \<Rightarrow> cherry" where
  "ch_clear S = S\<lparr>ch_ser := None, ch_is_vcp := False, ch_kind := None, ch_key := [], ch_serial := []\<rparr>"

definition to_down :: "nat \<Rightarrow> 'w ch_sys \<Rightarrow> 'w ch_sys" where
  "to_down h y = y\<lparr>k_S := (k_S y)\<lparr>ch_ready := False, ch_connected := False\<rparr>, k_pc := CDown h\<rparr>"

text \<open>The next piece of the task but for opening and reading; \<open>None\<close> while it blocks, also on the mutex of a sender.\<close>

definition ch_run :: "'w host_api \<Rightarrow> 'w nvs_api \<Rightarrow> ('w \<Rightarrow> 'w) \<Rightarrow> 'w ch_sys \<Rightarrow> 'w ch_sys option" where
  "ch_run H N down y =
     (let S = k_S y; w = k_w y; free = (k_tx y = None) in
      case k_pc y of
        CIdle \<Rightarrow>
          if ch_conn_sem S then Some (y\<lparr>k_S := S\<lparr>ch_conn_sem := False, ch_rx_idle := False\<rparr>, k_pc := COpen\<rparr>) else None
      | CRetry \<Rightarrow>
          Some (if ch_want_close S then y\<lparr>k_S := S\<lparr>ch_rx_idle := True\<rparr>, k_pc := CAbandon\<rparr> else y\<lparr>k_pc := CDelay\<rparr>)
      | CAbandon \<Rightarrow> Some (y\<lparr>k_S := S\<lparr>ch_claimed := False\<rparr>, k_pc := CIdle\<rparr>)
      | CPublish h \<Rightarrow> if free then Some (y\<lparr>k_S := ch_publish H h S, k_pc := CApply h\<rparr>) else None
      | CApply h \<Rightarrow>
          if free
          then (case ch_resolve N (ch_key S) w of (l, src) \<Rightarrow>
                case ch_apply_lc H l src (S, w) of (e, (S1, w1)) \<Rightarrow>
                  Some (y\<lparr>k_S := S1, k_w := w1, k_pc := (if e = ESP_OK then CReady h else CFail h)\<rparr>))
          else None
      | CReady h \<Rightarrow> Some (y\<lparr>k_S := S\<lparr>ch_ready := True\<rparr>, k_pc := CRead h\<rparr>)
      | CFail h \<Rightarrow> if free then Some (y\<lparr>k_S := S\<lparr>ch_ser := None\<rparr>, k_pc := CFailClose h\<rparr>) else None
      | CFailClose h \<Rightarrow>
          Some (y\<lparr>k_S := S\<lparr>ch_rx_idle := True, ch_connected := False, ch_kind := None\<rparr>, k_w := h_close H h w,
            k_pc := CRelease\<rparr>)
      | CRead h \<Rightarrow> Some (if ch_want_close S then to_down h y else y\<lparr>k_pc := CInRead h\<rparr>)
      | CDown h \<Rightarrow> if free then Some (y\<lparr>k_S := ch_clear S, k_pc := CClose h\<rparr>) else None
      | CClose h \<Rightarrow> Some (y\<lparr>k_S := S\<lparr>ch_rx_idle := True\<rparr>, k_w := h_close H h w, k_pc := CNotify\<rparr>)
      | CNotify \<Rightarrow> Some (y\<lparr>k_w := down w, k_pc := CRelease\<rparr>)
      | CRelease \<Rightarrow> Some (y\<lparr>k_S := S\<lparr>ch_claimed := False\<rparr>, k_pc := CIdle\<rparr>)
      | _ \<Rightarrow> None)"

definition ch_read_done ::
  "'w host_api \<Rightarrow> (u8 list \<Rightarrow> 'w \<Rightarrow> 'w) option \<Rightarrow> nat \<Rightarrow> ch_read_res \<Rightarrow> 'w ch_sys \<Rightarrow> 'w ch_sys" where
  "ch_read_done H rx h res y =
     (case res of
        ReadData d \<Rightarrow>
          if d = [] then y\<lparr>k_pc := CRead h\<rparr>
          else y\<lparr>k_S := (k_S y)\<lparr>ch_rx_bytes := ch_rx_bytes (k_S y) + of_nat (length d)\<rparr>,
                 k_w := (case rx of Some f \<Rightarrow> f d (k_w y) | None \<Rightarrow> k_w y), k_pc := CRead h\<rparr>
      | ReadTimeout \<Rightarrow> y\<lparr>k_pc := CRead h\<rparr>
      | ReadErr \<Rightarrow> if h_gone H h (k_w y) then to_down h y else y\<lparr>k_pc := CRead h\<rparr>)"

text \<open>\<^verbatim>\<open>usbh_serial_stop\<close> for an instance that is going away, in its pieces; then the stack frees it.\<close>

definition stop_begin :: "(nat \<Rightarrow> string) \<Rightarrow> nat \<Rightarrow> 'w ch_sys \<Rightarrow> 'w ch_sys" where
  "stop_begin dn i y =
     (if \<not> ch_claimed (k_S y) \<or> \<not> stop_mine dn i (k_S y) then y\<lparr>k_hub := HFree i\<rparr>
      else y\<lparr>k_S := (k_S y)\<lparr>ch_want_close := True\<rparr>, k_hub := HMutex i\<rparr>)"

definition stop_poll :: "nat \<Rightarrow> nat \<Rightarrow> 'w ch_sys \<Rightarrow> 'w ch_sys" where
  "stop_poll i k y = y\<lparr>k_hub := (if ch_rx_idle (k_S y) \<or> k = 0 then HFree i else HPoll i (k - 1))\<rparr>"

definition ch_tx_end :: "'w host_api \<Rightarrow> nat \<Rightarrow> u8 list \<Rightarrow> 'w ch_sys \<Rightarrow> 'w ch_sys" where
  "ch_tx_end H h d y =
     (case h_write H h d (k_w y) of
        (n, w1) \<Rightarrow>
          y\<lparr>k_S := (if n = int (length d)
             then (k_S y)\<lparr>ch_tx_bytes := ch_tx_bytes (k_S y) + of_nat (length d)\<rparr> else k_S y),
            k_w := w1, k_tx := None\<rparr>)"

definition with_cw :: "(cherry \<times> 'w \<Rightarrow> cherry \<times> 'w) \<Rightarrow> 'w ch_sys \<Rightarrow> 'w ch_sys" where
  "with_cw f y = (case f (k_S y, k_w y) of (S1, w1) \<Rightarrow> y\<lparr>k_S := S1, k_w := w1\<rparr>)"

inductive ch_step ::
  "'w host_api \<Rightarrow> (nat \<Rightarrow> string) \<Rightarrow> 'w nvs_api \<Rightarrow> ('w \<Rightarrow> 'w) \<Rightarrow> 'w ch_sys \<Rightarrow> 'w ch_sys \<Rightarrow> bool"
  for H dn N down where
  c_run: "ch_run H N down y = Some y' \<Longrightarrow> ch_step H dn N down y y'"
| c_open: "k_pc y = COpen \<or> k_pc y = CDelay \<Longrightarrow> h \<notin> k_freed y \<Longrightarrow> dn h = ch_devname (k_S y) \<Longrightarrow>
    ch_step H dn N down y (y\<lparr>k_pc := CPublish h\<rparr>)"
| c_open_fails: "k_pc y = COpen \<or> k_pc y = CDelay \<Longrightarrow> ch_step H dn N down y (y\<lparr>k_pc := CRetry\<rparr>)"
| c_read: "k_pc y = CInRead h \<Longrightarrow> ch_step H dn N down y (ch_read_done H rx h res y)"
| c_start: "k_hub y = HIdle \<Longrightarrow> ch_step H dn N down y (y\<lparr>k_S := evt_interface_start d (k_S y)\<rparr>)"
| c_gone: "k_hub y = HIdle \<Longrightarrow> ch_step H dn N down y (y\<lparr>k_S := evt_disconnected hi hp (k_S y)\<rparr>)"
| c_stop: "k_hub y = HIdle \<Longrightarrow> i \<notin> k_freed y \<Longrightarrow> ch_step H dn N down y (stop_begin dn i y)"
| c_stop_mutex: "k_hub y = HMutex i \<Longrightarrow> k_tx y = None \<Longrightarrow>
    ch_step H dn N down y (y\<lparr>k_S := (k_S y)\<lparr>ch_ser := None\<rparr>, k_hub := HPoll i STOP_POLLS\<rparr>)"
| c_stop_poll: "k_hub y = HPoll i k \<Longrightarrow> ch_step H dn N down y (stop_poll i k y)"
| c_free: "k_hub y = HFree i \<Longrightarrow> ch_step H dn N down y (y\<lparr>k_freed := insert i (k_freed y), k_hub := HIdle\<rparr>)"
| c_tx_begin: "k_tx y = None \<Longrightarrow> ch_ser (k_S y) = Some h \<Longrightarrow> d \<noteq> [] \<Longrightarrow> ch_step H dn N down y (y\<lparr>k_tx := Some (h, d)\<rparr>)"
| c_tx_end: "k_tx y = Some (h, d) \<Longrightarrow> ch_step H dn N down y (ch_tx_end H h d y)"
| c_apply: "k_tx y = None \<Longrightarrow> ch_step H dn N down y (with_cw (\<lambda>sw. snd (ch_apply_lc H l src sw)) y)"
| c_revert: "k_tx y = None \<Longrightarrow> ch_step H dn N down y (with_cw (ch_op_revert_line_coding H N) y)"

text \<open>\<^verbatim>\<open>source_usb_init\<close>.\<close>

definition ch_init :: "'w \<Rightarrow> 'w ch_sys" where
  "ch_init w =
     \<lparr>k_S = \<lparr>ch_ser = None, ch_conn_sem = False, ch_ready = False, ch_connected = False, ch_want_close = False,
        ch_claimed = False, ch_rx_idle = True, ch_hub_index = 0, ch_hub_port = 0, ch_devname = [], ch_vid = 0, ch_pid = 0,
        ch_manuf = [], ch_product = [], ch_serial = [], ch_key = [], ch_is_vcp = False, ch_kind = None, ch_lc = zero_lc,
        ch_lc_source = 0, ch_rx_bytes = 0, ch_tx_bytes = 0\<rparr>,
      k_w = w, k_pc = CIdle, k_hub = HIdle, k_tx = None, k_freed = {}\<rparr>"

subsection \<open>No instance is used after it was freed\<close>

fun holds :: "ch_pc \<Rightarrow> nat option" where
  "holds (CPublish h) = Some h" | "holds (CApply h) = Some h" | "holds (CReady h) = Some h" | "holds (CFail h) = Some h"
| "holds (CFailClose h) = Some h" | "holds (CRead h) = Some h" | "holds (CInRead h) = Some h" | "holds (CDown h) = Some h"
| "holds (CClose h) = Some h" | "holds _ = None"

fun idle_pc :: "ch_pc \<Rightarrow> bool" where
  "idle_pc CIdle = True" | "idle_pc CAbandon = True" | "idle_pc CNotify = True" | "idle_pc CRelease = True"
| "idle_pc _ = False"

text \<open>Where a sender may have the handle: after it was published, before the mutex is taken to clear it.\<close>

fun lends :: "ch_pc \<Rightarrow> nat option" where
  "lends (CApply h) = Some h" | "lends (CReady h) = Some h" | "lends (CFail h) = Some h" | "lends (CRead h) = Some h"
| "lends (CInRead h) = Some h" | "lends (CDown h) = Some h" | "lends _ = None"

lemma lends_holds: "lends pc = Some h \<Longrightarrow> holds pc = Some h"
  by (cases pc) auto

lemma idle_free: "idle_pc pc \<Longrightarrow> holds pc = None"
  by (cases pc) auto

text \<open>
  The two residual hazards: the device goes away before the stick task has taken the semaphore of its
  claim, and the polls run out before the task lets go.
\<close>

definition hazard :: "'w ch_sys \<Rightarrow> 'w ch_sys \<Rightarrow> bool" where
  "hazard y y' \<longleftrightarrow>
     (k_hub y = HIdle \<and> (\<exists>i. k_hub y' = HMutex i) \<and> ch_conn_sem (k_S y)) \<or>
     (\<exists>i. k_hub y = HPoll i 0 \<and> \<not> ch_rx_idle (k_S y) \<and> k_hub y' = HFree i)"

definition ch_inv :: "(nat \<Rightarrow> string) \<Rightarrow> 'w ch_sys \<Rightarrow> bool" where
  "ch_inv dn y \<longleftrightarrow>
     (ch_rx_idle (k_S y) \<longleftrightarrow> idle_pc (k_pc y)) \<and>
     (ch_conn_sem (k_S y) \<longrightarrow> k_pc y = CIdle) \<and>
     (k_pc y \<noteq> CIdle \<or> ch_conn_sem (k_S y) \<longrightarrow> ch_claimed (k_S y)) \<and>
     (ch_claimed (k_S y) \<longrightarrow> ch_devname (k_S y) \<noteq> []) \<and>
     (\<forall>h. holds (k_pc y) = Some h \<longrightarrow> dn h = ch_devname (k_S y) \<and> h \<notin> k_freed y) \<and>
     (\<forall>h. ch_ser (k_S y) = Some h \<longrightarrow> lends (k_pc y) = Some h) \<and>
     (\<forall>h d. k_tx y = Some (h, d) \<longrightarrow> lends (k_pc y) = Some h) \<and>
     (\<forall>i k. k_hub y = HMutex i \<or> k_hub y = HPoll i k \<longrightarrow> \<not> ch_conn_sem (k_S y)) \<and>
     (\<forall>i. k_hub y = HFree i \<longrightarrow> idle_pc (k_pc y) \<and> \<not> ch_conn_sem (k_S y) \<or> dn i \<noteq> ch_devname (k_S y))"

definition ch_core where
  "ch_core S = (ch_rx_idle S, ch_conn_sem S, ch_claimed S, ch_devname S, ch_ser S)"

lemma ch_inv_core:
  assumes "ch_inv dn y" and "ch_core (k_S y') = ch_core (k_S y)" and "k_pc y' = k_pc y" and "k_hub y' = k_hub y"
    and "k_freed y' = k_freed y" and "k_tx y' = None \<or> k_tx y' = k_tx y"
  shows "ch_inv dn y'"
  using assms unfolding ch_inv_def ch_core_def by auto

lemma core_ch_apply: "ch_core (fst (snd (ch_apply_lc H l src sw))) = ch_core (fst sw)"
  by (simp add: ch_apply_lc_def ch_core_def split: prod.splits)

lemma core_ch_revert: "ch_core (fst (ch_op_revert_line_coding H N sw)) = ch_core (fst sw)"
  by (simp add: ch_op_revert_line_coding_def core_ch_apply split: prod.splits)

lemma with_cw_simps [simp]:
  "k_S (with_cw f y) = fst (f (k_S y, k_w y))" "k_pc (with_cw f y) = k_pc y" "k_hub (with_cw f y) = k_hub y"
  "k_tx (with_cw f y) = k_tx y" "k_freed (with_cw f y) = k_freed y"
  by (simp_all add: with_cw_def split: prod.splits)

text \<open>A step of the stick task that keeps its handle, or gives it up.\<close>

lemma ch_inv_keep:
  assumes "ch_inv dn y" and "holds (k_pc y) = Some h" and "lends pc = Some h" and "ch_core (k_S y') = ch_core (k_S y)"
    and "k_pc y' = pc" and "k_hub y' = k_hub y" and "k_freed y' = k_freed y" and "k_tx y' = k_tx y"
    and "lends (k_pc y) = Some h"
  shows "ch_inv dn y'"
proof -
  have "\<not> idle_pc pc" "holds pc = Some h" "k_pc y \<noteq> CIdle" "\<not> idle_pc (k_pc y)" "pc \<noteq> CIdle"
    using assms(2,3) lends_holds idle_free by fastforce+
  then show ?thesis using assms unfolding ch_inv_def ch_core_def by simp
qed

lemma ch_inv_run:
  assumes inv: "ch_inv dn y" and run: "ch_run H N down y = Some y'"
  shows "ch_inv dn y'"
proof (cases "k_pc y")
  case (CApply h)
  obtain l src where r: "ch_resolve N (ch_key (k_S y)) (k_w y) = (l, src)" by (metis surj_pair)
  obtain e S1 w1 where a: "ch_apply_lc H l src (k_S y, k_w y) = (e, (S1, w1))" by (metis surj_pair)
  have "ch_core S1 = ch_core (k_S y)" using core_ch_apply [of H l src "(k_S y, k_w y)"] a by simp
  then show ?thesis using run CApply r a
    by (intro ch_inv_keep [OF inv, of h "k_pc y'"]) (auto simp: ch_run_def Let_def split: if_splits)
next
  case (CReady h)
  then show ?thesis using run
    by (intro ch_inv_keep [OF inv, of h "k_pc y'"]) (auto simp: ch_run_def Let_def ch_core_def)
next
  case (CRead h)
  then show ?thesis using run
    by (intro ch_inv_keep [OF inv, of h "k_pc y'"]) (auto simp: ch_run_def Let_def ch_core_def to_down_def split: if_splits)
next
  case CIdle
  then have "ch_conn_sem (k_S y)" "y' = y\<lparr>k_S := (k_S y)\<lparr>ch_conn_sem := False, ch_rx_idle := False\<rparr>, k_pc := COpen\<rparr>"
    using run by (auto simp: ch_run_def Let_def split: if_splits)
  then show ?thesis using inv CIdle by (auto simp: ch_inv_def)
next
  case (CPublish h)
  then have "k_tx y = None" "y' = y\<lparr>k_S := ch_publish H h (k_S y), k_pc := CApply h\<rparr>"
    using run by (auto simp: ch_run_def Let_def split: if_splits)
  then show ?thesis using inv CPublish by (auto simp: ch_inv_def ch_publish_def Let_def)
next
  case (CDown h)
  then have "k_tx y = None" "y' = y\<lparr>k_S := ch_clear (k_S y), k_pc := CClose h\<rparr>"
    using run by (auto simp: ch_run_def Let_def split: if_splits)
  then show ?thesis using inv CDown by (auto simp: ch_inv_def ch_clear_def)
next
  case (CFail h)
  then have "k_tx y = None" "y' = y\<lparr>k_S := (k_S y)\<lparr>ch_ser := None\<rparr>, k_pc := CFailClose h\<rparr>"
    using run by (auto simp: ch_run_def Let_def split: if_splits)
  then show ?thesis using inv CFail by (auto simp: ch_inv_def)
qed (use run inv in \<open>auto simp: ch_run_def Let_def ch_inv_def split: if_splits\<close>)

lemma ch_inv_start: "ch_inv dn y \<Longrightarrow> k_hub y = HIdle \<Longrightarrow> ch_inv dn (y\<lparr>k_S := evt_interface_start d (k_S y)\<rparr>)"
proof -
  assume inv: "ch_inv dn y" and hub: "k_hub y = HIdle"
  show ?thesis
  proof (cases "evt_interface_start d (k_S y) = k_S y")
    case True
    then show ?thesis by (intro ch_inv_core [OF inv]) simp_all
  next
    case False
    then obtain n where n: "\<not> ch_claimed (k_S y)" "i_devname d = Some n" "take 8 n = tty_prefix"
      by (auto simp: evt_interface_start_def split: if_splits option.splits)
    have "fmt_s DEVNAME_LEN n \<noteq> []" using n(3) by (cases n) (auto simp: fmt_s_def DEVNAME_LEN_def tty_prefix_def)
    moreover have "k_pc y = CIdle" using inv n(1) by (auto simp: ch_inv_def)
    ultimately show ?thesis using inv hub n False by (auto simp: ch_inv_def evt_interface_start_def)
  qed
qed

lemma ch_inv_stop:
  assumes "ch_inv dn y" and "k_hub y = HIdle" and "\<not> hazard y (stop_begin dn i y)"
  shows "ch_inv dn (stop_begin dn i y)"
proof (cases "\<not> ch_claimed (k_S y) \<or> \<not> stop_mine dn i (k_S y)")
  case True
  have "k_pc y = CIdle \<and> \<not> ch_conn_sem (k_S y) \<or> dn i \<noteq> ch_devname (k_S y)"
    using True assms(1) by (auto simp: ch_inv_def stop_mine_def)
  then show ?thesis using True assms(1) by (auto simp: ch_inv_def stop_begin_def)
next
  case False
  then have "\<not> ch_conn_sem (k_S y)" using assms(2,3) by (auto simp: hazard_def stop_begin_def)
  then show ?thesis using False assms(1) by (auto simp: ch_inv_def stop_begin_def)
qed

lemma ch_inv_poll:
  assumes "ch_inv dn y" and "k_hub y = HPoll i k" and "\<not> hazard y (stop_poll i k y)"
  shows "ch_inv dn (stop_poll i k y)"
proof (cases "ch_rx_idle (k_S y)")
  case True
  then have "idle_pc (k_pc y)" "\<not> ch_conn_sem (k_S y)" using assms(1,2) by (auto simp: ch_inv_def)
  then show ?thesis using assms(1) True by (auto simp: ch_inv_def stop_poll_def)
next
  case False
  then have "k \<noteq> 0" using assms(2,3) by (cases "k = 0") (simp_all add: hazard_def stop_poll_def)
  then show ?thesis using assms(1,2) False by (auto simp: ch_inv_def stop_poll_def)
qed

lemma ch_inv_free:
  assumes "ch_inv dn y" and "k_hub y = HFree i"
  shows "holds (k_pc y) \<noteq> Some i" and "ch_inv dn (y\<lparr>k_freed := insert i (k_freed y), k_hub := HIdle\<rparr>)"
proof -
  show n: "holds (k_pc y) \<noteq> Some i"
    using assms idle_free [of "k_pc y"] by (auto simp: ch_inv_def)
  show "ch_inv dn (y\<lparr>k_freed := insert i (k_freed y), k_hub := HIdle\<rparr>)"
    using assms(1) n by (auto simp: ch_inv_def)
qed

lemma ch_inv_step:
  assumes "ch_inv dn y" and "ch_step H dn N down y y'" and "\<not> hazard y y'"
  shows "ch_inv dn y'"
  using assms(2)
proof cases
  case c_run
  then show ?thesis by (rule ch_inv_run [OF assms(1)])
next
  case (c_open h)
  then show ?thesis using assms(1) by (auto simp: ch_inv_def)
next
  case c_open_fails
  then show ?thesis using assms(1) by (auto simp: ch_inv_def)
next
  case (c_read h rx res)
  then show ?thesis
    by (intro ch_inv_keep [OF assms(1), of h "k_pc y'"])
      (auto simp: ch_read_done_def ch_core_def to_down_def split: ch_read_res.splits)
next
  case (c_start d)
  then show ?thesis using ch_inv_start [OF assms(1)] by simp
next
  case (c_gone hi hp)
  then show ?thesis by (intro ch_inv_core [OF assms(1)]) (auto simp: evt_disconnected_def ch_core_def)
next
  case (c_stop i)
  then show ?thesis using ch_inv_stop [OF assms(1)] assms(3) by simp
next
  case (c_stop_mutex i)
  then show ?thesis using assms(1) by (auto simp: ch_inv_def)
next
  case (c_stop_poll i k)
  then show ?thesis using ch_inv_poll [OF assms(1)] assms(3) by simp
next
  case (c_free i)
  then show ?thesis using ch_inv_free(2) [OF assms(1)] by simp
next
  case (c_tx_begin h d)
  then show ?thesis using assms(1) by (auto simp: ch_inv_def)
next
  case (c_tx_end h d)
  then show ?thesis
    by (intro ch_inv_core [OF assms(1)]) (auto simp: ch_tx_end_def ch_core_def split: prod.splits)
next
  case (c_apply l src)
  then show ?thesis by (intro ch_inv_core [OF assms(1)]) (simp_all add: core_ch_apply)
next
  case c_revert
  then show ?thesis by (intro ch_inv_core [OF assms(1)]) (simp_all add: core_ch_revert)
qed

lemma ch_init_inv: "ch_inv dn (ch_init w)"
  by (simp add: ch_inv_def ch_init_def)

definition ch_safe_step where
  "ch_safe_step H dn N down y y' \<longleftrightarrow> ch_step H dn N down y y' \<and> \<not> hazard y y'"

lemma ch_reach_inv: "(ch_safe_step H dn N down)\<^sup>*\<^sup>* (ch_init w) y \<Longrightarrow> ch_inv dn y"
  by (induction rule: rtranclp_induct) (auto simp: ch_safe_step_def intro: ch_init_inv ch_inv_step)

text \<open>C9: however hub thread, stick task and senders interleave, unless a device goes away before its claim was
  taken up or the polls run out: when the stack frees an instance, neither the task nor a sender has it,
  and no instance that the task, the pipe or a sender has was freed; so the handshake of
  \<^verbatim>\<open>usbh_serial_stop\<close> rules out the use of a deleted instance.\<close>

theorem cherry_no_use_after_free:
  assumes "(ch_safe_step H dn N down)\<^sup>*\<^sup>* (ch_init w) y"
  shows "(\<forall>i. k_hub y = HFree i \<longrightarrow> holds (k_pc y) \<noteq> Some i \<and> ch_ser (k_S y) \<noteq> Some i \<and> (\<forall>d. k_tx y \<noteq> Some (i, d))) \<and>
    (\<forall>h. holds (k_pc y) = Some h \<or> ch_ser (k_S y) = Some h \<or> (\<exists>d. k_tx y = Some (h, d)) \<longrightarrow> h \<notin> k_freed y)"
proof -
  have inv: "ch_inv dn y" by (rule ch_reach_inv [OF assms])
  then have l: "ch_ser (k_S y) = Some h \<or> (\<exists>d. k_tx y = Some (h, d)) \<Longrightarrow> holds (k_pc y) = Some h" for h
    using lends_holds by (auto simp: ch_inv_def)
  show ?thesis using inv l ch_inv_free(1) [OF inv] by (auto simp: ch_inv_def)
qed

subsection \<open>The task lets go in time\<close>

text \<open>How many pieces the task is away from letting go, once it is to close.\<close>

fun rank :: "ch_pc \<Rightarrow> nat" where
  "rank COpen = 7" | "rank CDelay = 7" | "rank (CPublish h) = 6" | "rank (CApply h) = 5" | "rank (CReady h) = 4"
| "rank (CInRead h) = 4" | "rank (CRead h) = 3" | "rank (CDown h) = 2" | "rank (CFail h) = 2" | "rank (CClose h) = 1"
| "rank (CFailClose h) = 1" | "rank CRetry = 1" | "rank CIdle = 0" | "rank CAbandon = 0" | "rank CNotify = 0"
| "rank CRelease = 0"

lemma rank_idle: "rank pc = 0 \<longleftrightarrow> idle_pc pc"
  by (cases pc) auto

lemma want_close_apply [simp]: "ch_want_close (fst (snd (ch_apply_lc H l src sw))) = ch_want_close (fst sw)"
  by (simp add: ch_apply_lc_def split: prod.splits)

lemma want_close_revert [simp]: "ch_want_close (fst (ch_op_revert_line_coding H N sw)) = ch_want_close (fst sw)"
  by (simp add: ch_op_revert_line_coding_def split: prod.splits)

lemma run_closing:
  assumes "ch_run H N down y = Some y'" and "ch_want_close (k_S y)" and "\<not> idle_pc (k_pc y)"
  shows "ch_want_close (k_S y') \<and> rank (k_pc y') < rank (k_pc y)"
proof (cases "k_pc y")
  case (CApply h)
  obtain l src where r: "ch_resolve N (ch_key (k_S y)) (k_w y) = (l, src)" by (metis surj_pair)
  obtain e S1 w1 where a: "ch_apply_lc H l src (k_S y, k_w y) = (e, (S1, w1))" by (metis surj_pair)
  then have "ch_want_close S1" using want_close_apply [of H l src "(k_S y, k_w y)"] assms(2) by simp
  then show ?thesis using assms CApply r a by (auto simp: ch_run_def Let_def split: if_splits)
qed (use assms in \<open>auto simp: ch_run_def Let_def ch_publish_def ch_clear_def to_down_def split: if_splits\<close>)

lemma run_progress:
  assumes "\<not> idle_pc (k_pc y)" and "k_tx y = None"
  shows "(\<exists>y'. ch_run H N down y = Some y') \<or> k_pc y = COpen \<or> k_pc y = CDelay \<or> (\<exists>h. k_pc y = CInRead h)"
  using assms by (cases "k_pc y") (auto simp: ch_run_def Let_def split: prod.splits)

text \<open>C34: once a close is asked for, every step of the stick task brings it nearer to letting go, no other step takes it
  back or cancels the close, and the task is never stuck unless a sender has the mutex: so it lets go after
  at most seven of its own steps, whatever opening and reading return.\<close>

theorem cherry_teardown_bound:
  assumes "(ch_safe_step H dn N down)\<^sup>*\<^sup>* (ch_init w) y" and "ch_want_close (k_S y)" and "\<not> ch_rx_idle (k_S y)"
    and "ch_step H dn N down y y'"
  shows "ch_want_close (k_S y') \<and> (k_pc y' = k_pc y \<or> rank (k_pc y') < rank (k_pc y)) \<and> rank (k_pc y) \<le> 7 \<and>
    (k_tx y = None \<longrightarrow> (\<exists>y'. ch_step H dn N down y y' \<and> rank (k_pc y') < rank (k_pc y)))"
proof -
  have inv: "ch_inv dn y" by (rule ch_reach_inv [OF assms(1)])
  then have busy: "\<not> idle_pc (k_pc y)" "ch_claimed (k_S y)" using assms(3) by (auto simp: ch_inv_def)
  have 1: "ch_want_close (k_S y') \<and> (k_pc y' = k_pc y \<or> rank (k_pc y') < rank (k_pc y))" using assms(4)
  proof cases
    case c_run
    then show ?thesis using run_closing [OF _ assms(2) busy(1)] by blast
  next
    case (c_read h rx res)
    then show ?thesis using assms(2) by (auto simp: ch_read_done_def to_down_def split: ch_read_res.splits)
  next
    case (c_start d)
    then show ?thesis using assms(2) busy(2) by (simp add: evt_interface_start_def)
  qed (use assms(2) in \<open>auto simp: evt_disconnected_def stop_begin_def stop_poll_def ch_tx_end_def split: prod.splits\<close>)
  have 2: "\<exists>y'. ch_step H dn N down y y' \<and> rank (k_pc y') < rank (k_pc y)" if "k_tx y = None"
    using run_progress [OF busy(1) that, of H N down]
  proof (elim disjE exE)
    fix y1
    assume "ch_run H N down y = Some y1"
    then show ?thesis using run_closing [OF _ assms(2) busy(1)] c_run by blast
  next
    fix h
    assume h: "k_pc y = CInRead h"
    then have "ch_step H dn N down y (ch_read_done H None h ReadTimeout y)" by (rule c_read)
    then show ?thesis using h by (auto simp: ch_read_done_def)
  qed (auto intro!: exI [of _ "y\<lparr>k_pc := CRetry\<rparr>"] c_open_fails)
  have "rank (k_pc y) \<le> 7" by (cases "k_pc y") auto
  then show ?thesis using 1 2 by blast
qed

text \<open>The keys are those of \<^verbatim>\<open>source_usb.c\<close>, so stored codings still match.\<close>

lemma key_plain_char: "(if key_plain c then c else CHR ''_'') = key_char c"
  by (auto simp: key_plain_def key_char_def Let_def)

lemma key_loop_map: "key_loop cap p out = out @ map key_char (take (cap - 1 - length out) p)"
proof (induction cap p out rule: key_loop.induct)
  case (2 cap c p out)
  show ?case
  proof (cases "length out + 1 < cap")
    case True
    then have "cap - 1 - length out = Suc (cap - 1 - Suc (length out))" by simp
    then show ?thesis using 2 True by (simp add: key_plain_char)
  qed simp
qed simp

theorem cherry_key_same: "ch_derive_key serial vid pid cap = derive_key serial vid pid cap"
  by (simp add: ch_derive_key_def derive_key_def key_loop_map)

subsection \<open>A device that goes away while it is being opened\<close>

definition host_null :: "'w host_api" where
  "host_null = \<lparr>h_driver = (\<lambda>h. None), h_set_attr = (\<lambda>h l w. (True, w)), h_write = (\<lambda>h d w. (int (length d), w)),
     h_gone = (\<lambda>h w. False), h_close = (\<lambda>h w. w)\<rparr>"

definition acm0 :: string where "acm0 = ''/dev/ttyACM0''"

definition acm_dev :: intf_dev where
  "acm_dev = \<lparr>i_port_ok = True, i_intf_ok = True, i_devname = Some acm0, i_vid = 0x03EB, i_pid = 0x204B,
     i_manuf = (0, None), i_product = (0, None), i_serial = (0, None), i_hub_index = 1, i_hub_port = 1\<rparr>"

definition plugged :: "unit ch_sys" where
  "plugged = (ch_init ())\<lparr>k_S := evt_interface_start acm_dev (k_S (ch_init ()))\<rparr>"

lemma plugged_state: "ch_conn_sem (k_S plugged)" "ch_claimed (k_S plugged)" "ch_devname (k_S plugged) = acm0"
    "k_pc plugged = CIdle" "k_hub plugged = HIdle" "k_tx plugged = None" "k_freed plugged = {}" "ch_ser (k_S plugged) = None"
  by (simp_all add: plugged_def ch_init_def evt_interface_start_def acm_dev_def acm0_def tty_prefix_def fmt_s_def DEVNAME_LEN_def)

text \<open>The task has taken the claim up, its open failed, and the device is pulled.\<close>

definition opening_k :: "unit ch_sys" where
  "opening_k = plugged\<lparr>k_S := (k_S plugged)\<lparr>ch_conn_sem := False, ch_rx_idle := False\<rparr>, k_pc := COpen\<rparr>"

definition pulled :: "unit ch_sys" where
  "pulled = stop_begin (\<lambda>i. acm0) 1 (opening_k\<lparr>k_pc := CRetry\<rparr>)"

lemma pulled_state: "k_hub pulled = HMutex 1" "ch_want_close (k_S pulled)" "k_pc pulled = CRetry" "k_tx pulled = None"
    "\<not> ch_rx_idle (k_S pulled)"
  by (simp_all add: pulled_def stop_begin_def opening_k_def plugged_state stop_mine_def) (simp_all add: acm0_def)

lemma pulled_reached: "(ch_safe_step host_null (\<lambda>i. acm0) N down)\<^sup>*\<^sup>* (ch_init ()) pulled"
proof -
  let ?R = "ch_safe_step host_null (\<lambda>i. acm0) N down"
  have "?R (ch_init ()) plugged"
    unfolding ch_safe_step_def plugged_def by (intro conjI c_start) (simp_all add: hazard_def ch_init_def)
  moreover have "?R plugged opening_k"
    unfolding ch_safe_step_def
    by (intro conjI c_run) (simp_all add: ch_run_def plugged_state opening_k_def Let_def hazard_def)
  moreover have "?R opening_k (opening_k\<lparr>k_pc := CRetry\<rparr>)"
    unfolding ch_safe_step_def by (intro conjI c_open_fails) (simp_all add: opening_k_def hazard_def plugged_state)
  moreover have "?R (opening_k\<lparr>k_pc := CRetry\<rparr>) pulled"
    unfolding ch_safe_step_def pulled_def
    by (intro conjI c_stop) (simp_all add: opening_k_def hazard_def plugged_state)
  ultimately show ?thesis by (meson rtranclp.rtrancl_refl rtranclp.rtrancl_into_rtrancl)
qed

lemma cherry_teardown_bound_witness:
  "\<exists>y'. ch_step host_null (\<lambda>i. acm0) nvs_none id pulled y' \<and> rank (k_pc y') = 0"
proof -
  have "ch_step host_null (\<lambda>i. acm0) nvs_none id pulled
      (pulled\<lparr>k_S := (k_S pulled)\<lparr>ch_ser := None\<rparr>, k_hub := HPoll 1 STOP_POLLS\<rparr>)"
    by (rule c_stop_mutex) (simp_all add: pulled_state)
  from cherry_teardown_bound [OF pulled_reached pulled_state(2,5) this] pulled_state(3,4)
  show ?thesis by auto
qed

text \<open>The hub thread then waits until the task has let go, and only then the instance is freed.\<close>

definition freeing :: "unit ch_sys" where
  "freeing = pulled\<lparr>k_S := (k_S pulled)\<lparr>ch_ser := None, ch_rx_idle := True\<rparr>, k_hub := HFree 1, k_pc := CAbandon\<rparr>"

lemma freeing_reached: "(ch_safe_step host_null (\<lambda>i. acm0) N down)\<^sup>*\<^sup>* (ch_init ()) freeing"
proof -
  let ?R = "ch_safe_step host_null (\<lambda>i. acm0) N down"
  let ?p = "pulled\<lparr>k_S := (k_S pulled)\<lparr>ch_ser := None\<rparr>, k_hub := HPoll 1 STOP_POLLS\<rparr>"
  let ?q = "?p\<lparr>k_S := (k_S ?p)\<lparr>ch_rx_idle := True\<rparr>, k_pc := CAbandon\<rparr>"
  have 1: "?R pulled ?p" unfolding ch_safe_step_def
    by (intro conjI c_stop_mutex) (simp_all add: pulled_state hazard_def)
  have 2: "?R ?p ?q" unfolding ch_safe_step_def
    by (intro conjI c_run) (simp_all add: ch_run_def pulled_state hazard_def Let_def)
  have "stop_poll 1 STOP_POLLS ?q = freeing" by (simp add: stop_poll_def freeing_def)
  moreover have "?R ?q (stop_poll 1 STOP_POLLS ?q)" unfolding ch_safe_step_def
    by (intro conjI c_stop_poll) (simp_all add: hazard_def stop_poll_def)
  ultimately show ?thesis using pulled_reached 1 2 by (metis rtranclp.rtrancl_into_rtrancl)
qed

lemma cherry_no_use_after_free_witness: "k_hub freeing = HFree 1 \<and> holds (k_pc freeing) \<noteq> Some 1"
  using cherry_no_use_after_free [OF freeing_reached [of nvs_none id]] by (simp add: freeing_def)

lemma idle_takes: "k_pc y = CIdle \<Longrightarrow> ch_conn_sem (k_S y) \<Longrightarrow> ch_run H N down y =
    Some (y\<lparr>k_S := (k_S y)\<lparr>ch_conn_sem := False, ch_rx_idle := False\<rparr>, k_pc := COpen\<rparr>)"
  by (simp add: ch_run_def Let_def)

text \<open>
  The first hazard is real for the stack: pulled before the task has taken the claim up, the instance is
  found idle, and the task opens it before it is freed.
\<close>

theorem cherry_claim_gap:
  "\<exists>y. (ch_step host_null (\<lambda>i. acm0) N down)\<^sup>*\<^sup>* (ch_init ()) y \<and> k_hub y = HFree 1 \<and> holds (k_pc y) = Some 1"
proof -
  let ?R = "ch_step host_null (\<lambda>i. acm0) N down"
  let ?a = "stop_begin (\<lambda>i. acm0) 1 plugged"
  let ?b = "?a\<lparr>k_S := (k_S ?a)\<lparr>ch_ser := None\<rparr>, k_hub := HPoll 1 STOP_POLLS\<rparr>"
  let ?c = "stop_poll 1 STOP_POLLS ?b"
  let ?d = "?c\<lparr>k_S := (k_S ?c)\<lparr>ch_conn_sem := False, ch_rx_idle := False\<rparr>, k_pc := COpen\<rparr>"
  let ?e = "?d\<lparr>k_pc := CPublish 1\<rparr>"
  have 0: "?R (ch_init ()) plugged" unfolding plugged_def by (rule c_start) (simp add: ch_init_def)
  have 1: "?R plugged ?a" by (rule c_stop) (simp_all add: plugged_state)
  have a: "?a = plugged\<lparr>k_S := (k_S plugged)\<lparr>ch_want_close := True\<rparr>, k_hub := HMutex 1\<rparr>"
    by (simp add: stop_begin_def plugged_state stop_mine_def) (simp add: acm0_def)
  have a': "k_hub ?a = HMutex 1" "k_tx ?a = None" unfolding a by (simp_all add: plugged_state)
  have 2: "?R ?a ?b" by (rule c_stop_mutex) (rule a')+
  have 3: "?R ?b ?c" by (rule c_stop_poll) simp
  have idle: "ch_rx_idle (k_S plugged)"
    by (simp add: plugged_def ch_init_def evt_interface_start_def acm_dev_def acm0_def tty_prefix_def)
  have c: "k_hub ?c = HFree 1" "ch_conn_sem (k_S ?c)" "k_pc ?c = CIdle" "k_freed ?c = {}" "ch_devname (k_S ?c) = acm0"
    unfolding a by (simp_all add: stop_poll_def plugged_state idle)
  have 4: "?R ?c ?d" by (rule c_run, rule idle_takes [OF c(3,2)])
  have d: "k_pc ?d = COpen" "k_freed ?d = k_freed ?c" "ch_devname (k_S ?d) = ch_devname (k_S ?c)" by simp_all
  have 5: "?R ?d ?e" by (rule c_open) (unfold d c, simp_all)
  have "?R\<^sup>*\<^sup>* (ch_init ()) ?e"
    using 0 1 2 3 4 5 by (meson rtranclp.rtrancl_refl rtranclp.rtrancl_into_rtrancl)
  moreover have e: "k_hub ?e = k_hub ?c" "holds (k_pc ?e) = Some 1" by simp_all
  ultimately show ?thesis using trans [OF e(1) c(1)] e(2) by blast
qed

end
