(* ===== verification/WebActions.thy ===== *)
theory WebActions
  imports WebForms NetLife CulDfu Bridge
begin

text \<open>
  The handlers of \<^verbatim>\<open>webui.c\<close> that act on another component: \<^verbatim>\<open>/api/wifi\<close>, \<^verbatim>\<open>/api/wifi/reset\<close>,
  \<^verbatim>\<open>/api/cul/dfu\<close> with its \<^verbatim>\<open>enter\<close>, \<^verbatim>\<open>/api/update/check\<close> and \<^verbatim>\<open>/api/update/install\<close>.  \<open>AnswerFail\<close> is a handler that returns
  \<^verbatim>\<open>ESP_FAIL\<close> without an answer.
\<close>

subsection \<open>Credentials\<close>

definition WIFI_BODY :: nat where "WIFI_BODY = 256"

text \<open>The password buffer is zero before \<^verbatim>\<open>json_field\<close> writes it, also when its result is an error.\<close>

definition posted_pass :: "string \<Rightarrow> string" where
  "posted_pass b = (case snd (json_field b ''pass'' 65) of Some p \<Rightarrow> p | None \<Rightarrow> [])"

definition h_wifi ::
  "'w nvs_api \<Rightarrow> recv_ev list \<Rightarrow> u8 list \<Rightarrow> net \<times> 'w \<Rightarrow> http_res \<times> (net \<times> 'w)" where
  "h_wifi N evs body nw =
     (let b = cstr (read_body WIFI_BODY evs body)
      in case field_ok b ''ssid'' 33 of
        None \<Rightarrow> (HttpErr 400 ''missing ssid'', nw)
      | Some ssid \<Rightarrow>
          if ssid = [] then (HttpErr 400 ''missing ssid'', nw)
          else (case net_persist_creds N ssid (Some (posted_pass b)) nw of
            (e, nw1) \<Rightarrow> if e \<noteq> ESP_OK then (HttpErr 500 ''persist failed'', nw1) else (HttpOk saved_answer, nw1)))"

definition reset_answer :: string where
  "reset_answer = ''{'' @ joined [jfield ''reset'' ''true'', jfield ''reboot'' ''true''] @ ''}''"

text \<open>The flag of the result is whether the delayed reboot was started.\<close>

definition h_wifi_reset :: "'w nvs_api \<Rightarrow> net \<times> 'w \<Rightarrow> (http_res \<times> bool) \<times> (net \<times> 'w)" where
  "h_wifi_reset N nw =
     (case net_clear_creds N nw of
        (e, nw1) \<Rightarrow>
          (if e \<noteq> ESP_OK then (HttpErr 500 ''nvs erase failed'', False) else (HttpOk reset_answer, True), nw1))"

subsection \<open>Sending a stick into its bootloader\<close>

definition DFU_CMD :: nat where "DFU_CMD = 32"

definition crlf :: "u8 list" where "crlf = [13, 10]"

text \<open>The line ends of the caller go; the rest is a C string.\<close>

definition strip_eol :: "u8 list \<Rightarrow> u8 list" where
  "strip_eol d = rev (dropWhile (\<lambda>b. b = 13 \<or> b = 10) (rev d))"

text \<open>\<open>recv\<close> is what the one call of \<^verbatim>\<open>httpd_req_recv\<close> delivers, \<open>None\<close> if it fails.\<close>

definition dfu_enter_cmd :: "int \<Rightarrow> u8 list option \<Rightarrow> u8 list option" where
  "dfu_enter_cmd len recv =
     (let default = bytes ''B01'';
          finish = (\<lambda>cmd. (if cmd = [] then default else cmd) @ crlf)
      in if 0 < len \<and> len < int DFU_CMD - 3
         then (case recv of
           None \<Rightarrow> None
         | Some d \<Rightarrow>
             let got = take (nat len) d
             in if got = [] then None else Some (finish (takeWhile (\<lambda>b. b \<noteq> 0) (strip_eol got))))
         else Some (finish default))"

datatype answer = Answer http_res | AnswerFail

definition ok_answer :: string where "ok_answer = ''{'' @ jfield ''ok'' ''true'' @ ''}''"

definition h_cul_dfu_enter ::
  "'w br_env \<Rightarrow> int \<Rightarrow> int \<Rightarrow> int \<Rightarrow> u8 list option \<Rightarrow> bridge \<times> 'w \<Rightarrow> answer \<times> (bridge \<times> 'w)" where
  "h_cul_dfu_enter E now1 now2 len recv bw =
     (case dfu_enter_cmd len recv of
        None \<Rightarrow> (AnswerFail, bw)
      | Some cmd \<Rightarrow>
          (case bridge_tx_to_source E now1 now2 None cmd bw of
             (e, bw1) \<Rightarrow>
               (Answer (if e \<noteq> ESP_OK then HttpErr 400 ''source not ready'' else HttpOk ok_answer), bw1)))"

subsection \<open>Flashing it\<close>

text \<open>The receive loop: anything but bytes ends it, a timeout too.\<close>

fun recv_all :: "nat \<Rightarrow> recv_ev list \<Rightarrow> u8 list \<Rightarrow> u8 list \<Rightarrow> u8 list option" where
  "recv_all len [] rest img = (if len \<le> length img then Some img else None)"
| "recv_all len (ev # evs) rest img =
     (if len \<le> length img then Some img
      else case ev of
        Got n \<Rightarrow>
          (let d = take (min n (len - length img)) rest
           in if d = [] then None else recv_all len evs (drop (length d) rest) (img @ d))
      | _ \<Rightarrow> None)"

definition dfu_answer :: "esp_err \<Rightarrow> cul_dfu_status \<Rightarrow> string" where
  "dfu_answer e st = fmt_s 224 (''{'' @ joined
     [jfield ''ok'' (json_bool (e = ESP_OK)), jfield ''written'' (dec (ds_written st)),
      jfield ''msg'' (quoted (ds_last st))] @ ''}'')"

definition h_cul_dfu_body ::
  "'w usb_api \<Rightarrow> bool \<Rightarrow> int \<Rightarrow> recv_ev list \<Rightarrow> u8 list \<Rightarrow> dfu \<times> 'w \<Rightarrow> answer \<times> (dfu \<times> 'w)" where
  "h_cul_dfu_body U mem len evs body sw =
     (if len \<le> 0 \<or> len > int CUL_DFU_APP_LIMIT then (Answer (HttpErr 400 ''content_len out of range''), sw)
      else if \<not> ds_present (d_st (fst sw))
      then (Answer (HttpErr 400 ''no DFU device attached - send B01 to the stick first''), sw)
      else if \<not> mem then (Answer (HttpErr 500 ''out of memory''), sw)
      else case recv_all (nat len) evs body [] of
        None \<Rightarrow> (AnswerFail, sw)
      | Some img \<Rightarrow>
          (case cul_dfu_flash U img sw of (e, sw1) \<Rightarrow> (Answer (HttpOk (dfu_answer e (d_st (fst sw1)))), sw1)))"

definition h_cul_dfu_get :: "cul_dfu_status \<Rightarrow> string" where
  "h_cul_dfu_get st = fmt_s 256 (''{'' @ joined
     [jfield ''present'' (json_bool (ds_present st)), jfield ''busy'' (json_bool (ds_busy st)),
      jfield ''vid'' (quoted (hex4 (ds_vid st))), jfield ''pid'' (quoted (hex4 (ds_pid st))),
      jfield ''written'' (dec (ds_written st)),
      jfield ''eeprom'' (quoted (if \<not> ds_eeprom_checked st then ''unknown''
         else if ds_eeprom_intact st then ''intact'' else ''CHANGED'')),
      jfield ''msg'' (quoted (ds_last st))] @ ''}'')"

subsection \<open>Installing an update\<close>

definition installing_answer :: "bool \<Rightarrow> string" where
  "installing_answer running = ''{'' @ joined (jfield ''installing'' ''true'' #
     (if running then [jfield ''note'' (quoted ''already running'')] else [])) @ ''}''"

definition recovery_answer :: string where
  "recovery_answer = ''{'' @ jfield ''error'' (quoted
     (''this product installs firmware from its recovery system; '' @ ''POST /api/recovery to restart into it'')) @ ''}''"

definition h_update_install :: "build \<Rightarrow> bool \<Rightarrow> install_state \<Rightarrow> http_res \<times> install_state" where
  "h_update_install B spawned i =
     (case ota_install_start B spawned i of
        (e, i1) \<Rightarrow>
          (if e = ESP_ERR_INVALID_STATE then HttpOk (installing_answer True)
           else if b_tulx B \<and> e = ESP_ERR_NOT_SUPPORTED then HttpErr 409 recovery_answer
           else if e \<noteq> ESP_OK then HttpErr 500 ''install start failed''
           else HttpOk (installing_answer False), i1))"

text \<open>
  The check: a POST, or a query whose \<^verbatim>\<open>refresh\<close> has a value other than one that starts with 0, fetches the
  manifest first.  \<open>q\<close> is the value the query parser delivers, \<open>None\<close> if there is none.
\<close>

definition wants_refresh :: "bool \<Rightarrow> string option \<Rightarrow> bool" where
  "wants_refresh post q \<longleftrightarrow> post \<or> (case q of Some (c # _) \<Rightarrow> c \<noteq> CHR ''0'' | _ \<Rightarrow> False)"

definition UPDATE_BUF :: nat where "UPDATE_BUF = 320"

definition h_update_check ::
  "build \<Rightarrow> 'j json_api \<Rightarrow> (esp_err \<Rightarrow> string) \<Rightarrow> fetch \<Rightarrow> int \<Rightarrow> int \<Rightarrow> bool \<Rightarrow> string option \<Rightarrow> ota_state \<Rightarrow>
   install_state \<Rightarrow> http_res \<times> ota_state" where
  "h_update_check B J err_name f t0 now post q s i =
     (let s1 = (if wants_refresh post q then snd (ota_check_refresh B J err_name f t0 s) else s);
          (text, n) = ota_check_status_json UPDATE_BUF now s1 i
      in (if n < 0 then HttpErr 500 ''status buffer too small'' else HttpOk (take (nat n) text), s1))"

lemma update_check_fits:
  assumes "length (oc_current s) \<le> 8" "length (oc_latest s) < VER_STR_MAX" "length (oc_error s) \<le> 50"
    "length (is_err i) \<le> 72" "oc_last_us s \<le> now" "now < 10 ^ 13" "\<not> wants_refresh post q"
  shows "\<exists>page. h_update_check B J en f t0 now post q s i = (HttpOk page, s)"
proof -
  have a: "- 1 \<le> age_s now s" "age_s now s < 10 ^ 7"
    using assms(5,6) by (auto simp: age_s_def Let_def)
  then have "nat (age_s now s) < 10 ^ 7" "nat (- age_s now s) < 10 ^ 1" by simp_all
  then have "length (dec (nat (age_s now s))) \<le> 7" "length (dec (nat (- age_s now s))) \<le> 1"
    by (metis length_dec zero_less_numeral zero_less_one)+
  then have l: "length (sdec (age_s now s)) \<le> 8"
    by (simp add: sdec_def)
  have st: "length (state_name (oc_state s)) \<le> 10" "length (install_name (is_mode i)) \<le> 7"
    by (cases "oc_state s"; simp) (cases "is_mode i"; simp)
  show ?thesis
    using assms(1-4) l st
    by (simp add: h_update_check_def Let_def assms(7) ota_check_status_json_def UPDATE_BUF_def VER_STR_MAX_def
        OtaCheck.field_def OtaCheck.quoted_def)
qed

subsection \<open>From the form to the radio\<close>

lemma start_sta_config:
  assumes "start_sta E True s = Some s'"
  shows "WifiStaConfig (take 32 (n_ssid s)) (take 64 (n_pass s)) \<in> set (n_calls s')"
  using assms by (auto simp: start_sta_def checked_def emit_def Let_def spawn_recovery_def split: if_splits)

lemma eth_init_calls:
  assumes "net_eth_init E N w s = Some s'"
  shows "set (n_calls s) \<subseteq> set (n_calls s')"
  using assms by (auto simp: net_eth_init_def checked_def eth_static_def emit_def Let_def split: if_splits)

lemma prep_creds:
  "n_ssid (sta_static E ((compute_names E s)\<lparr>n_cfg := c, n_last_us := t\<rparr>)) = n_ssid s"
  "n_pass (sta_static E ((compute_names E s)\<lparr>n_cfg := c, n_last_us := t\<rparr>)) = n_pass s"
  by (simp_all add: sta_static_def compute_names_def emit_def Let_def)

lemma init_configures:
  assumes "load_creds E N w net_boot = (True, net_boot\<lparr>n_ssid := ssid, n_pass := psk\<rparr>)" and "ssid \<noteq> []"
    and "length ssid < 33" and "length psk < 65" and "net_init E with_eth N w now = Some s"
  shows "WifiStaConfig ssid psk \<in> set (n_calls s)"
proof -
  let ?s1 = "net_boot\<lparr>n_ssid := ssid, n_pass := psk\<rparr>"
  let ?s2 = "sta_static E ((compute_names E ?s1)\<lparr>n_cfg := config_load N w, n_last_us := now\<rparr>)"
  obtain s3 s4 where 3: "start_sta E True ?s2 = Some s3" "(if with_eth then net_eth_init E N w else Some) s3 = Some s4"
    and s: "s = (if wdt_enable (n_cfg s4) then (emit (Spawn TaskWdt) s4)\<lparr>n_wdt := call_ok E (Spawn TaskWdt)\<rparr> else s4)"
    using assms(1,2,5) by (auto simp: net_init_def adopt_creds_def bind_eq_Some_conv Let_def split: option.splits)
  have "WifiStaConfig ssid psk \<in> set (n_calls s3)"
    using start_sta_config [OF 3(1)] assms(3,4) by (simp add: prep_creds)
  then have "WifiStaConfig ssid psk \<in> set (n_calls s4)"
    using 3(2) eth_init_calls [of E N w s3 s4] by (cases with_eth) auto
  then show ?thesis by (simp add: s emit_def)
qed

definition wifi_post :: "string \<Rightarrow> string \<Rightarrow> string" where
  "wifi_post ssid pass = jobject [(''ssid'', JText ssid), (''pass'', JText pass)]"

text \<open>A text that does not fit is read cut off, and the result says so.\<close>

lemma quoted_loop_cut:
  assumes "printable s"
  shows "length out < cap \<Longrightarrow> cap \<le> length out + length s \<Longrightarrow>
    quoted_loop cap out (escaped s @ r) = (False, out @ take (cap - 1 - length out) s)"
  using assms
proof (induction s arbitrary: out)
  case (Cons c s)
  have p: "printable s" and c: "\<not> (of_char c :: nat) < 0x20" using Cons.prems(3) by (simp_all add: printable_def)
  obtain x y where e: "escaped (c # s) @ r = x # y" "x \<noteq> CHR 0x22" "if x = CHR 0x5C then y = c # escaped s @ r else x = c \<and> y = escaped s @ r"
  proof (cases "c = CHR 0x22 \<or> c = CHR 0x5C")
    case True
    then show ?thesis using that [of "CHR 0x5C" "c # escaped s @ r"] by (auto simp: escaped_def esc_char_def)
  next
    case False
    then show ?thesis using that [of c "escaped s @ r"] c by (simp add: escaped_def esc_char_def)
  qed
  show ?case
  proof (cases "length out + 1 < cap")
    case True
    have "quoted_loop cap out (x # y) = quoted_loop cap (out @ [c]) (escaped s @ r)"
      using e(2,3) True quoted_step [of x out cap y] by (cases "x = CHR 0x5C") auto
    also have "\<dots> = (False, out @ take (cap - 1 - length out) (c # s))"
      using Cons.IH [of "out @ [c]"] Cons.prems(2) p True by (simp add: take_Cons')
    finally show ?thesis by (simp only: e(1))
  next
    case False
    then have "quoted_loop cap out (x # y) = (False, out)" using e(2) by (cases y) auto
    then show ?thesis using False Cons.prems(1) by (simp only: e(1)) simp
  qed
qed simp

lemma field_text:
  assumes "key_text k" and "\<forall>kv\<in>set pre. quiet k kv" and "printable t" and "0 < cap"
  shows "json_field (jobject (pre @ (k, JText t) # post)) k cap = (length t < cap, Some (take (cap - 1) t))"
proof -
  obtain r where r: "field_at blank (jobject (pre @ (k, JText t) # post)) k = Some (dropWhile blank (jval_text (JText t) @ r))"
    using field_at_object [OF assms(1,2), of blank "JText t" post] by blast
  show ?thesis
  proof (cases "length t < cap")
    case True
    then show ?thesis
      using r quoted_loop_escaped [OF assms(3), of "[]" cap r] by (simp add: json_field_def jval_text_def blank_def)
  next
    case False
    then show ?thesis
      using r quoted_loop_cut [OF assms(3), of "[]" cap "CHR 0x22 # r"] assms(4)
      by (simp add: json_field_def jval_text_def blank_def)
  qed
qed

lemma wifi_post_fields:
  assumes "plain_text ssid" "ssid \<noteq> ''pass''" and "printable pass"
  shows "json_field (wifi_post ssid pass) ''ssid'' 33 = (length ssid < 33, Some (take 32 ssid))"
    and "json_field (wifi_post ssid pass) ''pass'' 65 = (length pass < 65, Some (take 64 pass))"
proof -
  have k: "key_text ''ssid''" "key_text ''pass''" by (simp_all add: key_text_def)
  have q: "\<forall>kv\<in>set [(''ssid'', JText ssid)]. quiet ''pass'' kv" using assms by (simp add: quiet_def)
  have "printable ssid" using assms(1) by (simp add: printable_def plain_text_def)
  then show "json_field (wifi_post ssid pass) ''ssid'' 33 = (length ssid < 33, Some (take 32 ssid))"
    using field_text [OF k(1), of "[]" ssid 33 "[(''pass'', JText pass)]"] by (simp add: wifi_post_def)
  show "json_field (wifi_post ssid pass) ''pass'' 65 = (length pass < 65, Some (take 64 pass))"
    using field_text [OF k(2) q assms(3), of 65 "[]"] by (simp add: wifi_post_def)
qed

text \<open>C24: the network that was posted is the one the next boot joins.  The form is a name without quotes and
  backslashes that is not itself the word pass, and a password of printable characters.  A name that is empty or
  longer than 32 characters is refused and nothing changes.  Any other is answered as saved exactly if storing
  succeeded, and then the bring-up after it configures the station with exactly the posted name and the first 64
  characters of the password: a longer one is cut without notice.\<close>

theorem wifi_provisioned:
  assumes "nvs_laws N" and "built_ssid E = []" and "plain_text ssid" "ssid \<noteq> ''pass''" and "printable pass"
    and "cstr (read_body WIFI_BODY evs body) = wifi_post ssid pass"
    and "h_wifi N evs body (s, w) = (res, (s', w'))"
  shows "if ssid = [] \<or> 32 < length ssid then res = HttpErr 400 ''missing ssid'' \<and> (s', w') = (s, w)
    else if fst (net_persist_creds N ssid (Some (take 64 pass)) (s, w)) \<noteq> ESP_OK then res = HttpErr 500 ''persist failed''
    else res = HttpOk saved_answer \<and> n_ssid s' = ssid \<and>
      (\<forall>with_eth now s1. net_init E with_eth N w' now = Some s1 \<longrightarrow>
        WifiStaConfig ssid (take 64 pass) \<in> set (n_calls s1))"
proof (cases "ssid = [] \<or> 32 < length ssid")
  case True
  then show ?thesis
    using assms(6,7) wifi_post_fields [OF assms(3-5)] by (auto simp: h_wifi_def Let_def field_ok_def)
next
  case False
  let ?p = "take 64 pass"
  note f = wifi_post_fields [OF assms(3-5)]
  have pass: "posted_pass (wifi_post ssid pass) = ?p" by (simp add: posted_pass_def f)
  obtain e s1 w1 where p: "net_persist_creds N ssid (Some ?p) (s, w) = (e, (s1, w1))" by (metis surj_pair)
  have run: "res = (if e \<noteq> ESP_OK then HttpErr 500 ''persist failed'' else HttpOk saved_answer)" "s' = s1" "w' = w1"
    using False assms(6,7) by (simp_all add: h_wifi_def Let_def field_ok_def f pass p split: if_splits)
  have l: "length ssid < 33" "length ?p < 65" using False by simp_all
  have "n_ssid s' = ssid \<and> (\<forall>with_eth now s1. net_init E with_eth N w' now = Some s1 \<longrightarrow>
      WifiStaConfig ssid ?p \<in> set (n_calls s1))" if "e = ESP_OK"
  proof -
    note c = creds_roundtrip [OF assms(1,2) l p [unfolded that], of net_boot]
    have "WifiStaConfig ssid ?p \<in> set (n_calls s2)" if "net_init E with_eth N w' now = Some s2" for with_eth now s2
      using init_configures [OF _ _ l that] c run(3) False by blast
    then show ?thesis using c run by simp
  qed
  then show ?thesis using False run p by simp
qed

lemma wifi_post_ex: "cstr (read_body WIFI_BODY [Got 64] (bytes (wifi_post ''home'' ''secret''))) = wifi_post ''home'' ''secret''"
proof -
  have l: "length (wifi_post ''home'' ''secret'') = 31" "no_nul (wifi_post ''home'' ''secret'')"
    by (simp_all add: wifi_post_def jobject_def jmember_def jval_text_def escaped_def esc_char_def byte_of_char_def)
  then have "read_body WIFI_BODY [Got 64] (bytes (wifi_post ''home'' ''secret'')) = bytes (wifi_post ''home'' ''secret'')"
    by (intro read_one) (simp_all add: WIFI_BODY_def)
  then show ?thesis using cstr_bytes [OF l(2)] by simp
qed

lemma wifi_provisioned_witness:
  "\<exists>s' w'. h_wifi nvs_ram [Got 64] (bytes (wifi_post ''home'' ''secret'')) (net_boot, Map.empty) =
    (HttpOk saved_answer, (s', w')) \<and> n_ssid s' = ''home''"
proof -
  obtain res s' w' where r: "h_wifi nvs_ram [Got 64] (bytes (wifi_post ''home'' ''secret'')) (net_boot, Map.empty) = (res, (s', w'))"
    by (metis surj_pair)
  have "plain_text ''home''" "printable ''secret''" by (simp_all add: plain_text_def printable_def)
  moreover have "fst (net_persist_creds nvs_ram ''home'' (Some (take 64 ''secret'')) (net_boot, Map.empty)) = ESP_OK"
    by (simp add: net_persist_creds_def also_set_def nvs_ram_def Let_def)
  ultimately show ?thesis
    using wifi_provisioned [OF nvs_ram_laws _ _ _ _ wifi_post_ex r, of env_ok] r by (simp add: env_ok_def)
qed

subsection \<open>The bootloader command gets through\<close>

lemma strip_eol_length: "length (strip_eol d) \<le> length d"
  using length_dropWhile_le [of "\<lambda>b. b = 13 \<or> b = 10" "rev d"] by (simp add: strip_eol_def)

lemma enter_cmd_shape:
  assumes "dfu_enter_cmd len recv = Some cmd"
  shows "\<exists>c. cmd = c @ crlf \<and> c \<noteq> [] \<and> 0 \<notin> set c \<and> length cmd < DFU_CMD"
proof -
  let ?B = "bytes ''B01''"
  have B: "?B \<noteq> []" "0 \<notin> set ?B" "length (?B @ crlf) < DFU_CMD"
    by (simp_all add: bytes_def byte_of_char_def crlf_def DFU_CMD_def)
  show ?thesis
  proof (cases "0 < len \<and> len < int DFU_CMD - 3")
    case True
    then obtain d where d: "recv = Some d" "take (nat len) d \<noteq> []"
      "cmd = (let c = takeWhile (\<lambda>b. b \<noteq> 0) (strip_eol (take (nat len) d)) in if c = [] then ?B else c) @ crlf"
      using assms by (auto simp: dfu_enter_cmd_def Let_def split: option.splits if_splits)
    let ?c = "takeWhile (\<lambda>b. b \<noteq> 0) (strip_eol (take (nat len) d))"
    have "0 \<notin> set ?c" by (auto dest: set_takeWhileD)
    have "length ?c \<le> nat len"
      using strip_eol_length [of "take (nat len) d"] length_takeWhile_le [of "\<lambda>b. b \<noteq> 0" "strip_eol (take (nat len) d)"]
      by simp
    moreover have "nat len < 29" using True by (simp add: DFU_CMD_def nat_less_iff)
    ultimately have "length (?c @ crlf) < DFU_CMD" by (simp add: crlf_def DFU_CMD_def)
    with \<open>0 \<notin> set ?c\<close> show ?thesis using d(3) B by (cases "?c = []") (auto simp: Let_def)
  next
    case False
    then show ?thesis using assms B by (auto simp: dfu_enter_cmd_def Let_def)
  qed
qed

text \<open>the command that sends a stick into its bootloader is one line without a NUL that fits its buffer, and it
  reaches a ready source whoever holds the transmit lock, which it leaves alone; the answer is a success
  exactly if the source took it.\<close>

theorem dfu_enter_reaches:
  assumes "dfu_enter_cmd len recv = Some cmd" and "br_source b = Some a" and "source_ready (env_source E a) w"
    and "h_cul_dfu_enter E now1 now2 len recv (b, w) = (ans, (b', w'))"
  shows "(\<exists>c. cmd = c @ crlf \<and> c \<noteq> [] \<and> 0 \<notin> set c \<and> length cmd < DFU_CMD) \<and>
    w' = snd (source_tx (env_source E a) cmd w) \<and>
    (ans = Answer (HttpOk ok_answer) \<longleftrightarrow> fst (source_tx (env_source E a) cmd w) = ESP_OK) \<and>
    tx_mode b' = tx_mode b \<and> tx_owner_idx b' = tx_owner_idx b \<and> tx_rej_lock b' = tx_rej_lock b"
proof -
  obtain e w1 where t: "source_tx (env_source E a) cmd w = (e, w1)" by (metis surj_pair)
  have "bridge_tx_to_source E now1 now2 None cmd (b, w) = (e, (if e = ESP_OK then bridge_tx_done now2 (length cmd) b else b, w1))"
    using assms(2,3) t by (simp add: bridge_tx_to_source_def bridge_tx_snapshot_def)
  then have r: "ans = Answer (if e \<noteq> ESP_OK then HttpErr 400 ''source not ready'' else HttpOk ok_answer)" "w' = w1"
    "b' = (if e = ESP_OK then bridge_tx_done now2 (length cmd) b else b)"
    using assms(1,4) by (simp_all add: h_cul_dfu_enter_def)
  show ?thesis using enter_cmd_shape [OF assms(1)] r t by (simp add: bridge_tx_done_def)
qed

text \<open>A source that records what it is sent, behind a bridge whose lock another client holds.\<close>

definition tape_source :: "u8 list source_ops" where
  "tape_source = \<lparr>op_tx = Some (\<lambda>d w. (ESP_OK, w @ d)), op_ready = Some (\<lambda>w. True), op_reset = None, op_describe = None,
     op_set_line_coding = None, op_revert_line_coding = None, op_get_line_coding = None, op_get_stats = None,
     op_get_serial_info = None, op_apply_line_coding = None\<rparr>"

definition tape_env :: "u8 list br_env" where
  "tape_env = \<lparr>env_source = (\<lambda>a. Some tape_source), env_sink = (\<lambda>s. None)\<rparr>"

definition pinned_away :: bridge where
  "pinned_away = bridge_init\<lparr>br_source := Some 0, tx_mode := BRIDGE_TX_PINNED, tx_owner_idx := 3\<rparr>"

lemma dfu_enter_reaches_witness:
  "\<exists>b'. h_cul_dfu_enter tape_env 0 0 4 (Some [66, 48, 10, 13]) (pinned_away, []) =
     (Answer (HttpOk ok_answer), (b', [66, 48, 13, 10])) \<and> tx_owner_idx b' = 3"
proof -
  have c: "dfu_enter_cmd 4 (Some [66, 48, 10, 13]) = Some [66, 48, 13, 10]"
    by (simp add: dfu_enter_cmd_def DFU_CMD_def strip_eol_def crlf_def Let_def)
  obtain ans b' w' where r: "h_cul_dfu_enter tape_env 0 0 4 (Some [66, 48, 10, 13]) (pinned_away, []) = (ans, (b', w'))"
    by (metis surj_pair)
  have s: "source_tx (env_source tape_env 0) d w = (ESP_OK, w @ d)" "source_ready (env_source tape_env 0) w" for d w
    by (simp_all add: tape_env_def tape_source_def source_tx_def source_ready_def src_op_def)
  have "br_source pinned_away = Some 0" "tx_owner_idx pinned_away = 3" by (simp_all add: pinned_away_def)
  then show ?thesis using dfu_enter_reaches [OF c _ s(2) r] r s(1) by simp
qed

subsection \<open>Only a complete image is flashed\<close>

lemma take_rest:
  assumes "m \<le> k"
  shows "take m xs @ take (k - length (take m xs)) (drop (length (take m xs)) xs) = take k xs"
proof (cases "m \<le> length xs")
  case True
  then show ?thesis using take_add [of m "k - m" xs] assms by (simp add: min_absorb2)
qed (use assms in simp)

lemma recv_all_take:
  assumes "recv_all len evs rest img = Some x" and "length img \<le> len"
  shows "x = img @ take (len - length img) rest \<and> length x = len"
  using assms
proof (induction len evs rest img arbitrary: x rule: recv_all.induct)
  case (2 len ev evs rest img)
  show ?case
  proof (cases "len \<le> length img")
    case False
    then obtain n where n: "ev = Got n" using 2(2) by (auto split: recv_ev.splits)
    let ?d = "take (min n (len - length img)) rest"
    have d: "?d \<noteq> []" "recv_all len evs (drop (length ?d) rest) (img @ ?d) = Some x"
      using 2(2) False n by (auto simp: Let_def split: if_splits)
    have l: "length (img @ ?d) \<le> len" using False by simp
    have x: "x = (img @ ?d) @ take (len - length (img @ ?d)) (drop (length ?d) rest)" "length x = len"
      using 2(1) [OF False n refl d l] by blast+
    have "?d @ take (len - length img - length ?d) (drop (length ?d) rest) = take (len - length img) rest"
      by (rule take_rest) simp
    then have "x = img @ take (len - length img) rest" using x(1) by simp
    then show ?thesis using x(2) by blast
  next
    case True
    then have "x = img" "len = length img" using 2(2,3) by simp_all
    then show ?thesis by simp
  qed
next
  case (1 len rest img)
  then have "x = img" "len = length img" by (simp_all split: if_splits)
  then show ?case by simp
qed

definition says_ok :: "answer \<Rightarrow> bool" where
  "says_ok ans \<longleftrightarrow> (case ans of Answer (HttpOk m) \<Rightarrow> take 10 m = ''{'' @ jfield ''ok'' ''true'' | _ \<Rightarrow> False)"

lemma dfu_answer_ok: "says_ok (Answer (HttpOk (dfu_answer e st))) \<longleftrightarrow> e = ESP_OK"
  by (simp add: says_ok_def dfu_answer_def fmt_s_def jfield_def WebForms.quoted_def json_bool_def)

lemma dfu_body_cases:
  assumes "h_cul_dfu_body U mem len evs body sw = (ans, sw')"
  shows "sw' = sw \<and> \<not> says_ok ans \<or>
    0 < len \<and> len \<le> int CUL_DFU_APP_LIMIT \<and> ds_present (d_st (fst sw)) \<and> nat len \<le> length body \<and>
    cul_dfu_flash U (take (nat len) body) sw = (if says_ok ans then ESP_OK else fst (cul_dfu_flash U (take (nat len) body) sw), sw')"
proof (cases "0 < len \<and> len \<le> int CUL_DFU_APP_LIMIT \<and> ds_present (d_st (fst sw)) \<and> mem")
  case True
  show ?thesis
  proof (cases "recv_all (nat len) evs body []")
    case None
    then show ?thesis using assms True by (auto simp: h_cul_dfu_body_def says_ok_def split: if_splits)
  next
    case (Some img)
    then have img: "img = take (nat len) body" "nat len \<le> length body"
      using recv_all_take [OF Some] by (auto simp: min_def split: if_splits)
    obtain e sw1 where r: "cul_dfu_flash U img sw = (e, sw1)" by (metis surj_pair)
    then have "ans = Answer (HttpOk (dfu_answer e (d_st (fst sw1))))" "sw' = sw1"
      using assms True Some by (auto simp: h_cul_dfu_body_def)
    then show ?thesis using True img r dfu_answer_ok by simp
  qed
qed (use assms in \<open>auto simp: h_cul_dfu_body_def says_ok_def split: if_splits\<close>)

text \<open>C10: an upload reaches the device only as a whole: nothing is transferred unless the length is in range, a
  bootloader is there and the whole body arrived; then only erase and read commands, the write messages of
  the posted image in order, and after all of them the read-back and the start; an answer that says ok
  means that all were sent.\<close>

theorem dfu_upload_whole:
  assumes "h_cul_dfu_body (spying U) mem len evs body (S, (w, [])) = (ans, sw')"
  shows "(wire sw' \<noteq> [] \<longrightarrow> 0 < len \<and> len \<le> int CUL_DFU_APP_LIMIT \<and> ds_present (d_st S) \<and> nat len \<le> length body) \<and>
    (\<exists>pre n post. dn sw' = pre @ take n (plan (take (nat len) body) 0) @ post \<and>
      set pre \<subseteq> {read_cmd} \<union> erase_cmd ` (set (erase_modes (nat len)) \<union> {0xFF}) \<and>
      set post \<subseteq> {read_cmd, [0x04, 0x03, 0x00], []} \<and> (post \<noteq> [] \<longrightarrow> length (plan (take (nat len) body) 0) \<le> n) \<and>
      (says_ok ans \<longrightarrow> [0x04, 0x03, 0x00] \<in> set post))"
proof (cases "sw' = (S, (w, [])) \<and> \<not> says_ok ans")
  case True
  then have "wire sw' = []" "dn sw' = []" by (simp_all add: wire_def dn_def)
  then show ?thesis using True by (intro conjI exI [of _ "[]"] exI [of _ 0]) simp_all
next
  case False
  then have c: "0 < len" "len \<le> int CUL_DFU_APP_LIMIT" "ds_present (d_st S)" "nat len \<le> length body"
    and r: "cul_dfu_flash (spying U) (take (nat len) body) (S, (w, [])) =
      (if says_ok ans then ESP_OK else fst (cul_dfu_flash (spying U) (take (nat len) body) (S, (w, []))), sw')"
    using dfu_body_cases [OF assms] by auto
  have l: "length (take (nat len) body) = nat len" using c(4) by simp
  obtain pre n post where p: "dn sw' = pre @ take n (plan (take (nat len) body) 0) @ post"
      "set pre \<subseteq> {read_cmd} \<union> erase_cmd ` (set (erase_modes (nat len)) \<union> {0xFF})"
      "set post \<subseteq> {read_cmd, [0x04, 0x03, 0x00], []}" "post \<noteq> [] \<longrightarrow> length (plan (take (nat len) body) 0) \<le> n"
    and ok: "(if says_ok ans then ESP_OK else fst (cul_dfu_flash (spying U) (take (nat len) body) (S, (w, [])))) = ESP_OK
      \<longrightarrow> [0x04, 0x03, 0x00] \<in> set post"
    using flash_run_log [OF r, unfolded l] by blast
  have "says_ok ans \<longrightarrow> [0x04, 0x03, 0x00] \<in> set post" using ok by simp
  with c p show ?thesis by blast
qed

lemma dfu_upload_whole_witness:
  "\<exists>ans sw'. h_cul_dfu_body (spying good_host) True 3 [Got 2, Got 5] [1, 2, 3] (idle_dfu, (([], 0), [])) = (ans, sw') \<and>
     says_ok ans \<and> [0x04, 0x03, 0x00] \<in> set (dn sw')"
proof -
  obtain ans sw' where r: "h_cul_dfu_body (spying good_host) True 3 [Got 2, Got 5] [1, 2, 3] (idle_dfu, (([], 0), [])) = (ans, sw')"
    by (metis surj_pair)
  have "recv_all 3 [Got 2, Got 5] [1, 2, 3] [] = Some [1, 2, 3 :: u8]" by (simp add: Let_def)
  moreover have "ds_present (d_st idle_dfu)" by (simp add: idle_dfu_def)
  ultimately have ok: "says_ok ans"
    using r good_run(2) [of "(([], 0), [])"] by (auto simp: h_cul_dfu_body_def CUL_DFU_APP_LIMIT_def dfu_answer_ok split: prod.splits)
  have t: "take (nat 3) [1, 2, 3] = [1, 2, 3 :: u8]" by simp
  from dfu_upload_whole [OF r, unfolded t] ok have "[0x04, 0x03, 0x00] \<in> set (dn sw')" by auto
  then show ?thesis using r ok by blast
qed

end
