(* ===== verification/WebPages.thy ===== *)
theory WebPages
  imports WebForms NetLife SinkTcp Health
begin

text \<open>
  The pages of \<^verbatim>\<open>webui.c\<close> for the line codings (\<^verbatim>\<open>/api/serial\<close>) and for the networks in reach (\<^verbatim>\<open>/api/wifi/scan\<close>,
  with \<^verbatim>\<open>net_scan\<close> of \<^verbatim>\<open>net.c\<close>).  A page is built in a fixed buffer with \<^verbatim>\<open>snprintf\<close>; the model builds the
  whole text and compares its length with the buffer where the code does.
\<close>

subsection \<open>Objects of text\<close>

definition jobj :: "string list \<Rightarrow> string" where
  "jobj ms = ''{'' @ joined ms @ ''}''"

definition jarr :: "string list \<Rightarrow> string" where
  "jarr ms = ''['' @ joined ms @ '']''"

abbreviation jtext :: "string \<Rightarrow> string \<Rightarrow> string" where
  "jtext k s \<equiv> jfield k (quoted s)"

abbreviation jnum :: "string \<Rightarrow> nat \<Rightarrow> string" where
  "jnum k n \<equiv> jfield k (dec n)"

abbreviation jbool :: "string \<Rightarrow> bool \<Rightarrow> string" where
  "jbool k b \<equiv> jfield k (json_bool b)"

text \<open>\<^verbatim>\<open>json_escape\<close> into a buffer of its own.\<close>

abbreviation esc :: "nat \<Rightarrow> string \<Rightarrow> string" where
  "esc cap s \<equiv> json_escape (Some s) cap"

subsection \<open>The line codings\<close>

definition SERIAL_BUF :: nat where "SERIAL_BUF = 1024"

definition lcsrc_str :: "u8 \<Rightarrow> string" where
  "lcsrc_str s = (if s = 1 then ''nvs'' else if s = 2 then ''rfc2217'' else ''default'')"

definition lc_members :: "lc \<Rightarrow> string list" where
  "lc_members l = [jnum ''baud'' (unat (baud l)), jnum ''bits'' (unat (bits l)), jnum ''parity'' (unat (parity l)),
     jnum ''stop'' (unat (stop l))]"

definition serial_head :: "source_serial_info \<Rightarrow> string" where
  "serial_head si =
     ''{'' @ jfield ''attached'' (jobj
        [jbool ''connected'' (si_connected si), jbool ''is_vcp'' (si_is_vcp si), jtext ''vid'' (hex4 (si_vid si)),
         jtext ''pid'' (hex4 (si_pid si)), jtext ''serial'' (esc 80 (si_serial si)), jtext ''key'' (esc 80 (si_key si))]) @
     '','' @ jfield ''effective'' (jobj (lc_members (si_lc si) @ [jtext ''source'' (lcsrc_str (si_lc_source si))])) @
     '','' @ jfield ''stored'' ''[''"

definition serial_item :: "string \<times> lc \<Rightarrow> string" where
  "serial_item kl = jobj (jtext ''key'' (esc 80 (fst kl)) # lc_members (snd kl))"

text \<open>The loop stops when fewer than 96 bytes are left; an entry that does not fit still advances \<^verbatim>\<open>n\<close>.\<close>

fun serial_items :: "(string \<times> lc) list \<Rightarrow> bool \<Rightarrow> string \<Rightarrow> string" where
  "serial_items [] first out = out"
| "serial_items (it # its) first out =
     (if length out < SERIAL_BUF - 96
      then serial_items its False (out @ (if first then [] else '','') @ serial_item it) else out)"

definition h_serial_get :: "'v nvs_api \<Rightarrow> 'v source_ops option \<Rightarrow> 'v \<Rightarrow> http_res" where
  "h_serial_get N src w =
     (let out = serial_items (serialcfg_list N w SERIALCFG_MAX) True (serial_head (source_get_serial_info src w));
          out1 = (if length out < SERIAL_BUF - 3 then out @ '']}'' else out)
      in if SERIAL_BUF \<le> length out1 then HttpErr 500 ''buf overflow'' else HttpOk out1)"

subsection \<open>The scan\<close>

record scan_entry =
  sc_ssid :: string
  sc_rssi :: "8 word"
  sc_channel :: u8
  sc_auth :: u8

text \<open>
  What the driver does with a scan: whether it starts, whether it ends within the eight seconds, the
  number of networks, whether the memory for the records is there, and the records it hands out, at most
  as many as asked for.
\<close>

record scan_run =
  sr_start :: esp_err
  sr_done :: bool
  sr_num :: u16
  sr_mem :: bool
  sr_records :: "nat \<Rightarrow> esp_err \<times> scan_entry list"

definition net_scan :: "scan_run \<Rightarrow> nat \<Rightarrow> net \<Rightarrow> esp_err \<times> scan_entry list \<times> net" where
  "net_scan R cap s =
     (let s0 = s\<lparr>n_scan_done := False\<rparr>
      in if sr_start R \<noteq> ESP_OK then (sr_start R, [], s0)
         else if \<not> sr_done R then (ESP_ERR_TIMEOUT, [], s0)
         else if sr_num R = 0 \<or> cap = 0 then (ESP_OK, [], s0)
         else let fetch = min (unat (sr_num R)) cap
           in if \<not> sr_mem R then (ESP_ERR_NO_MEM, [], s0)
              else case sr_records R fetch of
                (e, recs) \<Rightarrow>
                  (e, if e = ESP_OK then map (\<lambda>r. r\<lparr>sc_ssid := fmt_s 33 (sc_ssid r)\<rparr>) recs else [], s0))"

definition authmode_str :: "u8 \<Rightarrow> string" where
  "authmode_str a =
     (if unat a < 8
      then [''open'', ''wep'', ''wpa'', ''wpa2'', ''wpa-wpa2'', ''wpa2-ent'', ''wpa3'', ''wpa2-wpa3''] ! unat a else ''?'')"

definition SCAN_BUF :: nat where "SCAN_BUF = 1800"

definition SCAN_MAX :: nat where "SCAN_MAX = 24"

definition scan_item :: "scan_entry \<Rightarrow> string" where
  "scan_item r = jobj [jtext ''ssid'' (esc 66 (sc_ssid r)), jfield ''rssi'' (sdec (sint (sc_rssi r))),
     jnum ''ch'' (unat (sc_channel r)), jtext ''auth'' (authmode_str (sc_auth r))]"

fun scan_items :: "scan_entry list \<Rightarrow> bool \<Rightarrow> string \<Rightarrow> string" where
  "scan_items [] first out = out"
| "scan_items (r # rs) first out =
     (if length out < SCAN_BUF - 128
      then scan_items rs False (out @ (if first then [] else '','') @ scan_item r) else out)"

definition h_wifi_scan :: "scan_run \<Rightarrow> net \<Rightarrow> http_res \<times> net" where
  "h_wifi_scan R s =
     (case net_scan R SCAN_MAX s of
        (e, recs, s1) \<Rightarrow>
          (if e \<noteq> ESP_OK then HttpErr 500 ''scan failed'' else HttpOk (scan_items recs True ''['' @ '']''), s1))"

subsection \<open>Lengths\<close>

named_theorems len_simps \<open>lengths of the pieces of a page\<close>

lemma length_joined [len_simps]: "length (joined xs) = sum_list (map length xs) + (length xs - 1)"
  by (induction xs rule: joined.induct) auto

lemma length_jobj [len_simps]: "length (jobj ms) = length (joined ms) + 2"
  by (simp add: jobj_def)

lemmas [len_simps] = length_jfield length_quoted

lemma esc_bound: "0 < cap \<Longrightarrow> length (esc cap s) < cap"
  using put_chars_bound [of "[]" cap s] by (simp add: json_escape_def)

lemma dec_u8_length: "length (dec (unat (x :: u8))) \<le> 3"
  using length_dec [of "unat x" 3] unsigned_less [where ?'a = nat, of x] by simp

lemma dec_u32_digits: "length (dec (unat (x :: u32))) \<le> 10"
  using length_dec [of "unat x" 10] unsigned_less [where ?'a = nat, of x] by simp

lemma sdec_s8_length: "length (sdec (sint (x :: 8 word))) \<le> 4"
proof -
  have "- 128 \<le> sint x" "sint x < 128"
    using sint_ge [of x] sint_lt [of x] by simp_all
  then have "nat (- sint x) < 10 ^ 3" "nat (sint x) < 10 ^ 3" by simp_all
  then show ?thesis using length_dec [of "nat (- sint x)" 3] length_dec [of "nat (sint x)" 3] by (simp add: sdec_def)
qed

lemma authmode_length: "length (authmode_str a) \<le> 9"
proof -
  have "\<forall>i < 8. length ([''open'', ''wep'', ''wpa'', ''wpa2'', ''wpa-wpa2'', ''wpa2-ent'', ''wpa3'', ''wpa2-wpa3''] ! i) \<le> 9"
    by (simp add: numeral_eq_Suc All_less_Suc)
  then show ?thesis by (simp add: authmode_str_def)
qed

lemma scan_item_length: "length (scan_item r) \<le> 116"
  using esc_bound [of 66 "sc_ssid r"] sdec_s8_length [of "sc_rssi r"] dec_u8_length [of "sc_channel r"]
    authmode_length [of "sc_auth r"]
  by (simp add: scan_item_def len_simps)

text \<open>Both loops put out a prefix of the entries, and stop only in the reserve at the end of the buffer.\<close>

lemma joined_Cons: "xs \<noteq> [] \<Longrightarrow> joined (x # xs) = x @ '','' @ joined xs"
  by (cases xs) simp_all

lemma scan_items_prefix:
  assumes "0 < length out" and "length out < SCAN_BUF - 1"
  shows "\<exists>k \<le> length rs. scan_items rs first out =
      out @ (if first \<or> k = 0 then [] else '','') @ joined (map scan_item (take k rs)) \<and>
      length (scan_items rs first out) < SCAN_BUF - 1 \<and>
      (k < length rs \<longrightarrow> SCAN_BUF - 128 \<le> length (scan_items rs first out))"
  using assms
proof (induction rs first out rule: scan_items.induct)
  case (2 r rs first out)
  show ?case
  proof (cases "length out < SCAN_BUF - 128")
    case True
    let ?o = "out @ (if first then [] else '','') @ scan_item r"
    have l: "0 < length ?o" "length ?o < SCAN_BUF - 1"
      using True scan_item_length [of r] 2(2) by (auto simp: SCAN_BUF_def)
    obtain k where k: "k \<le> length rs" "scan_items rs False ?o = ?o @ (if False \<or> k = 0 then [] else '','') @ joined (map scan_item (take k rs))"
      "length (scan_items rs False ?o) < SCAN_BUF - 1" "k < length rs \<longrightarrow> SCAN_BUF - 128 \<le> length (scan_items rs False ?o)"
      using 2(1) [OF True l] by blast
    have e: "scan_items (r # rs) first out = scan_items rs False ?o" using True by simp
    have "joined (map scan_item (take (Suc k) (r # rs))) = scan_item r @ (if k = 0 then [] else '','') @ joined (map scan_item (take k rs))"
      using k(1) joined_Cons [of "map scan_item (take k rs)" "scan_item r"] by (cases "k = 0"; cases rs) auto
    then show ?thesis unfolding e using k by (intro exI [of _ "Suc k"]) simp
  next
    case False
    then show ?thesis using 2(2,3) by (intro exI [of _ 0]) simp
  qed
qed simp

text \<open>the list of networks never overflows its buffer: the page is the complete text of the first networks found,
  all of them unless the buffer is full but for the reserve of one entry.\<close>

theorem scan_page_complete:
  assumes "h_wifi_scan R s = (HttpOk page, s')"
  shows "\<exists>recs k. recs = fst (snd (net_scan R SCAN_MAX s)) \<and> k \<le> length recs \<and> page = jarr (map scan_item (take k recs)) \<and>
    length page < SCAN_BUF \<and> (k < length recs \<longrightarrow> SCAN_BUF - 128 < length page)"
proof -
  obtain e recs s1 where n: "net_scan R SCAN_MAX s = (e, recs, s1)" by (metis surj_pair)
  have page: "page = scan_items recs True ''['' @ '']''"
    using assms by (simp add: h_wifi_scan_def n split: if_splits)
  obtain k where "k \<le> length recs" "scan_items recs True ''['' = ''['' @ joined (map scan_item (take k recs))"
    "length (scan_items recs True ''['') < SCAN_BUF - 1" "k < length recs \<longrightarrow> SCAN_BUF - 128 \<le> length (scan_items recs True ''['')"
    using scan_items_prefix [of "''[''" recs True] unfolding SCAN_BUF_def by (simp only: if_True HOL.simp_thms) fastforce
  then show ?thesis using n page by (intro exI [of _ recs] exI [of _ k]) (auto simp: jarr_def)
qed

definition home_entry :: scan_entry where
  "home_entry = \<lparr>sc_ssid = replicate 32 (CHR 0x22), sc_rssi = -87, sc_channel = 13, sc_auth = 5\<rparr>"

definition home_scan :: scan_run where
  "home_scan =
     \<lparr>sr_start = ESP_OK, sr_done = True, sr_num = 1, sr_mem = True,
      sr_records = (\<lambda>n. (ESP_OK, [home_entry]))\<rparr>"

lemma scan_page_complete_witness:
  "\<exists>page s' k. h_wifi_scan home_scan net_boot = (HttpOk page, s') \<and> k \<le> (1 :: nat) \<and> length page < SCAN_BUF"
proof -
  have "fst (net_scan home_scan SCAN_MAX net_boot) = ESP_OK"
    by (simp add: net_scan_def home_scan_def SCAN_MAX_def)
  moreover obtain e recs s' where n: "net_scan home_scan SCAN_MAX net_boot = (e, recs, s')" by (metis surj_pair)
  ultimately have r: "h_wifi_scan home_scan net_boot = (HttpOk (scan_items recs True ''['' @ '']''), s')"
    by (simp add: h_wifi_scan_def)
  have "length (fst (snd (net_scan home_scan SCAN_MAX net_boot))) = 1"
    by (simp add: net_scan_def home_scan_def SCAN_MAX_def)
  with scan_page_complete [OF r] r show ?thesis by metis
qed

subsection \<open>The page of line codings\<close>

definition item_ok :: "string \<times> lc \<Rightarrow> bool" where
  "item_ok kl \<longleftrightarrow> plain_text (fst kl) \<and> length (fst kl) < SERIALCFG_KEY_LEN \<and> lc_range (snd kl)"

definition info_ok :: "source_serial_info \<Rightarrow> bool" where
  "info_ok si \<longleftrightarrow> plain_text (si_serial si) \<and> length (si_serial si) < SERIALCFG_KEY_LEN \<and>
     plain_text (si_key si) \<and> length (si_key si) < SERIALCFG_KEY_LEN"

lemma esc_plain: "plain_text s \<Longrightarrow> length s < SERIALCFG_KEY_LEN \<Longrightarrow> esc 80 s = s"
  using json_escape_full [of s 80] by (simp add: escaped_plain SERIALCFG_KEY_LEN_def)

lemma lc_digits:
  assumes "lc_range l"
  shows "length (dec (unat (baud l))) \<le> 7" "length (dec (unat (bits l))) \<le> 1" "length (dec (unat (parity l))) \<le> 1"
    "length (dec (unat (stop l))) \<le> 1"
proof -
  have "unat (baud l) < 10 ^ 7" "unat (bits l) < 10 ^ 1" "unat (parity l) < 10 ^ 1" "unat (stop l) < 10 ^ 1"
    using assms by (auto simp: lc_range_def word_le_nat_alt)
  then show "length (dec (unat (baud l))) \<le> 7" "length (dec (unat (bits l))) \<le> 1" "length (dec (unat (parity l))) \<le> 1"
    "length (dec (unat (stop l))) \<le> 1"
    using length_dec [of "unat (baud l)" 7] length_dec [of "unat (bits l)" 1] length_dec [of "unat (parity l)" 1]
      length_dec [of "unat (stop l)" 1] by simp_all
qed

lemma serial_item_length: "item_ok kl \<Longrightarrow> length (serial_item kl) \<le> 86"
  using lc_digits [of "snd kl"]
  by (simp add: item_ok_def serial_item_def lc_members_def len_simps esc_plain SERIALCFG_KEY_LEN_def)

lemma lcsrc_length: "length (lcsrc_str s) \<le> 7"
  by (simp add: lcsrc_str_def)

lemma serial_head_length: "info_ok si \<Longrightarrow> length (serial_head si) \<le> 254"
  using length_json_bool [of "si_connected si"] length_json_bool [of "si_is_vcp si"] lcsrc_length [of "si_lc_source si"]
    dec_u32_digits [of "baud (si_lc si)"] dec_u8_length [of "bits (si_lc si)"] dec_u8_length [of "parity (si_lc si)"]
    dec_u8_length [of "stop (si_lc si)"]
  by (simp add: info_ok_def serial_head_def lc_members_def len_simps esc_plain SERIALCFG_KEY_LEN_def)

lemma serial_items_all:
  assumes "\<forall>it\<in>set its. item_ok it" and "length out + 87 * length its \<le> 950"
  shows "serial_items its first out = out @ (if first \<or> its = [] then [] else '','') @ joined (map serial_item its) \<and>
    length (serial_items its first out) \<le> 950"
  using assms
proof (induction its first out rule: serial_items.induct)
  case (2 it its first out)
  let ?o = "out @ (if first then [] else '','') @ serial_item it"
  have g: "length out < SERIAL_BUF - 96" using 2(3) by (simp add: SERIAL_BUF_def)
  have "length ?o + 87 * length its \<le> 950" using serial_item_length [of it] 2(2,3) by auto
  moreover have "\<forall>it\<in>set its. item_ok it" using 2(2) by simp
  ultimately have "serial_items its False ?o = ?o @ (if False \<or> its = [] then [] else '','') @ joined (map serial_item its)"
    "length (serial_items its False ?o) \<le> 950" using 2(1) [OF g] by blast+
  moreover have "serial_items (it # its) first out = serial_items its False ?o" using g by simp
  moreover have "joined (map serial_item (it # its)) = serial_item it @ (if its = [] then [] else '','') @ joined (map serial_item its)"
    by (cases its) simp_all
  ultimately show ?case by simp
qed simp

lemma list_scan_length: "length (list_scan N w cap is) \<le> cap"
  by (induction N w cap "is" rule: list_scan.induct) (auto split: option.split)

lemma serial_list_length: "length (serialcfg_list N w SERIALCFG_MAX) \<le> SERIALCFG_MAX"
  by (simp add: serialcfg_list_def list_scan_length)

text \<open>The list is the table: each stored key once, with the coding a lookup of it finds.\<close>

lemma loaded_key_short:
  assumes "load_slot N w i = Some e"
  shows "length (cstr (e_key e)) < SERIALCFG_KEY_LEN"
proof -
  have z: "e_key e ! (SERIALCFG_KEY_LEN - 1) = 0" and l: "length (e_key e) = SERIALCFG_KEY_LEN"
    using assms load_slot_key_len [OF assms] by (auto simp: load_slot_def Let_def SERIALCFG_KEY_LEN_def split: option.splits if_splits)
  have "length (takeWhile (\<lambda>b. b \<noteq> 0) (e_key e)) \<noteq> length (e_key e)"
  proof
    assume "length (takeWhile (\<lambda>b. b \<noteq> 0) (e_key e)) = length (e_key e)"
    then have "takeWhile (\<lambda>b. b \<noteq> 0) (e_key e) = e_key e"
      by (metis append_Nil2 append_eq_append_conv takeWhile_dropWhile_id)
    then have "\<forall>b\<in>set (e_key e). b \<noteq> 0" by (simp add: takeWhile_eq_all_conv)
    then show False using z l by (metis SERIALCFG_KEY_LEN_def nth_mem diff_less zero_less_numeral zero_less_one)
  qed
  then show ?thesis using l length_takeWhile_le [of "\<lambda>b. b \<noteq> 0" "e_key e"] by (simp add: cstr_def)
qed

lemma list_scan_tbl:
  assumes "\<forall>i\<in>set is. i < SERIALCFG_MAX" and "length is \<le> cap"
  shows "list_scan N w cap is = List.map_filter (tbl N w) is"
  using assms
proof (induction N w cap "is" rule: list_scan.induct)
  case (2 N w cap i "is")
  then show ?case
    using loaded_key_short [of N w i] by (auto simp: tbl_def List.map_filter_simps split: option.splits)
qed (simp add: List.map_filter_simps)

lemma map_filter_distinct:
  assumes "distinct is" and "\<And>i j k. map_option fst (t i) = Some k \<Longrightarrow> map_option fst (t j) = Some k \<Longrightarrow> i = j"
  shows "distinct (map fst (List.map_filter t is))"
  using assms(1)
proof (induction "is")
  case (Cons i "is")
  have "fst x \<notin> fst ` set (List.map_filter t is)" if "t i = Some x" for x
    using assms(2) [of i "fst x"] that Cons.prems by (fastforce simp: List.map_filter_def)
  then show ?case using Cons by (simp add: List.map_filter_simps split: option.split)
qed (simp add: List.map_filter_simps)

lemma serial_list_tbl:
  assumes "nvs_open N scfg_ns NVS_READONLY w = ESP_OK" and "tbl_inv (tbl N w)"
  shows "distinct (map fst (serialcfg_list N w SERIALCFG_MAX))"
    and "(k, l) \<in> set (serialcfg_list N w SERIALCFG_MAX) \<longleftrightarrow> tbl_lookup (tbl N w) k = Some l"
proof -
  have e: "serialcfg_list N w SERIALCFG_MAX = List.map_filter (tbl N w) [0..<SERIALCFG_MAX]"
    using assms(1) list_scan_tbl [of "[0..<SERIALCFG_MAX]" SERIALCFG_MAX N w] by (simp add: serialcfg_list_def SERIALCFG_MAX_def)
  show "distinct (map fst (serialcfg_list N w SERIALCFG_MAX))"
    unfolding e by (rule map_filter_distinct) (use assms(2) in \<open>auto simp: tbl_inv_def\<close>)
  have "tbl N w i = Some (k, l) \<Longrightarrow> i < SERIALCFG_MAX" for i by (simp add: tbl_def split: if_splits)
  then show "(k, l) \<in> set (serialcfg_list N w SERIALCFG_MAX) \<longleftrightarrow> tbl_lookup (tbl N w) k = Some l"
    unfolding e tbl_lookup_iff [OF assms(2)] by (force simp: List.map_filter_def)
qed

text \<open>as long as the store holds codings in range under plain keys, the page is the complete text of the
  attached device and of the stored codings, each key once and with the coding a lookup finds.\<close>

theorem serial_page_complete:
  assumes "nvs_open N scfg_ns NVS_READONLY w = ESP_OK" and "tbl_inv (tbl N w)"
    and "\<forall>k l. tbl_lookup (tbl N w) k = Some l \<longrightarrow> item_ok (k, l)" and "info_ok (source_get_serial_info src w)"
  shows "\<exists>its. h_serial_get N src w =
      HttpOk (serial_head (source_get_serial_info src w) @ joined (map serial_item its) @ '']}'') \<and>
    distinct (map fst its) \<and> (\<forall>k l. (k, l) \<in> set its \<longleftrightarrow> tbl_lookup (tbl N w) k = Some l)"
proof -
  let ?h = "serial_head (source_get_serial_info src w)" and ?its = "serialcfg_list N w SERIALCFG_MAX"
  note tbl = serial_list_tbl [OF assms(1,2)]
  have "\<forall>it\<in>set ?its. item_ok it" using tbl(2) assms(3) by (metis surj_pair)
  moreover have "length ?h + 87 * length ?its \<le> 950"
    using serial_head_length [OF assms(4)] serial_list_length [of N w] by (simp add: SERIALCFG_MAX_def)
  ultimately have "serial_items ?its True ?h = ?h @ joined (map serial_item ?its)"
    "length (?h @ joined (map serial_item ?its)) \<le> 950" using serial_items_all [of ?its ?h True] by auto
  then have "h_serial_get N src w = HttpOk (?h @ joined (map serial_item ?its) @ '']}'')"
    by (simp add: h_serial_get_def Let_def SERIAL_BUF_def)
  then show ?thesis using tbl by blast
qed

lemma default_range: "lc_range serialcfg_default"
  by (simp add: lc_range_def serialcfg_default_def SERIALCFG_DEFAULT_BAUD_def)

lemma serial_page_complete_witness:
  "\<exists>its. h_serial_get nvs_ram None ram1 = HttpOk (serial_head zero_serial_info @ joined (map serial_item its) @ '']}'') \<and>
    (''1A86:7523'', serialcfg_default) \<in> set its"
proof -
  have l: "tbl_lookup (tbl nvs_ram ram1) k = Some l \<longleftrightarrow> k = ''1A86:7523'' \<and> l = serialcfg_default" for k l
    by (auto simp: tbl_ram1 tbl_lookup_def tbl_find_def slots split: if_splits)
  have "info_ok (source_get_serial_info None ram1)"
    by (simp add: source_get_serial_info_def src_op_def zero_serial_info_def info_ok_def plain_text_def SERIALCFG_KEY_LEN_def)
  moreover have "\<forall>k l. tbl_lookup (tbl nvs_ram ram1) k = Some l \<longrightarrow> item_ok (k, l)"
    using default_range by (auto simp: l item_ok_def plain_text_def SERIALCFG_KEY_LEN_def)
  moreover have "tbl_inv (tbl nvs_ram ram1)" by (simp add: tbl_ram1 tbl_inv_def SERIALCFG_MAX_def)
  ultimately show ?thesis
    using serial_page_complete [OF nvs_ram_open, of ram1 None] l
    by (auto simp: source_get_serial_info_def src_op_def)
qed

end
