(* ===== verification/StatusPage.thy ===== *)
theory StatusPage
  imports WebPages Bridge CaptiveDns
begin

text \<open>
  \<^verbatim>\<open>h_status\<close> of \<^verbatim>\<open>webui.c\<close>, which reads the state of every component into one page, the log page, the
  redirect of the captive portal and the table of handlers \<^verbatim>\<open>webui_init\<close> registers.
\<close>

subsection \<open>Reasons of a disconnect\<close>

text \<open>The codes of the driver are constants of its headers: \<open>wifi_reason\<close> of a code is a parameter.\<close>

datatype wifi_reason =
    UNSPECIFIED | AUTH_EXPIRE | AUTH_LEAVE | ASSOC_EXPIRE | ASSOC_TOOMANY | ASSOC_LEAVE | NOT_AUTHED | NOT_ASSOCED
  | ASSOC_NOT_AUTHED | BSS_TRANSITION_DISASSOC | IE_INVALID | MIC_FAILURE | FOURWAY_HANDSHAKE_TIMEOUT
  | GROUP_KEY_UPDATE_TIMEOUT | IE_IN_4WAY_DIFFERS | GROUP_CIPHER_INVALID | PAIRWISE_CIPHER_INVALID | AKMP_INVALID
  | R802_1X_AUTH_FAILED | CIPHER_SUITE_REJECTED | STA_LEAVING | BEACON_TIMEOUT | NO_AP_FOUND | AUTH_FAIL | ASSOC_FAIL
  | HANDSHAKE_TIMEOUT | CONNECTION_FAIL | AP_TSF_RESET | ROAMING | OtherReason

fun net_wifi_reason_str :: "wifi_reason \<Rightarrow> string" where
  "net_wifi_reason_str UNSPECIFIED = ''UNSPECIFIED''"
| "net_wifi_reason_str AUTH_EXPIRE = ''AUTH_EXPIRE''"
| "net_wifi_reason_str AUTH_LEAVE = ''AUTH_LEAVE''"
| "net_wifi_reason_str ASSOC_EXPIRE = ''ASSOC_EXPIRE''"
| "net_wifi_reason_str ASSOC_TOOMANY = ''ASSOC_TOOMANY''"
| "net_wifi_reason_str ASSOC_LEAVE = ''ASSOC_LEAVE''"
| "net_wifi_reason_str NOT_AUTHED = ''NOT_AUTHED''"
| "net_wifi_reason_str NOT_ASSOCED = ''NOT_ASSOCED''"
| "net_wifi_reason_str ASSOC_NOT_AUTHED = ''ASSOC_NOT_AUTHED''"
| "net_wifi_reason_str BSS_TRANSITION_DISASSOC = ''BSS_TRANSITION_DISASSOC''"
| "net_wifi_reason_str IE_INVALID = ''IE_INVALID''"
| "net_wifi_reason_str MIC_FAILURE = ''MIC_FAILURE''"
| "net_wifi_reason_str FOURWAY_HANDSHAKE_TIMEOUT = ''4WAY_HANDSHAKE_TIMEOUT''"
| "net_wifi_reason_str GROUP_KEY_UPDATE_TIMEOUT = ''GROUP_KEY_UPDATE_TIMEOUT''"
| "net_wifi_reason_str IE_IN_4WAY_DIFFERS = ''IE_IN_4WAY_DIFFERS''"
| "net_wifi_reason_str GROUP_CIPHER_INVALID = ''GROUP_CIPHER_INVALID''"
| "net_wifi_reason_str PAIRWISE_CIPHER_INVALID = ''PAIRWISE_CIPHER_INVALID''"
| "net_wifi_reason_str AKMP_INVALID = ''AKMP_INVALID''"
| "net_wifi_reason_str R802_1X_AUTH_FAILED = ''802_1X_AUTH_FAILED''"
| "net_wifi_reason_str CIPHER_SUITE_REJECTED = ''CIPHER_SUITE_REJECTED''"
| "net_wifi_reason_str STA_LEAVING = ''STA_LEAVING''"
| "net_wifi_reason_str BEACON_TIMEOUT = ''BEACON_TIMEOUT''"
| "net_wifi_reason_str NO_AP_FOUND = ''NO_AP_FOUND''"
| "net_wifi_reason_str AUTH_FAIL = ''AUTH_FAIL''"
| "net_wifi_reason_str ASSOC_FAIL = ''ASSOC_FAIL''"
| "net_wifi_reason_str HANDSHAKE_TIMEOUT = ''HANDSHAKE_TIMEOUT''"
| "net_wifi_reason_str CONNECTION_FAIL = ''CONNECTION_FAIL''"
| "net_wifi_reason_str AP_TSF_RESET = ''AP_TSF_RESET''"
| "net_wifi_reason_str ROAMING = ''ROAMING''"
| "net_wifi_reason_str OtherReason = ''?''"

subsection \<open>The page\<close>

text \<open>
  What the build and the chip contribute: version texts, the features compiled in, the EEPROM and the radio
  if the build has them, the chip, the last reset, the clock and the heap.
\<close>

record status_env =
  v_version :: string
  v_built :: string
  v_usb :: bool
  v_tulx :: bool
  v_eth_present :: bool
  v_eeprom :: "(u8 \<times> u16 \<times> u8) option"
  v_radio :: radio_info
  v_target :: string
  v_revision :: u16
  v_mac :: "u8 list"
  v_reset :: reset_reason
  v_now_ms :: u32
  v_heap :: "u32 \<times> u32 \<times> u32"
  v_reason :: "u8 \<Rightarrow> wifi_reason"

definition DISC_BUF :: nat where "DISC_BUF = 640"

definition STATUS_BUF :: nat where "STATUS_BUF = 3072"

definition disc_entry :: "(u8 \<Rightarrow> wifi_reason) \<Rightarrow> net_disc_evt \<Rightarrow> string" where
  "disc_entry name d = jobj [jnum ''ts'' (unat (ts_ms d)), jnum ''reason'' (unat (reason d)),
     jtext ''name'' (net_wifi_reason_str (name (reason d))), jfield ''rssi'' (sdec (sint (rssi d)))]"

text \<open>The loop over the history stops at the first entry that does not fit.\<close>

fun disc_loop :: "(u8 \<Rightarrow> wifi_reason) \<Rightarrow> net_disc_evt list \<Rightarrow> bool \<Rightarrow> string \<Rightarrow> string" where
  "disc_loop name [] first out = out"
| "disc_loop name (d # ds) first out =
     (let e = (if first then [] else '','') @ disc_entry name d
      in if length e \<ge> DISC_BUF - length out then out else disc_loop name ds False (out @ e))"

definition cfg_status :: "cfg \<Rightarrow> string list" where
  "cfg_status c =
     [jnum ''tcp_port'' (unat (tcp_port c)), jbool ''static_ip'' (static_ip c), jtext ''ip'' (ip4 c), jtext ''mask'' (mask4 c),
      jtext ''gw'' (gw4 c), jtext ''dns'' (dns4 c), jbool ''eth_static_ip'' (eth_static_ip c), jtext ''eth_ip'' (eth_ip c),
      jtext ''eth_mask'' (eth_mask c), jtext ''eth_gw'' (eth_gw c), jtext ''eth_dns'' (eth_dns c),
      jbool ''wdt_enable'' (wdt_enable c), jnum ''wdt_timeout_s'' (unat (wdt_timeout_s c))]"

definition wifi_status :: "status_env \<Rightarrow> net \<Rightarrow> string list" where
  "wifi_status V s =
     [jbool ''up'' (n_connected s), jtext ''ssid'' (esc 200 (net_ssid s)), jtext ''ip'' (net_wifi_ip_str s), jtext ''gw'' (n_gw s),
      jbool ''ap'' (n_ap s), jtext ''host'' (n_host s),
      jfield ''disc'' (jobj [jnum ''total'' (unat (n_disc_total s)),
        jfield ''last'' (''['' @ disc_loop (v_reason V) (net_disc_history NET_DISC_HISTORY_MAX s) True [] @ '']'')])]"

definition eth_status :: "status_env \<Rightarrow> net \<Rightarrow> string list" where
  "eth_status V s =
     [jbool ''present'' (v_eth_present V), jbool ''up'' (n_eth_up s), jtext ''ip'' (n_eth_ip s), jtext ''gw'' (n_eth_gw s)]"

definition radio_status :: "radio_info \<Rightarrow> string list" where
  "radio_status r =
     [jbool ''present'' (ri_present r), jfield ''target'' (sdec (ri_target r)), jtext ''staged'' (ri_staged r),
      jtext ''running'' (ri_running r), jtext ''project'' (ri_project r), jbool ''rewritten'' (ri_rewritten r),
      jnum ''app_bytes'' (ri_app_bytes r)]"

definition usb_status :: "source_stats \<Rightarrow> string list" where
  "usb_status u =
     [jbool ''connected'' (st_connected u), jtext ''vid'' (hex4 (st_vid u)), jtext ''pid'' (hex4 (st_pid u)),
      jtext ''manuf'' (esc 100 (st_manuf u)), jtext ''product'' (esc 100 (st_product u)),
      jnum ''rx'' (unat (st_rx_bytes u)), jnum ''tx'' (unat (st_tx_bytes u))]"

definition br_status :: "bridge_stats \<Rightarrow> string list" where
  "br_status b =
     [jnum ''sinks'' (st_sink_count b), jnum ''rx_bytes'' (unat (rx_bytes_total b)), jnum ''tx_bytes'' (unat (tx_bytes_total b)),
      jnum ''rx_pumps'' (unat (rx_pumps_total b)), jnum ''tx_drop'' (unat (tx_dropped_not_ready b))]"

definition tcp_status :: "u16 \<times> tcp_stats \<Rightarrow> string list" where
  "tcp_status t =
     [jnum ''port'' (unat (fst t)), jfield ''clients'' (sdec (active_clients (snd t))),
      jnum ''accepts'' (unat (total_accepts (snd t))), jnum ''rx'' (unat (rx_bytes_from_clients (snd t))),
      jnum ''tx'' (unat (tx_bytes_to_clients (snd t)))]"

definition mac_str :: "u8 list \<Rightarrow> string" where
  "mac_str m = fmt_s 18 (concat (case m of [] \<Rightarrow> [] | b # bs \<Rightarrow> Net.hex2 b # map (\<lambda>b. '':'' @ Net.hex2 b) bs))"

definition sys_status :: "status_env \<Rightarrow> string list" where
  "sys_status V =
     [jnum ''uptime_s'' (unat (v_now_ms V) div 1000), jnum ''free_heap'' (unat (fst (v_heap V))),
      jnum ''min_free_heap'' (unat (fst (snd (v_heap V)))), jnum ''largest_block'' (unat (snd (snd (v_heap V)))),
      jtext ''reset_reason'' (reset_reason_str (v_reset V)), jtext ''chip'' (v_target V),
      jnum ''chip_rev'' (unat (v_revision V)), jtext ''mac'' (mac_str (v_mac V))]"

definition health_status :: "health \<Rightarrow> string list" where
  "health_status h =
     [jnum ''boot_count'' (unat (s_boot h)), jnum ''crash_count'' (unat (s_crash h)),
      jnum ''wdt_reboots'' (unat (s_wdt_reboots h)), jbool ''wdt_subscribed'' (s_wdt_subscribed h)]"

definition eeprom_status :: "(u8 \<times> u16 \<times> u8) option \<Rightarrow> string list" where
  "eeprom_status ee =
     (case (case ee of Some e \<Rightarrow> e | None \<Rightarrow> (0, 0, 0)) of
        (st, sz, page) \<Rightarrow> [jnum ''state'' (unat st), jnum ''size'' (unat sz), jnum ''page'' (unat page)])"

definition status_text ::
  "status_env \<Rightarrow> net \<Rightarrow> source_stats \<Rightarrow> bridge_stats \<Rightarrow> u16 \<times> tcp_stats \<Rightarrow> cfg \<Rightarrow> health \<Rightarrow> string" where
  "status_text V s u b t c h = jobj
     [jfield ''fw'' (jobj [jtext ''version'' (v_version V), jtext ''built'' (v_built V)]),
      jfield ''features'' (jobj [jbool ''eeprom'' (v_eeprom V \<noteq> None), jbool ''dfu'' (v_usb V), jbool ''recovery'' (v_tulx V)]),
      jfield ''wifi'' (jobj (wifi_status V s)), jfield ''eth'' (jobj (eth_status V s)),
      jfield ''radio'' (jobj (radio_status (v_radio V))), jfield ''usb'' (jobj (usb_status u)), jfield ''br'' (jobj (br_status b)),
      jfield ''tcp'' (jobj (tcp_status t)), jfield ''cfg'' (jobj (cfg_status c)), jfield ''sys'' (jobj (sys_status V)),
      jfield ''health'' (jobj (health_status h)), jfield ''eeprom'' (jobj (eeprom_status (v_eeprom V)))]"

definition h_status ::
  "status_env \<Rightarrow> net_env \<Rightarrow> 'w nvs_api \<Rightarrow> 'w br_env \<Rightarrow> net \<Rightarrow> health \<Rightarrow> sink \<Rightarrow> bridge \<Rightarrow> 'w \<Rightarrow> http_res \<times> net" where
  "h_status V E N B s h S b w =
     (let u = source_get_stats (bridge_src_ops B b) w; s1 = compute_names E s;
          text = status_text V s1 u (bridge_get_stats b) (sink_tcp_get_stats S) (config_load N w) h
      in (if STATUS_BUF \<le> length text then HttpErr 500 ''buf overflow'' else HttpOk text, s1))"

subsection \<open>The page fits its buffer\<close>

lemma reason_length: "length (net_wifi_reason_str r) \<le> 24"
  by (cases r) simp_all

lemma reset_length: "length (reset_reason_str r) \<le> 10"
  by (cases r) simp_all

lemma disc_entry_length: "length (disc_entry name d) \<le> 76"
  using dec_u32_digits [of "ts_ms d"] dec_u8_length [of "reason d"] reason_length [of "name (reason d)"]
    sdec_s8_length [of "rssi d"]
  by (simp add: disc_entry_def len_simps)

text \<open>All eight entries of the history fit, so the list on the page is complete.\<close>

lemma disc_loop_all:
  assumes "length out + 77 * length ds < DISC_BUF"
  shows "disc_loop name ds first out = out @ (if first \<or> ds = [] then [] else '','') @ joined (map (disc_entry name) ds)"
  using assms
proof (induction name ds first out rule: disc_loop.induct)
  case (2 name d ds first out)
  let ?e = "(if first then [] else '','') @ disc_entry name d"
  have l: "length ?e \<le> 77" using disc_entry_length [of name d] by simp
  then have fits: "\<not> length ?e \<ge> DISC_BUF - length out" using 2(2) by simp
  have "length (out @ ?e) + 77 * length ds < DISC_BUF" using l 2(2) by simp
  from 2(1) [OF refl fits this]
  have "disc_loop name (d # ds) first out = (out @ ?e) @ (if ds = [] then [] else '','') @ joined (map (disc_entry name) ds)"
    using fits by (simp add: Let_def)
  moreover have "joined (map (disc_entry name) (d # ds)) =
      disc_entry name d @ (if ds = [] then [] else '','') @ joined (map (disc_entry name) ds)"
    by (cases ds) simp_all
  ultimately show ?case by simp
qed simp

lemma history_length: "length (net_disc_history NET_DISC_HISTORY_MAX s) \<le> 8"
  by (simp add: net_disc_history_def NET_DISC_HISTORY_MAX_def Let_def)

lemma disc_list:
  "disc_loop name (net_disc_history NET_DISC_HISTORY_MAX s) True [] =
     joined (map (disc_entry name) (net_disc_history NET_DISC_HISTORY_MAX s))"
  using disc_loop_all [of "[]" "net_disc_history NET_DISC_HISTORY_MAX s" name True] history_length [of s]
  by (simp add: DISC_BUF_def)

lemma disc_list_length: "length (joined (map (disc_entry name) (net_disc_history NET_DISC_HISTORY_MAX s))) \<le> 615"
proof -
  let ?h = "net_disc_history NET_DISC_HISTORY_MAX s"
  have "sum_list (map (length \<circ> disc_entry name) ?h) \<le> length ?h * 76"
    using sum_list_mono [of ?h "length \<circ> disc_entry name" "\<lambda>_. 76"] disc_entry_length by (simp add: sum_list_triv comp_def)
  then show ?thesis using history_length [of s] by (simp add: length_joined comp_def)
qed

text \<open>The texts of the components fit their arrays, and the build's texts are short.\<close>

definition net_texts_ok :: "net \<Rightarrow> bool" where
  "net_texts_ok s \<longleftrightarrow> length (n_ip s) < 16 \<and> length (n_gw s) < 16 \<and> length (n_host s) < 24 \<and>
     length (n_eth_ip s) < 16 \<and> length (n_eth_gw s) < 16"

definition radio_ok :: "radio_info \<Rightarrow> bool" where
  "radio_ok r \<longleftrightarrow> length (ri_staged r) < 32 \<and> length (ri_running r) < 32 \<and> length (ri_project r) < 32 \<and>
     length (sdec (ri_target r)) \<le> 11 \<and> ri_app_bytes r < 2 ^ 32"

definition env_texts_ok :: "status_env \<Rightarrow> bool" where
  "env_texts_ok V \<longleftrightarrow> length (v_version V) < 32 \<and> length (v_built V) < 32 \<and> length (v_target V) < 16 \<and> radio_ok (v_radio V)"

lemma dec_u16_digits: "length (dec (unat (x :: u16))) \<le> 5"
  using length_dec [of "unat x" 5] unsigned_less [where ?'a = nat, of x] by simp

lemma wifi_status_length:
  assumes "net_texts_ok s"
  shows "length (jobj (wifi_status V s)) \<le> 964"
proof -
  have "length (net_wifi_ip_str s) \<le> 15" using assms by (simp add: net_wifi_ip_str_def net_texts_ok_def)
  then show ?thesis
    using assms length_json_bool [of "n_connected s"] length_json_bool [of "n_ap s"] esc_bound [of 200 "net_ssid s"]
      dec_u32_digits [of "n_disc_total s"] disc_list_length [of "v_reason V" s]
    by (simp add: wifi_status_def len_simps disc_list net_texts_ok_def)
qed

lemma eth_status_length: "net_texts_ok s \<Longrightarrow> length (jobj (eth_status V s)) \<le> 74"
  using length_json_bool [of "v_eth_present V"] length_json_bool [of "n_eth_up s"]
  by (simp add: eth_status_def len_simps net_texts_ok_def)

lemma radio_status_length: "radio_ok r \<Longrightarrow> length (jobj (radio_status r)) \<le> 210"
  using length_json_bool [of "ri_present r"] length_json_bool [of "ri_rewritten r"] length_dec [of "ri_app_bytes r" 10]
  by (simp add: radio_status_def len_simps radio_ok_def)

lemma usb_status_length: "length (jobj (usb_status u)) \<le> 299"
  using length_json_bool [of "st_connected u"] esc_bound [of 100 "st_manuf u"] esc_bound [of 100 "st_product u"]
    dec_u32_digits [of "st_rx_bytes u"] dec_u32_digits [of "st_tx_bytes u"]
  by (simp add: usb_status_def len_simps)

lemma br_status_length: "st_sink_count b < 10 ^ 10 \<Longrightarrow> length (jobj (br_status b)) \<le> 107"
  using length_dec [of "st_sink_count b" 10] dec_u32_digits [of "rx_bytes_total b"] dec_u32_digits [of "tx_bytes_total b"]
    dec_u32_digits [of "rx_pumps_total b"] dec_u32_digits [of "tx_dropped_not_ready b"]
  by (simp add: br_status_def len_simps)

lemma tcp_status_length: "length (sdec (active_clients (snd t))) \<le> 11 \<Longrightarrow> length (jobj (tcp_status t)) \<le> 89"
  using dec_u16_digits [of "fst t"] dec_u32_digits [of "total_accepts (snd t)"]
    dec_u32_digits [of "rx_bytes_from_clients (snd t)"] dec_u32_digits [of "tx_bytes_to_clients (snd t)"]
  by (simp add: tcp_status_def len_simps)

lemma cfg_status_length:
  assumes "cfg_ok c"
  shows "length (jobj (cfg_status c)) \<le> 310"
proof -
  have "length (ip4 c) \<le> 15" "length (mask4 c) \<le> 15" "length (gw4 c) \<le> 15" "length (dns4 c) \<le> 15"
    "length (eth_ip c) \<le> 15" "length (eth_mask c) \<le> 15" "length (eth_gw c) \<le> 15" "length (eth_dns c) \<le> 15"
    using assms by (simp_all add: cfg_ok_def IP_CAP_def)
  then show ?thesis
    using length_json_bool [of "static_ip c"] length_json_bool [of "eth_static_ip c"] length_json_bool [of "wdt_enable c"]
      dec_u16_digits [of "tcp_port c"] dec_u32_digits [of "wdt_timeout_s c"]
    by (simp add: cfg_status_def len_simps)
qed

lemma mac_length: "length (mac_str m) \<le> 17"
  by (simp add: mac_str_def fmt_s_def)

lemma sys_status_length:
  assumes "length (v_target V) < 16"
  shows "length (jobj (sys_status V)) \<le> 196"
proof -
  have "length (dec (unat (v_now_ms V) div 1000)) \<le> 10"
    using length_dec [of "unat (v_now_ms V) div 1000" 10] unsigned_less [where ?'a = nat, of "v_now_ms V"] by simp
  then show ?thesis
    using assms dec_u32_digits [of "fst (v_heap V)"] dec_u32_digits [of "fst (snd (v_heap V))"] dec_u32_digits [of "snd (snd (v_heap V))"]
      reset_length [of "v_reset V"] dec_u16_digits [of "v_revision V"] mac_length [of "v_mac V"]
    by (simp add: sys_status_def len_simps)
qed

lemma health_status_length: "length (jobj (health_status h)) \<le> 98"
  using length_json_bool [of "s_wdt_subscribed h"] dec_u32_digits [of "s_boot h"] dec_u32_digits [of "s_crash h"]
    dec_u32_digits [of "s_wdt_reboots h"]
  by (simp add: health_status_def len_simps)

lemma eeprom_status_length: "length (jobj (eeprom_status e)) \<le> 37"
proof (cases "case e of Some x \<Rightarrow> x | None \<Rightarrow> (0, 0, 0)")
  case (fields st sz pg)
  then show ?thesis using dec_u8_length [of st] dec_u16_digits [of sz] dec_u8_length [of pg]
    by (simp add: eeprom_status_def len_simps)
qed

lemma status_text_length:
  assumes "env_texts_ok V" and "net_texts_ok s" and "cfg_ok c" and "st_sink_count b < 10 ^ 10"
    and "length (sdec (active_clients (snd t))) \<le> 11"
  shows "length (status_text V s u b t c h) \<le> 2613"
proof -
  have "length (v_version V) \<le> 31" "length (v_built V) \<le> 31" "length (v_target V) < 16" "radio_ok (v_radio V)"
    using assms(1) by (simp_all add: env_texts_ok_def)
  then show ?thesis
    using wifi_status_length [OF assms(2), of V] eth_status_length [OF assms(2), of V] radio_status_length [of "v_radio V"]
      usb_status_length [of u] br_status_length [OF assms(4)] tcp_status_length [OF assms(5)] cfg_status_length [OF assms(3)]
      sys_status_length [of V] health_status_length [of h] eeprom_status_length [of "v_eeprom V"]
      length_json_bool [of "v_eeprom V \<noteq> None"] length_json_bool [of "v_usb V"] length_json_bool [of "v_tulx V"]
    by (simp add: status_text_def length_jobj [of "_ # _ # _"] length_jfield length_quoted length_joined)
qed

text \<open>In every state the network reaches, its texts fit their arrays.\<close>

definition texts_part where
  "texts_part s = (n_ip s, n_gw s, n_host s, n_eth_ip s, n_eth_gw s)"

lemma texts_cong: "texts_part s' = texts_part s \<Longrightarrow> net_texts_ok s' = net_texts_ok s"
  by (simp add: texts_part_def net_texts_ok_def)

lemma texts_emit [simp]: "texts_part (emit c s) = texts_part s"
  by (simp add: emit_def texts_part_def)

lemma texts_names: "net_texts_ok s \<Longrightarrow> net_texts_ok (compute_names E s)"
  by (simp add: compute_names_def net_texts_ok_def Let_def length_fmt_s)

lemma texts_spawn: "texts_part (spawn_dns E s) = texts_part s" "texts_part (spawn_recovery E s) = texts_part s"
  by (simp_all add: spawn_dns_def spawn_recovery_def texts_part_def emit_def)

lemma texts_fields:
  "texts_part (s\<lparr>n_ap := a\<rparr>) = texts_part s" "texts_part (s\<lparr>n_dns_stop := b\<rparr>) = texts_part s"
  "texts_part (s\<lparr>n_ap_clients := k\<rparr>) = texts_part s"
  by (simp_all add: texts_part_def)

lemma texts_softap:
  assumes "net_start_softap E s = Some s'" and "net_texts_ok s"
  shows "net_texts_ok s'"
proof -
  have "texts_part s' = texts_part s \<or> texts_part s' = texts_part (compute_names E s)"
    using assms(1) by (auto simp: net_start_softap_def checked_def Let_def texts_spawn texts_fields split: if_splits)
  then show ?thesis using texts_cong texts_names [OF assms(2)] assms(2) by blast
qed

lemma texts_small:
  "texts_part (net_note_uplink_up E s) = texts_part s" "texts_part (teardown_check s) = texts_part s"
  "texts_part (teardown_end s) = texts_part s" "texts_part (fallback_check s) = texts_part s"
  "texts_part (sta_recovery_tick s) = texts_part s" "texts_part (net_set_external_control on s) = texts_part s"
  "net_wdt_tick now s = (b, s') \<Longrightarrow> texts_part s' = texts_part s"
  by (auto simp: net_note_uplink_up_def teardown_check_def net_stop_softap_def teardown_end_def fallback_check_def
      sta_recovery_tick_def net_set_external_control_def net_wdt_tick_def texts_part_def emit_def Let_def split: if_splits)

lemma texts_note: "net_texts_ok (net_note_uplink_up E s) = net_texts_ok s"
  by (rule texts_cong [OF texts_small(1)])

lemma texts_wifi:
  assumes "event_cb E ev s = Some s'" and "net_texts_ok s"
  shows "net_texts_ok s'"
proof (cases ev)
  case (EvDisconnected dis t)
  obtain r q where d: "(case dis of Some d \<Rightarrow> d | None \<Rightarrow> (0, 0)) = (r, q)" by (metis surj_pair)
  let ?s1 = "disc_record r q t (s\<lparr>n_connected := False\<rparr>)"
  have 1: "net_texts_ok (?s1\<lparr>n_fail := True\<rparr>)" "net_texts_ok ?s1" "net_texts_ok (emit WifiConnect (?s1\<lparr>n_retry := n_retry ?s1 + 1\<rparr>))"
    using assms(2) by (simp_all add: net_texts_ok_def disc_record_def emit_def)
  then show ?thesis using assms(1) texts_softap [OF _ 1(1)]
    by (auto simp: EvDisconnected on_disconnected_def d Let_def split: if_splits)
next
  case (EvGotIp ip gw now)
  then have "s' = net_note_uplink_up E (s\<lparr>n_connected := True, n_retry := 0, n_last_us := now, n_ip := fmt_s 16 (ip_str ip),
      n_gw := fmt_s 16 (ip_str gw), n_got_ip := True\<rparr>)" using assms(1) by simp
  moreover have "net_texts_ok (s\<lparr>n_connected := True, n_retry := 0, n_last_us := now, n_ip := fmt_s 16 (ip_str ip),
      n_gw := fmt_s 16 (ip_str gw), n_got_ip := True\<rparr>)" using assms(2) by (simp add: net_texts_ok_def length_fmt_s)
  ultimately show ?thesis by (simp only: texts_note)
qed (use assms in \<open>auto simp: net_texts_ok_def emit_def split: if_splits\<close>)

lemma texts_eth: "net_texts_ok s \<Longrightarrow> net_texts_ok (eth_event_handler E ev s)"
proof (cases ev)
  case (EthGotIp ip gw)
  assume "net_texts_ok s"
  then have "net_texts_ok (s\<lparr>n_eth_ip := fmt_s 16 (ip_str ip), n_eth_gw := fmt_s 16 (ip_str gw), n_eth_up := True\<rparr>)"
    by (simp add: net_texts_ok_def length_fmt_s)
  then show ?thesis by (simp add: EthGotIp texts_note)
qed (simp_all add: net_texts_ok_def no_ip_def)

lemma texts_step:
  assumes "net_step E N a s s'" and "net_texts_ok s"
  shows "net_texts_ok s'"
  using assms(1)
proof cases
  case (step_wifi ev)
  then show ?thesis using texts_wifi assms(2) by blast
next
  case step_fb_start
  then obtain s1 where "net_start_softap E s = Some s1" "s' = s1\<lparr>n_fallback := FbNone\<rparr>" by (auto simp: fallback_start_def)
  then show ?thesis using texts_softap assms(2) by (simp add: net_texts_ok_def)
next
  case (step_provision ssid psk w e w')
  then show ?thesis using persist_frame assms(2) by (fastforce simp: net_texts_ok_def)
next
  case (step_forget w e w')
  then show ?thesis using clear_frame assms(2) by (fastforce simp: net_texts_ok_def)
next
  case (step_wdt now)
  then show ?thesis using texts_cong [OF texts_small(7)] assms(2) by blast
next
  case step_external
  then show ?thesis using texts_cong [OF texts_small(6)] assms(2) by blast
next
  case step_td_check
  then show ?thesis using texts_cong [OF texts_small(2)] assms(2) by blast
next
  case step_td_end
  then show ?thesis using texts_cong [OF texts_small(3)] assms(2) by blast
next
  case step_fb_check
  then show ?thesis using texts_cong [OF texts_small(4)] assms(2) by blast
next
  case step_supervisor
  then show ?thesis using texts_cong [OF texts_small(5)] assms(2) by blast
next
  case step_eth
  then show ?thesis using texts_eth assms(2) by blast
qed (use assms(2) in \<open>simp_all add: net_texts_ok_def\<close>)

lemma texts_sta: "texts_part (sta_static E s) = texts_part s" "texts_part (eth_static E c s) = texts_part s"
  by (simp_all add: sta_static_def eth_static_def Let_def)

lemma texts_start:
  assumes "start_sta E have s = Some s'"
  shows "texts_part s' = texts_part s"
proof -
  have f: "texts_part (s\<lparr>n_fallback := p\<rparr>) = texts_part s" for s p by (simp add: texts_part_def)
  show ?thesis using assms by (auto simp: start_sta_def checked_def Let_def texts_spawn f split: if_splits)
qed

lemma texts_eth_init: "net_eth_init E N w s = Some s' \<Longrightarrow> texts_part s' = texts_part s"
  by (auto simp: net_eth_init_def checked_def texts_sta split: if_splits)

lemma texts_load: "load_creds E N w s = (ok, s') \<Longrightarrow> texts_part s' = texts_part s"
  by (auto simp: load_creds_def texts_part_def split: if_splits option.splits)

lemma texts_adopt: "adopt_creds E (h, s) = (h', s') \<Longrightarrow> texts_part s' = texts_part s"
  by (auto simp: adopt_creds_def texts_part_def split: if_splits option.splits prod.splits)

lemma texts_init:
  assumes "net_init E with_eth N w now = Some s"
  shows "net_texts_ok s"
proof -
  obtain ok s0 where l: "load_creds E N w net_boot = (ok, s0)" by (metis surj_pair)
  obtain h s1 where a: "adopt_creds E (ok \<and> n_ssid s0 \<noteq> [], s0) = (h, s1)" by (metis surj_pair)
  define s2 where "s2 = sta_static E ((compute_names E s1)\<lparr>n_cfg := config_load N w, n_last_us := now\<rparr>)"
  have "net_texts_ok net_boot" by (simp add: net_texts_ok_def net_boot_def no_ip_def)
  then have "net_texts_ok s1" using texts_cong [OF texts_load [OF l]] texts_cong [OF texts_adopt [OF a]] by simp
  then have "net_texts_ok ((compute_names E s1)\<lparr>n_cfg := config_load N w, n_last_us := now\<rparr>)"
    using texts_names [of s1 E] by (simp add: net_texts_ok_def)
  then have 2: "net_texts_ok s2" using texts_cong [OF texts_sta(1)] by (simp add: s2_def)
  from assms obtain s3 s4 where 3: "start_sta E h s2 = Some s3" "(if with_eth then net_eth_init E N w else Some) s3 = Some s4"
    and s: "s = (if wdt_enable (n_cfg s4) then (emit (Spawn TaskWdt) s4)\<lparr>n_wdt := call_ok E (Spawn TaskWdt)\<rparr> else s4)"
    by (auto simp: net_init_def l a s2_def bind_eq_Some_conv Let_def split: option.splits)
  have "texts_part s4 = texts_part s3" using 3(2) texts_eth_init by (cases with_eth) auto
  moreover have "texts_part s = texts_part s4" by (simp add: s texts_part_def emit_def)
  ultimately show ?thesis using texts_cong [OF texts_start [OF 3(1)]] texts_cong 2 by metis
qed

lemma sdec_int_length:
  assumes "- (2 ^ 31) \<le> i" and "i < 2 ^ 31"
  shows "length (sdec i) \<le> 11"
proof -
  have "nat (- i) < 10 ^ 10" "nat i < 10 ^ 10" using assms by simp_all
  then show ?thesis using length_dec [of "nat (- i)" 10] length_dec [of "nat i" 10] by (simp add: sdec_def)
qed

text \<open>C14: in every state the device reaches, the status page is the complete text: the buffer always has room for
  it, so its error branch is never taken, and the list of disconnects on it is the whole history.\<close>

theorem status_page_complete:
  assumes "net_init E with_eth N w0 now = Some s0" and "net_run (\<lambda>s a. True) E N s0 tr s"
    and "env_texts_ok V" and "nvs_str_fit N" and "st_sink_count (stats b) < 256"
    and "- (2 ^ 31) \<le> active_clients (tcp_stats S)" and "active_clients (tcp_stats S) < 2 ^ 31"
  shows "fst (h_status V E N B s h S b w) =
      HttpOk (status_text V (compute_names E s) (source_get_stats (bridge_src_ops B b) w) (stats b)
        (sink_tcp_get_stats S) (config_load N w) h) \<and>
    disc_loop (v_reason V) (net_disc_history NET_DISC_HISTORY_MAX s) True [] =
      joined (map (disc_entry (v_reason V)) (net_disc_history NET_DISC_HISTORY_MAX s))"
proof -
  have "net_texts_ok s"
    by (rule run_inv [where I = net_texts_ok, OF assms(2) texts_init [OF assms(1)]]) (rule texts_step)
  then have 1: "net_texts_ok (compute_names E s)" by (rule texts_names)
  have 2: "length (sdec (active_clients (snd (sink_tcp_get_stats S)))) \<le> 11"
    using sdec_int_length [OF assms(6,7)] by (simp add: sink_tcp_get_stats_def)
  have 3: "st_sink_count (stats b) < 10 ^ 10" using assms(5) by simp
  have "length (status_text V (compute_names E s) (source_get_stats (bridge_src_ops B b) w) (stats b)
      (sink_tcp_get_stats S) (config_load N w) h) < STATUS_BUF"
    using status_text_length [OF assms(3) 1 config_load_ok [OF assms(4), of w] 3 2,
        of "source_get_stats (bridge_src_ops B b) w" h] by (simp add: STATUS_BUF_def)
  then show ?thesis by (simp add: h_status_def bridge_get_stats_def Let_def disc_list)
qed

definition env_plain :: status_env where
  "env_plain = \<lparr>v_version = ''0.2.296'', v_built = ''2026-09-22 14:55:39'', v_usb = True, v_tulx = False, v_eth_present = False,
     v_eeprom = None, v_radio = \<lparr>ri_present = False, ri_target = 0, ri_staged = [], ri_running = [], ri_project = [],
       ri_app_bytes = 0, ri_rewritten = False\<rparr>,
     v_target = ''esp32s3'', v_revision = 2, v_mac = [0, 1, 2, 3, 4, 5], v_reset = RST_POWERON, v_now_ms = 5000,
     v_heap = (100, 90, 80), v_reason = (\<lambda>_. OtherReason)\<rparr>"

lemma status_page_complete_witness:
  "\<exists>page. fst (h_status env_plain env_ok nvs_ram \<lparr>env_source = (\<lambda>_. None), env_sink = (\<lambda>_. None)\<rparr> fresh health_zero
     (sink_tcp_init 2329) bridge_init Map.empty) = HttpOk page"
proof -
  have "env_texts_ok env_plain"
    by (simp add: env_texts_ok_def env_plain_def radio_ok_def sdec_def dec_digit)
  moreover have "st_sink_count (stats bridge_init) < 256" "active_clients (tcp_stats (sink_tcp_init 2329)) = 0"
    by (simp_all add: bridge_init_def sink_tcp_init_def zero_bridge_stats_def zero_tcp_stats_def)
  ultimately show ?thesis
    using status_page_complete [OF fresh_init run_start, of env_plain bridge_init "sink_tcp_init 2329"] nvs_ram_fit by simp
qed

subsection \<open>The log page\<close>

definition LOG_BODY :: nat where "LOG_BODY = 8192"

definition LOG_LINES :: nat where "LOG_LINES = 7000"

text \<open>\<open>since\<close> is the number of the query, 0 without one; the second component is the length given to \<^verbatim>\<open>httpd_resp_send\<close>.\<close>

definition h_log :: "nat \<Rightarrow> u32 \<Rightarrow> log_buf \<Rightarrow> string \<times> nat" where
  "h_log N since b =
     (case log_buffer_get_since N since LOG_LINES b of
        (cnt, lines, head, old) \<Rightarrow>
          let t = jobj [jnum ''head'' head, jnum ''oldest'' old, jnum ''count'' cnt, jfield ''lines'' (''['' @ lines @ '']'')]
          in (fmt_s LOG_BODY t, length t))"

lemma put_lines_count: "put_lines cap ls n out = (m, t) \<Longrightarrow> m \<le> n + length ls"
proof (induction cap ls n out rule: put_lines.induct)
  case (2 cap s l ls count out)
  show ?case using 2(2) 2(1) [OF _ refl] by (fastforce simp: Let_def split: if_splits)
qed simp

text \<open>The page holds whatever the log buffer hands out: what is sent is inside the buffer and complete.\<close>

lemma log_page_whole:
  assumes "h_log N since b = (page, sent)"
  shows "length page = sent" and "sent < LOG_BODY"
proof -
  obtain cnt ls hd1 old where g: "log_buffer_get_since N since LOG_LINES b = (cnt, ls, hd1, old)" by (metis prod_cases4)
  let ?t = "jobj [jnum ''head'' hd1, jnum ''oldest'' old, jnum ''count'' cnt, jfield ''lines'' (''['' @ ls @ '']'')]"
  have h: "unat (lb_head b) < 10 ^ 10" using unsigned_less [where ?'a = nat, of "lb_head b"] by simp
  have l: "length ls < LOG_LINES" "hd1 = unat (lb_head b)" "old \<le> unat (lb_head b)" "cnt \<le> unat (lb_head b)"
    using g put_lines_count by (auto simp: log_buffer_get_since_def LOG_LINES_def oldest_def Let_def split: prod.splits dest!: put_lines_count)
  then have d: "length (dec hd1) \<le> 10" "length (dec old) \<le> 10" "length (dec cnt) \<le> 10"
    using h length_dec [of hd1 10] length_dec [of old 10] length_dec [of cnt 10] by simp_all
  then have t: "length ?t < LOG_BODY" using l(1) by (simp add: len_simps LOG_LINES_def LOG_BODY_def)
  have "page = fmt_s LOG_BODY ?t" "sent = length ?t" using assms g by (auto simp: h_log_def Let_def)
  then show "length page = sent" "sent < LOG_BODY" using t fmt_s_id [OF t] by simp_all
qed

subsection \<open>The captive portal\<close>

definition h_captive_redirect :: "net \<Rightarrow> string" where
  "h_captive_redirect s = fmt_s 64 (''http://'' @ net_ip_str s @ ''/'')"

text \<open>\<open>None\<close> is the 404.\<close>

definition h_not_found :: "net \<Rightarrow> string option" where
  "h_not_found s = (if n_ap s then Some (h_captive_redirect s) else None)"

text \<open>C30: the captive portal is closed.  While the access point is open and there is no uplink, a query whose datagram
  and answer fit the buffer of 256 bytes is answered with its own id, question count and question, as an authoritative
  response without an error and with exactly one answer: a pointer to the name of the question, type A, class IN, 60
  seconds, four bytes of address.  It is the address to which every unknown page is then redirected.\<close>

theorem captive_portal_closed:
  assumes "n_ap s" and "\<not> net_uplink_is_up s"
    and "length buf = DNS_BUF" and "length hdr = 12" and "\<forall>l\<in>set ls. label_ok l" and "length q = 4"
    and "length (hdr @ dns_name ls @ q @ rest) \<le> DNS_BUF" and "length (dns_name ls) + 32 \<le> DNS_BUF"
  shows "\<exists>a b c d. (case dns_recv buf (hdr @ dns_name ls @ q @ rest) of (buf', n) \<Rightarrow> dns_answer buf' n) =
      Some ([hdr ! 0, hdr ! 1, 0x84, 0x80, hdr ! 4, hdr ! 5, 0, 1, 0, 0, 0, 0] @ dns_name ls @ q @
        [0xC0, 12, 0, 1, 0, 1, 0, 0, 0, 60, 0, 4, a, b, c, d]) \<and>
    h_not_found s = Some (''http://'' @ ip_str (a, b, c, d) @ ''/'')"
proof -
  have "net_ip_str s = ''192.168.4.1''" using assms(1,2) by (simp add: net_ip_str_def net_uplink_is_up_def)
  then have r: "h_not_found s = Some (''http://'' @ ip_str (192, 168, 4, 1) @ ''/'')"
    using assms(1) by (simp add: h_not_found_def h_captive_redirect_def fmt_s_def ip_str_def dec.simps hex_digit_def)
  have "dns_record = [0xC0, 12, 0, 1, 0, 1, 0, 0, 0, 60, 0, 4, 192, 168, 4, 1]" by (simp add: dns_record_def)
  with captive_answer [OF assms(3-8)] r show ?thesis by metis
qed

lemma captive_portal_closed_witness:
  "h_not_found (net_boot\<lparr>n_ap := True\<rparr>) = Some ''http://192.168.4.1/'' \<and>
    (\<exists>a b c d. (case dns_recv (replicate 256 0) (query_ex @ dns_name [[97]] @ [0, 1, 0, 1] @ []) of
      (buf', n) \<Rightarrow> dns_answer buf' n) =
      Some ([0x12, 0x34, 0x84, 0x80, 0, 1, 0, 1, 0, 0, 0, 0] @ dns_name [[97]] @ [0, 1, 0, 1] @
        [0xC0, 12, 0, 1, 0, 1, 0, 0, 0, 60, 0, 4, a, b, c, d]))"
proof -
  let ?s = "net_boot\<lparr>n_ap := True\<rparr>"
  have "n_ap ?s" "\<not> net_uplink_is_up ?s" by (simp_all add: net_boot_def net_uplink_is_up_def)
  moreover have "\<forall>l\<in>set [[97]]. label_ok l" by (simp add: label_ok_def)
  moreover have "length (dns_name [[97]]) = 3" by (simp add: dns_name_def dns_label_def)
  moreover have "h_not_found ?s = Some ''http://192.168.4.1/''"
    by (simp add: h_not_found_def h_captive_redirect_def net_ip_str_def net_boot_def fmt_s_def)
  ultimately show ?thesis
    using captive_portal_closed [of ?s "replicate 256 0" query_ex "[[97]]" "[0, 1, 0, 1]" "[]"]
    unfolding DNS_BUF_def by (fastforce simp: query_ex_def)
qed

subsection \<open>The table of handlers\<close>

datatype http_method = HTTP_GET | HTTP_POST

definition MAX_URI_HANDLERS :: nat where "MAX_URI_HANDLERS = 22"

text \<open>What \<^verbatim>\<open>webui_init\<close> registers, in its order; the flags are the builds that have the recovery and the DFU handlers.\<close>

definition webui_routes :: "bool \<Rightarrow> bool \<Rightarrow> (string \<times> http_method) list" where
  "webui_routes tulx usb =
     [(''/'', HTTP_GET), (''/api/status'', HTTP_GET), (''/api/log'', HTTP_GET), (''/api/reboot'', HTTP_POST)] @
     (if tulx then [(''/api/recovery'', HTTP_POST)] else []) @
     [(''/api/ota'', HTTP_POST), (''/api/radio'', HTTP_POST)] @
     (if usb then [(''/api/cul/dfu'', HTTP_GET), (''/api/cul/dfu'', HTTP_POST), (''/api/cul/dfu/enter'', HTTP_POST)] else []) @
     [(''/api/update/check'', HTTP_GET), (''/api/update/check'', HTTP_POST), (''/api/update/install'', HTTP_POST),
      (''/api/config'', HTTP_GET), (''/api/config'', HTTP_POST), (''/api/serial'', HTTP_GET), (''/api/serial'', HTTP_POST),
      (''/api/wifi'', HTTP_POST), (''/api/wifi/scan'', HTTP_GET), (''/api/wifi/reset'', HTTP_POST),
      (''/generate_204'', HTTP_GET), (''/gen_204'', HTTP_GET), (''/hotspot-detect.html'', HTTP_GET), (''/ncsi.txt'', HTTP_GET)]"

text \<open>The server takes handlers until its table is full.\<close>

definition webui_registered :: "bool \<Rightarrow> bool \<Rightarrow> (string \<times> http_method) list" where
  "webui_registered tulx usb = take MAX_URI_HANDLERS (webui_routes tulx usb)"

lemma routes_registered: "\<not> usb \<Longrightarrow> webui_registered tulx usb = webui_routes tulx usb"
  by (simp add: webui_registered_def webui_routes_def MAX_URI_HANDLERS_def)

text \<open>A build with the USB host has one handler more than the table takes: the last one is lost.\<close>

lemma routes_lost: "webui_routes False True = webui_registered False True @ [(''/ncsi.txt'', HTTP_GET)]"
  by (simp add: webui_registered_def webui_routes_def MAX_URI_HANDLERS_def)

end
