(* ===== verification/Eeprom.thy ===== *)
theory Eeprom
  imports Cdc_Prelude
begin

text \<open>
  \<^verbatim>\<open>eeprom_m24c32.c\<close>: the boot-time self-test of the M24C32 EEPROM on its write-protect pin.  The I2C driver
  is a parameter: what each transfer returns may depend on the world, which keeps the contents of the chip
  and the level of the pin.
\<close>

record 'w i2c_api =
  i2c_bus :: "'w \<Rightarrow> esp_err \<times> 'w"
  i2c_device :: "'w \<Rightarrow> esp_err \<times> 'w"
  i2c_probe :: "'w \<Rightarrow> esp_err \<times> 'w"
  i2c_read :: "u8 list \<Rightarrow> nat \<Rightarrow> 'w \<Rightarrow> esp_err \<times> u8 list \<times> 'w"
  i2c_transmit :: "u8 list \<Rightarrow> 'w \<Rightarrow> esp_err \<times> 'w"
  gpio_we :: "bool \<Rightarrow> 'w \<Rightarrow> 'w"
  delay_ms :: "nat \<Rightarrow> 'w \<Rightarrow> 'w"

definition EEPROM_SIZE_BYTES :: nat where "EEPROM_SIZE_BYTES = 4096"

definition EEPROM_TEST_ADDR :: u16 where "EEPROM_TEST_ADDR = of_nat (EEPROM_SIZE_BYTES - 1)"

definition EEPROM_WRITE_TIMEOUT_MS :: nat where "EEPROM_WRITE_TIMEOUT_MS = 10"

definition EEPROM_MAX_WRITE :: nat where "EEPROM_MAX_WRITE = 8"

definition we_lock :: "'w i2c_api \<Rightarrow> 'w \<Rightarrow> 'w" where "we_lock I = gpio_we I True"

definition we_unlock :: "'w i2c_api \<Rightarrow> 'w \<Rightarrow> 'w" where "we_unlock I = gpio_we I False"

definition addr_bytes :: "u16 \<Rightarrow> u8 list" where
  "addr_bytes a = [ucast (drop_bit 8 a), ucast a]"

definition ee_read :: "'w i2c_api \<Rightarrow> u16 \<Rightarrow> nat \<Rightarrow> 'w \<Rightarrow> u8 list option \<times> 'w" where
  "ee_read I addr n w =
     (case i2c_read I (addr_bytes addr) n w of (e, d, w1) \<Rightarrow> (if e = ESP_OK then Some d else None, w1))"

definition ee_write :: "'w i2c_api \<Rightarrow> u16 \<Rightarrow> u8 list \<Rightarrow> 'w \<Rightarrow> bool \<times> 'w" where
  "ee_write I addr d w =
     (if length d > EEPROM_MAX_WRITE then (False, w)
      else case i2c_transmit I (addr_bytes addr @ d) w of
        (e, w1) \<Rightarrow> if e \<noteq> ESP_OK then (False, w1) else (True, delay_ms I EEPROM_WRITE_TIMEOUT_MS w1))"

text \<open>One write with the pin low around it.\<close>

definition guarded_write :: "'w i2c_api \<Rightarrow> u8 \<Rightarrow> 'w \<Rightarrow> bool \<times> 'w" where
  "guarded_write I v w = apsnd (we_lock I) (ee_write I EEPROM_TEST_ADDR [v] (we_unlock I w))"

text \<open>The read-modify-write of the last byte; the result is \<^verbatim>\<open>s_state\<close>.\<close>

definition rmw_test :: "'w i2c_api \<Rightarrow> 'w \<Rightarrow> u8 \<times> 'w" where
  "rmw_test I w =
     (case ee_read I EEPROM_TEST_ADDR 1 w of
        (None, w1) \<Rightarrow> (2, w1)
      | (Some orig, w1) \<Rightarrow>
          (let test = hd orig XOR 0xA5
           in case guarded_write I test w1 of
             (wrote, w2) \<Rightarrow>
               if \<not> wrote then (2, w2)
               else case ee_read I EEPROM_TEST_ADDR 1 w2 of
                 (back, w3) \<Rightarrow>
                   if back \<noteq> Some [test] then (2, w3)
                   else case guarded_write I (hd orig) w3 of
                     (restored, w4) \<Rightarrow>
                       if \<not> restored then (2, w4)
                       else case ee_read I EEPROM_TEST_ADDR 1 w4 of
                         (verify, w5) \<Rightarrow> (if verify \<noteq> Some [hd orig] then 2 else 1, w5)))"

definition eeprom_init_and_test :: "'w i2c_api \<Rightarrow> 'w \<Rightarrow> u8 \<times> 'w" where
  "eeprom_init_and_test I w =
     (case i2c_bus I (we_lock I w) of
        (e1, w1) \<Rightarrow>
          if e1 \<noteq> ESP_OK then (0, w1)
          else case i2c_device I w1 of
            (e2, w2) \<Rightarrow>
              if e2 \<noteq> ESP_OK then (0, w2)
              else case i2c_probe I w2 of
                (e3, w3) \<Rightarrow> if e3 \<noteq> ESP_OK then (0, w3) else rmw_test I w3)"

definition eeprom_present :: "u8 \<Rightarrow> bool" where
  "eeprom_present st \<longleftrightarrow> st \<noteq> 0"

subsection \<open>A chip on the bus\<close>

text \<open>
  The chip of the data sheet behind an unreliable bus: a read that succeeds returns what is stored, and a
  write changes the addressed byte if the pin is low and nothing if it is high; a failed write may or may
  not have been taken.  \<open>mem w\<close> and \<open>we w\<close> are the contents and the pin, \<open>True\<close> for locked.
\<close>

record chip =
  mem :: "u16 \<Rightarrow> u8"
  we :: bool
  faults :: "bool list"

definition addr_of :: "u8 list \<Rightarrow> u16" where
  "addr_of bs = push_bit 8 (ucast (bs ! 0)) OR ucast (bs ! 1)"

text \<open>Each transfer takes the next fault; with none left it succeeds.\<close>

definition next_fault :: "chip \<Rightarrow> bool \<times> chip" where
  "next_fault c = (case faults c of [] \<Rightarrow> (False, c) | f # fs \<Rightarrow> (f, c\<lparr>faults := fs\<rparr>))"

definition chip_api :: "bool \<Rightarrow> chip i2c_api" where
  "chip_api taken =
     \<lparr>i2c_bus = (\<lambda>c. (ESP_OK, c)), i2c_device = (\<lambda>c. (ESP_OK, c)),
      i2c_probe = (\<lambda>c. case next_fault c of (f, c1) \<Rightarrow> (if f then ESP_FAIL else ESP_OK, c1)),
      i2c_read = (\<lambda>a n c. case next_fault c of
         (f, c1) \<Rightarrow> if f then (ESP_FAIL, [], c1) else (ESP_OK, map (\<lambda>k. mem c1 (addr_of a + of_nat k)) [0..<n], c1)),
      i2c_transmit = (\<lambda>d c. case next_fault c of
         (f, c1) \<Rightarrow> (if f then ESP_FAIL else ESP_OK,
           if we c1 \<or> (f \<and> \<not> taken) then c1 else c1\<lparr>mem := (mem c1)(addr_of d := d ! 2)\<rparr>)),
      gpio_we = (\<lambda>l c. c\<lparr>we := l\<rparr>), delay_ms = (\<lambda>_ c. c)\<rparr>"

subsection \<open>What the driver promises\<close>

locale eeprom_bus =
  fixes I :: "'w i2c_api" and contents :: "'w \<Rightarrow> u16 \<Rightarrow> u8" and pin :: "'w \<Rightarrow> bool"
  assumes gpio_sets: "pin (gpio_we I l w) = l"
    and gpio_keeps: "contents (gpio_we I l w) = contents w"
    and delay_keeps: "pin (delay_ms I n w) = pin w" "contents (delay_ms I n w) = contents w"
    and bus_keeps: "pin (snd (i2c_bus I w)) = pin w" "contents (snd (i2c_bus I w)) = contents w"
    and device_keeps: "pin (snd (i2c_device I w)) = pin w" "contents (snd (i2c_device I w)) = contents w"
    and probe_keeps: "pin (snd (i2c_probe I w)) = pin w" "contents (snd (i2c_probe I w)) = contents w"
    and read_keeps: "pin (snd (snd (i2c_read I b n w))) = pin w"
      "contents (snd (snd (i2c_read I b n w))) = contents w"
    and read_stored: "fst (i2c_read I b 1 w) = ESP_OK \<Longrightarrow> fst (snd (i2c_read I b 1 w)) = [contents w (addr_of b)]"
    and transmit_keeps: "pin (snd (i2c_transmit I d w)) = pin w"
    and transmit_stored: "fst (i2c_transmit I (addr_bytes a @ [v]) w) = ESP_OK \<Longrightarrow> \<not> pin w
      \<Longrightarrow> contents (snd (i2c_transmit I (addr_bytes a @ [v]) w)) = (contents w)(a := v)"
    and transmit_only: "contents (snd (i2c_transmit I (addr_bytes a @ [v]) w)) \<in> {contents w, (contents w)(a := v)}"
begin

lemma read_keep:
  "ee_read I a n w = (r, w1) \<Longrightarrow> pin w1 = pin w \<and> contents w1 = contents w"
  using read_keeps [of "addr_bytes a" n w] by (auto simp: ee_read_def split: prod.splits)

lemma read_value:
  assumes "ee_read I a 1 w = (Some d, w1)"
  shows "d = [contents w (addr_of (addr_bytes a))]"
  using assms read_stored [of "addr_bytes a" w]
  by (auto simp: ee_read_def split: prod.splits if_splits)

lemma write_ends:
  assumes "guarded_write I v w = (b, w1)"
  shows "pin w1 \<and> contents w1 \<in> {contents w, (contents w)(EEPROM_TEST_ADDR := v)}
    \<and> (b \<longrightarrow> contents w1 = (contents w)(EEPROM_TEST_ADDR := v))"
  using assms transmit_only [of EEPROM_TEST_ADDR v "we_unlock I w"]
    transmit_stored [of EEPROM_TEST_ADDR v "we_unlock I w"]
  by (auto simp: guarded_write_def ee_write_def EEPROM_MAX_WRITE_def we_lock_def we_unlock_def gpio_sets
      gpio_keeps delay_keeps split: prod.splits if_splits)

end

lemma addr_bytes_back [simp]: "addr_of (addr_bytes a @ d) = a" "addr_of (addr_bytes a) = a"
proof -
  have "push_bit 8 (ucast (ucast (drop_bit 8 a) :: u8)) OR ucast (ucast a :: u8) = a"
    by (rule bit_word_eqI) (auto simp: bit_or_iff bit_push_bit_iff bit_ucast_iff bit_drop_bit_eq)
  then show "addr_of (addr_bytes a @ d) = a" "addr_of (addr_bytes a) = a"
    by (simp_all add: addr_of_def addr_bytes_def)
qed

lemma addr_bytes_data [simp]: "(addr_bytes a @ [v]) ! 2 = v"
  by (simp add: addr_bytes_def)

text \<open>The contents the test may leave behind: the old ones, or the last byte inverted by the pattern.\<close>

definition disturbed :: "(u16 \<Rightarrow> u8) \<Rightarrow> (u16 \<Rightarrow> u8)" where
  "disturbed m = m(EEPROM_TEST_ADDR := m EEPROM_TEST_ADDR XOR 0xA5)"

context eeprom_bus begin

lemma rmw_ends:
  assumes locked: "pin w" and run: "rmw_test I w = (st, w')"
  shows "pin w' \<and> (st = 1 \<or> st = 2) \<and> contents w' \<in> {contents w, disturbed (contents w)}
    \<and> (st = 1 \<longrightarrow> contents w' = contents w)"
proof -
  define m where "m = contents w"
  define a where "a = EEPROM_TEST_ADDR"
  obtain r1 w1 where e1: "ee_read I a 1 w = (r1, w1)" by force
  have k1: "pin w1" "contents w1 = m" using read_keep [OF e1] locked by (auto simp: m_def)
  show ?thesis
  proof (cases r1)
    case None
    then show ?thesis using run e1 k1 by (simp add: rmw_test_def a_def m_def)
  next
    case (Some d1)
    have d1: "d1 = [m a]" using read_value [of a w d1 w1] e1 Some addr_bytes_back by (simp add: m_def a_def)
    obtain b2 w2 where e2: "guarded_write I (m a XOR 0xA5) w1 = (b2, w2)" by force
    have k2: "pin w2" "contents w2 \<in> {m, disturbed m}"
      using write_ends [OF e2] k1 by (auto simp: disturbed_def a_def)
    obtain r3 w3 where e3: "ee_read I a 1 w2 = (r3, w3)" by force
    have k3: "pin w3" "contents w3 \<in> {m, disturbed m}" using read_keep [OF e3] k2 by auto
    obtain b4 w4 where e4: "guarded_write I (m a) w3 = (b4, w4)" by force
    have undo: "x(a := m a) = m" if "x \<in> {m, disturbed m}" for x
      using that by (auto simp: disturbed_def a_def)
    have k4: "pin w4" "contents w4 \<in> {m, disturbed m}" "b4 \<Longrightarrow> contents w4 = m"
      using write_ends [OF e4] k3 undo [OF k3(2)] by (auto simp: a_def)
    obtain r5 w5 where e5: "ee_read I a 1 w4 = (r5, w5)" by force
    have k5: "pin w5" "contents w5 = contents w4" using read_keep [OF e5] k4 by auto
    have "rmw_test I w = (if \<not> b2 then (2, w2) else if r3 \<noteq> Some [m a XOR 0xA5] then (2, w3)
        else if \<not> b4 then (2, w4) else (if r5 \<noteq> Some [m a] then 2 else 1, w5))"
      unfolding rmw_test_def a_def [symmetric] e1 Some d1
      by (simp only: option.case prod.case Let_def list.sel e2 e3 e4 e5)
    then have "(st, w') = (if \<not> b2 then (2, w2) else if r3 \<noteq> Some [m a XOR 0xA5] then (2, w3)
        else if \<not> b4 then (2, w4) else (if r5 \<noteq> Some [m a] then 2 else 1, w5))"
      using run by simp
    then show ?thesis
      unfolding m_def [symmetric] using k2 k3 k4 k5 by (simp split: if_splits)
  qed
qed

lemma init_ends:
  assumes run: "eeprom_init_and_test I w = (st, w')"
  shows "pin w' \<and> st \<in> {0, 1, 2} \<and> contents w' \<in> {contents w, disturbed (contents w)}
    \<and> (st \<noteq> 2 \<longrightarrow> contents w' = contents w)"
proof -
  obtain e1 w1 where e1: "i2c_bus I (we_lock I w) = (e1, w1)" by force
  obtain e2 w2 where e2: "i2c_device I w1 = (e2, w2)" by force
  obtain e3 w3 where e3: "i2c_probe I w2 = (e3, w3)" by force
  have k1: "pin w1" "contents w1 = contents w"
    using bus_keeps [of "we_lock I w"] e1 by (simp_all add: we_lock_def gpio_sets gpio_keeps)
  have k2: "pin w2" "contents w2 = contents w" using device_keeps [of w1] e2 k1 by simp_all
  have k3: "pin w3" "contents w3 = contents w" using probe_keeps [of w2] e3 k2 by simp_all
  show ?thesis
    using run k1 k2 k3 rmw_ends [of w3 st w']
    by (simp add: eeprom_init_and_test_def e1 e2 e3 split: if_splits) auto
qed

end

interpretation m24c32: eeprom_bus "chip_api taken" mem we for taken
  by unfold_locales (auto simp: chip_api_def next_fault_def split: list.splits if_splits)

lemma ee_read_healthy:
  "faults c = [] \<Longrightarrow> ee_read (chip_api taken) a 1 c = (Some [mem c a], c)"
  by (simp add: ee_read_def chip_api_def next_fault_def)

lemma guarded_write_healthy:
  "faults c = [] \<Longrightarrow> guarded_write (chip_api taken) v c
     = (True, c\<lparr>we := True, mem := (mem c)(EEPROM_TEST_ADDR := v)\<rparr>)"
  by (simp add: guarded_write_def ee_write_def chip_api_def next_fault_def EEPROM_MAX_WRITE_def we_lock_def
      we_unlock_def)

lemma rmw_sound:
  "faults c = [] \<Longrightarrow> fst (rmw_test (chip_api taken) c) = 1"
  unfolding rmw_test_def
  by (simp only: ee_read_healthy option.case prod.case Let_def list.sel)
    (simp add: ee_read_healthy [unfolded One_nat_def] guarded_write_healthy)

lemma selftest_sound:
  assumes "faults c = []"
  shows "fst (eeprom_init_and_test (chip_api taken) c) = 1"
proof -
  have "eeprom_init_and_test (chip_api taken) c = rmw_test (chip_api taken) (we_lock (chip_api taken) c)"
    using assms by (simp add: eeprom_init_and_test_def we_lock_def chip_api_def next_fault_def)
  moreover have "faults (we_lock (chip_api taken) c) = []"
    using assms by (simp add: we_lock_def chip_api_def)
  ultimately show ?thesis using rmw_sound by metis
qed

text \<open>
  One failed transfer at the wrong moment: when the read-back fails the run returns without restoring, and
  when the restoring write fails it is not tried again.
\<close>

lemma selftest_destroys:
  "case eeprom_init_and_test (chip_api False) \<lparr>mem = (\<lambda>_. 0x3C), we = True, faults = [False, False, False, True]\<rparr> of
     (st, c') \<Rightarrow> st = 2 \<and> mem c' 4095 = 0x99"
  by code_simp

text \<open>
  C29: the boot self-test of the EEPROM on a chip behind a bus that may fail any transfer ends with the write
  protection on, changes no byte but the last one and that one only to its inverted pattern; it reports
  absent (0) or healthy (1) only if the contents are untouched, and on a bus without faults it reports healthy.
\<close>

theorem eeprom_selftest:
  assumes run: "eeprom_init_and_test (chip_api taken) c = (st, c')"
  shows "we c' \<and> (\<not> eeprom_present st \<or> st = 1 \<longrightarrow> mem c' = mem c) \<and> mem c' \<in> {mem c, disturbed (mem c)}
    \<and> st \<in> {0, 1, 2} \<and> (faults c = [] \<longrightarrow> st = 1)"
proof -
  have ends: "we c' \<and> st \<in> {0, 1, 2} \<and> mem c' \<in> {mem c, disturbed (mem c)} \<and> (st \<noteq> 2 \<longrightarrow> mem c' = mem c)"
    by (rule m24c32.init_ends [OF run])
  have "fst (eeprom_init_and_test (chip_api taken) c) = 1" if "faults c = []"
    using that by (rule selftest_sound)
  then have "faults c = [] \<longrightarrow> st = 1" using run by simp
  then show ?thesis using ends by (auto simp: eeprom_present_def)
qed

theorem eeprom_selftest_witness:
  "\<exists>st c'. eeprom_init_and_test (chip_api True) \<lparr>mem = (\<lambda>_. 0xFF), we = False, faults = []\<rparr> = (st, c')
     \<and> we c' \<and> mem c' = (\<lambda>_. 0xFF) \<and> st = 1"
proof -
  define c where "c = \<lparr>mem = (\<lambda>_ :: u16. 0xFF :: u8), we = False, faults = []\<rparr>"
  obtain st c' where run: "eeprom_init_and_test (chip_api True) c = (st, c')" by force
  show ?thesis
    using eeprom_selftest [OF run] run by (intro exI [of _ st] exI [of _ c']) (simp add: c_def)
qed

end
