(* ===== verification/AppWdt.thy ===== *)
theory AppWdt
  imports Health
begin

text \<open>
  The task watchdog of \<^verbatim>\<open>main.c\<close>: the main task subscribes itself at the end of the start and feeds once a
  second; the handler of a long transfer takes it off for the time of the transfer.  The watchdog of the system
  is a parameter.
\<close>

record 'w wdt_api =
  wdt_add :: "'w \<Rightarrow> esp_err \<times> 'w"
  wdt_delete :: "'w \<Rightarrow> 'w"
  wdt_reset :: "'w \<Rightarrow> 'w"

text \<open>\<^verbatim>\<open>s_main_wdt_task\<close> (whether it is set), \<^verbatim>\<open>s_wdt_on\<close> and \<^verbatim>\<open>s_wdt_paused\<close>.\<close>

record guard =
  g_task :: bool
  g_on :: bool
  g_paused :: bool

definition guard_zero :: guard where
  "guard_zero = \<lparr>g_task = False, g_on = False, g_paused = False\<rparr>"

text \<open>The two statements of the pause; the main task can run between them.\<close>

definition pause_off :: "'w wdt_api \<Rightarrow> guard \<times> 'w \<Rightarrow> guard \<times> 'w" where
  "pause_off A gw =
     (case gw of (g, w) \<Rightarrow> if g_task g \<and> g_on g then (g\<lparr>g_on := False\<rparr>, wdt_delete A w) else (g, w))"

definition pause_flag :: "guard \<times> 'w \<Rightarrow> guard \<times> 'w" where
  "pause_flag gw = apfst (g_paused_update (\<lambda>_. True)) gw"

definition app_wdt_pause_main :: "'w wdt_api \<Rightarrow> guard \<times> 'w \<Rightarrow> guard \<times> 'w" where
  "app_wdt_pause_main A gw = pause_flag (pause_off A gw)"

definition app_wdt_resume_main :: "guard \<times> 'w \<Rightarrow> guard \<times> 'w" where
  "app_wdt_resume_main gw = apfst (g_paused_update (\<lambda>_. False)) gw"

text \<open>The test at the start of the feed, and what follows it; a pause can come between the two.\<close>

definition feed_due :: "guard \<Rightarrow> bool" where
  "feed_due g \<longleftrightarrow> \<not> (g_paused g \<or> \<not> g_task g)"

definition feed_arm :: "'w wdt_api \<Rightarrow> guard \<times> 'w \<Rightarrow> guard \<times> 'w" where
  "feed_arm A gw =
     (case gw of (g, w) \<Rightarrow>
        if \<not> g_on g
        then (case wdt_add A w of
          (e, w1) \<Rightarrow> if e \<noteq> ESP_OK then (g, w1) else (g\<lparr>g_on := True\<rparr>, wdt_reset A w1))
        else (g, wdt_reset A w))"

definition app_wdt_feed_main :: "'w wdt_api \<Rightarrow> guard \<times> 'w \<Rightarrow> guard \<times> 'w" where
  "app_wdt_feed_main A gw = (if feed_due (fst gw) then feed_arm A gw else gw)"

text \<open>The end of \<^verbatim>\<open>app_main\<close> before its loop.\<close>

definition main_subscribe :: "'w wdt_api \<Rightarrow> health \<times> guard \<times> 'w \<Rightarrow> health \<times> guard \<times> 'w" where
  "main_subscribe A hgw =
     (case hgw of (h, g, w) \<Rightarrow>
        case wdt_add A w of
          (wr, w1) \<Rightarrow>
            let on = (wr = ESP_OK \<or> wr = ESP_ERR_INVALID_ARG)
            in (health_set_wdt_subscribed on h, if on then g\<lparr>g_task := True, g_on := True\<rparr> else g,
                if on then wdt_reset A w1 else w1))"

text \<open>The handlers of \<^verbatim>\<open>webui.c\<close> that run a transfer: the body is the parameter.\<close>

definition paused_call :: "'w wdt_api \<Rightarrow> (guard \<times> 'w \<Rightarrow> 'a \<times> (guard \<times> 'w)) \<Rightarrow> guard \<times> 'w \<Rightarrow> 'a \<times> (guard \<times> 'w)" where
  "paused_call A body gw = (case body (app_wdt_pause_main A gw) of (r, gw1) \<Rightarrow> (r, app_wdt_resume_main gw1))"

subsection \<open>What the watchdog promises\<close>

locale task_wdt =
  fixes A :: "'w wdt_api" and subscribed :: "'w \<Rightarrow> bool" and fed :: "'w \<Rightarrow> bool"
  assumes add_new: "fst (wdt_add A w) = ESP_OK \<Longrightarrow> subscribed (snd (wdt_add A w))"
    and add_fails: "fst (wdt_add A w) \<noteq> ESP_OK \<Longrightarrow> snd (wdt_add A w) = w"
    and add_again: "fst (wdt_add A w) = ESP_ERR_INVALID_ARG \<Longrightarrow> subscribed w"
    and delete_off: "\<not> subscribed (wdt_delete A w)"
    and reset_keeps: "subscribed (wdt_reset A w) = subscribed w"
    and reset_feeds: "subscribed w \<Longrightarrow> fed (wdt_reset A w)"
begin

definition consistent :: "guard \<times> 'w \<Rightarrow> bool" where
  "consistent gw \<longleftrightarrow> (subscribed (snd gw) \<longleftrightarrow> g_on (fst gw)) \<and> (g_on (fst gw) \<longrightarrow> g_task (fst gw) \<and> \<not> g_paused (fst gw))"

lemma consistent_off: "consistent gw \<Longrightarrow> consistent (pause_off A gw) \<and> \<not> subscribed (snd (pause_off A gw))"
  by (auto simp: consistent_def pause_off_def delete_off split: prod.split)

lemma consistent_flag: "consistent gw \<Longrightarrow> \<not> subscribed (snd gw) \<Longrightarrow> consistent (pause_flag gw)"
  by (cases gw) (auto simp: consistent_def pause_flag_def)

lemma consistent_resume: "consistent gw \<Longrightarrow> consistent (app_wdt_resume_main gw)"
  by (cases gw) (auto simp: consistent_def app_wdt_resume_main_def)

lemma consistent_arm:
  assumes c: "consistent gw" and g: "g_task (fst gw)" "\<not> g_paused (fst gw)"
  shows "consistent (feed_arm A gw) \<and> (subscribed (snd (feed_arm A gw)) \<longrightarrow> fed (snd (feed_arm A gw)))"
proof -
  obtain g w where gw: "gw = (g, w)" by force
  obtain e w1 where add: "wdt_add A w = (e, w1)" by force
  have "subscribed w1" if "e = ESP_OK" using add_new [of w] that by (simp add: add)
  moreover have "w1 = w" if "e \<noteq> ESP_OK" using add_fails [of w] that by (simp add: add)
  ultimately show ?thesis
    using c g by (auto simp: gw add consistent_def feed_arm_def reset_keeps reset_feeds)
qed

lemma consistent_start:
  assumes "\<not> g_on g" "\<not> g_paused g" and "\<not> subscribed w"
  shows "consistent (snd (main_subscribe A (h, g, w)))"
proof -
  obtain e w1 where add: "wdt_add A w = (e, w1)" by force
  have "subscribed w1" if "e = ESP_OK" using add_new [of w] that by (simp add: add)
  moreover have "w1 = w" "e \<noteq> ESP_ERR_INVALID_ARG" if "e \<noteq> ESP_OK"
    using add_fails [of w] add_again [of w] assms that by (auto simp: add)
  ultimately show ?thesis
    using assms by (auto simp: main_subscribe_def add consistent_def Let_def reset_keeps)
qed

end

subsection \<open>A watchdog that counts seconds\<close>

text \<open>
  \<^verbatim>\<open>CONFIG_ESP_TASK_WDT_TIMEOUT_S\<close> is 5: the watchdog trips when a subscribed task was not fed for five
  seconds.  \<open>full\<close> are the coming subscriptions that find no memory.
\<close>

record counter =
  subs :: bool
  age :: nat
  tripped :: bool
  full :: "bool list"

definition WDT_TIMEOUT_S :: nat where "WDT_TIMEOUT_S = 5"

definition counter_api :: "counter wdt_api" where
  "counter_api =
     \<lparr>wdt_add = (\<lambda>w. if subs w then (ESP_ERR_INVALID_ARG, w)
        else case full w of [] \<Rightarrow> (ESP_OK, w\<lparr>subs := True\<rparr>)
          | b # bs \<Rightarrow> if b then (ESP_ERR_NO_MEM, w) else (ESP_OK, w\<lparr>subs := True\<rparr>)),
      wdt_delete = (\<lambda>w. w\<lparr>subs := False\<rparr>),
      wdt_reset = (\<lambda>w. if subs w then w\<lparr>age := 0\<rparr> else w)\<rparr>"

definition second :: "counter \<Rightarrow> counter" where
  "second w =
     (if subs w
      then w\<lparr>age := Suc (age w), tripped := tripped w \<or> WDT_TIMEOUT_S \<le> Suc (age w), full := tl (full w)\<rparr>
      else w\<lparr>full := tl (full w)\<rparr>)"

interpretation counter: task_wdt counter_api subs "\<lambda>w. age w = 0"
  by unfold_locales (auto simp: counter_api_def split: list.splits if_splits)

text \<open>
  The steps of a run: the test and the rest of a feed, the two statements of a pause, a resume, and a second that goes
  by.  Feeds are made by the main task, pauses and resumes by the task of the web server.  \<open>r_due\<close> is what the last
  test of the main task found, \<open>r_half\<close> that the web task stands between the two statements.
\<close>

datatype main_op = FeedTest | FeedArm | PauseOff | PauseFlag | Resume | Second

record runner =
  r_gw :: "guard \<times> counter"
  r_due :: bool
  r_half :: bool

fun main_step :: "main_op \<Rightarrow> runner \<Rightarrow> runner" where
  "main_step FeedTest s = s\<lparr>r_due := feed_due (fst (r_gw s))\<rparr>"
| "main_step FeedArm s = s\<lparr>r_gw := (if r_due s then feed_arm counter_api (r_gw s) else r_gw s), r_due := False\<rparr>"
| "main_step PauseOff s = s\<lparr>r_gw := pause_off counter_api (r_gw s), r_half := True\<rparr>"
| "main_step PauseFlag s = s\<lparr>r_gw := pause_flag (r_gw s), r_half := False\<rparr>"
| "main_step Resume s = s\<lparr>r_gw := app_wdt_resume_main (r_gw s)\<rparr>"
| "main_step Second s = s\<lparr>r_gw := apsnd second (r_gw s)\<rparr>"

definition main_run :: "main_op list \<Rightarrow> runner \<Rightarrow> runner" where
  "main_run ops s = fold main_step ops s"

abbreviation from_start :: "guard \<times> counter \<Rightarrow> runner" where
  "from_start gw \<equiv> \<lparr>r_gw = gw, r_due = False, r_half = False\<rparr>"

text \<open>The steps of a call in a row are the call.\<close>

lemma whole_calls:
  "r_gw (main_run [FeedTest, FeedArm] s) = app_wdt_feed_main counter_api (r_gw s)"
  "r_gw (main_run [PauseOff, PauseFlag] s) = app_wdt_pause_main counter_api (r_gw s)"
  by (simp_all add: main_run_def app_wdt_feed_main_def app_wdt_pause_main_def)

text \<open>
  The feeds and pauses of a run are whole and lie apart: none begins while one of the other task is under way.  \<open>f\<close>
  is set inside a feed, \<open>h\<close> inside a pause; seconds go by anywhere, and a resume comes from the task that pauses.
\<close>

fun apart :: "bool \<Rightarrow> bool \<Rightarrow> main_op list \<Rightarrow> bool" where
  "apart f h [] = True"
| "apart f h (FeedTest # ops) = (\<not> f \<and> \<not> h \<and> apart True h ops)"
| "apart f h (FeedArm # ops) = (f \<and> apart False h ops)"
| "apart f h (PauseOff # ops) = (\<not> f \<and> \<not> h \<and> apart f True ops)"
| "apart f h (PauseFlag # ops) = (h \<and> apart f False ops)"
| "apart f h (Resume # ops) = (\<not> h \<and> apart f h ops)"
| "apart f h (Second # ops) = apart f h ops"

text \<open>
  A history is punctual if the loop of the main task, outside the transfers, never lets five seconds go by
  without a feed; inside a transfer it may be starved for any time.  \<open>k\<close> is the time since the last feed
  and \<open>p\<close> whether a transfer runs.
\<close>

fun punctual :: "nat \<Rightarrow> bool \<Rightarrow> main_op list \<Rightarrow> bool" where
  "punctual k p [] = True"
| "punctual k p (FeedTest # ops) = punctual k p ops"
| "punctual k p (FeedArm # ops) = punctual 0 p ops"
| "punctual k p (PauseOff # ops) = punctual k True ops"
| "punctual k p (PauseFlag # ops) = punctual k p ops"
| "punctual k p (Resume # ops) = punctual (if p then 0 else k) False ops"
| "punctual k p (Second # ops) = (if p then punctual k p ops else Suc k < WDT_TIMEOUT_S \<and> punctual (Suc k) p ops)"

text \<open>What holds on the way; the second part only for a punctual history.\<close>

definition calm :: "bool \<Rightarrow> nat \<Rightarrow> bool \<Rightarrow> bool \<Rightarrow> bool \<Rightarrow> runner \<Rightarrow> bool" where
  "calm b k p f h s \<longleftrightarrow> (case r_gw s of (g, w) \<Rightarrow>
     counter.consistent (g, w) \<and> r_half s = h \<and> (p \<longrightarrow> \<not> subs w) \<and> (\<not> p \<longrightarrow> \<not> g_paused g \<and> \<not> h) \<and> (f \<longrightarrow> \<not> h) \<and>
     (p \<and> \<not> h \<longrightarrow> g_paused g) \<and>
     (r_due s \<longrightarrow> f \<and> \<not> p \<and> g_task g) \<and> (f \<and> \<not> r_due s \<longrightarrow> \<not> subs w) \<and>
     (b \<longrightarrow> \<not> tripped w \<and> (subs w \<longrightarrow> age w \<le> k)))"

lemma arm_fields [simp]:
  "g_paused (fst (feed_arm A gw)) = g_paused (fst gw)" "g_task (fst (feed_arm A gw)) = g_task (fst gw)"
  "tripped (snd (feed_arm counter_api gv)) = tripped (snd gv)"
  by (auto simp: feed_arm_def counter_api_def split: prod.split list.splits)

lemma off_fields [simp]:
  "g_paused (fst (pause_off A gw)) = g_paused (fst gw)" "g_task (fst (pause_off A gw)) = g_task (fst gw)"
  "tripped (snd (pause_off counter_api gv)) = tripped (snd gv)"
  by (auto simp: pause_off_def counter_api_def split: prod.split)

lemma calm_step:
  assumes c: "calm b k p f h s" and a: "apart f h (op # ops)" and t: "b \<longrightarrow> punctual k p (op # ops)"
  shows "\<exists>k' p' f' h'. calm b k' p' f' h' (main_step op s) \<and> apart f' h' ops \<and> (b \<longrightarrow> punctual k' p' ops)"
proof -
  obtain g w where gw: "r_gw s = (g, w)" by force
  have con: "counter.consistent (g, w)" using c by (simp add: calm_def gw)
  show ?thesis
  proof (cases op)
    case FeedTest
    then have "calm b k p True h (main_step op s)"
      using c a by (auto simp: calm_def gw feed_due_def counter.consistent_def)
    then show ?thesis using a t FeedTest
      by (intro exI [of _ k] exI [of _ p] exI [of _ True] exI [of _ h]) (auto split: if_splits)
  next
    case FeedArm
    then have "calm b 0 p False h (main_step op s)"
      using c a counter.consistent_arm [OF con] arm_fields(1,2) [of counter_api "(g, w)"] arm_fields(3) [of "(g, w)"]
      by (cases "r_due s"; cases "feed_arm counter_api (g, w)") (auto simp: calm_def gw)
    then show ?thesis using a t FeedArm
      by (intro exI [of _ 0] exI [of _ p] exI [of _ False] exI [of _ h]) (auto split: if_splits)
  next
    case PauseOff
    then have "calm b k True f True (main_step op s)"
      using c a counter.consistent_off [OF con] off_fields(1,2) [of counter_api "(g, w)"] off_fields(3) [of "(g, w)"]
      by (cases "pause_off counter_api (g, w)") (auto simp: calm_def gw)
    then show ?thesis using a t PauseOff
      by (intro exI [of _ k] exI [of _ True] exI [of _ f] exI [of _ True]) (auto split: if_splits)
  next
    case PauseFlag
    then have "p" "calm b k p f False (main_step op s)"
      using c a counter.consistent_flag [OF con] by (auto simp: calm_def gw pause_flag_def)
    then show ?thesis using a t PauseFlag
      by (intro exI [of _ k] exI [of _ p] exI [of _ f] exI [of _ False]) (auto split: if_splits)
  next
    case Resume
    then have "calm b (if p then 0 else k) False f h (main_step op s)"
      using c a by (auto simp: calm_def gw app_wdt_resume_main_def counter.consistent_def)
    then show ?thesis using a t Resume
      by (intro exI [of _ "if p then 0 else k"] exI [of _ False] exI [of _ f] exI [of _ h]) (auto split: if_splits)
  next
    case Second
    then have "calm b (if p then k else Suc k) p f h (main_step op s)"
      using c t by (auto simp: calm_def gw second_def counter.consistent_def split: if_splits)
    then show ?thesis using a t Second
      by (intro exI [of _ "if p then k else Suc k"] exI [of _ p] exI [of _ f] exI [of _ h]) (auto split: if_splits)
  qed
qed

lemma calm_run:
  "calm b k p f h s \<Longrightarrow> apart f h ops \<Longrightarrow> b \<longrightarrow> punctual k p ops \<Longrightarrow> \<exists>k' p' f' h'. calm b k' p' f' h' (main_run ops s)"
proof (induction ops arbitrary: k p f h s)
  case Nil
  then show ?case by (auto simp: main_run_def)
next
  case (Cons op ops)
  have "main_run (op # ops) s = main_run ops (main_step op s)" by (simp add: main_run_def)
  then show ?case using calm_step [OF Cons.prems] Cons.IH by metis
qed

lemma main_step_task: "g_task (fst (r_gw (main_step op s))) = g_task (fst (r_gw s))"
  by (cases op; cases "r_gw s") (simp_all add: app_wdt_resume_main_def pause_flag_def)

lemma main_run_task: "g_task (fst (r_gw (main_run ops s))) = g_task (fst (r_gw s))"
  unfolding main_run_def by (induction ops arbitrary: s) (simp_all add: main_step_task)

text \<open>The next feed after a transfer re-arms, and a hang from then on is caught.\<close>

lemma feed_subscribes:
  assumes "counter.consistent (r_gw s)" "feed_due (fst (r_gw s))" "full (snd (r_gw s)) = []"
  shows "subs (snd (r_gw (main_run [FeedTest, FeedArm] s)))"
  using assms by (cases "r_gw s") (auto simp: main_run_def feed_arm_def counter_api_def counter.consistent_def)

lemma hang_trips: "subs (snd (r_gw s)) \<Longrightarrow> tripped (snd (r_gw (main_run (replicate 5 Second) s)))"
  by (cases "r_gw s") (simp add: main_run_def numeral_eq_Suc second_def WDT_TIMEOUT_S_def)

lemma main_subscribe_start:
  assumes "main_subscribe counter_api (h0, guard_zero, w) = (h, gw)" and "\<not> subs w" "\<not> tripped w"
  shows "calm b 0 False False False (from_start gw)" and "g_task (fst gw) = s_wdt_subscribed h"
proof -
  have c: "counter.consistent gw"
    using counter.consistent_start [of guard_zero w h0] assms by (simp add: guard_zero_def)
  show "calm b 0 False False False (from_start gw)" "g_task (fst gw) = s_wdt_subscribed h"
    using assms c by (auto simp: calm_def main_subscribe_def guard_zero_def counter_api_def Let_def
        health_set_wdt_subscribed_def split: list.splits if_splits)
qed

text \<open>
  C20: the watchdog of the main task, for the statements of its feeds and of the pauses of long transfers in any order
  in which no pause overlaps a feed and none comes before the main task has subscribed (the code excludes neither,
  and either defeats the guard).  A main loop that is punctual outside the transfers is not reset, however long a
  transfer starves it.  While it is paused the main task is not subscribed.  A main task that stops while it is
  subscribed is reset after five seconds; after a transfer it is subscribed again by its first feed (if there is
  memory), so one that stops before that feed is not noticed.
\<close>

theorem wdt_guard:
  assumes start: "main_subscribe counter_api (h0, guard_zero, w) = (h, gw)" and off: "\<not> subs w" "\<not> tripped w"
    and apart: "apart False False ops" and run: "main_run ops (from_start gw) = s"
  shows "(punctual 0 False ops \<longrightarrow> \<not> tripped (snd (r_gw s))) \<and>
    (g_paused (fst (r_gw s)) \<longrightarrow> \<not> subs (snd (r_gw s))) \<and>
    (subs (snd (r_gw s)) \<longrightarrow> tripped (snd (r_gw (main_run (replicate 5 Second) s)))) \<and>
    (s_wdt_subscribed h \<and> \<not> g_paused (fst (r_gw s)) \<and> full (snd (r_gw s)) = [] \<longrightarrow>
      subs (snd (r_gw (main_run [FeedTest, FeedArm] s))))"
proof (intro conjI impI)
  note calm = main_subscribe_start(1) [OF start off]
  show "\<not> tripped (snd (r_gw s))" if "punctual 0 False ops"
    using calm_run [OF calm [of True] apart] that run by (auto simp: calm_def)
  obtain k p f q where "calm False k p f q s" using calm_run [OF calm [of False] apart] run by blast
  then have c: "counter.consistent (r_gw s)" by (auto simp: calm_def)
  show "\<not> subs (snd (r_gw s))" if "g_paused (fst (r_gw s))"
    using c that by (auto simp: counter.consistent_def)
  show "tripped (snd (r_gw (main_run (replicate 5 Second) s)))" if "subs (snd (r_gw s))"
    using that by (rule hang_trips)
  assume hang: "s_wdt_subscribed h \<and> \<not> g_paused (fst (r_gw s)) \<and> full (snd (r_gw s)) = []"
  have "g_task (fst (r_gw s))"
    using main_run_task [of ops "from_start gw"] run main_subscribe_start(2) [OF start off] hang by simp
  then show "subs (snd (r_gw (main_run [FeedTest, FeedArm] s)))"
    using feed_subscribes [OF c] hang by (simp add: feed_due_def)
qed

definition idle_counter :: counter where
  "idle_counter = \<lparr>subs = False, age = 3, tripped = False, full = []\<rparr>"

definition upload_ops :: "main_op list" where
  "upload_ops = [Second, FeedTest, Second, FeedArm, Second, PauseOff, Second, PauseFlag] @ replicate 19 Second @
     [FeedTest, Resume, FeedArm, Second, FeedTest, FeedArm, Second]"

lemma wdt_guard_witness:
  "\<exists>h gw. main_subscribe counter_api (health_zero, guard_zero, idle_counter) = (h, gw) \<and> s_wdt_subscribed h \<and>
     \<not> tripped (snd (r_gw (main_run upload_ops (from_start gw))))"
proof -
  obtain h gw where start: "main_subscribe counter_api (health_zero, guard_zero, idle_counter) = (h, gw)" by (metis surj_pair)
  have "punctual 0 False upload_ops" "apart False False upload_ops" by code_simp+
  moreover have "s_wdt_subscribed (fst (main_subscribe counter_api (health_zero, guard_zero, idle_counter)))"
    by code_simp
  ultimately show ?thesis
    using wdt_guard [OF start _ _ _ refl, of upload_ops] start by (auto simp: idle_counter_def)
qed

text \<open>
  A pause between the test of a feed and the rest of it takes the task off and is undone at once: the task is
  subscribed inside the transfer, where it is never fed.  So does a feed between the two statements of a pause.
\<close>

lemma pause_race:
  assumes "counter.consistent gw" "feed_due (fst gw)" "full (snd gw) = []"
    and "ops \<in> {[FeedTest, PauseOff, PauseFlag, FeedArm], [PauseOff, FeedTest, PauseFlag, FeedArm],
      [PauseOff, FeedTest, FeedArm, PauseFlag]}"
  shows "g_paused (fst (r_gw (main_run ops (from_start gw))))" and "subs (snd (r_gw (main_run ops (from_start gw))))"
  using assms by (cases gw; auto simp: main_run_def feed_arm_def pause_off_def pause_flag_def counter_api_def
      feed_due_def counter.consistent_def)+

lemma pause_race_trips:
  "let (h, gw) = main_subscribe counter_api (health_zero, guard_zero, idle_counter)
   in tripped (snd (r_gw (main_run ([FeedTest, PauseOff, PauseFlag, FeedArm] @
        concat (replicate 5 [FeedTest, FeedArm, Second])) (from_start gw))))"
  by code_simp

text \<open>A pause before the main task subscribed has the same effect: the flag is set and the task added later.\<close>

lemma early_pause:
  "let (g, w) = app_wdt_pause_main counter_api (guard_zero, idle_counter);
       (h, gw) = main_subscribe counter_api (health_zero, g, w)
   in g_paused (fst gw) \<and> subs (snd gw) \<and> tripped (snd (r_gw (main_run (replicate 5 Second) (from_start gw))))"
  by code_simp

end
