(* ===== verification/Glue.thy ===== *)
theory Glue
  imports Cdc_Prelude
begin

text \<open>
  The small pieces around the gateway: the bring-up of the flash storage in \<^verbatim>\<open>main.c\<close>, the probation and the
  recovery of the TULX32 build (\<^verbatim>\<open>tulx_glue.c\<close>) and the short host name (\<^verbatim>\<open>mdns_glue.c\<close>).  The flash, the
  partitions and the responder are parameters.
\<close>

subsection \<open>Storage\<close>

definition ESP_ERR_NVS_NO_FREE_PAGES :: esp_err where "ESP_ERR_NVS_NO_FREE_PAGES = ESP_ERR_OTHER 0x110d"

definition ESP_ERR_NVS_NEW_VERSION_FOUND :: esp_err where "ESP_ERR_NVS_NEW_VERSION_FOUND = ESP_ERR_OTHER 0x1110"

record 'w flash_api =
  nvs_flash_init :: "'w \<Rightarrow> esp_err \<times> 'w"
  nvs_flash_erase :: "'w \<Rightarrow> esp_err \<times> 'w"

text \<open>\<^verbatim>\<open>ESP_ERROR_CHECK\<close> aborts on an error: the start has no value then.\<close>

definition error_check :: "esp_err \<times> 'w \<Rightarrow> 'w option" where
  "error_check ew = (if fst ew = ESP_OK then Some (snd ew) else None)"

definition nvs_up :: "'w flash_api \<Rightarrow> 'w \<Rightarrow> 'w option" where
  "nvs_up F w =
     (case nvs_flash_init F w of
        (nerr, w1) \<Rightarrow>
          if nerr = ESP_ERR_NVS_NO_FREE_PAGES \<or> nerr = ESP_ERR_NVS_NEW_VERSION_FOUND
          then Option.bind (error_check (nvs_flash_erase F w1)) (\<lambda>w2. error_check (nvs_flash_init F w2))
          else error_check (nerr, w1))"

text \<open>The start goes on only with storage that was initialised, and erases only what could not be read.\<close>

lemma nvs_up_initialised:
  assumes "nvs_up F w = Some w'"
  shows "\<exists>w0. nvs_flash_init F w0 = (ESP_OK, w') \<and>
    (w0 = w \<or> fst (nvs_flash_init F w) \<in> {ESP_ERR_NVS_NO_FREE_PAGES, ESP_ERR_NVS_NEW_VERSION_FOUND} \<and>
       nvs_flash_erase F (snd (nvs_flash_init F w)) = (ESP_OK, w0))"
proof -
  obtain e w1 where i: "nvs_flash_init F w = (e, w1)" by force
  show ?thesis
  proof (cases "e = ESP_ERR_NVS_NO_FREE_PAGES \<or> e = ESP_ERR_NVS_NEW_VERSION_FOUND")
    case True
    obtain e2 w2 where r: "nvs_flash_erase F w1 = (e2, w2)" by force
    obtain e3 w3 where j: "nvs_flash_init F w2 = (e3, w3)" by force
    have "e2 = ESP_OK" "e3 = ESP_OK" "w3 = w'"
      using assms True by (auto simp: nvs_up_def i r j error_check_def split: if_splits)
    then show ?thesis using True i r j by (intro exI [of _ w2]) auto
  next
    case False
    then have "e = ESP_OK" "w1 = w'" using assms by (auto simp: nvs_up_def i error_check_def split: if_splits)
    then show ?thesis using i by auto
  qed
qed

subsection \<open>Probation and recovery\<close>

datatype ota_img_state =
  ESP_OTA_IMG_NEW | ESP_OTA_IMG_PENDING_VERIFY | ESP_OTA_IMG_VALID | ESP_OTA_IMG_INVALID | ESP_OTA_IMG_ABORTED
| ESP_OTA_IMG_UNDEFINED

text \<open>
  \<open>ap_state\<close> is the running partition (if any) and what is stored about it, \<open>ap_set_factory\<close> selects the factory
  partition for the next start, \<open>None\<close> if there is none.
\<close>

record 'w app_api =
  ap_running :: "'w \<Rightarrow> bool"
  ap_state :: "'w \<Rightarrow> esp_err \<times> ota_img_state"
  ap_mark_valid :: "'w \<Rightarrow> esp_err \<times> 'w"
  ap_set_factory :: "'w \<Rightarrow> (esp_err \<times> 'w) option"
  ap_restart :: "'w \<Rightarrow> 'w"

definition tulx_confirm_running :: "'w app_api \<Rightarrow> 'w \<Rightarrow> bool" where
  "tulx_confirm_running P w \<longleftrightarrow>
     \<not> (\<not> ap_running P w \<or> fst (ap_state P w) \<noteq> ESP_OK \<or> snd (ap_state P w) \<noteq> ESP_OTA_IMG_PENDING_VERIFY)"

text \<open>The task a start on probation creates, after its 60 seconds.\<close>

definition confirm_task :: "'w app_api \<Rightarrow> 'w \<Rightarrow> 'w" where
  "confirm_task P w = snd (ap_mark_valid P w)"

definition tulx_enter_recovery :: "'w app_api \<Rightarrow> 'w \<Rightarrow> 'w" where
  "tulx_enter_recovery P w =
     (case ap_set_factory P w of
        None \<Rightarrow> w
      | Some (e, w1) \<Rightarrow> if e \<noteq> ESP_OK then w1 else ap_restart P w1)"

text \<open>The two selections of a partition layout: what is stored about the running image, and what starts next.\<close>

datatype next_boot = BootApp | BootRecovery

record slots =
  sl_state :: ota_img_state
  sl_next :: next_boot
  sl_factory :: bool
  sl_restarts :: nat

definition slots_api :: "slots app_api" where
  "slots_api =
     \<lparr>ap_running = (\<lambda>_. True), ap_state = (\<lambda>w. (ESP_OK, sl_state w)),
      ap_mark_valid = (\<lambda>w. (ESP_OK, if sl_state w = ESP_OTA_IMG_PENDING_VERIFY then w\<lparr>sl_state := ESP_OTA_IMG_VALID\<rparr> else w)),
      ap_set_factory = (\<lambda>w. if sl_factory w then Some (ESP_OK, w\<lparr>sl_next := BootRecovery\<rparr>) else None),
      ap_restart = (\<lambda>w. w\<lparr>sl_restarts := Suc (sl_restarts w)\<rparr>)\<rparr>"

lemma tulx_probation_ends:
  "tulx_confirm_running slots_api w \<Longrightarrow> sl_state (confirm_task slots_api w) = ESP_OTA_IMG_VALID"
  by (simp add: tulx_confirm_running_def confirm_task_def slots_api_def)

lemma tulx_recovery_only:
  "sl_restarts (tulx_enter_recovery slots_api w) \<noteq> sl_restarts w \<longleftrightarrow> sl_factory w"
  "sl_factory w \<Longrightarrow> sl_next (tulx_enter_recovery slots_api w) = BootRecovery"
  by (auto simp: tulx_enter_recovery_def slots_api_def)

subsection \<open>The short host name\<close>

record short_alias =
  s_alias_added :: bool
  s_alias_ip :: u32

record 'w mdns_api =
  mdns_delegate_hostname_add :: "u32 \<Rightarrow> 'w \<Rightarrow> esp_err \<times> 'w"
  mdns_delegate_hostname_set_address :: "u32 \<Rightarrow> 'w \<Rightarrow> esp_err \<times> 'w"

text \<open>\<open>info\<close> is the interface of the station and the answer of its address query.\<close>

definition sta_ipv4 :: "(esp_err \<times> u32) option \<Rightarrow> u32" where
  "sta_ipv4 info = (case info of None \<Rightarrow> 0 | Some (e, a) \<Rightarrow> if e \<noteq> ESP_OK then 0 else a)"

definition update_short_alias ::
  "'w mdns_api \<Rightarrow> (esp_err \<times> u32) option \<Rightarrow> short_alias \<times> 'w \<Rightarrow> short_alias \<times> 'w" where
  "update_short_alias M info sw =
     (case sw of (s, w) \<Rightarrow>
        let ip = sta_ipv4 info
        in if ip = 0 then (s, w)
           else if s_alias_added s \<and> ip = s_alias_ip s then (s, w)
           else if \<not> s_alias_added s
           then (case mdns_delegate_hostname_add M ip w of
             (err, w1) \<Rightarrow> (if err = ESP_OK then \<lparr>s_alias_added = True, s_alias_ip = ip\<rparr> else s, w1))
           else (case mdns_delegate_hostname_set_address M ip w of
             (err, w1) \<Rightarrow> (if err = ESP_OK then s\<lparr>s_alias_ip := ip\<rparr> else s, w1)))"

definition alias_zero :: short_alias where "alias_zero = \<lparr>s_alias_added = False, s_alias_ip = 0\<rparr>"

text \<open>What the responder publishes for the name changes with the calls that succeed and with no others.\<close>

locale responder =
  fixes M :: "'w mdns_api" and published :: "'w \<Rightarrow> u32 option"
  assumes add_ok: "fst (mdns_delegate_hostname_add M a w) = ESP_OK
      \<Longrightarrow> published (snd (mdns_delegate_hostname_add M a w)) = Some a"
    and set_ok: "fst (mdns_delegate_hostname_set_address M a w) = ESP_OK
      \<Longrightarrow> published (snd (mdns_delegate_hostname_set_address M a w)) = Some a"
    and add_fail: "fst (mdns_delegate_hostname_add M a w) \<noteq> ESP_OK
      \<Longrightarrow> published (snd (mdns_delegate_hostname_add M a w)) = published w"
    and set_fail: "fst (mdns_delegate_hostname_set_address M a w) \<noteq> ESP_OK
      \<Longrightarrow> published (snd (mdns_delegate_hostname_set_address M a w)) = published w"
begin

definition tracks :: "short_alias \<times> 'w \<Rightarrow> bool" where
  "tracks sw \<longleftrightarrow> published (snd sw) = (if s_alias_added (fst sw) then Some (s_alias_ip (fst sw)) else None)"

lemma tracks_update: "tracks sw \<Longrightarrow> tracks (update_short_alias M info sw)"
  using add_ok [of "sta_ipv4 info" "snd sw"] add_fail [of "sta_ipv4 info" "snd sw"]
    set_ok [of "sta_ipv4 info" "snd sw"] set_fail [of "sta_ipv4 info" "snd sw"]
  by (auto simp: tracks_def update_short_alias_def Let_def split: prod.splits)

lemma tracks_run: "tracks sw \<Longrightarrow> tracks (fold (update_short_alias M) infos sw)"
  by (induction infos arbitrary: sw) (simp_all add: tracks_update)

end

text \<open>A responder that keeps one address and fails as often as it is told.\<close>

definition one_name :: "(u32 option \<times> bool list) mdns_api" where
  "one_name =
     (let put = (\<lambda>a (n, fs). case fs of
            [] \<Rightarrow> (ESP_OK, (Some a, [])) | f # fs \<Rightarrow> if f then (ESP_FAIL, (n, fs)) else (ESP_OK, (Some a, fs)))
      in \<lparr>mdns_delegate_hostname_add = put, mdns_delegate_hostname_set_address = put\<rparr>)"

interpretation one: responder one_name fst
  by unfold_locales (auto simp: one_name_def Let_def split: list.splits if_splits)

text \<open>
  The published address is the recorded one after any refreshes, and a refresh with an address whose call is
  taken publishes that address: a failed call is repeated by the next refresh.
\<close>

lemma alias_current:
  assumes "fold (update_short_alias one_name) infos (alias_zero, None, fs) = (s, n, fs')"
    and "sta_ipv4 info \<noteq> 0" and "fs' = [] \<or> \<not> fs' ! 0"
  shows "fst (snd (update_short_alias one_name info (s, n, fs'))) = Some (sta_ipv4 info)"
proof -
  have "one.tracks (alias_zero, None, fs)" by (simp add: one.tracks_def alias_zero_def)
  then have t: "one.tracks (s, n, fs')"
    using one.tracks_run [of "(alias_zero, None, fs)" infos] assms(1) by simp
  show ?thesis
  proof (cases fs')
    case Nil
    then show ?thesis
      using assms(2) t by (auto simp: one.tracks_def update_short_alias_def one_name_def Let_def)
  next
    case (Cons f fs1)
    then show ?thesis
      using assms(2,3) t by (auto simp: one.tracks_def update_short_alias_def one_name_def Let_def)
  qed
qed

end
