(* ===== verification/Pipe.thy ===== *)
theory Pipe
  imports WebActions SinkTcp "HOL-Library.Sublist"
begin

text \<open>
  The pipe \<^verbatim>\<open>app_main\<close> builds: one source, the bridge, and the TCP sink.  What the clients send reaches the
  source, and what the source sends reaches the clients, over all the code in between.
\<close>

subsection \<open>Building the pipe\<close>

text \<open>The bridge and the sink after the start; the source has address 0 and the sink number 0.\<close>

definition pipe_bridge :: bridge where
  "pipe_bridge = snd (bridge_attach_sink (Some 0) (Some ''rawtcp'') (bridge_attach_source (Some 0) bridge_init))"

definition pipe_sink :: "'w nvs_api \<Rightarrow> 'w \<Rightarrow> sink" where
  "pipe_sink N w = sink_tcp_init (tcp_port (config_load N w))"

text \<open>The operation table \<^verbatim>\<open>s_ops\<close> of the sink.\<close>

definition tcp_describe :: "sink \<Rightarrow> string" where
  "tcp_describe S = fmt_s 48 (''raw-TCP :'' @ dec (unat (port S)) @ '' ('' @ sdec (active_clients (tcp_stats S)) @ ''/'' @
     dec SINK_TCP_MAX_CLIENTS @ '' clients)'')"

definition tcp_ops :: "'w tcp_env \<Rightarrow> int \<Rightarrow> (sink \<times> 'w) sink_ops" where
  "tcp_ops K now =
     \<lparr>sk_on_source_rx = Some (on_rx K now), sk_start = Some (\<lambda>sw. (ESP_OK, sw)), sk_stop = None,
      sk_on_source_down = Some (on_source_down K), sk_describe = Some (\<lambda>sw. tcp_describe (fst sw))\<rparr>"

text \<open>The world of the codec is the bridge with the source's world, next to the sockets.\<close>

definition gate_env ::
  "'k tcp_env \<Rightarrow> 'v br_env \<Rightarrow> int \<Rightarrow> nat option \<Rightarrow> ((bridge \<times> 'v) \<times> 'k) tcp_env" where
  "gate_env K B now who =
     \<lparr>sk_send = (\<lambda>fd d w. apsnd (Pair (fst w)) (sk_send K fd d (snd w))),
      sk_shutdown = (\<lambda>fd. apsnd (sk_shutdown K fd)), sk_close = (\<lambda>fd. apsnd (sk_close K fd)),
      sk_delay = apsnd (sk_delay K),
      br_tx = (\<lambda>d w. apsnd (\<lambda>bv. (bv, snd w)) (bridge_tx_to_source B now now who d (fst w))),
      br_apply = (\<lambda>l w. apsnd (\<lambda>bv. (bv, snd w)) (bridge_apply_line_coding B l (fst w))),
      br_revert = apfst (bridge_revert_line_coding B),
      br_get = (\<lambda>old w. bridge_get_line_coding B old (fst w)),
      br_ready = (\<lambda>w. source_ready (bridge_src_ops B (fst (fst w))) (snd (fst w)))\<rparr>"

subsection \<open>Invariants of the world below the codec\<close>

lemma tn_send_loop_keeps:
  "P w \<Longrightarrow> (\<And>fd d w. P w \<Longrightarrow> P (snd (sk_send E fd d w))) \<Longrightarrow> (\<And>fd w. P w \<Longrightarrow> P (sk_shutdown E fd w)) \<Longrightarrow>
   (\<And>w. P w \<Longrightarrow> P (sk_delay E w)) \<Longrightarrow> P (tn_send_loop E fd bs n w)"
proof (induction E fd bs n w rule: tn_send_loop.induct)
  case (1 E fd bs n w)
  obtain r w1 where s: "sk_send E fd bs w = (r, w1)" by (metis surj_pair)
  have w1: "P w1" using 1(4) [OF 1(3), of fd bs] s by simp
  show ?case
  proof (cases "bs = []")
    case True
    then show ?thesis using 1(3) by (simp add: tn_send_loop.simps)
  next
    case False
    show ?thesis
    proof (cases r)
      case (Sent m)
      then show ?thesis
        using 1(1) [OF False s [symmetric] Sent _ w1 1(4) 1(5) 1(6)] 1(5) [OF w1] False
        by (simp add: tn_send_loop.simps [of E fd bs n] s)
    next
      case SendAgain
      then show ?thesis
        using 1(2) [OF False s [symmetric] SendAgain _ 1(6) [OF w1] 1(4) 1(5) 1(6)] 1(5) [OF w1] False
        by (simp add: tn_send_loop.simps [of E fd bs n] s)
    next
      case SendErr
      then show ?thesis using 1(5) [OF w1] False by (simp add: tn_send_loop.simps [of E fd bs n] s)
    qed
  qed
qed

text \<open>What every operation of the environment keeps, the codec keeps.\<close>

locale codec_world =
  fixes E :: "'w tcp_env" and P :: "'w \<Rightarrow> bool"
  assumes keep_send: "P w \<Longrightarrow> P (snd (sk_send E fd d w))"
    and keep_shutdown: "P w \<Longrightarrow> P (sk_shutdown E fd w)"
    and keep_delay: "P w \<Longrightarrow> P (sk_delay E w)"
    and keep_tx: "P w \<Longrightarrow> P (snd (br_tx E d w))"
    and keep_apply: "P w \<Longrightarrow> P (snd (br_apply E l w))"
begin

lemma keep_tn_send: "P w \<Longrightarrow> P (tn_send E c bs w)"
  by (simp add: tn_send_def tn_send_loop_keeps keep_send keep_shutdown keep_delay)

lemma keep_to_source: "P (snd sw) \<Longrightarrow> P (snd (to_source E d sw))"
  by (cases sw) (simp add: to_source_def keep_tx)

lemma keep_flush: "P (snd sw) \<Longrightarrow> P (snd (flush_out E d sw))"
  by (simp add: flush_out_def keep_to_source)

lemma keep_put: "P (snd sw) \<Longrightarrow> P (snd (snd (put_out E b (out, sw))))"
  by (simp add: put_out_def Let_def keep_to_source)

lemma keep_negotiate: "P (snd sw) \<Longrightarrow> P (snd (tn_negotiate E i cmd opt sw))"
  by (cases sw) (simp add: tn_negotiate_def Let_def keep_tn_send split: option.split)

lemma keep_subneg: "P (snd sw) \<Longrightarrow> P (snd (tn_subneg E i sw))"
proof -
  assume P: "P (snd sw)"
  have "P (snd (cpo_set E c cur req w))" if "P w" for c cur req w
  proof (cases req)
    case (Some l)
    then show ?thesis
      using keep_apply [OF that, of l] that by (cases "br_apply E l w") (simp add: cpo_set_def)
  qed (use that in \<open>simp add: cpo_set_def\<close>)
  then have "P w1" if "cpo_set E c cur req (snd sw) = (l, w1)" for c cur req l w1
    using that P by (metis snd_conv)
  then show ?thesis
    using P by (auto simp: tn_subneg_def Let_def cpo_reply_def keep_tn_send split: prod.splits option.splits)
qed

lemma keep_on_sink: "P (snd sw) \<Longrightarrow> P (snd (on_sink f sw))"
  by (simp add: on_sink_def)

lemma keep_rx_byte: "P (snd sw) \<Longrightarrow> P (snd (snd (snd (rx_byte E i b (out, sw)))))"
  by (cases "tstate (clients (fst sw) i)")
    (simp_all add: rx_byte_def keep_on_sink keep_flush keep_put keep_negotiate keep_subneg)

lemma keep_process_loop: "P (snd (snd os)) \<Longrightarrow> P (snd (process_loop E i bs os))"
proof (induction bs arbitrary: os)
  case Nil
  then show ?case by (cases os) (simp add: process_loop.simps keep_flush)
next
  case (Cons b bs)
  have step: "P (snd (process_loop E i (b # bs) os))"
    if a: "P (snd (snd os))" and n: "\<And>os'. rx_byte E i b os = (True, os') \<Longrightarrow> P (snd (process_loop E i (b # bs) os'))"
    for os
  proof (cases "tstate (clients (fst (snd os)) i) = TS_RAW")
    case True
    then show ?thesis using a by (cases os) (simp add: process_loop.simps keep_to_source keep_flush)
  next
    case False
    obtain r os1 where rb: "rx_byte E i b os = (r, os1)" by (metis surj_pair)
    have P1: "P (snd (snd os1))" using keep_rx_byte [of "snd os" i b "fst os"] a rb by simp
    show ?thesis
    proof (cases r)
      case True
      then show ?thesis using n [of os1] rb False by (cases os) (simp add: process_loop.simps)
    next
      case r: False
      then show ?thesis using Cons.IH [OF P1] rb False by (cases os) (simp add: process_loop.simps)
    qed
  qed
  show ?case
  proof (rule step [OF Cons.prems])
    fix os1 assume r1: "rx_byte E i b os = (True, os1)"
    have "P (snd (snd os1))" using keep_rx_byte [of "snd os" i b "fst os"] Cons.prems r1 by simp
    moreover have "rx_byte E i b os1 \<noteq> (True, os2)" for os2
    proof
      assume r2: "rx_byte E i b os1 = (True, os2)"
      show False
        using rx_byte_again [of E i b "fst os" "snd os" "fst os1" "snd os1"]
          rx_byte_again [of E i b "fst os1" "snd os1" "fst os2" "snd os2"] r1 r2 by simp
    qed
    ultimately show "P (snd (process_loop E i (b # bs) os1))" by (rule step [OF _ notE])
  qed
qed

lemma keep_process_rx: "P (snd sw) \<Longrightarrow> P (snd (process_rx E i buf sw))"
  by (simp add: process_rx_def keep_process_loop)

end

subsection \<open>From the clients to the source\<close>

text \<open>The chunks the clients' tasks receive, in their order: client and bytes.\<close>

fun feed :: "'w tcp_env \<Rightarrow> (nat \<times> u8 list) list \<Rightarrow> sink \<times> 'w \<Rightarrow> sink \<times> 'w" where
  "feed E [] sw = sw"
| "feed E ((i, c) # evs) sw = feed E evs (process_rx E i c sw)"

text \<open>What the chunks carry for the source: each decoded from where its client's stream stands.\<close>

fun merged :: "(nat \<Rightarrow> tstate) \<Rightarrow> (nat \<times> u8 list) list \<Rightarrow> u8 list" where
  "merged t [] = []"
| "merged t ((i, c) # evs) = fst (tn_dec (t i) c) @ merged (t(i := snd (tn_dec (t i) c))) evs"

text \<open>
  \<open>rec\<close> lists the pieces the source's \<^verbatim>\<open>tx\<close> was given and took; a piece it refuses is not in it.
\<close>

definition tx_log :: "'v source_ops option \<Rightarrow> ('v \<Rightarrow> u8 list list) \<Rightarrow> bool" where
  "tx_log A rec \<longleftrightarrow>
     (\<forall>d v. rec (snd (source_tx A d v)) = rec v \<or> rec (snd (source_tx A d v)) = rec v @ [d]) \<and>
     (\<forall>l v. rec (snd (source_set_line_coding A l v)) = rec v)"

text \<open>
  A state from which the source stays there: it is ready, takes what it is given, and neither a transmission nor a
  line coding ends that.
\<close>

definition steady :: "'v source_ops option \<Rightarrow> ('v \<Rightarrow> u8 list list) \<Rightarrow> ('v \<Rightarrow> bool) \<Rightarrow> bool" where
  "steady A rec I \<longleftrightarrow>
     (\<forall>v. I v \<longrightarrow> source_ready A v \<and> (\<forall>l. I (snd (source_set_line_coding A l v))) \<and>
        (\<forall>d. I (snd (source_tx A d v)) \<and>
           (d \<noteq> [] \<longrightarrow> fst (source_tx A d v) = ESP_OK \<and> rec (snd (source_tx A d v)) = rec v @ [d])))"

text \<open>The USB source with an open device whose driver takes what it is given is such a source.\<close>

lemma usb_steady:
  assumes "\<And>d w. fst (cdc_tx D h d w) = ESP_OK \<and> rec (snd (cdc_tx D h d w)) = rec w @ [d]"
  shows "steady (Some (usb_ops D N)) (\<lambda>sw. rec (snd sw)) (\<lambda>sw. us_cdc (fst sw) = Some h \<and> us_ready (fst sw))"
proof -
  have tx: "us_cdc (fst (snd (usb_op_tx D d sw))) = us_cdc (fst sw) \<and> us_ready (fst (snd (usb_op_tx D d sw))) = us_ready (fst sw)"
    for d sw by (auto simp: usb_op_tx_def split: option.split prod.split)
  have lc: "us_cdc (fst (snd (usb_apply_lc D l src sw))) = us_cdc (fst sw) \<and>
      us_ready (fst (snd (usb_apply_lc D l src sw))) = us_ready (fst sw)" for l src sw
    by (auto simp: usb_apply_lc_def split: option.split prod.split)
  have ok: "fst (usb_op_tx D d sw) = ESP_OK \<and> rec (snd (snd (usb_op_tx D d sw))) = rec (snd sw) @ [d]"
    if "d \<noteq> []" "us_cdc (fst sw) = Some h" for d sw
    using assms [of d "snd sw"] that by (cases "cdc_tx D h d (snd sw)") (simp add: usb_op_tx_def)
  show ?thesis
    using tx lc ok by (simp add: steady_def source_ready_def source_tx_def source_set_line_coding_def src_op_def usb_ops_def
        usb_op_set_line_coding_def)
qed

text \<open>The transmit lock is with the sink \<open>s\<close> or free for it.\<close>

definition lock_mine :: "nat \<Rightarrow> nat \<Rightarrow> bridge \<Rightarrow> bool" where
  "lock_mine a s b \<longleftrightarrow> br_source b = Some a \<and> find_sink_idx_locked b s \<ge> 0 \<and>
     (tx_owner_idx b = find_sink_idx_locked b s \<or> tx_owner_idx b < 0 \<and> tx_mode b = BRIDGE_TX_AUTO)"

text \<open>Whatever the bridge answers, the source was given the piece as it is or nothing.\<close>

lemma tx_at_most:
  assumes A: "tx_log (env_source B a) rec" and b: "br_source b = Some a"
    and r: "bridge_tx_to_source B t1 t2 who d (b, v) = (e, (b', v'))"
  shows "br_source b' = Some a \<and> (rec v' = rec v \<or> rec v' = rec v @ [d])"
  using r
proof (cases rule: tx_bridge_cases)
  case (locked s)
  then have "b' = snd (bridge_tx_lock t1 s b)" by simp
  then show ?thesis using b locked(3) by (simp add: bridge_tx_lock_def Let_def)
next
  case (sent a' b2)
  have "br_source b2 = br_source b"
    using sent(2) by (cases who) (auto simp: bridge_tx_lock_def Let_def split: if_splits)
  moreover have "rec v' = rec v \<or> rec v' = rec v @ [d]"
    using A sent(1,3) b by (auto simp: tx_log_def dest!: spec2 [of _ d v])
  ultimately show ?thesis using b sent(4) by (simp add: bridge_tx_done_def)
qed (use b in simp)

lemma tx_passes:
  assumes A: "steady (env_source B a) rec I" "I v" and b: "lock_mine a s b"
    and r: "bridge_tx_to_source B t1 t2 (Some s) d (b, v) = (e, (b', v'))"
  shows "lock_mine a s b' \<and> I v' \<and> (d \<noteq> [] \<longrightarrow> rec v' = rec v @ [d])"
proof -
  have ready: "source_ready (env_source B a) v" using A by (simp add: steady_def)
  obtain e1 v1 where tx: "source_tx (env_source B a) d v = (e1, v1)" "I v1" "d \<noteq> [] \<longrightarrow> e1 = ESP_OK \<and> rec v1 = rec v @ [d]"
    using A by (cases "source_tx (env_source B a) d v") (auto simp: steady_def dest!: spec [of _ v] spec [of _ d])
  obtain b2 where l: "bridge_tx_lock t1 s b = (True, b2)" "b2 = b \<or> b2 = b\<lparr>tx_owner_idx := find_sink_idx_locked b s\<rparr>"
    using b by (cases "tx_mode b") (auto simp: lock_mine_def bridge_tx_lock_def Let_def)
  have "b' = (if e1 = ESP_OK then bridge_tx_done t2 (length d) b2 else b2)" "v' = v1"
    using r b ready tx l by (auto simp: bridge_tx_to_source_def bridge_tx_snapshot_def lock_mine_def)
  then show ?thesis
    using b l(2) tx(2,3) by (auto simp: lock_mine_def bridge_tx_done_def find_sink_idx_locked_def)
qed

text \<open>
  The invariant: the source was given pieces the codec has handed to the bridge, and from a steady start all of them
  that are not empty.
\<close>

record 'v piping =
  pp_rec :: "'v \<Rightarrow> u8 list list"
  pp_inv :: "'v \<Rightarrow> bool"
  pp_start :: "u8 list list"
  pp_clear :: bool

definition piped :: "'v source_ops option \<Rightarrow> nat \<Rightarrow> nat \<Rightarrow> 'v piping \<Rightarrow>
   (((bridge \<times> 'v) \<times> 'k) \<times> u8 list list) \<Rightarrow> bool" where
  "piped A a s p w \<longleftrightarrow>
     (tx_log A (pp_rec p) \<longrightarrow>
        br_source (fst (fst (fst w))) = Some a \<and>
        (\<exists>qs. pp_rec p (snd (fst (fst w))) = pp_start p @ qs \<and> subseq qs (snd w) \<and>
          (pp_clear p \<and> steady A (pp_rec p) (pp_inv p) \<longrightarrow>
             lock_mine a s (fst (fst (fst w))) \<and> pp_inv p (snd (fst (fst w))) \<and> concat qs = concat (snd w))))"

lemma piped_tx:
  assumes "piped (env_source B a) a s p w"
  shows "piped (env_source B a) a s p (snd (br_tx (traced (gate_env K B now (Some s))) d w))"
proof -
  obtain b v k l where w: "w = (((b, v), k), l)" by (metis surj_pair)
  obtain e b' v' where r: "bridge_tx_to_source B now now (Some s) d (b, v) = (e, (b', v'))" by (metis surj_pair)
  have x: "snd (br_tx (traced (gate_env K B now (Some s))) d w) = (((b', v'), k), l @ [d])"
    by (simp add: w traced_def gate_env_def r)
  show ?thesis
  proof (unfold x piped_def fst_conv snd_conv, rule impI)
    assume A: "tx_log (env_source B a) (pp_rec p)"
    obtain qs where q: "br_source b = Some a" "pp_rec p v = pp_start p @ qs" "subseq qs l"
      "pp_clear p \<and> steady (env_source B a) (pp_rec p) (pp_inv p) \<longrightarrow> lock_mine a s b \<and> pp_inv p v \<and> concat qs = concat l"
      using assms A by (auto simp: piped_def w)
    note m = tx_at_most [OF A q(1) r]
    note p = tx_passes [where rec = "pp_rec p" and I = "pp_inv p", OF _ _ _ r]
    define qs' where "qs' = (if pp_rec p v' = pp_rec p v then qs else qs @ [d])"
    have "pp_rec p v' = pp_start p @ qs'" "subseq qs' (l @ [d])"
      using m q(2,3) by (auto simp: qs'_def subseq_append_iff list_emb_append2)
    moreover have "lock_mine a s b' \<and> pp_inv p v' \<and> concat qs' = concat (l @ [d])"
      if "pp_clear p \<and> steady (env_source B a) (pp_rec p) (pp_inv p)"
      using p q(4) that by (cases "d = []") (auto simp: qs'_def)
    ultimately show "br_source b' = Some a \<and> (\<exists>qs. pp_rec p v' = pp_start p @ qs \<and> subseq qs (l @ [d]) \<and>
        (pp_clear p \<and> steady (env_source B a) (pp_rec p) (pp_inv p) \<longrightarrow>
          lock_mine a s b' \<and> pp_inv p v' \<and> concat qs = concat (l @ [d])))"
      using m by blast
  qed
qed

lemma piped_apply:
  assumes "piped (env_source B a) a s p w"
  shows "piped (env_source B a) a s p (snd (br_apply (traced (gate_env K B now (Some s))) l w))"
proof -
  obtain b v k t where w: "w = (((b, v), k), t)" by (metis surj_pair)
  obtain e v' where r: "source_set_line_coding (env_source B a) l v = (e, v')" by force
  have "pp_rec p v' = pp_rec p v" if "tx_log (env_source B a) (pp_rec p)"
    using that r by (auto simp: tx_log_def dest: spec2 [of _ l v])
  moreover have "pp_inv p v'" if "steady (env_source B a) (pp_rec p) (pp_inv p)" "pp_inv p v"
    using that r by (auto simp: steady_def dest!: spec [of _ v] spec [of _ l])
  ultimately show ?thesis
    using assms by (auto simp: w piped_def traced_def lift_log_def gate_env_def bridge_apply_line_coding_def r)
qed

interpretation pipe: codec_world "traced (gate_env K B now (Some s))" "piped (env_source B a) a s p"
  for K :: "'k tcp_env" and B :: "'v br_env" and now s a p
proof (unfold_locales, goal_cases)
  case (1 w fd d)
  then show ?case
    by (cases "sk_send K fd d (snd (fst w))") (simp add: piped_def traced_def lift_log_def gate_env_def)
next
  case (2 w fd)
  then show ?case by (simp add: piped_def traced_def gate_env_def)
next
  case (3 w)
  then show ?case by (simp add: piped_def traced_def gate_env_def)
next
  case (4 w d)
  then show ?case by (rule piped_tx)
next
  case (5 w l)
  then show ?case by (rule piped_apply)
qed

lemma feed_erase: "erase (feed (traced E) evs sw) = feed E evs (erase sw)"
proof (induction evs arbitrary: sw)
  case (Cons ev evs)
  obtain i c where ev: "ev = (i, c)" by force
  have "erase (process_rx (traced E) i c sw) = process_rx E i c (erase sw)"
    using process_rx_fold [of E i "[c]" sw] by simp
  then show ?case by (simp add: ev Cons.IH)
qed simp

lemma feed_merged:
  assumes "\<forall>i. client_ok (clients (fst sw) i)"
  shows "concat (tlog (feed (traced E) evs sw)) =
    concat (tlog sw) @ merged (\<lambda>i. tstate (clients (fst sw) i)) evs"
  using assms
proof (induction evs arbitrary: sw)
  case (Cons ev evs)
  obtain i c where ev: "ev = (i, c)" by force
  let ?sw = "process_rx (traced E) i c sw"
  have rel: "task_rel i (fst sw) (fst ?sw)" using Cons.prems by (intro process_rx_rel) simp
  have ok: "client_ok (clients (fst ?sw) j)" for j
    using rel Cons.prems by (cases "j = i") (simp_all add: task_rel_def)
  have f: "concat (tlog ?sw) = concat (tlog sw) @ fst (tn_dec (tstate (clients (fst sw) i)) c)"
    "tstate (clients (fst ?sw) i) = snd (tn_dec (tstate (clients (fst sw) i)) c)"
    using process_rx_fold [of E i "[c]" sw] by simp_all
  have "(\<lambda>j. tstate (clients (fst ?sw) j)) =
      (\<lambda>j. tstate (clients (fst sw) j))(i := snd (tn_dec (tstate (clients (fst sw) i)) c))"
    using rel f(2) by (auto simp: task_rel_def fun_eq_iff)
  then show ?case using Cons.IH [of ?sw] ok by (simp add: ev f(1))
qed simp

lemma feed_piped:
  "piped (env_source B a) a s p (snd sw) \<Longrightarrow>
   piped (env_source B a) a s p (snd (feed (traced (gate_env K B now (Some s))) evs sw))"
proof (induction evs arbitrary: sw)
  case (Cons ev evs)
  then show ?case by (cases ev) (simp add: pipe.keep_process_rx)
qed simp

text \<open>
  C2: what the clients send arrives at the source: over codec, bridge and transmit lock, from any clients in the coherent
  state that every call keeps, the attached source is only ever given
  pieces of the clients' payload, decoded from where each stream stands and in the order in which the chunks were
  received, unchanged, each at most once and in that order, whatever the source answers, however the streams are cut
  into chunks and however the clients alternate.  While the source stays ready and takes what it is given, and the
  transmit lock is free or with the TCP sink, nothing is left out: it is given exactly the payload.
\<close>

theorem uplink_exact:
  assumes "tx_log (env_source B a) rec" and "br_source b = Some a" and "\<forall>i. client_ok (clients S i)"
    and run: "feed (gate_env K B now (Some s)) evs (S, ((b, v), k)) = (S', ((b', v'), k'))"
  shows "\<exists>pieces given. concat pieces = merged (\<lambda>i. tstate (clients S i)) evs \<and>
    rec v' = rec v @ given \<and> subseq given pieces \<and>
    (steady (env_source B a) rec I \<and> I v \<and> lock_mine a s b \<longrightarrow>
       concat given = merged (\<lambda>i. tstate (clients S i)) evs \<and> I v' \<and> lock_mine a s b')"
proof -
  let ?r = "feed (traced (gate_env K B now (Some s))) evs (S, (((b, v), k), []))"
  let ?p = "\<lparr>pp_rec = rec, pp_inv = I, pp_start = rec v, pp_clear = (I v \<and> lock_mine a s b)\<rparr>"
  have e: "erase ?r = (S', ((b', v'), k'))" using feed_erase [of _ evs "(S, (((b, v), k), []))"] run by (simp add: erase_def)
  have m: "concat (tlog ?r) = merged (\<lambda>i. tstate (clients S i)) evs"
    using feed_merged [of "(S, (((b, v), k), []))"] assms(3) by (simp add: tlog_def)
  have "piped (env_source B a) a s ?p (snd (S, (((b, v), k), [])))"
    using assms(2) by (simp add: piped_def)
  then have p: "piped (env_source B a) a s ?p (snd ?r)" by (rule feed_piped)
  obtain l where r: "?r = (S', (((b', v'), k'), l))" using e by (cases ?r) (auto simp: erase_def)
  obtain qs where "rec v' = rec v @ qs" "subseq qs l"
    "I v \<and> lock_mine a s b \<and> steady (env_source B a) rec I \<longrightarrow> lock_mine a s b' \<and> I v' \<and> concat qs = concat l"
    using p assms(1) unfolding r piped_def by auto
  moreover have "concat l = merged (\<lambda>i. tstate (clients S i)) evs" using m unfolding r by (simp add: tlog_def)
  ultimately show ?thesis by auto
qed

text \<open>Two clients, one raw and one telnet, whose chunks alternate; the second is cut inside an escape.\<close>

definition two_clients :: sink where
  "two_clients = upd_client 0 (\<lambda>c. c\<lparr>sock := 5, active := True\<rparr>)
     (upd_client 1 (\<lambda>c. c\<lparr>sock := 6, active := True\<rparr>) (pipe_sink nvs_none ()))"

lemma pipe_lock: "lock_mine 0 0 pipe_bridge"
  by (simp add: lock_mine_def pipe_bridge_def bridge_attach_sink_def bridge_attach_source_def bridge_init_def
      find_sink_idx_locked_def Let_def BRIDGE_MAX_SINKS_def)

text \<open>The USB source with an open device, its driver keeping what it is given.\<close>

definition open_usb :: usb_state where
  "open_usb = (stick_publish 0x0403 0x6001 0 FTDI True (y_S (source_usb_init ())))\<lparr>us_ready := True\<rparr>"

definition usb_env :: "(usb_state \<times> u8 list list) br_env" where
  "usb_env = \<lparr>env_source = (\<lambda>a. Some (usb_ops
       \<lparr>cdc_open = (\<lambda>k v p w. ((ESP_OK, 0), w)), cdc_lc_set = (\<lambda>h l w. (ESP_OK, w)), cdc_ctrl_lines = (\<lambda>h w. (ESP_OK, w)),
        cdc_tx = (\<lambda>h d w. (ESP_OK, w @ [d])), cdc_close = (\<lambda>h w. w)\<rparr> nvs_none)),
     env_sink = (\<lambda>s. None)\<rparr>"

lemma usb_env_steady:
  "steady (env_source usb_env a) (\<lambda>sw. snd sw) (\<lambda>sw. us_cdc (fst sw) = Some 0 \<and> us_ready (fst sw))"
  unfolding usb_env_def br_env.simps by (rule usb_steady [of _ 0 "\<lambda>w. w"]) simp

lemma usb_env_log: "tx_log (env_source usb_env a) (\<lambda>sw. snd sw)"
  by (auto simp: tx_log_def usb_env_def source_tx_def source_set_line_coding_def src_op_def usb_ops_def usb_op_tx_def
      usb_op_set_line_coding_def usb_apply_lc_def split: option.split)

lemma two_clients_ok: "client_ok (clients two_clients i)" "tstate (clients two_clients i) = TS_SNIFF"
  by (simp_all add: two_clients_def pipe_sink_def sink_tcp_init_def client_ok_def)

lemma uplink_exact_witness:
  "\<exists>S' b' v' k'. feed (gate_env echo_env usb_env 0 (Some 0)) [(0, [1, 2]), (1, [255]), (0, [255]), (1, [255, 7])]
      (two_clients, ((pipe_bridge, (open_usb, [])), ())) = (S', ((b', v'), k')) \<and> concat (snd v') = [1, 2, 255, 255, 7]"
proof -
  obtain S' b' v' k' where r: "feed (gate_env echo_env usb_env 0 (Some 0))
      [(0, [1, 2]), (1, [255]), (0, [255]), (1, [255, 7])] (two_clients, ((pipe_bridge, (open_usb, [])), ())) = (S', ((b', v'), k'))"
    by (metis surj_pair)
  have m: "merged (\<lambda>i. tstate (clients two_clients i)) [(0, [1, 2]), (1, [255]), (0, [255]), (1, [255, 7])] =
      [1, 2, 255, 255, 7]"
    by (simp add: two_clients_ok)
  have "us_cdc open_usb = Some 0 \<and> us_ready open_usb" by (simp add: open_usb_def stick_publish_def)
  moreover have "br_source pipe_bridge = Some 0" using pipe_lock by (simp add: lock_mine_def)
  ultimately show ?thesis
    using uplink_exact [OF usb_env_log _ _ r, of 0 "\<lambda>sw. us_cdc (fst sw) = Some 0 \<and> us_ready (fst sw)"]
      usb_env_steady [of 0] pipe_lock two_clients_ok m r by auto
qed

subsection \<open>From the source to the clients\<close>

definition sent_to :: "int \<Rightarrow> (int \<times> u8 list) list \<Rightarrow> u8 list" where
  "sent_to fd l = concat (map snd (filter (\<lambda>p. fst p = fd) l))"

text \<open>What one client is sent for the bytes \<open>d\<close>.\<close>

definition framed :: "tcp_client \<Rightarrow> u8 list \<Rightarrow> u8 list" where
  "framed c d = (if telnet c then tn_escape d else d)"

lemma sent_to_append: "sent_to fd (l @ l') = sent_to fd l @ sent_to fd l'"
  by (simp add: sent_to_def)

lemma sent_to_other: "sent_to fd (map (Pair fd') cs) = (if fd' = fd then concat cs else [])"
  by (simp add: sent_to_def comp_def filter_map)

lemma framed_append: "framed c (d @ e) = framed c d @ framed c e"
  by (simp add: framed_def tn_escape_def)

text \<open>A socket that takes what it is given, whatever the others do.\<close>

definition sends_on :: "'w tcp_env \<Rightarrow> int \<Rightarrow> bool" where
  "sends_on K fd \<longleftrightarrow> (\<forall>d w. fst (sk_send K fd d w) = Sent (length d))"

lemma send_counted_got:
  "\<exists>g. sent_to fd (tlog (snd (send_counted (recording K) fd' d sw))) = sent_to fd (tlog sw) @ (if fd' = fd then g else []) \<and>
     prefix g d \<and> (sends_on K fd' \<longrightarrow> g = d \<and> fst (send_counted (recording K) fd' d sw))"
proof -
  obtain S w l where sw: "sw = (S, (w, l))" by (metis surj_pair)
  obtain r w1 where r: "sk_send K fd' d w = (r, w1)" by fastforce
  have on: "sends_on K fd' \<Longrightarrow> r = Sent (length d)" using r by (metis sends_on_def fst_conv)
  show ?thesis
  proof (cases r)
    case (Sent n)
    then show ?thesis
      using on by (intro exI [of _ "take n d"])
        (auto simp: sw send_counted_def recording_def tlog_def r sent_to_def take_is_prefix)
  qed (use on in \<open>auto simp: sw send_counted_def recording_def tlog_def r intro!: exI [of _ "[]"]\<close>)
qed

lemma esc_loop_got:
  "\<exists>g. sent_to fd (tlog (esc_loop (recording K) fd' bs esc sw)) = sent_to fd (tlog sw) @ (if fd' = fd then g else []) \<and>
     subseq g (esc @ tn_escape bs) \<and> (sends_on K fd' \<longrightarrow> g = esc @ tn_escape bs)"
proof (induction bs arbitrary: esc sw)
  case Nil
  obtain g where "sent_to fd (tlog (snd (send_counted (recording K) fd' esc sw))) = sent_to fd (tlog sw) @ (if fd' = fd then g else [])"
    "prefix g esc" "sends_on K fd' \<longrightarrow> g = esc" using send_counted_got by blast
  then show ?case
    by (cases "esc = []") (auto simp: tn_escape_def intro: prefix_imp_subseq)
next
  case (Cons b bs)
  have e: "tn_escape (b # bs) = esc_byte b @ tn_escape bs" by (simp add: tn_escape_def)
  show ?case
  proof (cases "length esc + 2 > ESC_SIZE")
    case False
    then show ?thesis using Cons.IH [of "esc @ esc_byte b" sw] by (simp add: e)
  next
    case True
    obtain ok sw1 where c: "send_counted (recording K) fd' esc sw = (ok, sw1)" by (metis surj_pair)
    obtain g where g: "sent_to fd (tlog sw1) = sent_to fd (tlog sw) @ (if fd' = fd then g else [])"
      "prefix g esc" "sends_on K fd' \<longrightarrow> g = esc \<and> ok" using send_counted_got [of fd K fd' esc sw] c by auto
    obtain h where h: "sent_to fd (tlog (esc_loop (recording K) fd' bs (esc_byte b) sw1)) =
        sent_to fd (tlog sw1) @ (if fd' = fd then h else [])"
      "subseq h (esc_byte b @ tn_escape bs)" "sends_on K fd' \<longrightarrow> h = esc_byte b @ tn_escape bs"
      using Cons.IH [of "esc_byte b" sw1] by blast
    show ?thesis
    proof (cases ok)
      case go: True
      have "subseq (g @ h) (esc @ esc_byte b @ tn_escape bs)"
        using g(2) h(2) by (auto intro: list_emb_append_mono prefix_imp_subseq)
      then show ?thesis using True go c g h by (intro exI [of _ "g @ h"]) (simp add: e)
    next
      case False
      have "subseq g (esc @ esc_byte b @ tn_escape bs)"
        using g(2) by (auto intro: subseq_order.trans [of _ esc] prefix_imp_subseq)
      then show ?thesis using True False c g by (intro exI [of _ g]) (simp add: e)
    qed
  qed
qed

text \<open>What one delivery leaves at a socket: all of it, or what a short write leaves of it.\<close>

definition got_of :: "'w tcp_env \<Rightarrow> tcp_client \<Rightarrow> u8 list \<Rightarrow> u8 list \<Rightarrow> bool" where
  "got_of K c d g \<longleftrightarrow>
     (if telnet c then subseq g (framed c d) else prefix g d) \<and> (sends_on K (sock c) \<longrightarrow> g = framed c d)"

lemma client_send_got:
  "\<exists>g. sent_to fd (tlog (client_send (recording K) i d sw)) =
     sent_to fd (tlog sw) @ (if sock (clients (fst sw) i) = fd then g else []) \<and> got_of K (clients (fst sw) i) d g"
  using send_counted_got [of fd K "sock (clients (fst sw) i)" d sw]
    esc_loop_got [of fd K "sock (clients (fst sw) i)" d "[]" sw]
  by (auto simp: client_send_def got_of_def framed_def Let_def)

lemma fan_loop_got:
  assumes i: "live (fst sw) i"
    and alone: "\<forall>j\<in>set is. live (fst sw) j \<and> sock (clients (fst sw) j) = sock (clients (fst sw) i) \<longrightarrow> j = i"
    and "distinct is"
  shows "\<exists>g. sent_to (sock (clients (fst sw) i)) (tlog (snd (fan_loop (recording K) d is n sw))) =
    sent_to (sock (clients (fst sw) i)) (tlog sw) @ g \<and>
    (if i \<in> set is then got_of K (clients (fst sw) i) d g else g = [])"
  using assms
proof (induction "is" arbitrary: n sw)
  case (Cons j js)
  let ?fd = "sock (clients (fst sw) i)"
  show ?case
  proof (cases "live (fst sw) j")
    case False
    then have "j \<noteq> i" using Cons.prems by auto
    then show ?thesis using False Cons by auto
  next
    case True
    let ?sw = "client_send (recording K) j d sw"
    have c: "clients (fst ?sw) = clients (fst sw)"
      using client_send_same [of sw "recording K" j d] by (simp add: same_but_counts_def)
    have l: "live (fst ?sw) = live (fst sw)" by (simp add: live_def fun_eq_iff c)
    obtain g where g: "sent_to ?fd (tlog (snd (fan_loop (recording K) d js (n + 1) ?sw))) = sent_to ?fd (tlog ?sw) @ g"
      "if i \<in> set js then got_of K (clients (fst sw) i) d g else g = []"
      using Cons.IH [of ?sw "n + 1", unfolded c l] Cons.prems(1,3) Cons.prems(2) by (meson distinct.simps(2) list.set_intros(2))
    obtain h where h: "sent_to ?fd (tlog ?sw) = sent_to ?fd (tlog sw) @ (if sock (clients (fst sw) j) = ?fd then h else [])"
      "got_of K (clients (fst sw) j) d h" using client_send_got by blast
    have "sock (clients (fst sw) j) = ?fd \<longleftrightarrow> j = i" using Cons.prems(2) True by auto
    then show ?thesis
      using True g h Cons.prems(3) by (cases "j = i") auto
  qed
qed simp

lemma on_rx_got:
  assumes i: "live (fst sw) i" "i < SINK_TCP_MAX_CLIENTS"
    and alone: "\<forall>j<SINK_TCP_MAX_CLIENTS. live (fst sw) j \<and> sock (clients (fst sw) j) = sock (clients (fst sw) i) \<longrightarrow> j = i"
  shows "clients (fst (on_rx (recording K) now d sw)) = clients (fst sw)"
    and "\<exists>g. sent_to (sock (clients (fst sw) i)) (tlog (on_rx (recording K) now d sw)) =
      sent_to (sock (clients (fst sw) i)) (tlog sw) @ g \<and> got_of K (clients (fst sw) i) d g"
proof -
  obtain n sw1 where f: "fan_loop (recording K) d slots4 0 sw = (n, sw1)" by (metis surj_pair)
  have s: "clients (fst sw1) = clients (fst sw)"
    using fan_loop_same [of sw "recording K" d slots4 0] f by (simp add: same_but_counts_def)
  have cap: "clients (replay_capture now d S) = clients S" for S by (simp add: replay_capture_def)
  show "clients (fst (on_rx (recording K) now d sw)) = clients (fst sw)"
    using s cap by (simp add: on_rx_def f on_sink_def)
  obtain g where g: "sent_to (sock (clients (fst sw) i)) (tlog sw1) = sent_to (sock (clients (fst sw) i)) (tlog sw) @ g"
    "got_of K (clients (fst sw) i) d g"
    using fan_loop_got [OF i(1), of slots4 K d 0] alone i(2) f by (auto simp: slots4_def)
  show "\<exists>g. sent_to (sock (clients (fst sw) i)) (tlog (on_rx (recording K) now d sw)) =
      sent_to (sock (clients (fst sw) i)) (tlog sw) @ g \<and> got_of K (clients (fst sw) i) d g"
  proof (cases "d = []")
    case True
    then show ?thesis by (intro exI [of _ "[]"]) (simp add: on_rx_def got_of_def framed_def tn_escape_def)
  next
    case False
    then show ?thesis using g by (intro exI [of _ g]) (simp add: on_rx_def f on_sink_def tlog_def)
  qed
qed

text \<open>The deliveries of the source, each given to the bridge.\<close>

definition deliver_all ::
  "'w br_env \<Rightarrow> (int \<times> u8 list) list \<Rightarrow> bridge \<times> 'w \<Rightarrow> bridge \<times> 'w" where
  "deliver_all D ds bw = fold (\<lambda>(t, d). bridge_on_source_rx D t d) ds bw"

definition down_env :: "'k tcp_env \<Rightarrow> int \<Rightarrow> (sink \<times> 'k) br_env" where
  "down_env K now = \<lparr>env_source = (\<lambda>a. None), env_sink = (\<lambda>s. if s = 0 then Some (tcp_ops K now) else None)\<rparr>"

lemma deliver_one:
  assumes "sinks b = [0]"
  shows "\<exists>b'. bridge_on_source_rx (down_env K now) t d (b, sw) = (b', on_rx K now d sw) \<and> sinks b' = [0]"
  using assms
  by (cases "d = []") (simp_all add: bridge_on_source_rx_def down_env_def sink_on_source_rx_def tcp_ops_def
      bridge_rx_account_def on_rx_def)

text \<open>
  C3: what the source sends arrives at the clients of the TCP sink.  Whatever the sockets answer, a client that is
  connected, with a socket of its own, gets nothing but the
  bytes of the deliveries, each delivery in its turn and once: of each one a raw client gets all bytes or the first
  ones, a telnet client its escaped bytes or some of them in their order.  A client whose own socket takes what it is
  given gets all bytes of all deliveries, unchanged if it is raw and in an encoding that decodes to them if it is a
  telnet client, whatever the sockets of the other clients do.
\<close>

theorem downlink_exact:
  assumes "sinks b = [0]" and "live S i" "i < SINK_TCP_MAX_CLIENTS"
    and "\<forall>j<SINK_TCP_MAX_CLIENTS. live S j \<and> sock (clients S j) = sock (clients S i) \<longrightarrow> j = i"
    and run: "deliver_all (down_env (recording K) now) ds (b, (S, (w, []))) = (b', sw')"
  shows "clients (fst sw') = clients S \<and>
    (\<exists>gs. sent_to (sock (clients S i)) (tlog sw') = concat gs \<and>
       list_all2 (\<lambda>td g. if telnet (clients S i) then subseq g (tn_escape (snd td)) else prefix g (snd td)) ds gs) \<and>
    (sends_on K (sock (clients S i)) \<longrightarrow>
      (let got = sent_to (sock (clients S i)) (tlog sw'); all = concat (map snd ds)
       in if telnet (clients S i) then got = tn_escape all \<and> tn_dec TS_DATA got = (all, TS_DATA) else got = all))"
proof -
  let ?c = "clients S i"
  have gen: "clients (fst sw') = clients S \<and>
      (\<exists>gs. sent_to (sock ?c) (tlog sw') = sent_to (sock ?c) (tlog sw) @ concat gs \<and> list_all2 (\<lambda>td. got_of K ?c (snd td)) ds gs)"
    if "deliver_all (down_env (recording K) now) ds (b, sw) = (b', sw')" "sinks b = [0]" "clients (fst sw) = clients S"
    for ds b sw
    using that
  proof (induction ds arbitrary: b sw)
    case (Cons td ds)
    obtain t d where td: "td = (t, d)" by force
    let ?sw = "on_rx (recording K) now d sw"
    obtain b1 where b1: "bridge_on_source_rx (down_env (recording K) now) t d (b, sw) = (b1, ?sw)" "sinks b1 = [0]"
      using deliver_one [OF Cons.prems(2)] by blast
    have l: "live (fst sw) = live S" using Cons.prems(3) by (simp add: live_def fun_eq_iff)
    note r = on_rx_got [of sw i, unfolded l Cons.prems(3), OF assms(2,3,4)]
    obtain g where g: "sent_to (sock ?c) (tlog ?sw) = sent_to (sock ?c) (tlog sw) @ g" "got_of K ?c d g" using r(2) by blast
    have "deliver_all (down_env (recording K) now) ds (b1, ?sw) = (b', sw')"
      using Cons.prems(1) b1(1) by (simp add: deliver_all_def td)
    from Cons.IH [OF this b1(2) r(1)] obtain gs where "clients (fst sw') = clients S"
      "sent_to (sock ?c) (tlog sw') = sent_to (sock ?c) (tlog ?sw) @ concat gs" "list_all2 (\<lambda>td. got_of K ?c (snd td)) ds gs" by blast
    then show ?case using g by (intro conjI exI [of _ "g # gs"]) (simp_all add: td)
  qed (auto simp: deliver_all_def intro!: exI [of _ "[]"])
  obtain gs where c: "clients (fst sw') = clients S" "sent_to (sock ?c) (tlog sw') = concat gs"
    "list_all2 (\<lambda>td. got_of K ?c (snd td)) ds gs"
    using gen [OF run assms(1)] by (auto simp: tlog_def sent_to_def)
  have "sends_on K (sock ?c) \<Longrightarrow> list_all2 (\<lambda>td. got_of K ?c (snd td)) ds gs \<Longrightarrow> concat gs = framed ?c (concat (map snd ds))" for ds gs
    by (induction ds arbitrary: gs) (auto simp: list_all2_Cons1 got_of_def framed_append, simp add: framed_def tn_escape_def)
  from this [OF _ c(3)] have "sends_on K (sock ?c) \<longrightarrow> concat gs = framed ?c (concat (map snd ds))" by blast
  moreover have "list_all2 (\<lambda>td g. if telnet ?c then subseq g (tn_escape (snd td)) else prefix g (snd td)) ds gs"
    using c(3) by (rule list_all2_mono) (auto simp: got_of_def framed_def split: if_split_asm)
  ultimately show ?thesis
    unfolding c Let_def using tn_dec_escape [of "concat (map snd ds)"] by (auto simp: framed_def)
qed

text \<open>Two clients: the socket of the first takes everything, the one of the second fails at every attempt.\<close>

definition half_dead :: "unit tcp_env" where
  "half_dead = echo_env\<lparr>sk_send := (\<lambda>fd d w. (if fd = 5 then Sent (length d) else SendErr, w))\<rparr>"

lemma downlink_exact_witness:
  "\<exists>b' sw'. deliver_all (down_env (recording half_dead) 0) [(1, [65, 255]), (2, [66])] (pipe_bridge, (two_clients, ((), []))) =
      (b', sw') \<and> sent_to 5 (tlog sw') = [65, 255, 66]"
proof -
  obtain b' sw' where r: "deliver_all (down_env (recording half_dead) 0) [(1, [65, 255]), (2, [66])]
      (pipe_bridge, (two_clients, ((), []))) = (b', sw')" by (metis surj_pair)
  have l: "live two_clients 0" "sock (clients two_clients 0) = 5" "\<not> telnet (clients two_clients 0)"
    "\<forall>j<SINK_TCP_MAX_CLIENTS. live two_clients j \<and> sock (clients two_clients j) = 5 \<longrightarrow> j = 0"
    by (auto simp: two_clients_def live_def pipe_sink_def sink_tcp_init_def split: if_splits)
  have "sinks pipe_bridge = [0]"
    by (simp add: pipe_bridge_def bridge_attach_sink_def bridge_attach_source_def bridge_init_def Let_def BRIDGE_MAX_SINKS_def)
  moreover have "sends_on half_dead 5" by (simp add: sends_on_def half_dead_def)
  ultimately show ?thesis
    using downlink_exact [of pipe_bridge two_clients 0, OF _ l(1) _ _ r] l r
    by (auto simp: SINK_TCP_MAX_CLIENTS_def Let_def)
qed

end
