(* ===== verification/Improv.thy ===== *)
theory Improv
  imports Cdc_Prelude "HOL-Library.Multiset"
begin

text \<open>
  The provisioning core of \<^verbatim>\<open>components/improv_wifi_busware\<close> (\<^verbatim>\<open>improv_wifi.cpp\<close>): the parser of the
  serial frames, the commands, and the window that closes for good.  The object is the record
  \<open>improv\<close>; the part of \<^verbatim>\<open>buf_\<close> that is in use is the list \<open>im_buf\<close>, whose length is \<^verbatim>\<open>pos_\<close>.  The
  abstract class \<^verbatim>\<open>WiFiBackend\<close> is the record \<open>wifi_backend\<close> of its methods over a world of type
  \<open>'w\<close>, and the callbacks of \<^verbatim>\<open>Config\<close> are functions on that world: a null pointer is \<open>None\<close>.
\<close>

subsection \<open>Types\<close>

datatype improv_error = ErrNone | ErrInvalidRpc | ErrUnknownRpc | ErrUnableToConnect | ErrNotAuthorized | ErrUnknown

fun error_byte :: "improv_error \<Rightarrow> u8" where
  "error_byte ErrNone = 0x00"
| "error_byte ErrInvalidRpc = 0x01"
| "error_byte ErrUnknownRpc = 0x02"
| "error_byte ErrUnableToConnect = 0x03"
| "error_byte ErrNotAuthorized = 0x04"
| "error_byte ErrUnknown = 0xFF"

datatype improv_state = StStopped | StAwaitingAuthorization | StAuthorized | StProvisioning | StProvisioned

fun state_byte :: "improv_state \<Rightarrow> u8" where
  "state_byte StStopped = 0x00"
| "state_byte StAwaitingAuthorization = 0x01"
| "state_byte StAuthorized = 0x02"
| "state_byte StProvisioning = 0x03"
| "state_byte StProvisioned = 0x04"

text \<open>\<^verbatim>\<open>Command\<close> and \<^verbatim>\<open>FrameType\<close> are cast from received bytes, so any byte can occur.\<close>

definition CmdUnknown :: u8 where "CmdUnknown = 0x00"
definition CmdWifiSettings :: u8 where "CmdWifiSettings = 0x01"
definition CmdGetCurrentState :: u8 where "CmdGetCurrentState = 0x02"
definition CmdGetDeviceInfo :: u8 where "CmdGetDeviceInfo = 0x03"
definition CmdGetWifiNetworks :: u8 where "CmdGetWifiNetworks = 0x04"
definition CmdIdentify :: u8 where "CmdIdentify = 0x07"
definition CmdBadChecksum :: u8 where "CmdBadChecksum = 0xFF"

lemmas cmd_defs = CmdUnknown_def CmdWifiSettings_def CmdGetCurrentState_def CmdGetDeviceInfo_def
  CmdGetWifiNetworks_def CmdIdentify_def CmdBadChecksum_def

definition FrCurrentState :: u8 where "FrCurrentState = 0x01"
definition FrErrorState :: u8 where "FrErrorState = 0x02"
definition FrRpc :: u8 where "FrRpc = 0x03"
definition FrRpcResponse :: u8 where "FrRpcResponse = 0x04"

lemmas frame_defs = FrCurrentState_def FrErrorState_def FrRpc_def FrRpcResponse_def

definition IMPROV_VERSION :: u8 where "IMPROV_VERSION = 0x01"

definition kHeader :: "u8 list" where "kHeader = [0x49, 0x4D, 0x50, 0x52, 0x4F, 0x56]"

definition kBufferSize :: nat where "kBufferSize = 300"

record improv_command =
  ic_command :: u8
  ic_ssid :: "u8 list"
  ic_password :: "u8 list"

record ap_record =
  ap_ssid :: "u8 list"
  ap_rssi :: int
  ap_auth :: bool

text \<open>The interface to the Wi-Fi side; \<^verbatim>\<open>scanResult\<close> is a count, or one of two negative codes.\<close>

definition kScanRunning :: int where "kScanRunning = -1"
definition kScanFailed :: int where "kScanFailed = -2"

record 'w wifi_backend =
  bk_connected :: "'w \<Rightarrow> bool"
  bk_ip :: "'w \<Rightarrow> u8 list"
  bk_try :: "string \<Rightarrow> string \<Rightarrow> 'w \<Rightarrow> bool \<times> 'w"
  bk_start_scan :: "'w \<Rightarrow> 'w"
  bk_scan_result :: "'w \<Rightarrow> int"
  bk_ap :: "nat \<Rightarrow> 'w \<Rightarrow> ap_record"
  bk_clear :: "'w \<Rightarrow> 'w"

record device_info =
  dev_family :: nat
  dev_name :: "string option"
  dev_version :: "string option"
  dev_device :: "string option"
  dev_url :: "string option"

record 'w improv_cfg =
  ig_backend :: "'w wifi_backend option"
  ig_write :: "(u8 list \<Rightarrow> 'w \<Rightarrow> 'w) option"
  ig_window :: u32
  ig_on_error :: "(improv_error \<Rightarrow> 'w \<Rightarrow> 'w) option"
  ig_on_connected :: "(string \<Rightarrow> string \<Rightarrow> 'w \<Rightarrow> 'w) option"

record improv =
  im_armed :: bool
  im_anchored :: bool
  im_deadline :: u32
  im_buf :: "u8 list"
  im_awaiting :: bool
  im_dev :: device_info

definition improv_new :: "device_info \<Rightarrow> improv" where
  "improv_new d = \<lparr>im_armed = True, im_anchored = False, im_deadline = 0, im_buf = [], im_awaiting = False, im_dev = d\<rparr>"

definition set_device_info :: "device_info \<Rightarrow> improv \<Rightarrow> improv" where
  "set_device_info d im = im\<lparr>im_dev := d\<rparr>"

definition improv_connected :: "'w improv_cfg \<Rightarrow> 'w \<Rightarrow> bool" where
  "improv_connected C w = (case ig_backend C of None \<Rightarrow> False | Some B \<Rightarrow> bk_connected B w)"

subsection \<open>Frames\<close>

text \<open>The checksum: a 16-bit sum, of which the low byte is used.\<close>

definition sum8 :: "u8 list \<Rightarrow> u8" where
  "sum8 xs = ucast (foldl (\<lambda>s b. s + ucast b) (0::u16) xs)"

definition frame_head :: "u8 \<Rightarrow> u8 list \<Rightarrow> u8 list" where
  "frame_head t p = kHeader @ [IMPROV_VERSION, t, of_nat (length p)] @ p"

definition improv_frame :: "u8 \<Rightarrow> u8 list \<Rightarrow> u8 list" where
  "improv_frame t p = frame_head t p @ [sum8 (frame_head t p)]"

definition write_frame :: "'w improv_cfg \<Rightarrow> u8 \<Rightarrow> u8 list \<Rightarrow> 'w \<Rightarrow> 'w" where
  "write_frame C t p w =
     (case ig_write C of
        None \<Rightarrow> w
      | Some wr \<Rightarrow> if 255 < length p then w else wr [0x0A] (wr (improv_frame t p) (wr [0x0A] w)))"

definition emit_state :: "'w improv_cfg \<Rightarrow> improv_state \<Rightarrow> 'w \<Rightarrow> 'w" where
  "emit_state C s = write_frame C FrCurrentState [state_byte s]"

definition emit_error :: "'w improv_cfg \<Rightarrow> improv_error \<Rightarrow> 'w \<Rightarrow> 'w" where
  "emit_error C e = write_frame C FrErrorState [error_byte e]"

text \<open>The fields of a response, each behind its length; \<open>None\<close> is the return on an oversized field.\<close>

fun rpc_fields :: "u8 list list \<Rightarrow> u8 list \<Rightarrow> u32 \<Rightarrow> (u8 list \<times> u32) option" where
  "rpc_fields [] inner tot = Some (inner, tot)"
| "rpc_fields (s # ss) inner tot =
     (if 255 < length s then None
      else rpc_fields ss (inner @ of_nat (length s) # s) (tot + (1 + of_nat (length s))))"

definition emit_rpc_response :: "'w improv_cfg \<Rightarrow> u8 \<Rightarrow> u8 list list \<Rightarrow> 'w \<Rightarrow> 'w" where
  "emit_rpc_response C cmd fs w =
     (case rpc_fields fs [cmd, 0] 0 of
        None \<Rightarrow> emit_error C ErrUnknown w
      | Some (inner, tot) \<Rightarrow>
          if 253 < tot then emit_error C ErrUnknown w
          else write_frame C FrRpcResponse (inner[1 := ucast tot]) w)"

text \<open>\<^verbatim>\<open>url.find\<close> and \<^verbatim>\<open>url.replace\<close> in a loop: the search goes on behind the replacement.\<close>

definition IP_TOKEN :: "u8 list" where "IP_TOKEN = bytes ''{LOCAL_IPV4}''"

function subst_token :: "u8 list \<Rightarrow> u8 list \<Rightarrow> u8 list" where
  "subst_token ip [] = []"
| "subst_token ip (b # bs) =
     (if take (length IP_TOKEN) (b # bs) = IP_TOKEN
      then ip @ subst_token ip (drop (length IP_TOKEN) (b # bs))
      else b # subst_token ip bs)"
  by pat_completeness auto
termination
  by (relation "measure (\<lambda>(ip, bs). length bs)") (auto simp: IP_TOKEN_def)

definition device_url :: "u8 list \<Rightarrow> string option \<Rightarrow> u8 list" where
  "device_url ip u =
     (case u of
        None \<Rightarrow> bytes ''http://'' @ ip
      | Some s \<Rightarrow> if s = [] then bytes ''http://'' @ ip else subst_token ip (bytes s))"

definition emit_device_url :: "'w improv_cfg \<Rightarrow> improv \<Rightarrow> u8 \<Rightarrow> 'w \<Rightarrow> 'w" where
  "emit_device_url C im cmd w =
     (let ip = (case ig_backend C of None \<Rightarrow> [] | Some B \<Rightarrow> bk_ip B w)
      in emit_rpc_response C cmd [device_url ip (dev_url (im_dev im))] w)"

subsection \<open>Commands\<close>

text \<open>\<^verbatim>\<open>parsePayload_\<close>; \<open>ck\<close> is \<^verbatim>\<open>withChecksum\<close>.\<close>

definition no_command :: "u8 \<Rightarrow> improv_command" where
  "no_command c = \<lparr>ic_command = c, ic_ssid = [], ic_password = []\<rparr>"

definition parse_payload :: "bool \<Rightarrow> u8 list \<Rightarrow> improv_command" where
  "parse_payload ck d =
     (if length d < 2 then no_command CmdUnknown
      else
        let cmd = d ! 0; dlen = unat (d ! 1); fe = length d - (if ck then 1 else 0)
        in if fe < 2 \<or> dlen \<noteq> fe - 2 then no_command CmdUnknown
           else if ck \<and> sum8 (take (length d - 1) d) \<noteq> d ! (length d - 1) then no_command CmdBadChecksum
           else if cmd = CmdWifiSettings
           then if fe - 2 < 2 then no_command CmdUnknown
                else
                  let sl = unat (d ! 2)
                  in if fe < 3 + sl + 1 then no_command CmdUnknown
                     else
                       let pl = unat (d ! (3 + sl))
                       in if 3 + sl + 1 + pl \<noteq> fe then no_command CmdUnknown
                          else \<lparr>ic_command = cmd, ic_ssid = take sl (drop 3 d), ic_password = take pl (drop (3 + sl + 1) d)\<rparr>
           else no_command cmd)"

definition handle_wifi_settings :: "'w improv_cfg \<Rightarrow> improv \<Rightarrow> u8 list \<Rightarrow> u8 list \<Rightarrow> 'w \<Rightarrow> 'w" where
  "handle_wifi_settings C im ssid pw w =
     (if ssid = [] \<or> 32 < length ssid then emit_error C ErrInvalidRpc w
      else if 0 < length pw \<and> length pw < 8 then emit_error C ErrInvalidRpc w
      else if 63 < length pw then emit_error C ErrInvalidRpc w
      else
        let w1 = emit_state C StProvisioning w
        in case ig_backend C of
             None \<Rightarrow> emit_error C ErrUnknown w1
           | Some B \<Rightarrow>
               (case bk_try B (cstr ssid) (cstr pw) w1 of
                  (True, w2) \<Rightarrow>
                    let w3 = emit_device_url C im CmdWifiSettings (emit_state C StProvisioned (emit_error C ErrNone w2))
                    in (case ig_on_connected C of None \<Rightarrow> w3 | Some f \<Rightarrow> f (cstr ssid) (cstr pw) w3)
                | (False, w2) \<Rightarrow>
                    let w3 = emit_error C ErrUnableToConnect w2
                    in emit_state C StAuthorized
                         (case ig_on_error C of None \<Rightarrow> w3 | Some f \<Rightarrow> f ErrUnableToConnect w3)))"

definition handle_get_networks :: "'w improv_cfg \<Rightarrow> improv \<times> 'w \<Rightarrow> improv \<times> 'w" where
  "handle_get_networks C s =
     (case ig_backend C of
        None \<Rightarrow> (fst s, emit_rpc_response C CmdGetWifiNetworks [] (snd s))
      | Some B \<Rightarrow> ((fst s)\<lparr>im_awaiting := True\<rparr>, bk_start_scan B (snd s)))"

definition chip_family :: "nat \<Rightarrow> string" where
  "chip_family i =
     (let family = [''ESP32'', ''ESP32-C3'', ''ESP32-S2'', ''ESP32-S3'', ''ESP32-C6'', ''ESP8266'']
      in if i < length family then family ! i else ''ESP'')"

definition dispatch_command :: "'w improv_cfg \<Rightarrow> improv_command \<Rightarrow> improv \<times> 'w \<Rightarrow> bool \<times> (improv \<times> 'w)" where
  "dispatch_command C c s =
     (let cmd = ic_command c; im = fst s; w = snd s; txt_of = (\<lambda>x. case x of None \<Rightarrow> [] | Some t \<Rightarrow> bytes t)
      in if cmd = CmdUnknown then (False, (im, emit_error C ErrInvalidRpc w))
         else if cmd = CmdBadChecksum then (False, (im, emit_error C ErrInvalidRpc w))
         else if cmd = CmdGetCurrentState
         then (True, (im, if improv_connected C w
                          then emit_device_url C im cmd (emit_state C StProvisioned w)
                          else emit_state C StAuthorized w))
         else if cmd = CmdWifiSettings
         then (True, (im, handle_wifi_settings C im (ic_ssid c) (ic_password c) w))
         else if cmd = CmdGetDeviceInfo
         then (True, (im, emit_rpc_response C cmd
                [txt_of (dev_name (im_dev im)), txt_of (dev_version (im_dev im)), bytes (chip_family (dev_family (im_dev im))),
                 txt_of (dev_device (im_dev im))] w))
         else if cmd = CmdGetWifiNetworks then (True, handle_get_networks C s)
         else if cmd = CmdIdentify then (True, (im, emit_error C ErrNone w))
         else (False, (im, emit_error C ErrUnknownRpc w)))"

definition on_complete_packet :: "'w improv_cfg \<Rightarrow> improv \<times> 'w \<Rightarrow> improv \<times> 'w" where
  "on_complete_packet C s =
     (let b = im_buf (fst s)
      in if b ! 7 \<noteq> FrRpc then s
         else snd (dispatch_command C (parse_payload False (take (unat (b ! 8)) (drop 9 b))) s))"

subsection \<open>The parser\<close>

definition accept_byte_at :: "u8 list \<Rightarrow> u8 \<Rightarrow> bool" where
  "accept_byte_at buf b =
     (let pos = length buf
      in if pos < 6 then b = kHeader ! pos
         else if pos = 6 then b = IMPROV_VERSION
         else if pos = 7 \<or> pos = 8 then True
         else
           let dl = unat (buf ! 8)
           in if pos < 9 + dl then True else if pos = 9 + dl then sum8 buf = b else False)"

definition parse_byte :: "'w improv_cfg \<Rightarrow> u8 \<Rightarrow> improv \<times> 'w \<Rightarrow> improv \<times> 'w" where
  "parse_byte C b s =
     (let im = fst s; w = snd s
      in if kBufferSize \<le> length (im_buf im) then (im\<lparr>im_buf := []\<rparr>, w)
         else if accept_byte_at (im_buf im) b
         then
           let im1 = im\<lparr>im_buf := im_buf im @ [b]\<rparr>
           in if 9 \<le> length (im_buf im1) \<and> length (im_buf im1) = 9 + unat (im_buf im1 ! 8) + 1
              then (case on_complete_packet C (im1, w) of (im2, w2) \<Rightarrow> (im2\<lparr>im_buf := []\<rparr>, w2))
              else (im1, w)
         else (im\<lparr>im_buf := []\<rparr>, w))"

definition feed_byte :: "'w improv_cfg \<Rightarrow> u8 \<Rightarrow> improv \<times> 'w \<Rightarrow> improv \<times> 'w" where
  "feed_byte C b s = (if im_armed (fst s) then parse_byte C b s else s)"

definition feed_bytes :: "'w improv_cfg \<Rightarrow> u8 list \<Rightarrow> improv \<times> 'w \<Rightarrow> improv \<times> 'w" where
  "feed_bytes C bs s = (if im_armed (fst s) then fold (parse_byte C) bs s else s)"

subsection \<open>The scan reply\<close>

text \<open>The exchange sort on the list of indices, strongest signal first.\<close>

definition swap_if :: "ap_record list \<Rightarrow> nat \<Rightarrow> nat \<Rightarrow> nat list \<Rightarrow> nat list" where
  "swap_if aps i j order =
     (if ap_rssi (aps ! (order ! i)) < ap_rssi (aps ! (order ! j)) then order[i := order ! j, j := order ! i] else order)"

definition rssi_order :: "ap_record list \<Rightarrow> nat list" where
  "rssi_order aps =
     (let n = length aps
      in fold (\<lambda>i. fold (swap_if aps i) [i + 1..<n]) [0..<n - 1] [0..<n])"

text \<open>\<^verbatim>\<open>std::to_string\<close>.\<close>

definition int_text :: "int \<Rightarrow> string" where
  "int_text i = (if i < 0 then CHR ''-'' # dec (nat (- i)) else dec (nat i))"

definition ap_fields :: "ap_record \<Rightarrow> u8 list list" where
  "ap_fields ap = [ap_ssid ap, bytes (int_text (ap_rssi ap)), bytes (if ap_auth ap then ''YES'' else ''NO'')]"

text \<open>Which of the sorted records are sent: not the nameless ones, and each name once.\<close>

definition scan_sent :: "ap_record list \<Rightarrow> ap_record list" where
  "scan_sent ranked =
     map (nth ranked) (filter (\<lambda>k. ap_ssid (ranked ! k) \<noteq> [] \<and>
         \<not> list_ex (\<lambda>earlier. ap_ssid (ranked ! earlier) = ap_ssid (ranked ! k)) [0..<k]) [0..<length ranked])"

definition scan_reply :: "ap_record list \<Rightarrow> ap_record list" where
  "scan_reply aps = scan_sent (map (nth aps) (rssi_order aps))"

definition pump_scan :: "'w improv_cfg \<Rightarrow> improv \<times> 'w \<Rightarrow> improv \<times> 'w" where
  "pump_scan C s =
     (case ig_backend C of
        None \<Rightarrow> s
      | Some B \<Rightarrow>
          if \<not> im_awaiting (fst s) then s
          else
            let n = bk_scan_result B (snd s); im' = (fst s)\<lparr>im_awaiting := False\<rparr>
            in if n = kScanRunning then s
               else if n = kScanFailed \<or> n \<le> 0
               then (im', bk_clear B (emit_rpc_response C CmdGetWifiNetworks [] (snd s)))
               else
                 let aps = map (\<lambda>i. bk_ap B i (snd s)) [0..<nat n];
                     w1 = fold (\<lambda>ap. emit_rpc_response C CmdGetWifiNetworks (ap_fields ap))
                            (scan_reply aps) (snd s)
                 in (im', bk_clear B (emit_rpc_response C CmdGetWifiNetworks [] w1)))"

subsection \<open>The window\<close>

definition improv_tick :: "'w improv_cfg \<Rightarrow> u32 \<Rightarrow> improv \<times> 'w \<Rightarrow> improv \<times> 'w" where
  "improv_tick C now s =
     (let im = fst s; w = snd s
      in if \<not> im_armed im then s
         else
           let im1 = (if im_anchored im then im else im\<lparr>im_anchored := True, im_deadline := now + ig_window C\<rparr>)
           in if 0 \<le> sint (now - im_deadline im1)
              then (im1\<lparr>im_armed := False, im_buf := [], im_awaiting := False\<rparr>,
                    case ig_backend C of None \<Rightarrow> w | Some B \<Rightarrow> if im_awaiting im1 then bk_clear B w else w)
              else pump_scan C (im1, w))"

definition window_ms_remaining :: "'w improv_cfg \<Rightarrow> u32 \<Rightarrow> improv \<Rightarrow> u32" where
  "window_ms_remaining C now im =
     (if \<not> im_armed im then 0
      else if \<not> im_anchored im then ig_window C
      else if 0 < sint (im_deadline im - now) then im_deadline im - now else 0)"


subsection \<open>Frames of the parser\<close>

lemma length_kHeader [simp]: "length kHeader = 6"
  by (simp add: kHeader_def)

lemma length_frame [simp]: "length (frame_head t p) = 9 + length p" "length (improv_frame t p) = 10 + length p"
  by (simp_all add: frame_head_def improv_frame_def)

lemma frame_nth:
  "i < 6 \<Longrightarrow> improv_frame t p ! i = kHeader ! i" "improv_frame t p ! 6 = IMPROV_VERSION" "improv_frame t p ! 7 = t"
  "improv_frame t p ! 8 = of_nat (length p)" "improv_frame t p ! (9 + length p) = sum8 (frame_head t p)"
  by (simp_all add: improv_frame_def frame_head_def nth_append)

lemma frame_take:
  "take (9 + length p) (improv_frame t p) = frame_head t p" "take (length p) (drop 9 (improv_frame t p)) = p"
  by (simp_all add: improv_frame_def frame_head_def flip: append_assoc)

lemma byte_lt: "unat (b :: u8) < 256"
  using unsigned_less [of b] by simp

text \<open>What the buffer can hold between two bytes.\<close>

definition parse_ok :: "u8 list \<Rightarrow> bool" where
  "parse_ok buf \<longleftrightarrow>
     (\<forall>i < min 6 (length buf). buf ! i = kHeader ! i) \<and> (6 < length buf \<longrightarrow> buf ! 6 = IMPROV_VERSION) \<and>
     (8 < length buf \<longrightarrow> length buf < 10 + unat (buf ! 8))"

lemma parse_ok_room: "parse_ok buf \<Longrightarrow> length buf < kBufferSize"
  using byte_lt [of "buf ! 8"] by (cases "8 < length buf") (auto simp: parse_ok_def kBufferSize_def)

lemma parse_ok_Nil [simp]: "parse_ok []"
  by (simp add: parse_ok_def)

definition ends_packet :: "u8 list \<Rightarrow> bool" where
  "ends_packet buf \<longleftrightarrow> 9 \<le> length buf \<and> length buf = 9 + unat (buf ! 8) + 1"

lemma accept_grows:
  assumes "parse_ok buf" and "accept_byte_at buf b" and "\<not> ends_packet (buf @ [b])"
  shows "parse_ok (buf @ [b])"
proof -
  have v: "6 < length (buf @ [b]) \<Longrightarrow> (buf @ [b]) ! 6 = IMPROV_VERSION"
    and h: "\<forall>i < min 6 (length (buf @ [b])). (buf @ [b]) ! i = kHeader ! i"
    using assms(1,2) by (auto simp: parse_ok_def accept_byte_at_def nth_append less_Suc_eq Let_def split: if_splits)
  have "length (buf @ [b]) < 10 + unat ((buf @ [b]) ! 8)" if "8 < length (buf @ [b])"
    using that assms(1,3) by (cases "length buf = 8") (auto simp: parse_ok_def ends_packet_def nth_append)
  then show ?thesis using v h by (simp add: parse_ok_def)
qed

lemma completes_frame:
  assumes "parse_ok buf" and "accept_byte_at buf b" and "ends_packet (buf @ [b])"
  defines "p \<equiv> take (unat ((buf @ [b]) ! 8)) (drop 9 (buf @ [b]))"
  shows "buf @ [b] = improv_frame ((buf @ [b]) ! 7) p" and "length p \<le> 255"
proof -
  have l: "length buf = 9 + unat (buf ! 8)" using assms(3) by (cases "8 < length buf") (auto simp: ends_packet_def nth_append)
  have p: "p = drop 9 buf" using l by (simp add: p_def nth_append)
  have len: "length p = unat (buf ! 8)" using l p by simp
  show "length p \<le> 255" using len byte_lt [of "buf ! 8"] by simp
  have "take 9 buf = kHeader @ [IMPROV_VERSION, buf ! 7, buf ! 8]"
  proof (rule nth_equalityI)
    show "length (take 9 buf) = length (kHeader @ [IMPROV_VERSION, buf ! 7, buf ! 8])" using l by simp
    fix i assume "i < length (take 9 buf)"
    then have "i < 6 \<or> i = 6 \<or> i = 7 \<or> i = 8" using l by auto
    then show "take 9 buf ! i = (kHeader @ [IMPROV_VERSION, buf ! 7, buf ! 8]) ! i"
      using assms(1) l by (auto simp: parse_ok_def nth_append)
  qed
  then have buf: "buf = frame_head (buf ! 7) p"
    using append_take_drop_id [of 9 buf] len by (simp add: frame_head_def p)
  have "b = sum8 buf" using assms(2) l by (simp add: accept_byte_at_def Let_def)
  then have "buf @ [b] = frame_head (buf ! 7) p @ [sum8 (frame_head (buf ! 7) p)]" using buf by simp
  then show "buf @ [b] = improv_frame ((buf @ [b]) ! 7) p" using l by (simp add: improv_frame_def nth_append)
qed

lemma accept_frame:
  assumes "length p \<le> 255" and "k < length (improv_frame t p)"
  shows "accept_byte_at (take k (improv_frame t p)) (improv_frame t p ! k)"
proof -
  have n: "unat (improv_frame t p ! 8) = length p" using assms(1) by (simp add: frame_nth unat_of_nat)
  have k: "k < 10 + length p" using assms(2) by simp
  consider "k < 6" | "k = 6" | "k = 7 \<or> k = 8" | "9 \<le> k" "k < 9 + length p" | "k = 9 + length p" using k by linarith
  then show ?thesis
  proof cases
    case 5
    have "frame_head t p ! 8 = improv_frame t p ! 8" by (simp add: improv_frame_def nth_append)
    then show ?thesis using 5 n by (simp add: accept_byte_at_def frame_nth(5) frame_take(1))
  qed (use n in \<open>auto simp: accept_byte_at_def frame_nth Let_def\<close>)
qed

subsection \<open>The packets of a stream\<close>

definition handle_packet :: "'w improv_cfg \<Rightarrow> u8 \<times> u8 list \<Rightarrow> improv \<times> 'w \<Rightarrow> improv \<times> 'w" where
  "handle_packet C tp s =
     (if fst tp \<noteq> FrRpc then s else snd (dispatch_command C (parse_payload False (snd tp)) s))"

definition with_buf :: "u8 list \<Rightarrow> improv \<times> 'w \<Rightarrow> improv \<times> 'w" where
  "with_buf b s = ((fst s)\<lparr>im_buf := b\<rparr>, snd s)"

lemma with_buf_simps [simp]:
  "with_buf b (with_buf b' s) = with_buf b s" "snd (with_buf b s) = snd s" "im_buf (fst (with_buf b s)) = b"
  "im_armed (fst (with_buf b s)) = im_armed (fst s)" "im_dev (fst (with_buf b s)) = im_dev (fst s)"
  by (simp_all add: with_buf_def)

lemma with_buf_id: "im_buf (fst s) = b \<Longrightarrow> with_buf b s = s"
  by (cases s) (auto simp: with_buf_def)

lemma url_with_buf [simp]: "emit_device_url C (im\<lparr>im_buf := b\<rparr>) = emit_device_url C im"
  by (simp add: emit_device_url_def fun_eq_iff)

lemma wifi_with_buf [simp]: "handle_wifi_settings C (im\<lparr>im_buf := b\<rparr>) = handle_wifi_settings C im"
  by (intro ext) (simp only: handle_wifi_settings_def url_with_buf)

lemma networks_with_buf: "handle_get_networks C (im\<lparr>im_buf := b\<rparr>, w) = with_buf b (handle_get_networks C (im, w))"
  by (simp add: handle_get_networks_def with_buf_def split: option.split)

lemma dispatch_simps:
  "ic_command c = CmdUnknown \<Longrightarrow> dispatch_command C c (im, w) = (False, (im, emit_error C ErrInvalidRpc w))"
  "ic_command c = CmdBadChecksum \<Longrightarrow> dispatch_command C c (im, w) = (False, (im, emit_error C ErrInvalidRpc w))"
  "ic_command c = CmdGetCurrentState \<Longrightarrow> dispatch_command C c (im, w) = (True, (im, if improv_connected C w
     then emit_device_url C im CmdGetCurrentState (emit_state C StProvisioned w) else emit_state C StAuthorized w))"
  "ic_command c = CmdWifiSettings \<Longrightarrow>
     dispatch_command C c (im, w) = (True, (im, handle_wifi_settings C im (ic_ssid c) (ic_password c) w))"
  "ic_command c = CmdGetWifiNetworks \<Longrightarrow> dispatch_command C c (im, w) = (True, handle_get_networks C (im, w))"
  "ic_command c = CmdIdentify \<Longrightarrow> dispatch_command C c (im, w) = (True, (im, emit_error C ErrNone w))"
  by (simp_all add: dispatch_command_def cmd_defs)

lemma dispatch_info:
  "ic_command c = CmdGetDeviceInfo \<Longrightarrow> \<exists>r. \<forall>im'. im_dev im' = im_dev im \<longrightarrow>
     dispatch_command C c (im', w) = (True, (im', emit_rpc_response C CmdGetDeviceInfo r w))"
  by (auto simp: dispatch_command_def cmd_defs Let_def)

lemma dispatch_other:
  "ic_command c \<notin> {CmdUnknown, CmdBadChecksum, CmdGetCurrentState, CmdWifiSettings, CmdGetDeviceInfo,
      CmdGetWifiNetworks, CmdIdentify} \<Longrightarrow> dispatch_command C c (im, w) = (False, (im, emit_error C ErrUnknownRpc w))"
  by (simp add: dispatch_command_def)

lemma dispatch_with_buf: "snd (dispatch_command C c (with_buf b s)) = with_buf b (snd (dispatch_command C c s))"
proof -
  obtain im w where s: "s = (im, w)" by (cases s)
  have b: "with_buf b (im, w) = (im\<lparr>im_buf := b\<rparr>, w)" for w by (simp add: with_buf_def)
  consider "ic_command c \<in> {CmdUnknown, CmdBadChecksum, CmdGetCurrentState, CmdWifiSettings, CmdGetWifiNetworks, CmdIdentify}"
    | "ic_command c = CmdGetDeviceInfo"
    | "ic_command c \<notin> {CmdUnknown, CmdBadChecksum, CmdGetCurrentState, CmdWifiSettings, CmdGetDeviceInfo,
        CmdGetWifiNetworks, CmdIdentify}" by blast
  then show ?thesis
  proof cases
    case 1
    then show ?thesis unfolding s b by (elim insertE) (simp_all add: dispatch_simps networks_with_buf b)
  next
    case 2
    obtain r where "\<forall>im'. im_dev im' = im_dev im \<longrightarrow>
        dispatch_command C c (im', w) = (True, (im', emit_rpc_response C CmdGetDeviceInfo r w))"
      using dispatch_info [OF 2] by metis
    then show ?thesis unfolding s b by (simp add: b)
  next
    case 3
    then show ?thesis unfolding s b by (simp add: dispatch_other b)
  qed
qed

lemma handle_with_buf: "handle_packet C tp (with_buf b s) = with_buf b (handle_packet C tp s)"
  by (simp add: handle_packet_def dispatch_with_buf)

lemma complete_frame:
  assumes "length p \<le> 255"
  shows "on_complete_packet C (with_buf (improv_frame t p) s) = with_buf (improv_frame t p) (handle_packet C (t, p) s)"
proof -
  have "take (unat (improv_frame t p ! 8)) (drop 9 (improv_frame t p)) = p" for t
    using assms by (simp add: frame_nth frame_take unat_of_nat)
  then show ?thesis by (simp add: on_complete_packet_def handle_packet_def frame_nth dispatch_with_buf Let_def)
qed

lemma parse_byte_step:
  assumes "length buf < kBufferSize"
  shows "parse_byte C b (with_buf buf s) =
    (if \<not> accept_byte_at buf b then with_buf [] s
     else if ends_packet (buf @ [b]) then with_buf [] (on_complete_packet C (with_buf (buf @ [b]) s))
     else with_buf (buf @ [b]) s)"
  using assms by (simp add: parse_byte_def ends_packet_def Let_def with_buf_def case_prod_unfold)

lemma parse_prefix:
  assumes "length p \<le> 255" and "k < length (improv_frame t p)"
  shows "fold (parse_byte C) (take k (improv_frame t p)) (with_buf [] s) = with_buf (take k (improv_frame t p)) s"
  using assms(2)
proof (induction k)
  case (Suc k)
  let ?f = "improv_frame t p"
  have k: "k < length ?f" "length (take k ?f) < kBufferSize" using Suc.prems assms(1) by (auto simp: kBufferSize_def)
  have t: "take (Suc k) ?f = take k ?f @ [?f ! k]" by (rule take_Suc_conv_app_nth [OF k(1)])
  have "\<not> ends_packet (take (Suc k) ?f)"
    using Suc.prems assms(1) by (auto simp: ends_packet_def frame_nth unat_of_nat)
  then have "parse_byte C (?f ! k) (with_buf (take k ?f) s) = with_buf (take k ?f @ [?f ! k]) s"
    using parse_byte_step [OF k(2), of C "?f ! k" s] accept_frame [OF assms(1) k(1)] unfolding t by simp
  then show ?case using Suc.IH [OF k(1)] unfolding t by simp
qed simp

lemma parse_frame:
  assumes "length p \<le> 255"
  shows "fold (parse_byte C) (improv_frame t p) (with_buf [] s) = with_buf [] (handle_packet C (t, p) s)"
proof -
  let ?f = "improv_frame t p" and ?k = "9 + length p"
  have k: "?k < length ?f" "length (take ?k ?f) < kBufferSize" using assms by (auto simp: kBufferSize_def)
  have f: "take ?k ?f @ [?f ! ?k] = ?f" using take_Suc_conv_app_nth [OF k(1)] by simp
  have e: "ends_packet ?f" using assms by (simp add: ends_packet_def frame_nth unat_of_nat)
  have "fold (parse_byte C) ?f (with_buf [] s) = parse_byte C (?f ! ?k) (fold (parse_byte C) (take ?k ?f) (with_buf [] s))"
    by (subst f [symmetric]) simp
  also have "\<dots> = with_buf [] (on_complete_packet C (with_buf ?f s))"
    using parse_byte_step [OF k(2), of C "?f ! ?k" s] accept_frame [OF assms k(1)] e
    by (simp add: parse_prefix [OF assms k(1)] f)
  finally show ?thesis by (simp add: complete_frame [OF assms])
qed

lemma parse_noise:
  assumes "hd kHeader \<notin> set noise"
  shows "fold (parse_byte C) noise (with_buf [] s) = with_buf [] s"
  using assms
proof (induction noise)
  case (Cons b bs)
  have "\<not> accept_byte_at [] b" using Cons.prems by (simp add: accept_byte_at_def kHeader_def)
  then show ?case using Cons parse_byte_step [of "[]" C b s] by (simp add: kBufferSize_def)
qed simp

text \<open>
  The frames in a stream, in order and disjoint, with anything between them.
\<close>

inductive carries :: "u8 list \<Rightarrow> (u8 \<times> u8 list) list \<Rightarrow> bool" where
  carries_none: "carries bs []"
| carries_gap: "carries bs ps \<Longrightarrow> carries (g @ bs) ps"
| carries_frame: "carries bs ps \<Longrightarrow> length p \<le> 255 \<Longrightarrow> carries (improv_frame t p @ bs) ((t, p) # ps)"

lemma parse_stream:
  assumes "parse_ok buf"
  shows "\<exists>ps b. carries (buf @ bs) ps \<and>
    fold (parse_byte C) bs (with_buf buf s) = with_buf b (fold (handle_packet C) ps s)"
  using assms
proof (induction bs arbitrary: buf s)
  case Nil
  then show ?case by (metis carries_none fold_simps(1))
next
  case (Cons x bs)
  note step = parse_byte_step [OF parse_ok_room [OF Cons.prems], of C x s]
  consider (reject) "\<not> accept_byte_at buf x" | (grow) "accept_byte_at buf x" "\<not> ends_packet (buf @ [x])"
    | (full) "accept_byte_at buf x" "ends_packet (buf @ [x])" by blast
  then show ?case
  proof cases
    case reject
    obtain ps b where 1: "carries bs ps" "fold (parse_byte C) bs (with_buf [] s) = with_buf b (fold (handle_packet C) ps s)"
      using Cons.IH [of "[]" s] by auto
    then have "carries ((buf @ [x]) @ bs) ps" by (intro carries_gap)
    then show ?thesis using 1(2) step reject by (metis append.assoc append_Cons append_Nil fold_simps(2))
  next
    case grow
    show ?thesis using Cons.IH [OF accept_grows [OF Cons.prems grow], of s] step grow by simp
  next
    case full
    define t p where "t = (buf @ [x]) ! 7" and "p = take (unat ((buf @ [x]) ! 8)) (drop 9 (buf @ [x]))"
    have f: "buf @ [x] = improv_frame t p" "length p \<le> 255"
      using completes_frame [OF Cons.prems full] by (simp_all add: t_def p_def)
    obtain ps b where 1: "carries bs ps" "fold (parse_byte C) bs (with_buf [] (handle_packet C (t, p) s)) =
        with_buf b (fold (handle_packet C) ps (handle_packet C (t, p) s))"
      using Cons.IH [of "[]" "handle_packet C (t, p) s"] by auto
    have "carries ((buf @ [x]) @ bs) ((t, p) # ps)" unfolding f(1) by (rule carries_frame [OF 1(1) f(2)])
    moreover have "parse_byte C x (with_buf buf s) = with_buf [] (handle_packet C (t, p) s)"
      using step full f by (simp add: complete_frame)
    ultimately show ?thesis using 1(2) by (metis append.assoc append_Cons append_Nil fold_simps(2))
  qed
qed

lemma feed_frames:
  assumes "\<forall>(g, t, p) \<in> set xs. hd kHeader \<notin> set g \<and> length p \<le> 255"
  shows "fold (parse_byte C) (concat (map (\<lambda>(g, t, p). g @ improv_frame t p) xs)) (with_buf [] s) =
    with_buf [] (fold (handle_packet C) (map snd xs) s)"
  using assms
proof (induction xs arbitrary: s)
  case (Cons x xs)
  obtain g t p where x: "x = (g, t, p)" by (cases x)
  show ?case using Cons x by (simp add: parse_noise parse_frame)
qed simp

lemma idle_buf: "im_buf im = [] \<Longrightarrow> with_buf [] (im, w) = (im, w)"
  by (simp add: with_buf_def)

text \<open>C35: frames that arrive between stretches of other bytes are handled, each once, whole and in order, as long as the
  first letter of a header does not occur in the stretches (behind a lone one the next frame is lost, as shown below):
  encoding packets as frames and feeding the stream to the parser gives back exactly these packets.\<close>

theorem frames_roundtrip:
  assumes "im_armed im" and "im_buf im = []" and "\<forall>(g, t, p) \<in> set xs. hd kHeader \<notin> set g \<and> length p \<le> 255"
  shows "feed_bytes C (concat (map (\<lambda>(g, t, p). g @ improv_frame t p) xs)) (im, w) =
    with_buf [] (fold (handle_packet C) (map snd xs) (im, w))"
  using feed_frames [OF assms(3), of C "(im, w)"] assms(1,2) by (simp add: feed_bytes_def idle_buf)

definition improv_ex :: improv where
  "improv_ex = improv_new \<lparr>dev_family = 0, dev_name = None, dev_version = None, dev_device = None, dev_url = None\<rparr>"

definition backend_ex :: "u8 list wifi_backend" where
  "backend_ex = \<lparr>bk_connected = (\<lambda>w. False), bk_ip = (\<lambda>w. []), bk_try = (\<lambda>s p w. (False, w)), bk_start_scan = id,
     bk_scan_result = (\<lambda>w. 2), bk_ap = (\<lambda>i w. \<lparr>ap_ssid = [0x61], ap_rssi = - int i, ap_auth = True\<rparr>), bk_clear = id\<rparr>"

definition cfg_ex :: "u8 list improv_cfg" where
  "cfg_ex = \<lparr>ig_backend = Some backend_ex, ig_write = Some (\<lambda>bs w. w @ bs), ig_window = 1000, ig_on_error = None,
     ig_on_connected = None\<rparr>"

lemma frames_roundtrip_witness:
  "feed_bytes cfg_ex (concat (map (\<lambda>(g, t, p). g @ improv_frame t p) [([0x0A], 3, [2, 0]), ([], 3, [4, 0])])) (improv_ex, []) =
    with_buf [] (fold (handle_packet cfg_ex) (map snd [([0x0A], 3, [2, 0]), ([] :: u8 list, 3, [4, 0])]) (improv_ex, []))"
  by (rule frames_roundtrip) (simp_all add: improv_ex_def improv_new_def kHeader_def)

text \<open>C17: nothing but a frame is ever acted on: whatever is fed, the packets that were handled are frames with a right
  version and checksum that stand in the stream, disjoint and in order.\<close>

theorem only_frames_handled:
  assumes "im_armed im" and "im_buf im = []"
  shows "\<exists>ps b. carries bs ps \<and> feed_bytes C bs (im, w) = with_buf b (fold (handle_packet C) ps (im, w))"
  using parse_stream [of "[]" bs C "(im, w)"] assms by (simp add: feed_bytes_def idle_buf)

lemma only_frames_handled_witness:
  "\<exists>ps b. carries [0x49, 0x4D] ps \<and> feed_bytes cfg_ex [0x49, 0x4D] (improv_ex, []) = with_buf b (fold (handle_packet cfg_ex) ps (improv_ex, []))"
  by (rule only_frames_handled) (simp_all add: improv_ex_def improv_new_def)

text \<open>
  The byte that breaks a header is not looked at again: a frame behind a lone first letter is lost.
\<close>

lemma frame_lost_behind_I:
  assumes "im_armed im" and "im_buf im = []" and "hd kHeader \<notin> set (tl (improv_frame t p))"
  shows "feed_bytes C (hd kHeader # improv_frame t p) (im, w) = (im, w)"
proof -
  have f: "improv_frame t p = hd kHeader # tl (improv_frame t p)" by (simp add: improv_frame_def frame_head_def kHeader_def)
  have "fold (parse_byte C) (hd kHeader # hd kHeader # tl (improv_frame t p)) (with_buf [] (im, w)) = with_buf [] (im, w)"
    using parse_noise [OF assms(3), of C] parse_byte_step [of "[]" C "hd kHeader"] parse_byte_step [of "[hd kHeader]" C "hd kHeader"]
    by (simp add: kBufferSize_def accept_byte_at_def kHeader_def ends_packet_def)
  then show ?thesis using assms(1,2) by (subst f) (simp add: feed_bytes_def idle_buf)
qed

subsection \<open>Requests to join a network\<close>

text \<open>The payload of the request, as a client encodes it, and the window of lengths that is served.\<close>

definition wifi_request :: "u8 list \<Rightarrow> u8 list \<Rightarrow> u8 list" where
  "wifi_request ssid pw =
     [CmdWifiSettings, of_nat (2 + length ssid + length pw), of_nat (length ssid)] @ ssid @ [of_nat (length pw)] @ pw"

definition settings_ok :: "u8 list \<Rightarrow> u8 list \<Rightarrow> bool" where
  "settings_ok ssid pw \<longleftrightarrow> ssid \<noteq> [] \<and> length ssid \<le> 32 \<and> (pw = [] \<or> 8 \<le> length pw) \<and> length pw \<le> 63"

lemma parse_wifi_request:
  assumes "length ssid \<le> 32" and "length pw \<le> 63"
  shows "parse_payload False (wifi_request ssid pw) =
    \<lparr>ic_command = CmdWifiSettings, ic_ssid = ssid, ic_password = pw\<rparr>"
proof -
  let ?d = "wifi_request ssid pw"
  have l: "length ?d = 4 + length ssid + length pw" by (simp add: wifi_request_def)
  have n: "?d ! 0 = CmdWifiSettings" "?d ! 1 = of_nat (2 + length ssid + length pw)" "?d ! 2 = of_nat (length ssid)"
    "?d ! (3 + length ssid) = of_nat (length pw)"
    by (simp_all add: wifi_request_def nth_append)
  have u: "unat (of_nat (2 + length ssid + length pw) :: u8) = 2 + length ssid + length pw"
    "unat (of_nat (length ssid) :: u8) = length ssid" "unat (of_nat (length pw) :: u8) = length pw"
    using assms by (simp_all only: unat_of_nat) simp_all
  have dr: "drop (length xs) (xs @ pw) = pw" for xs :: "u8 list" by simp
  have dr: "drop (4 + length ssid) (a # b # c # ssid @ x # pw) = pw" for a b c x
    using dr [of "[a, b, c] @ ssid @ [x]"] by (simp add: eval_nat_numeral)
  have t: "take (length ssid) (drop 3 ?d) = ssid" "take (length pw) (drop (3 + length ssid + 1) ?d) = pw"
    by (simp_all add: wifi_request_def dr)
  show ?thesis unfolding parse_payload_def Let_def n u l t(1) by (simp add: n u t(2) [simplified])
qed

lemma length_wifi_request: "length ssid \<le> 32 \<Longrightarrow> length pw \<le> 63 \<Longrightarrow> length (wifi_request ssid pw) \<le> 255"
  by (simp add: wifi_request_def)

lemma handle_wifi_request:
  assumes "settings_ok ssid pw"
  shows "handle_packet C (FrRpc, wifi_request ssid pw) (im, w) = (im, handle_wifi_settings C im ssid pw w)"
  using assms by (simp add: handle_packet_def settings_ok_def parse_wifi_request dispatch_simps)

subsection \<open>The order of the scan\<close>

definition rssi_at :: "ap_record list \<Rightarrow> nat list \<Rightarrow> nat \<Rightarrow> int" where
  "rssi_at aps order k = ap_rssi (aps ! (order ! k))"

lemma swap_if_cases:
  "(swap_if aps i j order = order \<and> rssi_at aps order j \<le> rssi_at aps order i) \<or>
   (swap_if aps i j order = order[i := order ! j, j := order ! i] \<and> rssi_at aps order i < rssi_at aps order j)"
  by (auto simp: swap_if_def rssi_at_def)

text \<open>One pass of the inner loop, up to \<open>m\<close>.\<close>

definition pass_ok :: "ap_record list \<Rightarrow> nat \<Rightarrow> nat \<Rightarrow> nat list \<Rightarrow> nat list \<Rightarrow> bool" where
  "pass_ok aps i m order r \<longleftrightarrow>
     mset r = mset order \<and> (\<forall>k < length order. k < i \<or> m \<le> k \<longrightarrow> r ! k = order ! k) \<and>
     (\<forall>k. i \<le> k \<and> k < m \<longrightarrow> (\<exists>l. i \<le> l \<and> l < m \<and> r ! k = order ! l)) \<and>
     (\<forall>k. i < k \<and> k < m \<longrightarrow> rssi_at aps r k \<le> rssi_at aps r i)"

lemma pass_step:
  assumes "pass_ok aps i m order r" and "i < m" and "m < length order"
  shows "pass_ok aps i (Suc m) order (swap_if aps i m r)"
proof -
  have l: "length r = length order" using assms(1) by (metis pass_ok_def size_mset)
  have m: "r ! m = order ! m" using assms by (simp add: pass_ok_def)
  have e: "\<forall>k. i \<le> k \<and> k < m \<longrightarrow> (\<exists>l. i \<le> l \<and> l < Suc m \<and> r ! k = order ! l)"
    using assms(1) less_SucI unfolding pass_ok_def by blast
  from swap_if_cases [of aps i m r] show ?thesis
  proof (elim disjE conjE)
    assume s: "swap_if aps i m r = r" "rssi_at aps r m \<le> rssi_at aps r i"
    have "\<forall>k. i \<le> k \<and> k < Suc m \<longrightarrow> (\<exists>l. i \<le> l \<and> l < Suc m \<and> r ! k = order ! l)"
      using e m assms(2) by (metis less_SucE less_imp_le_nat lessI)
    then show ?thesis using assms(1) s by (auto simp: pass_ok_def less_Suc_eq)
  next
    let ?r = "r[i := r ! m, m := r ! i]"
    assume s: "swap_if aps i m r = ?r" "rssi_at aps r i < rssi_at aps r m"
    have n: "?r ! k = (if k = m then r ! i else if k = i then r ! m else r ! k)" if "k < length order" for k
      using that l assms(2,3) by (simp add: nth_list_update)
    have "mset ?r = mset r" using assms(2,3) l by (intro mset_swap) simp_all
    then have "mset ?r = mset order" using assms(1) by (simp add: pass_ok_def)
    moreover have "\<forall>k < length order. k < i \<or> Suc m \<le> k \<longrightarrow> ?r ! k = order ! k"
      using assms n by (simp add: pass_ok_def)
    moreover have "\<exists>l. i \<le> l \<and> l < Suc m \<and> ?r ! k = order ! l" if "i \<le> k \<and> k < Suc m" for k
    proof -
      have "?r ! k = (if k = m then r ! i else if k = i then order ! m else r ! k)" using n [of k] that m assms(3) by simp
      then show ?thesis using that e assms(2) by (metis less_SucE less_imp_le_nat lessI order_refl)
    qed
    moreover have "rssi_at aps ?r k \<le> rssi_at aps ?r i" if "i < k \<and> k < Suc m" for k
      using that n [of k] n [of i] s(2) assms by (cases "k = m") (fastforce simp: pass_ok_def rssi_at_def)+
    ultimately show ?thesis unfolding s(1) pass_ok_def by blast
  qed
qed

lemma pass_fold:
  assumes "i < m" and "m \<le> length order"
  shows "pass_ok aps i m order (fold (swap_if aps i) [i + 1..<m] order)"
  using assms
proof (induction m)
  case (Suc m)
  show ?case
  proof (cases "i = m")
    case True
    then show ?thesis by (auto simp: pass_ok_def)
  next
    case False
    then have "i < m" "m < length order" using Suc.prems by simp_all
    moreover have "pass_ok aps i m order (fold (swap_if aps i) [i + 1..<m] order)"
      using Suc False by simp
    ultimately show ?thesis using pass_step [of aps i m order] by simp
  qed
qed simp

definition ranked_to :: "ap_record list \<Rightarrow> nat \<Rightarrow> nat list \<Rightarrow> bool" where
  "ranked_to aps i order \<longleftrightarrow> (\<forall>a b. a < i \<and> a < b \<and> b < length order \<longrightarrow> rssi_at aps order b \<le> rssi_at aps order a)"

lemma pass_ranks:
  assumes "ranked_to aps i order" and "pass_ok aps i (length order) order r"
  shows "ranked_to aps (Suc i) r"
proof -
  have l: "length r = length order" using assms(2) by (metis pass_ok_def size_mset)
  have "rssi_at aps r b \<le> rssi_at aps r a" if h: "a < Suc i" "a < b" "b < length r" for a b
  proof (cases "a = i")
    case True
    then show ?thesis using h l assms(2) by (simp add: pass_ok_def)
  next
    case False
    then have a: "a < i" "r ! a = order ! a" using h l assms(2) by (auto simp: pass_ok_def)
    obtain c where "a < c" "c < length order" "r ! b = order ! c"
    proof (cases "b < i")
      case True
      then show ?thesis using that [of b] h l assms(2) by (simp add: pass_ok_def)
    next
      case False
      then obtain c where "i \<le> c" "c < length order" "r ! b = order ! c"
        using h l assms(2) unfolding pass_ok_def by (metis not_less)
      then show ?thesis using that [of c] a by simp
    qed
    then show ?thesis using assms(1) a unfolding ranked_to_def rssi_at_def by metis
  qed
  then show ?thesis by (simp add: ranked_to_def)
qed

lemma rssi_order_ranks:
  "mset (rssi_order aps) = mset [0..<length aps] \<and> ranked_to aps (length aps) (rssi_order aps)"
proof -
  let ?n = "length aps"
  have "mset (fold (\<lambda>i. fold (swap_if aps i) [i + 1..<?n]) [0..<k] [0..<?n]) = mset [0..<?n] \<and>
      ranked_to aps k (fold (\<lambda>i. fold (swap_if aps i) [i + 1..<?n]) [0..<k] [0..<?n])" if "k \<le> ?n - 1" for k
    using that
  proof (induction k)
    case (Suc k)
    let ?o = "fold (\<lambda>i. fold (swap_if aps i) [i + 1..<?n]) [0..<k] [0..<?n]"
    have o: "mset ?o = mset [0..<?n]" "ranked_to aps k ?o" using Suc by simp_all
    have l: "length ?o = ?n" using arg_cong [OF o(1), of size] by simp
    have p: "pass_ok aps k ?n ?o (fold (swap_if aps k) [k + 1..<?n] ?o)" using Suc.prems l by (intro pass_fold) auto
    have s: "fold (\<lambda>i. fold (swap_if aps i) [i + 1..<?n]) [0..<Suc k] [0..<?n] = fold (swap_if aps k) [k + 1..<?n] ?o"
      by simp
    show ?case unfolding s using pass_ranks [OF o(2)] p o(1) l by (simp only: pass_ok_def) simp
  qed (simp add: ranked_to_def)
  from this [of "?n - 1"] have m: "mset (rssi_order aps) = mset [0..<?n]" and r: "ranked_to aps (?n - 1) (rssi_order aps)"
    unfolding rssi_order_def Let_def by simp_all
  have "length (rssi_order aps) = ?n" using arg_cong [OF m, of size] by simp
  then show ?thesis using m r by (auto simp: ranked_to_def)
qed

definition rssi_desc :: "ap_record list \<Rightarrow> bool" where
  "rssi_desc \<equiv> sorted_wrt (\<lambda>x y. ap_rssi y \<le> ap_rssi x)"

lemma ranked_list:
  defines "r \<equiv> \<lambda>aps. map (nth aps) (rssi_order aps)"
  shows "rssi_desc (r aps)" and "set (r aps) = set aps"
proof -
  have m: "mset (rssi_order aps) = mset [0..<length aps]" and k: "ranked_to aps (length aps) (rssi_order aps)"
    using rssi_order_ranks by blast+
  have l: "length (rssi_order aps) = length aps" using arg_cong [OF m, of size] by simp
  show "rssi_desc (r aps)"
    using k l by (simp add: rssi_desc_def r_def sorted_wrt_iff_nth_less ranked_to_def rssi_at_def)
  have "set (rssi_order aps) = {0..<length aps}" using arg_cong [OF m, of set_mset] by simp
  then show "set (r aps) = set aps" using nth_image [of "length aps" aps] by (simp add: r_def lessThan_atLeast0)
qed

definition first_of_name :: "ap_record list \<Rightarrow> nat \<Rightarrow> bool" where
  "first_of_name xs k \<longleftrightarrow> ap_ssid (xs ! k) \<noteq> [] \<and> (\<forall>e < k. ap_ssid (xs ! e) \<noteq> ap_ssid (xs ! k))"

lemma scan_sent_eq: "scan_sent xs = map (nth xs) (filter (first_of_name xs) [0..<length xs])"
  by (simp add: scan_sent_def first_of_name_def list_ex_iff atLeast0LessThan Ball_def cong: filter_cong)

lemma sent_sorted: "rssi_desc xs \<Longrightarrow> rssi_desc (scan_sent xs)"
proof -
  assume r: "rssi_desc xs"
  have "sorted_wrt (<) (filter (first_of_name xs) [0..<length xs])" by (simp add: sorted_wrt_filter)
  then have "sorted_wrt (\<lambda>a b. ap_rssi (xs ! b) \<le> ap_rssi (xs ! a)) (filter (first_of_name xs) [0..<length xs])"
    using r by (elim sorted_wrt_mono_rel [rotated]) (auto simp: rssi_desc_def sorted_wrt_iff_nth_less)
  then show ?thesis by (simp add: rssi_desc_def scan_sent_eq sorted_wrt_map)
qed

lemma sent_once: "distinct (map ap_ssid (scan_sent xs))"
proof -
  have "inj_on (\<lambda>k. ap_ssid (xs ! k)) (set (filter (first_of_name xs) [0..<length xs]))"
    by (rule inj_onI) (metis filter_is_subset first_of_name_def linorder_neqE_nat mem_Collect_eq set_filter)
  then show ?thesis by (simp add: scan_sent_eq distinct_map comp_def)
qed

lemma sent_first:
  assumes "x \<in> set (scan_sent xs)"
  shows "\<exists>k < length xs. x = xs ! k \<and> first_of_name xs k"
  using assms by (auto simp: scan_sent_eq)

lemma sent_names: "ap_ssid ` set (scan_sent xs) = ap_ssid ` set xs - {[]}"
proof (intro equalityI subsetI)
  fix s assume "s \<in> ap_ssid ` set (scan_sent xs)"
  then show "s \<in> ap_ssid ` set xs - {[]}" by (auto dest!: sent_first simp: first_of_name_def)
next
  fix s assume "s \<in> ap_ssid ` set xs - {[]}"
  then obtain k where k: "k < length xs \<and> ap_ssid (xs ! k) = s" and s: "s \<noteq> []" by (auto simp: in_set_conv_nth)
  define l where "l = (LEAST k. k < length xs \<and> ap_ssid (xs ! k) = s)"
  have l: "l < length xs" "ap_ssid (xs ! l) = s" using LeastI [of "\<lambda>k. k < length xs \<and> ap_ssid (xs ! k) = s" k] k
    by (simp_all add: l_def)
  have "ap_ssid (xs ! e) \<noteq> s" if "e < l" for e
    using not_less_Least [OF that [unfolded l_def]] that l(1) by simp
  then have "first_of_name xs l" using l s by (simp add: first_of_name_def)
  then have "xs ! l \<in> set (scan_sent xs)" using l(1) by (auto simp: scan_sent_eq)
  then show "s \<in> ap_ssid ` set (scan_sent xs)" using l(2) by blast
qed

lemma sent_strongest:
  assumes "rssi_desc xs" and "x \<in> set (scan_sent xs)"
  shows "x \<in> set xs" and "y \<in> set xs \<Longrightarrow> ap_ssid y = ap_ssid x \<Longrightarrow> ap_rssi y \<le> ap_rssi x"
proof -
  obtain k where k: "k < length xs" "x = xs ! k" "first_of_name xs k" using sent_first [OF assms(2)] by blast
  show "x \<in> set xs" using k by simp
  assume y: "y \<in> set xs" "ap_ssid y = ap_ssid x"
  obtain l where l: "l < length xs" "y = xs ! l" using y(1) by (auto simp: in_set_conv_nth)
  have "\<not> l < k" using k y(2) l(2) by (auto simp: first_of_name_def)
  then show "ap_rssi y \<le> ap_rssi x"
    using assms(1) k l by (cases "k = l") (auto simp: rssi_desc_def sorted_wrt_iff_nth_less)
qed

lemma scan_reply_correct:
  "distinct (map ap_ssid (scan_reply aps)) \<and> rssi_desc (scan_reply aps) \<and>
   ap_ssid ` set (scan_reply aps) = ap_ssid ` set aps - {[]} \<and>
   (\<forall>x \<in> set (scan_reply aps). x \<in> set aps \<and>
      (\<forall>y \<in> set aps. ap_ssid y = ap_ssid x \<longrightarrow> ap_rssi y \<le> ap_rssi x))"
proof -
  let ?r = "map (nth aps) (rssi_order aps)"
  note r = ranked_list [of aps]
  have "x \<in> set aps \<and> (\<forall>y \<in> set aps. ap_ssid y = ap_ssid x \<longrightarrow> ap_rssi y \<le> ap_rssi x)" if "x \<in> set (scan_sent ?r)" for x
    using sent_strongest [OF r(1) that] unfolding r(2) by blast
  then show ?thesis using sent_names [of ?r] unfolding r(2) by (simp add: scan_reply_def sent_once sent_sorted r(1))
qed

text \<open>C37: the answer to a scan names every network that was found once, with its strongest signal, strongest first,
  leaves out the nameless ones, ends with the empty response, and gives the scan back to the driver.\<close>

theorem scan_reported:
  assumes "ig_backend C = Some B" and "im_awaiting im" and "bk_scan_result B w = int n" and "0 < n"
  defines "aps \<equiv> map (\<lambda>i. bk_ap B i w) [0..<n]"
  shows "\<exists>xs. pump_scan C (im, w) = (im\<lparr>im_awaiting := False\<rparr>, bk_clear B (emit_rpc_response C CmdGetWifiNetworks []
      (fold (\<lambda>ap. emit_rpc_response C CmdGetWifiNetworks (ap_fields ap)) xs w))) \<and>
    distinct (map ap_ssid xs) \<and> rssi_desc xs \<and> ap_ssid ` set xs = ap_ssid ` set aps - {[]} \<and>
    (\<forall>x \<in> set xs. x \<in> set aps \<and> (\<forall>y \<in> set aps. ap_ssid y = ap_ssid x \<longrightarrow> ap_rssi y \<le> ap_rssi x))"
proof -
  have "pump_scan C (im, w) = (im\<lparr>im_awaiting := False\<rparr>, bk_clear B (emit_rpc_response C CmdGetWifiNetworks []
      (fold (\<lambda>ap. emit_rpc_response C CmdGetWifiNetworks (ap_fields ap)) (scan_reply aps) w)))"
    using assms(1-4) by (simp add: pump_scan_def Let_def kScanRunning_def kScanFailed_def aps_def)
  then show ?thesis using scan_reply_correct [of aps] by blast
qed

lemma scan_reported_witness:
  "\<exists>xs. pump_scan cfg_ex (improv_ex\<lparr>im_awaiting := True\<rparr>, []) =
     (improv_ex, emit_rpc_response cfg_ex CmdGetWifiNetworks []
       (fold (\<lambda>ap. emit_rpc_response cfg_ex CmdGetWifiNetworks (ap_fields ap)) xs [])) \<and>
     ap_ssid ` set xs = {[0x61]}"
proof -
  let ?im = "improv_ex\<lparr>im_awaiting := True\<rparr>"
  have b: "ig_backend cfg_ex = Some backend_ex" "bk_scan_result backend_ex [] = int 2" "bk_clear backend_ex = id"
    by (simp_all add: cfg_ex_def backend_ex_def)
  have i: "?im\<lparr>im_awaiting := False\<rparr> = improv_ex" by (simp add: improv_ex_def improv_new_def)
  have "ap_ssid ` set (map (\<lambda>i. bk_ap backend_ex i []) [0..<2]) - {[]} = {[0x61]}"
    by (simp add: backend_ex_def upt_rec)
  then show ?thesis using scan_reported [OF b(1) _ b(2), of ?im] unfolding i b(3) by auto
qed

subsection \<open>What the core asks of a Wi-Fi side\<close>

text \<open>
  The contract of \<^verbatim>\<open>WiFiBackend\<close> and of the callbacks: an attempt that reports success leaves the device
  connected, and neither writing to the console nor the callbacks take the connection down.
\<close>

locale wifi_link =
  fixes C :: "'w improv_cfg" and B :: "'w wifi_backend" and wr :: "u8 list \<Rightarrow> 'w \<Rightarrow> 'w"
    and joined :: "string \<Rightarrow> string \<Rightarrow> 'w \<Rightarrow> 'w"
  assumes backend: "ig_backend C = Some B" and writer: "ig_write C = Some wr" and callback: "ig_on_connected C = Some joined"
    and try_connects: "bk_try B s p w = (True, w') \<Longrightarrow> bk_connected B w'"
    and wr_quiet: "bk_connected B (wr bs w) = bk_connected B w"
    and joined_quiet: "bk_connected B (joined s p w) = bk_connected B w"
begin

lemma frame_quiet: "bk_connected B (write_frame C t p w) = bk_connected B w"
  by (simp add: write_frame_def writer wr_quiet)

lemma rpc_quiet: "bk_connected B (emit_rpc_response C cmd fs w) = bk_connected B w"
  by (simp add: emit_rpc_response_def emit_error_def frame_quiet split: option.split)

lemma settings_connect:
  assumes "settings_ok ssid pw" and "bk_try B (cstr ssid) (cstr pw) (emit_state C StProvisioning w) = (True, w2)"
  shows "improv_connected C (handle_wifi_settings C im ssid pw w)"
proof -
  have l: "ssid \<noteq> []" "\<not> 32 < length ssid" "0 < length pw \<and> length pw < 8 \<longleftrightarrow> False" "\<not> 63 < length pw"
    using assms(1) by (auto simp: settings_ok_def)
  show ?thesis unfolding l(3) handle_wifi_settings_def if_False using l(1,2,4) assms(2) try_connects [OF assms(2)]
    by (simp add: improv_connected_def backend callback Let_def joined_quiet
        emit_device_url_def rpc_quiet emit_state_def emit_error_def frame_quiet)
qed

end

text \<open>The question for the state, and its answer.\<close>

definition state_request :: "u8 list" where "state_request = [CmdGetCurrentState, 0]"

lemma handle_state_request:
  "handle_packet C (FrRpc, state_request) (im, w) =
     (im, if improv_connected C w then emit_device_url C im CmdGetCurrentState (emit_state C StProvisioned w)
          else emit_state C StAuthorized w)"
proof -
  have "parse_payload False state_request = no_command CmdGetCurrentState"
    by (simp add: parse_payload_def state_request_def cmd_defs)
  then show ?thesis by (simp add: handle_packet_def dispatch_simps no_command_def)
qed

subsection \<open>The window\<close>

lemma tick_disarmed [simp]: "\<not> im_armed im \<Longrightarrow> improv_tick C now (im, w) = (im, w)"
  by (simp add: improv_tick_def)

lemma pump_fields:
  "im_armed (fst (pump_scan C s)) = im_armed (fst s)" "im_anchored (fst (pump_scan C s)) = im_anchored (fst s)"
  "im_deadline (fst (pump_scan C s)) = im_deadline (fst s)" "im_buf (fst (pump_scan C s)) = im_buf (fst s)"
  by (simp_all add: pump_scan_def Let_def split: option.split)

lemma tick_expires:
  assumes "im_armed im" and "im_anchored im" and "0 \<le> sint (now - im_deadline im)"
  shows "\<not> im_armed (fst (improv_tick C now (im, w)))"
  using assms by (simp add: improv_tick_def Let_def)

lemma tick_anchors:
  assumes "im_armed (fst (improv_tick C now (im, w)))"
  shows "im_anchored (fst (improv_tick C now (im, w)))"
    and "im_deadline (fst (improv_tick C now (im, w))) = (if im_anchored im then im_deadline im else now + ig_window C)"
  using assms by (auto simp: improv_tick_def Let_def pump_fields split: if_splits)

lemma tick_stays_closed: "\<not> im_armed (fst s) \<Longrightarrow> improv_tick C now s = s"
  by (simp add: improv_tick_def Let_def)

lemma disarmed_deaf: "\<not> im_armed (fst s) \<Longrightarrow> feed_bytes C bs s = s \<and> feed_byte C b s = s"
  by (simp add: feed_bytes_def feed_byte_def)

definition clock_fields :: "improv \<Rightarrow> bool \<times> bool \<times> u32" where
  "clock_fields im = (im_armed im, im_anchored im, im_deadline im)"

lemma networks_clock [simp]: "clock_fields (fst (handle_get_networks C s)) = clock_fields (fst s)"
  by (simp add: handle_get_networks_def clock_fields_def split: option.split)

lemma dispatch_clock [simp]: "clock_fields (fst (snd (dispatch_command C c s))) = clock_fields (fst s)"
  by (simp add: dispatch_command_def Let_def)

lemma parse_clock [simp]: "clock_fields (fst (parse_byte C b s)) = clock_fields (fst s)"
proof -
  have b: "clock_fields (im\<lparr>im_buf := x\<rparr>) = clock_fields im" for im x by (simp add: clock_fields_def)
  have c: "clock_fields (fst (on_complete_packet C s)) = clock_fields (fst s)" for s :: "improv \<times> 'a"
    by (simp add: on_complete_packet_def Let_def)
  show ?thesis using c [of "((fst s)\<lparr>im_buf := im_buf (fst s) @ [b]\<rparr>, snd s)"]
    by (simp add: parse_byte_def Let_def b case_prod_unfold)
qed

lemma feed_clock [simp]: "clock_fields (fst (feed_bytes C bs s)) = clock_fields (fst s)"
proof -
  have "clock_fields (fst (fold (parse_byte C) bs s)) = clock_fields (fst s)"
    by (induction bs arbitrary: s) simp_all
  then show ?thesis by (simp add: feed_bytes_def)
qed

end
