(* ===== verification/ImprovBackend.thy ===== *)
theory ImprovBackend
  imports Improv Net
begin

text \<open>
  \<^verbatim>\<open>EspIdfWiFiBackend\<close> (\<^verbatim>\<open>backend_idf.cpp\<close>): the methods that the provisioning core calls, over the Wi-Fi
  driver of ESP-IDF.  The atomics and the cache of the object are the fields \<open>be_\<close> of the record; the
  calls into the driver are recorded in \<open>be_calls\<close> and \<open>drv_ret D\<close> gives their result.  The handlers of
  the object run in the event task: what they see while \<^verbatim>\<open>tryConnect\<close> sleeps is its script, the events
  of each sleep, and the script ends where the deadline has passed.
\<close>

subsection \<open>State\<close>

record sta_cfg =
  sc_ssid :: string
  sc_pass :: string
  sc_wpa2 :: bool
  sc_strongest :: bool

datatype drv_call =
    DrvNetifInit | DrvEventLoop | DrvCreateSta | DrvWifiInit | DrvStorageRam | DrvModeSta | DrvBindWifi | DrvBindIp
  | DrvStart | DrvDisconnect | DrvSetConfig sta_cfg | DrvConnect | DrvScan nat | DrvGetApNum | DrvGetApRecords

text \<open>A record of a scan: the name is an array of 33 bytes.\<close>

record scan_rec =
  sr_ssid :: "u8 list"
  sr_rssi :: int
  sr_open :: bool

datatype idf_event =
    BeConnected | BeDisconnected | BeScanDone "(nat \<times> scan_rec list option) option" | BeOther | BeGotIp ip4

text \<open>What one call of \<^verbatim>\<open>tryConnect\<close> meets: the events while the old link goes, and those of each poll.\<close>

record try_script =
  ts_drop :: "idf_event list list"
  ts_polls :: "idf_event list list"

record drv_env =
  drv_ret :: "drv_call \<Rightarrow> esp_err"
  opt_strongest :: bool
  opt_scan_ms :: nat

record idf_backend =
  be_netif :: bool
  be_base :: bool
  be_bound :: bool
  be_connected :: bool
  be_connecting :: bool
  be_got_ip :: bool
  be_failed :: bool
  be_scanning :: bool
  be_scan_failed :: bool
  be_count :: nat
  be_cache :: "scan_rec list"
  be_ip :: "ip4 option"
  be_scripts :: "try_script list"
  be_calls :: "drv_call list"

definition blank_rec :: scan_rec where "blank_rec = \<lparr>sr_ssid = replicate 33 0, sr_rssi = 0, sr_open = True\<rparr>"

definition drv :: "drv_call \<Rightarrow> idf_backend \<Rightarrow> idf_backend" where
  "drv c s = s\<lparr>be_calls := be_calls s @ [c]\<rparr>"

text \<open>\<^verbatim>\<open>er != ESP_OK && er != ESP_ERR_INVALID_STATE\<close>.\<close>

definition drv_fails :: "drv_env \<Rightarrow> drv_call \<Rightarrow> bool" where
  "drv_fails D c \<longleftrightarrow> drv_ret D c \<noteq> ESP_OK \<and> drv_ret D c \<noteq> ESP_ERR_INVALID_STATE"

subsection \<open>Construction\<close>

text \<open>\<open>have_netif\<close> is whether the station interface exists already.\<close>

definition ensure_base_init :: "drv_env \<Rightarrow> bool \<Rightarrow> idf_backend \<Rightarrow> idf_backend" where
  "ensure_base_init D have_netif s =
     (if be_base s then s
      else
        let s1 = drv DrvNetifInit s
        in if drv_fails D DrvNetifInit then s1
           else
             let s2 = drv DrvEventLoop s1
             in if drv_fails D DrvEventLoop then s2
                else
                  let s3 = (if have_netif then s2\<lparr>be_netif := True\<rparr>
                            else (drv DrvCreateSta s2)\<lparr>be_netif := drv_ret D DrvCreateSta = ESP_OK\<rparr>);
                      s4 = drv DrvWifiInit s3
                  in if drv_fails D DrvWifiInit then s4
                     else
                       let s5 = (drv DrvBindIp (drv DrvBindWifi (drv DrvModeSta (drv DrvStorageRam s4))))\<lparr>be_bound := True\<rparr>;
                           s6 = drv DrvStart s5
                       in if drv_fails D DrvStart then s6 else s6\<lparr>be_base := True\<rparr>)"

definition backend_new :: "try_script list \<Rightarrow> idf_backend" where
  "backend_new scripts =
     \<lparr>be_netif = False, be_base = False, be_bound = False, be_connected = False, be_connecting = False, be_got_ip = False,
      be_failed = False, be_scanning = False, be_scan_failed = False, be_count = 0, be_cache = [], be_ip = None,
      be_scripts = scripts, be_calls = []\<rparr>"

subsection \<open>Events\<close>

text \<open>
  \<^verbatim>\<open>BeScanDone\<close> carries what the driver would answer: the number of access points, and their records,
  which it hands out once.
\<close>

fun on_event :: "idf_event \<Rightarrow> idf_backend \<Rightarrow> idf_backend" where
  "on_event BeConnected s = s\<lparr>be_connected := True\<rparr>"
| "on_event BeDisconnected s =
     (let s1 = s\<lparr>be_connected := False, be_got_ip := False\<rparr>
      in if be_connecting s1 then s1\<lparr>be_failed := True\<rparr> else s1)"
| "on_event (BeScanDone r) s =
     (let s1 = s\<lparr>be_scanning := False\<rparr>
      in if \<not> be_scanning s then s1
         else case r of
           None \<Rightarrow> (drv DrvGetApNum s1)\<lparr>be_count := 0\<rparr>
         | Some (n, recs) \<Rightarrow>
             let s2 = drv DrvGetApNum s1
             in if n = 0 then s2\<lparr>be_count := 0\<rparr>
                else
                  let s3 = (drv DrvGetApRecords s2)\<lparr>be_cache := replicate n blank_rec\<rparr>
                  in case recs of
                       None \<Rightarrow> s3\<lparr>be_scan_failed := True, be_count := 0\<rparr>
                     | Some xs \<Rightarrow>
                         let got = take n xs
                         in s3\<lparr>be_count := length got, be_cache := got @ drop (length got) (be_cache s3)\<rparr>)"
| "on_event BeOther s = s"
| "on_event (BeGotIp ip) s = s\<lparr>be_got_ip := True, be_ip := Some ip\<rparr>"

subsection \<open>Methods\<close>

definition be_is_connected :: "idf_backend \<Rightarrow> bool" where
  "be_is_connected s \<longleftrightarrow> be_connected s \<and> be_got_ip s"

definition be_current_ip :: "idf_backend \<Rightarrow> u8 list" where
  "be_current_ip s =
     (if \<not> be_got_ip s \<or> \<not> be_netif s then []
      else case be_ip s of
        None \<Rightarrow> []
      | Some ip \<Rightarrow> if ip = (0, 0, 0, 0) then [] else bytes (fmt_s 16 (ip_str ip)))"

text \<open>The copies of name and password leave room for a terminator.\<close>

definition sta_config :: "drv_env \<Rightarrow> string \<Rightarrow> string \<Rightarrow> sta_cfg" where
  "sta_config D ssid password =
     \<lparr>sc_ssid = take (32 - 1) ssid, sc_pass = take (64 - 1) password, sc_wpa2 = (password \<noteq> []),
      sc_strongest = opt_strongest D\<rparr>"

fun drop_wait :: "nat \<Rightarrow> idf_event list list \<Rightarrow> idf_backend \<Rightarrow> idf_backend" where
  "drop_wait 0 ds s = s"
| "drop_wait (Suc n) ds s =
     (if be_connected s then (case ds of [] \<Rightarrow> s | d # ds' \<Rightarrow> drop_wait n ds' (fold on_event d s)) else s)"

fun connect_wait :: "drv_env \<Rightarrow> bool \<Rightarrow> idf_event list list \<Rightarrow> idf_backend \<Rightarrow> bool \<times> idf_backend" where
  "connect_wait D retried [] s = (be_connected s \<and> be_got_ip s, s\<lparr>be_connecting := False\<rparr>)"
| "connect_wait D retried (evs # ps) s =
     (if be_connected s \<and> be_got_ip s then (True, s\<lparr>be_connecting := False\<rparr>)
      else if be_failed s
      then (let s1 = s\<lparr>be_failed := False\<rparr>
            in if retried then (False, s1\<lparr>be_connecting := False\<rparr>)
               else connect_wait D True ps (fold on_event evs (drv DrvConnect s1)))
      else connect_wait D retried ps (fold on_event evs s))"

definition be_try_connect :: "drv_env \<Rightarrow> string \<Rightarrow> string \<Rightarrow> idf_backend \<Rightarrow> bool \<times> idf_backend" where
  "be_try_connect D ssid password s =
     (if \<not> be_base s then (False, s)
      else
        let t = (case be_scripts s of [] \<Rightarrow> \<lparr>ts_drop = [], ts_polls = []\<rparr> | t # _ \<Rightarrow> t);
            c = sta_config D ssid password;
            s1 = drop_wait 50 (ts_drop t) (drv DrvDisconnect (s\<lparr>be_connecting := False, be_scripts := tl (be_scripts s)\<rparr>));
            s2 = drv (DrvSetConfig c) s1
        in if drv_ret D (DrvSetConfig c) \<noteq> ESP_OK then (False, s2)
           else
             let s3 = drv DrvConnect (s2\<lparr>be_connected := False, be_got_ip := False, be_failed := False, be_connecting := True\<rparr>)
             in if drv_ret D DrvConnect \<noteq> ESP_OK then (False, s3\<lparr>be_connecting := False\<rparr>)
                else connect_wait D False (ts_polls t) s3)"

definition be_start_scan :: "drv_env \<Rightarrow> idf_backend \<Rightarrow> idf_backend" where
  "be_start_scan D s =
     (if \<not> be_base s then s
      else
        let s1 = drv (DrvScan (opt_scan_ms D)) (s\<lparr>be_cache := [], be_count := 0, be_scan_failed := False, be_scanning := True\<rparr>)
        in if drv_ret D (DrvScan (opt_scan_ms D)) \<noteq> ESP_OK then s1\<lparr>be_scanning := False, be_scan_failed := True\<rparr> else s1)"

definition be_scan_result :: "idf_backend \<Rightarrow> int" where
  "be_scan_result s =
     (if be_scanning s then kScanRunning else if be_scan_failed s then kScanFailed else int (be_count s))"

definition be_ap_record :: "nat \<Rightarrow> idf_backend \<Rightarrow> ap_record" where
  "be_ap_record i s =
     (if length (be_cache s) \<le> i then \<lparr>ap_ssid = [], ap_rssi = 0, ap_auth = False\<rparr>
      else
        let r = be_cache s ! i
        in \<lparr>ap_ssid = takeWhile (\<lambda>b. b \<noteq> 0) (sr_ssid r), ap_rssi = sr_rssi r, ap_auth = \<not> sr_open r\<rparr>)"

definition be_clear_scan :: "idf_backend \<Rightarrow> idf_backend" where
  "be_clear_scan s = s\<lparr>be_cache := [], be_count := 0, be_scan_failed := False, be_scanning := False\<rparr>"

subsection \<open>Connection attempts\<close>

lemma drv_simps [simp]:
  "be_connected (drv c s) = be_connected s" "be_got_ip (drv c s) = be_got_ip s" "be_failed (drv c s) = be_failed s"
  "be_connecting (drv c s) = be_connecting s" "be_base (drv c s) = be_base s" "be_calls (drv c s) = be_calls s @ [c]"
  "be_scanning (drv c s) = be_scanning s" "be_count (drv c s) = be_count s" "be_cache (drv c s) = be_cache s"
  "be_scan_failed (drv c s) = be_scan_failed s" "be_netif (drv c s) = be_netif s"
  by (simp_all add: drv_def)

lemma wait_joined: "connect_wait D r ps s = (True, s') \<Longrightarrow> be_is_connected s' \<and> \<not> be_connecting s'"
  by (induction D r ps s rule: connect_wait.induct) (auto simp: be_is_connected_def Let_def split: if_splits)

lemma try_joined:
  assumes "be_try_connect D ssid pw s = (True, s')"
  shows "be_is_connected s'"
  using assms wait_joined by (auto simp: be_try_connect_def Let_def split: if_splits)

definition connects :: "drv_call list \<Rightarrow> nat" where
  "connects cs = length (filter (\<lambda>c. c = DrvConnect) cs)"

lemma connects_simps [simp]:
  "connects [] = 0" "connects (c # cs) = (if c = DrvConnect then 1 else 0) + connects cs" "connects (xs @ ys) = connects xs + connects ys"
  by (simp_all add: connects_def)

lemma event_calls: "\<exists>x. be_calls (on_event e s) = be_calls s @ x \<and> set x \<subseteq> {DrvGetApNum, DrvGetApRecords}"
  by (cases e) (auto simp: Let_def split: option.split)

lemma events_calls: "\<exists>x. be_calls (fold on_event evs s) = be_calls s @ x \<and> set x \<subseteq> {DrvGetApNum, DrvGetApRecords}"
proof (induction evs arbitrary: s)
  case (Cons e evs)
  obtain x where x: "be_calls (on_event e s) = be_calls s @ x" "set x \<subseteq> {DrvGetApNum, DrvGetApRecords}"
    using event_calls by blast
  obtain y where y: "be_calls (fold on_event evs (on_event e s)) = be_calls (on_event e s) @ y"
    "set y \<subseteq> {DrvGetApNum, DrvGetApRecords}"
    using Cons by blast
  then show ?case using x by (intro exI [of _ "x @ y"]) simp
qed simp

lemma connects_events [simp]: "connects (be_calls (fold on_event evs s)) = connects (be_calls s)"
proof -
  obtain x where x: "be_calls (fold on_event evs s) = be_calls s @ x" "set x \<subseteq> {DrvGetApNum, DrvGetApRecords}"
    using events_calls by blast
  then have "filter (\<lambda>c. c = DrvConnect) x = []" by (auto simp: filter_empty_conv)
  then show ?thesis using x(1) by (simp add: connects_def)
qed

lemma connects_drop [simp]: "connects (be_calls (drop_wait n ds s)) = connects (be_calls s)"
  by (induction n ds s rule: drop_wait.induct) (auto split: list.split)

lemma wait_connects:
  "connects (be_calls (snd (connect_wait D r ps s))) \<le> connects (be_calls s) + (if r then 0 else 1)"
proof (induction D r ps s rule: connect_wait.induct)
  case (2 D r evs ps s)
  then show ?case by (auto simp: Let_def)
qed simp

text \<open>One rejection is forgiven: with at most one more, the attempt ends as the link ends.\<close>

fun link_event :: "idf_event \<Rightarrow> bool \<times> bool \<Rightarrow> bool \<times> bool" where
  "link_event BeConnected l = (True, snd l)"
| "link_event BeDisconnected l = (False, False)"
| "link_event (BeGotIp ip) l = (fst l, True)"
| "link_event (BeScanDone r) l = l"
| "link_event BeOther l = l"

definition link :: "idf_backend \<Rightarrow> bool \<times> bool" where
  "link s = (be_connected s, be_got_ip s)"

definition rejects :: "idf_event list \<Rightarrow> nat" where
  "rejects evs = length (filter (\<lambda>e. e = BeDisconnected) evs)"

lemma link_on_event: "link (on_event e s) = link_event e (link s)"
  by (cases e) (auto simp: link_def drv_def Let_def split: option.split)

lemma link_events: "link (fold on_event evs s) = fold link_event evs (link s)"
  by (induction evs arbitrary: s) (simp_all add: link_on_event)

lemma failed_events: "be_failed (fold on_event evs s) \<Longrightarrow> be_failed s \<or> 0 < rejects evs"
proof (induction evs arbitrary: s)
  case (Cons e evs)
  have "be_failed (on_event e s) \<Longrightarrow> be_failed s \<or> e = BeDisconnected"
    by (cases e) (auto simp: Let_def drv_def split: option.splits if_splits)
  then show ?case using Cons by (auto simp: rejects_def)
qed simp

lemma wait_forgives:
  assumes "of_bool r + of_bool (be_failed s) + rejects (concat ps) \<le> (1::nat)"
    and "fold link_event (concat ps) (link s) = (True, True)"
  shows "fst (connect_wait D r ps s)"
  using assms
proof (induction D r ps s rule: connect_wait.induct)
  case (2 D r evs ps s)
  have l: "fold link_event (concat ps) (link (fold on_event evs s')) = (True, True)" if "link s' = link s" for s'
    using 2(4) that by (simp add: link_events)
  have n: "rejects (concat (evs # ps)) = rejects evs + rejects (concat ps)" by (simp add: rejects_def)
  show ?case
  proof (cases "be_connected s \<and> be_got_ip s")
    case False
    show ?thesis
    proof (cases "be_failed s")
      case True
      let ?s = "drv DrvConnect (s\<lparr>be_failed := False\<rparr>)"
      have r: "\<not> r" "rejects evs = 0" "rejects (concat ps) = 0" using 2(3) True n by simp_all
      then have "\<not> be_failed (fold on_event evs ?s)" using failed_events [of evs ?s] by auto
      then show ?thesis using 2(1) [OF False True refl r(1)] l [of ?s] r False True by (simp add: link_def)
    next
      case nf: False
      have "of_bool (be_failed (fold on_event evs s)) \<le> rejects evs" using failed_events [of evs s] nf by auto
      then show ?thesis using 2(2) [OF False nf] 2(3) n l [of s] False nf by simp
    qed
  qed simp
qed (simp add: link_def)

lemma script_scan [simp]: "be_base (on_event e s) = be_base s"
  by (cases e) (auto simp: Let_def drv_def split: option.split)

text \<open>C36: a connection attempt puts up with one rejection, as routers answer the first probe behind a disconnect:
  if the link is up when the attempt's time is over and went down at most once in it, the attempt reports success, leaves
  the device connected and has asked the driver at most twice.\<close>

theorem attempt_forgives:
  assumes "be_base s" and "be_scripts s = t # ts" and "drv_ret D (DrvSetConfig (sta_config D ssid pw)) = ESP_OK"
    and "drv_ret D DrvConnect = ESP_OK" and "rejects (concat (ts_polls t)) \<le> 1"
    and "fold link_event (concat (ts_polls t)) (False, False) = (True, True)"
  shows "\<exists>s'. be_try_connect D ssid pw s = (True, s') \<and> be_is_connected s' \<and>
    connects (be_calls s') \<le> connects (be_calls s) + 2"
proof -
  let ?s1 = "drop_wait 50 (ts_drop t) (drv DrvDisconnect (s\<lparr>be_connecting := False, be_scripts := ts\<rparr>))"
  let ?s3 = "drv DrvConnect ((drv (DrvSetConfig (sta_config D ssid pw)) ?s1)\<lparr>be_connected := False, be_got_ip := False,
    be_failed := False, be_connecting := True\<rparr>)"
  have t: "be_try_connect D ssid pw s = connect_wait D False (ts_polls t) ?s3"
    using assms(1-4) by (simp add: be_try_connect_def Let_def)
  have "fst (connect_wait D False (ts_polls t) ?s3)"
    using assms(5,6) by (intro wait_forgives) (simp_all add: link_def)
  then obtain s' where r: "connect_wait D False (ts_polls t) ?s3 = (True, s')" by (metis prod.collapse)
  have "connects (be_calls ?s3) = connects (be_calls s) + 1" by simp
  then have "connects (be_calls s') \<le> connects (be_calls s) + 2"
    using wait_connects [of D False "ts_polls t" ?s3] r by simp
  then show ?thesis using t r wait_joined [OF r] by simp
qed

definition drv_ok :: drv_env where
  "drv_ok = \<lparr>drv_ret = (\<lambda>c. ESP_OK), opt_strongest = True, opt_scan_ms = 0\<rparr>"

definition try_ex_script :: try_script where
  "try_ex_script = \<lparr>ts_drop = [], ts_polls = [[BeDisconnected], [], [BeConnected], [BeGotIp (10, 0, 0, 7)]]\<rparr>"

lemma attempt_forgives_witness:
  "\<exists>s'. be_try_connect drv_ok ''home'' ''password'' ((backend_new [try_ex_script])\<lparr>be_base := True\<rparr>) = (True, s') \<and>
    be_is_connected s' \<and> connects (be_calls s') \<le> 2"
proof -
  let ?s = "(backend_new [try_ex_script])\<lparr>be_base := True\<rparr>"
  have "connects (be_calls ?s) = 0" by (simp add: backend_new_def)
  moreover have "be_base ?s" "be_scripts ?s = [try_ex_script]" by (simp_all add: backend_new_def)
  moreover have "rejects (concat (ts_polls try_ex_script)) \<le> 1"
    "fold link_event (concat (ts_polls try_ex_script)) (False, False) = (True, True)"
    by (simp_all add: try_ex_script_def rejects_def)
  ultimately show ?thesis
    using attempt_forgives [of ?s try_ex_script "[]" drv_ok "''home''" "''password''"] by (simp add: drv_ok_def numeral_2_eq_2)
qed

subsection \<open>Scans\<close>

text \<open>A scan that another part of the firmware started is left alone; the records of one's own are those of the driver.\<close>

lemma foreign_scan: "\<not> be_scanning s \<Longrightarrow> on_event (BeScanDone r) s = s"
  by simp

lemma own_scan:
  assumes "be_base s" and "drv_ret D (DrvScan (opt_scan_ms D)) = ESP_OK" and "xs \<noteq> []"
  defines "s' \<equiv> on_event (BeScanDone (Some (length xs, Some xs))) (be_start_scan D s)"
  shows "be_scan_result (be_start_scan D s) = kScanRunning" and "be_scan_result s' = int (length xs)"
    and "map (\<lambda>i. ap_rssi (be_ap_record i s')) [0..<length xs] = map sr_rssi xs"
proof -
  have s: "be_cache s' = xs" "be_count s' = length xs" "\<not> be_scanning s'" "\<not> be_scan_failed s'"
    using assms by (simp_all add: be_start_scan_def Let_def)
  show "be_scan_result (be_start_scan D s) = kScanRunning" using assms by (simp add: be_start_scan_def be_scan_result_def)
  show "be_scan_result s' = int (length xs)" using s by (simp add: be_scan_result_def)
  show "map (\<lambda>i. ap_rssi (be_ap_record i s')) [0..<length xs] = map sr_rssi xs"
    using s by (auto simp: be_ap_record_def Let_def intro!: nth_equalityI)
qed

subsection \<open>The configuration an attempt leaves behind\<close>

definition last_config :: "drv_call list \<Rightarrow> sta_cfg option" where
  "last_config cs = fold (\<lambda>c r. case c of DrvSetConfig x \<Rightarrow> Some x | _ \<Rightarrow> r) cs None"

lemma last_config_append [simp]:
  "last_config (cs @ ds) = fold (\<lambda>c r. case c of DrvSetConfig x \<Rightarrow> Some x | _ \<Rightarrow> r) ds (last_config cs)"
  by (simp add: last_config_def)

lemma last_config_events [simp]: "last_config (be_calls (fold on_event evs s)) = last_config (be_calls s)"
proof (induction evs arbitrary: s)
  case (Cons e evs)
  have "last_config (be_calls (on_event e s)) = last_config (be_calls s)"
    by (cases e) (auto simp: Let_def split: option.split)
  then show ?case using Cons by simp
qed simp

lemma last_config_wait [simp]: "last_config (be_calls (snd (connect_wait D r ps s))) = last_config (be_calls s)"
  by (induction D r ps s rule: connect_wait.induct) (simp_all add: Let_def)

lemma attempt_config:
  assumes "be_base s" and "be_try_connect D ssid pw s = (ok, s')"
  shows "last_config (be_calls s') = Some (sta_config D ssid pw)"
proof -
  obtain s1 where r: "(ok, s') =
    (let s2 = drv (DrvSetConfig (sta_config D ssid pw)) s1
     in if drv_ret D (DrvSetConfig (sta_config D ssid pw)) \<noteq> ESP_OK then (False, s2)
        else
          let s3 = drv DrvConnect (s2\<lparr>be_connected := False, be_got_ip := False, be_failed := False, be_connecting := True\<rparr>)
          in if drv_ret D DrvConnect \<noteq> ESP_OK then (False, s3\<lparr>be_connecting := False\<rparr>)
             else connect_wait D False (ts_polls (case be_scripts s of [] \<Rightarrow> \<lparr>ts_drop = [], ts_polls = []\<rparr> | t # _ \<Rightarrow> t)) s3)"
    using assms(1) assms(2) [symmetric] unfolding be_try_connect_def Let_def by simp
  show ?thesis
  proof (cases "drv_ret D (DrvSetConfig (sta_config D ssid pw)) = ESP_OK \<and> drv_ret D DrvConnect = ESP_OK")
    case True
    then have "(ok, s') = connect_wait D False
        (ts_polls (case be_scripts s of [] \<Rightarrow> \<lparr>ts_drop = [], ts_polls = []\<rparr> | t # _ \<Rightarrow> t))
        (drv DrvConnect ((drv (DrvSetConfig (sta_config D ssid pw)) s1)\<lparr>be_connected := False, be_got_ip := False,
           be_failed := False, be_connecting := True\<rparr>))"
      using r by (simp add: Let_def)
    from arg_cong [OF this, of "\<lambda>x. last_config (be_calls (snd x))"] show ?thesis by simp
  next
    case False
    then show ?thesis using r by (auto simp: Let_def split: if_splits)
  qed
qed

text \<open>A name of 32 bytes is admissible, and loses its last byte on the way to the driver.\<close>

lemma long_name_cut: "length ssid = 32 \<Longrightarrow> length (sc_ssid (sta_config D ssid pw)) = 31"
  by (simp add: sta_config_def)

end
