(* ===== verification/ImprovGlue.thy ===== *)
theory ImprovGlue
  imports ImprovBackend WebActions
begin

text \<open>
  \<^verbatim>\<open>improv_glue.cpp\<close>: the provisioning core on the console of the device.  The world of the core is the
  record \<open>fw\<close>: the state of \<^verbatim>\<open>net.c\<close>, the flash, the Wi-Fi backend and the bytes written to the
  console.  The statics of the file are the record \<open>glue\<close>; \<open>improv_task\<close> runs on a script of its rounds, the time at
  the head of each and the bytes its read returned.
\<close>

subsection \<open>The world of the core\<close>

record 'n fw =
  fw_net :: net
  fw_nvs :: 'n
  fw_be :: idf_backend
  fw_tx :: "u8 list"

definition on_be :: "(idf_backend \<Rightarrow> idf_backend) \<Rightarrow> 'n fw \<Rightarrow> 'n fw" where
  "on_be f w = w\<lparr>fw_be := f (fw_be w)\<rparr>"

definition fw_backend :: "drv_env \<Rightarrow> 'n fw wifi_backend" where
  "fw_backend D =
     \<lparr>bk_connected = (\<lambda>w. be_is_connected (fw_be w)),
      bk_ip = (\<lambda>w. be_current_ip (fw_be w)),
      bk_try = (\<lambda>s p w. case be_try_connect D s p (fw_be w) of (ok, b) \<Rightarrow> (ok, w\<lparr>fw_be := b\<rparr>)),
      bk_start_scan = on_be (be_start_scan D),
      bk_scan_result = (\<lambda>w. be_scan_result (fw_be w)),
      bk_ap = (\<lambda>i w. be_ap_record i (fw_be w)),
      bk_clear = on_be be_clear_scan\<rparr>"

definition write_fn :: "u8 list \<Rightarrow> 'n fw \<Rightarrow> 'n fw" where
  "write_fn bs w = (if bs = [] then w else w\<lparr>fw_tx := fw_tx w @ bs\<rparr>)"

definition on_error_cb :: "improv_error \<Rightarrow> 'n fw \<Rightarrow> 'n fw" where
  "on_error_cb e w = w"

text \<open>A failure to save is only logged.\<close>

definition on_connected_cb :: "'n nvs_api \<Rightarrow> string \<Rightarrow> string \<Rightarrow> 'n fw \<Rightarrow> 'n fw" where
  "on_connected_cb N ssid psk w =
     (case net_persist_creds N ssid (Some psk) (fw_net w, fw_nvs w) of (e, (n, v)) \<Rightarrow> w\<lparr>fw_net := n, fw_nvs := v\<rparr>)"

definition IDLE_MS_FRESH :: u32 where "IDLE_MS_FRESH = 120 * 1000"

definition IDLE_MS_HASCREDS :: u32 where "IDLE_MS_HASCREDS = 30 * 1000"

definition LIB_WINDOW_MS_CAP :: u32 where "LIB_WINDOW_MS_CAP = 60 * 60 * 1000"

definition glue_cfg :: "drv_env \<Rightarrow> 'n nvs_api \<Rightarrow> 'n fw improv_cfg" where
  "glue_cfg D N =
     \<lparr>ig_backend = Some (fw_backend D), ig_write = Some write_fn, ig_window = LIB_WINDOW_MS_CAP,
      ig_on_error = Some on_error_cb, ig_on_connected = Some (on_connected_cb N)\<rparr>"

definition glue_device :: "nat \<Rightarrow> string \<Rightarrow> device_info" where
  "glue_device family version =
     \<lparr>dev_family = family, dev_name = Some ''CDC2NET'', dev_version = Some version, dev_device = Some ''CDC2NET'',
      dev_url = None\<rparr>"

subsection \<open>The window of the device\<close>

record glue =
  gl_inst :: "improv option"
  gl_inited :: bool
  gl_last_us :: int
  gl_idle_ms :: u32
  gl_armed :: bool

definition glue_boot :: glue where
  "glue_boot = \<lparr>gl_inst = None, gl_inited = False, gl_last_us = 0, gl_idle_ms = IDLE_MS_FRESH, gl_armed = False\<rparr>"

text \<open>
  The driver of the console: the result of installing it, and for a UART that of configuring it.
\<close>

definition transport_install :: "bool \<Rightarrow> esp_err \<Rightarrow> esp_err \<Rightarrow> esp_err" where
  "transport_install usj inst param =
     (if usj then (if inst = ESP_ERR_INVALID_STATE then ESP_OK else inst)
      else if inst \<noteq> ESP_OK \<and> inst \<noteq> ESP_ERR_INVALID_STATE then inst
      else if param \<noteq> ESP_OK \<and> param \<noteq> ESP_ERR_INVALID_STATE then param
      else ESP_OK)"

text \<open>
  \<open>tr\<close> is the result of \<^verbatim>\<open>transport_install\<close>, \<open>spawned\<close> that of \<^verbatim>\<open>xTaskCreate\<close>.  The two static objects
  are built the first time control passes them.
\<close>

definition improv_init ::
  "net_env \<Rightarrow> drv_env \<Rightarrow> 'n nvs_api \<Rightarrow> bool \<Rightarrow> device_info \<Rightarrow> esp_err \<Rightarrow> bool \<Rightarrow> int \<Rightarrow> glue \<times> 'n fw \<Rightarrow> esp_err \<times> (glue \<times> 'n fw)" where
  "improv_init E D N have_netif dev tr spawned now gw =
     (case gw of (g, w) \<Rightarrow>
        if gl_inited g then (ESP_OK, (g, w))
        else if tr \<noteq> ESP_OK then (tr, (g, w))
        else
          let w1 = (if gl_inst g = None then on_be (ensure_base_init D have_netif) w else w);
              g1 = g\<lparr>gl_idle_ms := (if net_has_creds E N (fw_nvs w1) then IDLE_MS_HASCREDS else IDLE_MS_FRESH),
                     gl_last_us := now, gl_armed := True,
                     gl_inst := (case gl_inst g of None \<Rightarrow> Some (improv_new dev) | Some im \<Rightarrow> Some im)\<rparr>;
              w2 = w1\<lparr>fw_net := net_set_external_control True (fw_net w1)\<rparr>
          in if \<not> spawned then (ESP_FAIL, (g1, w2)) else (ESP_OK, (g1\<lparr>gl_inited := True\<rparr>, w2)))"

definition improv_is_armed :: "glue \<Rightarrow> bool" where
  "improv_is_armed g \<longleftrightarrow> gl_armed g \<and> (case gl_inst g of None \<Rightarrow> False | Some im \<Rightarrow> im_armed im)"

definition improv_window_remaining_ms :: "int \<Rightarrow> glue \<Rightarrow> u32" where
  "improv_window_remaining_ms now g =
     (if \<not> gl_armed g then 0
      else
        let left = int (unat (gl_idle_ms g)) * 1000 - (now - gl_last_us g)
        in if 0 < left then word_of_int (left div 1000) else 0)"

text \<open>One round of \<^verbatim>\<open>improv_task\<close>: whether it goes on.\<close>

definition idle_expired :: "int \<Rightarrow> glue \<Rightarrow> bool" where
  "idle_expired now g \<longleftrightarrow> int (unat (gl_idle_ms g)) * 1000 < now - gl_last_us g"

definition improv_round :: "drv_env \<Rightarrow> 'n nvs_api \<Rightarrow> int \<Rightarrow> u8 list \<Rightarrow> glue \<times> 'n fw \<Rightarrow> bool \<times> (glue \<times> 'n fw)" where
  "improv_round D N now got gw =
     (case gl_inst (fst gw) of
        None \<Rightarrow> (False, gw)
      | Some im \<Rightarrow>
          (case improv_tick (glue_cfg D N) (word_of_int (now div 1000)) (im, snd gw) of (im1, w1) \<Rightarrow>
             let g1 = (fst gw)\<lparr>gl_inst := Some im1\<rparr>
             in if \<not> im_armed im1 \<or> idle_expired now g1
                then (False, (g1\<lparr>gl_armed := False\<rparr>, w1\<lparr>fw_net := net_set_external_control False (fw_net w1)\<rparr>))
                else if got \<noteq> []
                then (case feed_bytes (glue_cfg D N) got (im1, w1) of (im2, w2) \<Rightarrow>
                        (True, (g1\<lparr>gl_last_us := now, gl_inst := Some im2\<rparr>, w2)))
                else (True, (g1, w1))))"

fun improv_task :: "drv_env \<Rightarrow> 'n nvs_api \<Rightarrow> (int \<times> u8 list) list \<Rightarrow> glue \<times> 'n fw \<Rightarrow> bool \<times> (glue \<times> 'n fw)" where
  "improv_task D N [] s = (True, s)"
| "improv_task D N ((now, got) # rs) s =
     (case improv_round D N now got s of
        (False, s') \<Rightarrow> (False, s')
      | (True, s') \<Rightarrow> improv_task D N rs s')"

subsection \<open>The contract of the core on this backend\<close>

lemma fw_backend_sel [simp]:
  "bk_connected (fw_backend D) w = be_is_connected (fw_be w)"
  "bk_try (fw_backend D) s p w = (case be_try_connect D s p (fw_be w) of (ok, b) \<Rightarrow> (ok, w\<lparr>fw_be := b\<rparr>))"
  "bk_start_scan (fw_backend D) w = w\<lparr>fw_be := be_start_scan D (fw_be w)\<rparr>"
  "bk_clear (fw_backend D) w = w\<lparr>fw_be := be_clear_scan (fw_be w)\<rparr>"
  "bk_ip (fw_backend D) w = be_current_ip (fw_be w)"
  "bk_scan_result (fw_backend D) w = be_scan_result (fw_be w)" "bk_ap (fw_backend D) i w = be_ap_record i (fw_be w)"
  by (simp_all add: fw_backend_def on_be_def)

lemma glue_cfg_sel [simp]:
  "ig_backend (glue_cfg D N) = Some (fw_backend D)" "ig_write (glue_cfg D N) = Some write_fn"
  "ig_on_error (glue_cfg D N) = Some on_error_cb" "ig_on_connected (glue_cfg D N) = Some (on_connected_cb N)"
  "ig_window (glue_cfg D N) = LIB_WINDOW_MS_CAP"
  by (simp_all add: glue_cfg_def)

lemma write_fn_be [simp]: "fw_be (write_fn bs w) = fw_be w" "fw_net (write_fn bs w) = fw_net w"
    "fw_nvs (write_fn bs w) = fw_nvs w" "fw_tx (write_fn bs w) = fw_tx w @ bs"
  by (simp_all add: write_fn_def)

lemma connected_cb_be [simp]: "fw_be (on_connected_cb N s p w) = fw_be w" "fw_tx (on_connected_cb N s p w) = fw_tx w"
  by (simp_all add: on_connected_cb_def split: prod.split)

interpretation console: wifi_link "glue_cfg D N" "fw_backend D" write_fn "on_connected_cb N" for D N
  by unfold_locales (auto dest!: try_joined split: prod.splits)

subsection \<open>What provisioning does to the device\<close>

text \<open>
  The abstract view: the credentials in use, the flash and the backend.  It moves by attempts and scans; the flash
  and the credentials change only by storing the pair of an attempt that joined.
\<close>

definition fw_view :: "'n fw \<Rightarrow> (net \<times> 'n) \<times> idf_backend" where
  "fw_view w = ((fw_net w, fw_nvs w), fw_be w)"

inductive prov :: "drv_env \<Rightarrow> 'n nvs_api \<Rightarrow> (net \<times> 'n) \<times> idf_backend \<Rightarrow> (net \<times> 'n) \<times> idf_backend \<Rightarrow> bool"
  for D :: drv_env and N :: "'n nvs_api" where
  prov_refl: "prov D N v v"
| prov_fail: "prov D N v (nv, b) \<Longrightarrow> settings_ok s p \<Longrightarrow> be_try_connect D (cstr s) (cstr p) b = (False, b') \<Longrightarrow>
    prov D N v (nv, b')"
| prov_join: "prov D N v (nv, b) \<Longrightarrow> settings_ok s p \<Longrightarrow> be_try_connect D (cstr s) (cstr p) b = (True, b') \<Longrightarrow>
    net_persist_creds N (cstr s) (Some (cstr p)) nv = (e, nv') \<Longrightarrow> prov D N v (nv', b')"
| prov_scan: "prov D N v (nv, b) \<Longrightarrow> prov D N v (nv, be_start_scan D b)"

lemma frame_view [simp]: "fw_view (write_frame (glue_cfg D N) t p w) = fw_view w"
  by (simp add: write_frame_def fw_view_def)

lemma emit_view [simp]:
  "fw_view (emit_state (glue_cfg D N) s w) = fw_view w" "fw_view (emit_error (glue_cfg D N) e w) = fw_view w"
  "fw_view (emit_rpc_response (glue_cfg D N) c fs w) = fw_view w"
  "fw_view (emit_device_url (glue_cfg D N) im c w) = fw_view w"
  by (simp_all add: emit_state_def emit_error_def emit_rpc_response_def emit_device_url_def Let_def split: option.split)

lemma settings_refused: "\<not> settings_ok s p \<Longrightarrow> handle_wifi_settings C im s p w = emit_error C ErrInvalidRpc w"
  unfolding handle_wifi_settings_def settings_ok_def by (cases "p = []") (auto simp: not_less not_le)

lemma settings_tried:
  fixes N :: "'n nvs_api" and im :: improv
  assumes "settings_ok s p" and "be_try_connect D (cstr s) (cstr p) (fw_be w) = (ok, b)"
  defines "C \<equiv> glue_cfg D N"
  defines "w2 \<equiv> (emit_state C StProvisioning w)\<lparr>fw_be := b\<rparr>"
  shows "handle_wifi_settings C im s p w =
    (if ok then on_connected_cb N (cstr s) (cstr p)
       (emit_device_url C im CmdWifiSettings (emit_state C StProvisioned (emit_error C ErrNone w2)))
     else emit_state C StAuthorized (emit_error C ErrUnableToConnect w2))"
proof -
  have g: "s \<noteq> []" "\<not> 32 < length s" "(0 < length p \<and> length p < 8) = False" "\<not> 63 < length p"
    using assms(1) by (auto simp: settings_ok_def)
  have f: "fw_be (emit_state C StProvisioning w) = fw_be w"
    using emit_view(1) [of D N StProvisioning w] by (simp add: fw_view_def C_def)
  have t: "bk_try (fw_backend D) (cstr s) (cstr p) (emit_state C StProvisioning w) = (ok, w2)"
    by (simp add: f assms(2) w2_def)
  show ?thesis
    unfolding handle_wifi_settings_def g(3) if_False using g(1,2,4) t
    by (cases ok) (simp_all add: C_def Let_def on_error_cb_def)
qed

lemma be_view: "fw_view (w\<lparr>fw_be := b\<rparr>) = (fst (fw_view w), b)"
  by (simp add: fw_view_def)

lemma prov_settings:
  assumes "prov D N v (fw_view w)"
  shows "prov D N v (fw_view (handle_wifi_settings (glue_cfg D N) im s p w))"
proof (cases "settings_ok s p")
  case True
  obtain ok b where t: "be_try_connect D (cstr s) (cstr p) (fw_be w) = (ok, b)" by (metis surj_pair)
  have v: "fw_view w = ((fw_net w, fw_nvs w), fw_be w)" by (simp add: fw_view_def)
  note h = settings_tried [OF True t, of N im]
  show ?thesis
  proof (cases ok)
    case True
    obtain e n' v' where q: "net_persist_creds N (cstr s) (Some (cstr p)) (fw_net w, fw_nvs w) = (e, (n', v'))"
      by (metis surj_pair)
    have c: "fw_view (on_connected_cb N (cstr s) (cstr p) u) = ((n', v'), b)" if "fw_view u = ((fw_net w, fw_nvs w), b)" for u
      using that q by (simp add: fw_view_def on_connected_cb_def)
    have "fw_view (handle_wifi_settings (glue_cfg D N) im s p w) = ((n', v'), b)"
      unfolding h using True by (simp add: c be_view v)
    then show ?thesis
      using prov_join [OF assms [unfolded v] \<open>settings_ok s p\<close> _ q] t True by simp
  next
    case False
    then have "fw_view (handle_wifi_settings (glue_cfg D N) im s p w) = ((fw_net w, fw_nvs w), b)"
      unfolding h by (simp add: be_view v)
    then show ?thesis using prov_fail [OF assms [unfolded v] \<open>settings_ok s p\<close>] t False by simp
  qed
qed (simp add: settings_refused assms)

lemma prov_dispatch:
  assumes "prov D N v (fw_view (snd s))"
  shows "prov D N v (fw_view (snd (snd (dispatch_command (glue_cfg D N) c s))))"
proof -
  have n: "prov D N v (fw_view (snd (handle_get_networks (glue_cfg D N) s)))"
    using assms prov_scan [of D N v "fst (fw_view (snd s))" "fw_be (snd s)"]
    by (simp add: handle_get_networks_def be_view) (simp add: fw_view_def)
  show ?thesis
    unfolding dispatch_command_def Let_def using assms n prov_settings [OF assms]
    by (simp only: if_distrib [of snd] snd_conv if_distrib [of fw_view] emit_view split: if_split) simp
qed

lemma prov_parse:
  assumes "prov D N v (fw_view (snd s))"
  shows "prov D N v (fw_view (snd (parse_byte (glue_cfg D N) b s)))"
proof -
  have c: "prov D N v (fw_view (snd (on_complete_packet (glue_cfg D N) (im, snd s))))" for im
    using prov_dispatch [of D N v "(im, snd s)"] assms by (simp add: on_complete_packet_def Let_def)
  show ?thesis using assms c by (simp add: parse_byte_def Let_def case_prod_unfold)
qed

lemma prov_feed: "prov D N (fw_view w) (fw_view (snd (feed_bytes (glue_cfg D N) bs (im, w))))"
proof -
  have "prov D N v (fw_view (snd (fold (parse_byte (glue_cfg D N)) bs s)))" if "prov D N v (fw_view (snd s))" for v and s :: "improv \<times> 'a fw"
    using that by (induction bs arbitrary: s) (simp_all add: prov_parse)
  from this [of "fw_view w" "(im, w)"] show ?thesis by (simp add: feed_bytes_def prov_refl)
qed

text \<open>C16: whatever bytes arrive on the console, the stored credentials and the network they name change only
  in one way: by storing the pair of an attempt that joined, directly after it; names and passwords outside the
  admissible lengths reach neither the driver nor the flash.\<close>

theorem feed_only_provisions: "prov D N (fw_view w) (fw_view (snd (feed_bytes (glue_cfg D N) bs (im, w))))"
  by (rule prov_feed)

subsection \<open>The window closes\<close>

definition ms_of :: "int \<Rightarrow> u32" where "ms_of now = word_of_int (now div 1000)"

lemma round_stops:
  assumes "gl_inst g = Some im" and "improv_round D N now got (g, w) = (False, (g', w'))"
  shows "\<not> gl_armed g' \<and> \<not> n_external (fw_net w')"
  using assms by (auto simp: improv_round_def net_set_external_control_def emit_def Let_def split: prod.splits if_splits)

lemma round_goes_on:
  assumes "gl_inst g = Some im" and "improv_round D N now got (g, w) = (True, (g', w'))"
  shows "\<exists>im'. gl_inst g' = Some im' \<and> im_anchored im' \<and>
      im_deadline im' = (if im_anchored im then im_deadline im else ms_of now + LIB_WINDOW_MS_CAP)"
    and "gl_idle_ms g' = gl_idle_ms g" and "gl_last_us g' = (if got = [] then gl_last_us g else now)"
    and "\<not> idle_expired now g" and "im_anchored im \<Longrightarrow> im_armed im \<Longrightarrow> \<not> 0 \<le> sint (ms_of now - im_deadline im)"
proof -
  obtain im1 w1 where t: "improv_tick (glue_cfg D N) (ms_of now) (im, w) = (im1, w1)" by (metis surj_pair)
  note r = assms(2) [unfolded improv_round_def fst_conv snd_conv assms(1) option.case t [unfolded ms_of_def] prod.case]
  have a: "im_armed im1" using r by (auto simp: Let_def split: if_splits)
  have n: "im_anchored im1"
    "im_deadline im1 = (if im_anchored im then im_deadline im else ms_of now + LIB_WINDOW_MS_CAP)"
    using tick_anchors [of "glue_cfg D N" "ms_of now" im w] a by (simp_all add: t)
  have f: "clock_fields (fst (feed_bytes (glue_cfg D N) got (im1, w1))) = clock_fields im1" by simp
  show "\<exists>im'. gl_inst g' = Some im' \<and> im_anchored im' \<and>
      im_deadline im' = (if im_anchored im then im_deadline im else ms_of now + LIB_WINDOW_MS_CAP)"
    using r n f by (auto simp: Let_def clock_fields_def split: if_splits prod.splits)
  show "gl_idle_ms g' = gl_idle_ms g" "gl_last_us g' = (if got = [] then gl_last_us g else now)" "\<not> idle_expired now g"
    using r by (auto simp: Let_def idle_expired_def split: if_splits prod.splits)
  show "\<not> 0 \<le> sint (ms_of now - im_deadline im)" if "im_anchored im" "im_armed im"
    using tick_expires [OF that(2,1), of "ms_of now" "glue_cfg D N" w] a t by auto
qed

lemma round_armed:
  assumes "gl_inst g = Some im" and "improv_round D N now got (g, w) = (True, (g', w'))" and "gl_inst g' = Some im'"
  shows "im_armed im'"
proof -
  obtain im1 w1 where t: "improv_tick (glue_cfg D N) (word_of_int (now div 1000)) (im, w) = (im1, w1)" by (metis surj_pair)
  note r = assms(2) [unfolded improv_round_def fst_conv snd_conv assms(1) option.case t prod.case]
  have "clock_fields (fst (feed_bytes (glue_cfg D N) got (im1, w1))) = clock_fields im1" by simp
  then show ?thesis using r assms(3) by (auto simp: Let_def clock_fields_def split: if_splits prod.splits)
qed

text \<open>The task ends with the window closed as soon as one round cannot go on.\<close>

definition shut :: "bool \<times> (glue \<times> 'n fw) \<Rightarrow> bool" where
  "shut r \<longleftrightarrow> \<not> fst r \<and> \<not> gl_armed (fst (snd r)) \<and> \<not> n_external (fw_net (snd (snd r)))"

lemma task_step:
  assumes "gl_inst g = Some im"
    and "\<And>g' w'. improv_round D N now got (g, w) = (True, (g', w')) \<Longrightarrow> shut (improv_task D N rs (g', w'))"
  shows "shut (improv_task D N ((now, got) # rs) (g, w))"
proof -
  obtain c g' w' where r: "improv_round D N now got (g, w) = (c, (g', w'))" by (metis surj_pair)
  show ?thesis using round_stops [OF assms(1), of D N now got w g' w'] assms(2) r by (cases c) (auto simp: shut_def)
qed

lemma quiet_closes:
  assumes "gl_inst g = Some im" and "\<forall>r \<in> set rs. snd r = []" and "\<exists>r \<in> set rs. idle_expired (fst r) g"
  shows "shut (improv_task D N rs (g, w))"
  using assms
proof (induction rs arbitrary: g im w)
  case (Cons r rs)
  obtain now got where r: "r = (now, got)" by (cases r)
  show ?case unfolding r
  proof (rule task_step [OF Cons.prems(1)])
    fix g' w' assume h: "improv_round D N now got (g, w) = (True, (g', w'))"
    note o = round_goes_on [OF Cons.prems(1) h]
    obtain im' where "gl_inst g' = Some im'" using o(1) by blast
    moreover have "idle_expired t g' = idle_expired t g" for t using o(2,3) Cons.prems(2) r by (simp add: idle_expired_def)
    ultimately show "shut (improv_task D N rs (g', w'))" using Cons.IH Cons.prems(2,3) o(4) r by auto
  qed
qed simp

lemma cap_closes:
  assumes "gl_inst g = Some im" and "im_anchored im" and "im_armed im"
    and "\<exists>r \<in> set rs. 0 \<le> sint (ms_of (fst r) - im_deadline im)"
  shows "shut (improv_task D N rs (g, w))"
  using assms
proof (induction rs arbitrary: g im w)
  case (Cons r rs)
  obtain now got where r: "r = (now, got)" by (cases r)
  show ?case unfolding r
  proof (rule task_step [OF Cons.prems(1)])
    fix g' w' assume h: "improv_round D N now got (g, w) = (True, (g', w'))"
    note o = round_goes_on [OF Cons.prems(1) h]
    obtain im' where i: "gl_inst g' = Some im'" "im_anchored im'" "im_deadline im' = im_deadline im"
      using o(1) Cons.prems(2) by auto
    have "im_armed im'" by (rule round_armed [OF Cons.prems(1) h i(1)])
    then show "shut (improv_task D N rs (g', w'))"
      using Cons.IH [OF i(1,2)] o(5) [OF Cons.prems(2,3)] Cons.prems(4) i(3) r by auto
  qed
qed simp

lemma ms_past_cap:
  assumes "3600000 \<le> t div 1000 - t0 div 1000" and "t div 1000 - t0 div 1000 < 3600000 + 2 ^ 31"
  shows "0 \<le> sint (ms_of t - (ms_of t0 + LIB_WINDOW_MS_CAP))"
proof -
  let ?d = "t div 1000 - t0 div 1000 - 3600000"
  have word: "ms_of t - (ms_of t0 + LIB_WINDOW_MS_CAP) = word_of_int ?d"
    by (simp add: ms_of_def LIB_WINDOW_MS_CAP_def)
  have sint_id: "sint (word_of_int d :: u32) = d" if "0 \<le> d" "d < 2 ^ 31" for d
    using that by (simp add: sint_sbintrunc' signed_take_bit_int_eq_self)
  have "sint (word_of_int ?d :: u32) = ?d" by (rule sint_id) (use assms in simp_all)
  then show ?thesis using assms(1) unfolding word by simp
qed

lemma window_closes:
  assumes "gl_inst g = Some im" and "\<not> im_anchored im"
    and "(\<forall>r \<in> set ((t0, got) # rs). snd r = []) \<and> (\<exists>r \<in> set ((t0, got) # rs). idle_expired (fst r) g) \<or>
      (\<exists>r \<in> set rs. 3600000 \<le> fst r div 1000 - t0 div 1000 \<and> fst r div 1000 - t0 div 1000 < 3600000 + 2 ^ 31)"
  shows "shut (improv_task D N ((t0, got) # rs) (g, w))"
  using assms(3)
proof
  assume "(\<forall>r \<in> set ((t0, got) # rs). snd r = []) \<and> (\<exists>r \<in> set ((t0, got) # rs). idle_expired (fst r) g)"
  then show ?thesis using quiet_closes [OF assms(1)] by blast
next
  assume c: "\<exists>r \<in> set rs. 3600000 \<le> fst r div 1000 - t0 div 1000 \<and> fst r div 1000 - t0 div 1000 < 3600000 + 2 ^ 31"
  show ?thesis
  proof (rule task_step [OF assms(1)])
    fix g' w' assume h: "improv_round D N t0 got (g, w) = (True, (g', w'))"
    obtain im' where i: "gl_inst g' = Some im'" "im_anchored im'" "im_deadline im' = ms_of t0 + LIB_WINDOW_MS_CAP"
      using round_goes_on(1) [OF assms(1) h] assms(2) by auto
    show "shut (improv_task D N rs (g', w'))"
      using cap_closes [OF i(1,2) round_armed [OF assms(1) h i(1)]] c ms_past_cap i(3) by metis
  qed
qed

text \<open>The rounds since the last one that brought something: its time, or \<open>t\<close> if there was none, and the quiet rest.\<close>

fun quiet_since :: "int \<Rightarrow> (int \<times> u8 list) list \<Rightarrow> int" where
  "quiet_since t [] = t"
| "quiet_since t ((now, got) # rs) = quiet_since (if got = [] then t else now) rs"

lemma idle_closes:
  assumes "gl_inst g = Some im" and "\<forall>r \<in> set silent. snd r = []"
    and "\<exists>r \<in> set silent. int (unat (gl_idle_ms g)) * 1000 < fst r - quiet_since (gl_last_us g) busy"
  shows "shut (improv_task D N (busy @ silent) (g, w))"
  using assms
proof (induction busy arbitrary: g im w)
  case Nil
  then have "\<exists>r \<in> set silent. idle_expired (fst r) g" by (simp add: idle_expired_def)
  then show ?case using quiet_closes [OF Nil(1,2)] by simp
next
  case (Cons r rs)
  obtain now got where r: "r = (now, got)" by (cases r)
  show ?case unfolding r append_Cons
  proof (rule task_step [OF Cons.prems(1)])
    fix g' w' assume h: "improv_round D N now got (g, w) = (True, (g', w'))"
    note o = round_goes_on [OF Cons.prems(1) h]
    obtain im' where "gl_inst g' = Some im'" using o(1) by blast
    moreover have "gl_idle_ms g' = gl_idle_ms g" "quiet_since (gl_last_us g) (r # rs) = quiet_since (gl_last_us g') rs"
      using o(2,3) r by auto
    ultimately show "shut (improv_task D N (rs @ silent) (g', w'))" using Cons.IH [of g' im' w'] Cons.prems(2,3) by simp
  qed
qed

text \<open>C18: the provisioning window closes.  Whatever was received before, it is shut at the end of a stretch of rounds
  without input one of which comes later than the idle time, counted from the last round that brought something (or
  from the start if none did); and whatever the host sends it is shut once a round comes an hour (and at most 24 days
  more, where the milliseconds wrap) after the first.  Then the device reports it as closed and the network part has
  its own reconnects back.\<close>

theorem improv_window_closes:
  assumes "gl_inst g = Some im"
    and "(\<exists>busy silent. rs = busy @ silent \<and> (\<forall>r \<in> set silent. snd r = []) \<and>
        (\<exists>r \<in> set silent. int (unat (gl_idle_ms g)) * 1000 < fst r - quiet_since (gl_last_us g) busy)) \<or>
      (\<not> im_anchored im \<and> (\<exists>t0 got rs'. rs = (t0, got) # rs' \<and>
        (\<exists>r \<in> set rs'. 3600000 \<le> fst r div 1000 - t0 div 1000 \<and> fst r div 1000 - t0 div 1000 < 3600000 + 2 ^ 31)))"
  shows "\<exists>g' w'. improv_task D N rs (g, w) = (False, (g', w')) \<and> \<not> improv_is_armed g' \<and>
    improv_window_remaining_ms t g' = 0 \<and> \<not> n_external (fw_net w')"
proof -
  have "shut (improv_task D N rs (g, w))"
    using assms(2) idle_closes [OF assms(1)] window_closes [OF assms(1)] by fast
  then show ?thesis
    by (cases "improv_task D N rs (g, w)") (auto simp: shut_def improv_is_armed_def improv_window_remaining_ms_def)
qed

definition fw_ex :: "nvs_mem fw" where
  "fw_ex = \<lparr>fw_net = net_boot, fw_nvs = Map.empty, fw_be = (backend_new [\<lparr>ts_drop = [],
     ts_polls = [[BeConnected], [BeGotIp (10, 0, 0, 7)], []]\<rparr>])\<lparr>be_base := True, be_netif := True\<rparr>, fw_tx = []\<rparr>"

definition glue_ex :: glue where
  "glue_ex = glue_boot\<lparr>gl_inst := Some (improv_new (glue_device 3 ''1'')), gl_armed := True\<rparr>"

text \<open>A byte after a hundred seconds keeps the window open past the two minutes, and then it closes.\<close>

lemma improv_window_closes_witness:
  "\<exists>g' w'. improv_task drv_ok nvs_ram ([(0, []), (100000000, [1])] @ [(130000000, []), (220000001, [])]) (glue_ex, fw_ex) =
      (False, (g', w')) \<and>
    \<not> improv_is_armed g' \<and> improv_window_remaining_ms 0 g' = 0 \<and> \<not> n_external (fw_net w')"
proof (rule improv_window_closes [where im = "improv_new (glue_device 3 ''1'')"])
  show "gl_inst glue_ex = Some (improv_new (glue_device 3 ''1''))" by (simp add: glue_ex_def)
  have "\<exists>r \<in> set [(130000000, []), (220000001, [])]. int (unat (gl_idle_ms glue_ex)) * 1000 <
      fst r - quiet_since (gl_last_us glue_ex) [(0, []), (100000000, [1])]"
    by (simp add: glue_ex_def glue_boot_def IDLE_MS_FRESH_def)
  then show "(\<exists>busy silent. [(0, []), (100000000, [1])] @ [(130000000, []), (220000001, [])] = busy @ silent \<and>
        (\<forall>r \<in> set silent. snd r = []) \<and>
        (\<exists>r \<in> set silent. int (unat (gl_idle_ms glue_ex)) * 1000 < fst r - quiet_since (gl_last_us glue_ex) busy)) \<or>
      (\<not> im_anchored (improv_new (glue_device 3 ''1'')) \<and> (\<exists>t0 got rs'. [(0, []), (100000000, [1])] @ [(130000000, []), (220000001, [])] =
        (t0, got) # rs' \<and>
        (\<exists>r \<in> set rs'. 3600000 \<le> fst r div 1000 - t0 div 1000 \<and> fst r div 1000 - t0 div 1000 < 3600000 + 2 ^ 31)))"
    by (intro disjI1 exI [of _ "[(0, []), (100000000, [1])]"] exI [of _ "[(130000000, []), (220000001, [])]"]) simp
qed

subsection \<open>Provisioning, from the frame to the next boot\<close>

text \<open>A frame on the wire, and the payload of a response.\<close>

definition on_wire :: "u8 \<Rightarrow> u8 list \<Rightarrow> u8 list" where
  "on_wire t p = [0x0A] @ improv_frame t p @ [0x0A]"

definition url_payload :: "u8 \<Rightarrow> u8 list \<Rightarrow> u8 list" where
  "url_payload cmd url = [cmd, of_nat (1 + length url), of_nat (length url)] @ url"

lemma write_frame_tx:
  "length p \<le> 255 \<Longrightarrow> write_frame (glue_cfg D N) t p w = w\<lparr>fw_tx := fw_tx w @ on_wire t p\<rparr>"
  by (simp add: write_frame_def write_fn_def on_wire_def improv_frame_def)

lemma emit_tx:
  "emit_state (glue_cfg D N) s w = w\<lparr>fw_tx := fw_tx w @ on_wire FrCurrentState [state_byte s]\<rparr>"
  "emit_error (glue_cfg D N) e w = w\<lparr>fw_tx := fw_tx w @ on_wire FrErrorState [error_byte e]\<rparr>"
  by (simp_all add: emit_state_def emit_error_def write_frame_tx)

lemma emit_rpc_one:
  assumes "length url \<le> 252"
  shows "emit_rpc_response (glue_cfg D N) cmd [url] w = w\<lparr>fw_tx := fw_tx w @ on_wire FrRpcResponse (url_payload cmd url)\<rparr>"
proof -
  have n: "1 + of_nat (length url) = (of_nat (Suc (length url)) :: u32)" "1 + of_nat (length url) = (of_nat (Suc (length url)) :: u8)"
    by simp_all
  have le: "\<not> 253 < (of_nat (Suc (length url)) :: u32)"
    using assms by (simp add: word_less_nat_alt unat_of_nat del: of_nat_Suc)
  have c: "ucast (of_nat (Suc (length url)) :: u32) = (of_nat (Suc (length url)) :: u8)"
    using assms by (simp add: word_unat_eq_iff unsigned_ucast_eq unat_of_nat take_bit_eq_mod del: of_nat_Suc)
  show ?thesis using assms le [folded n] c [folded n]
    by (simp add: emit_rpc_response_def url_payload_def write_frame_tx)
qed

lemma settings_reply:
  assumes "settings_ok s p" and "be_try_connect D (cstr s) (cstr p) (fw_be w) = (True, b)" and "dev_url (im_dev im) = None"
    and "net_persist_creds N (cstr s) (Some (cstr p)) (fw_net w, fw_nvs w) = (e, (n, v))"
  shows "handle_wifi_settings (glue_cfg D N) im s p w =
    \<lparr>fw_net = n, fw_nvs = v, fw_be = b, fw_tx = fw_tx w @ on_wire FrCurrentState [state_byte StProvisioning] @
       on_wire FrErrorState [error_byte ErrNone] @ on_wire FrCurrentState [state_byte StProvisioned] @
       on_wire FrRpcResponse (url_payload CmdWifiSettings (bytes ''http://'' @ be_current_ip b))\<rparr>"
proof -
  have l: "length (bytes ''http://'' @ be_current_ip b) \<le> 252"
    using length_fmt_s [of 16] by (auto simp: be_current_ip_def less_imp_le split: option.split intro!: le_trans [OF less_imp_le [OF length_fmt_s]])
  show ?thesis
    unfolding settings_tried [OF assms(1,2)] using assms(4)
    by (cases w) (simp add: emit_tx emit_device_url_def device_url_def assms(3) emit_rpc_one [OF l] on_connected_cb_def
        del: state_byte.simps error_byte.simps)
qed

lemma persist_failed:
  "net_persist_creds N ssid psk (s, w) = (e, (s', w')) \<Longrightarrow> e \<noteq> ESP_OK \<Longrightarrow> s' = s"
  by (auto simp: net_persist_creds_def Let_def split: if_splits prod.splits)

text \<open>C15: provisioning over the console, from the frame to the next boot, for a parser that is armed and at rest and a
  device without a page of its own.  If the attempt of a request of admissible lengths without NUL bytes joins, the request is answered by success, the states and the address, and the device is connected, whatever comes of
  saving the pair.  If saving works, the name is in use and the bring-up after the next boot configures the station with
  exactly the requested name and password; if it fails (which the answer does not tell), the credentials in use stay
  what they were and the flash is what the failed save left.\<close>

theorem improv_provisions:
  assumes "nvs_laws N" and "built_ssid E = []" and "settings_ok (bytes s) (bytes p)" and "no_nul s" and "no_nul p"
    and "im_armed im" and "im_buf im = []" and "dev_url (im_dev im) = None" and "hd kHeader \<notin> set noise"
    and "be_try_connect D s p (fw_be w) = (True, b)"
    and "net_persist_creds N s (Some p) (fw_net w, fw_nvs w) = (e, (n, v))"
  shows "\<exists>w'. feed_bytes (glue_cfg D N) (noise @ improv_frame FrRpc (wifi_request (bytes s) (bytes p))) (im, w) = (im, w') \<and>
    fw_tx w' = fw_tx w @ on_wire FrCurrentState [state_byte StProvisioning] @ on_wire FrErrorState [error_byte ErrNone] @
      on_wire FrCurrentState [state_byte StProvisioned] @
      on_wire FrRpcResponse (url_payload CmdWifiSettings (bytes ''http://'' @ be_current_ip b)) \<and>
    improv_connected (glue_cfg D N) w' \<and> fw_nvs w' = v \<and>
    (if e = ESP_OK
     then n_ssid (fw_net w') = s \<and>
       (\<forall>with_eth now s1. net_init E with_eth N v now = Some s1 \<longrightarrow> WifiStaConfig s p \<in> set (n_calls s1))
     else fw_net w' = fw_net w)"
proof -
  let ?r = "wifi_request (bytes s) (bytes p)"
  have l: "length (bytes s) \<le> 32" "length (bytes p) \<le> 63" and ne: "s \<noteq> []" "length s < 33" "length p < 65"
    using assms(3) by (auto simp: settings_ok_def bytes_def)
  have c: "cstr (bytes s) = s" "cstr (bytes p) = p" using assms(4,5) by (simp_all add: cstr_bytes)
  have t: "be_try_connect D (cstr (bytes s)) (cstr (bytes p)) (fw_be w) = (True, b)"
    and q: "net_persist_creds N (cstr (bytes s)) (Some (cstr (bytes p))) (fw_net w, fw_nvs w) = (e, (n, v))"
    unfolding c by (rule assms(10), rule assms(11))
  let ?w = "handle_wifi_settings (glue_cfg D N) im (bytes s) (bytes p) w"
  have "fold (parse_byte (glue_cfg D N)) (noise @ improv_frame FrRpc ?r) (with_buf [] (im, w)) = with_buf [] (im, ?w)"
    by (simp add: parse_noise [OF assms(9)] parse_frame [OF length_wifi_request [OF l]] handle_wifi_request [OF assms(3)])
  then have f: "feed_bytes (glue_cfg D N) (noise @ improv_frame FrRpc ?r) (im, w) = (im, ?w)"
    using assms(6,7) by (simp add: feed_bytes_def idle_buf)
  have con: "improv_connected (glue_cfg D N) ?w"
    by (rule console.settings_connect [OF assms(3)]) (simp add: emit_tx t)
  note reply = settings_reply [OF assms(3) t assms(8) q]
  have saved: "n_ssid n = s \<and> (\<forall>with_eth now s1. net_init E with_eth N v now = Some s1 \<longrightarrow> WifiStaConfig s p \<in> set (n_calls s1))"
    if "e = ESP_OK"
  proof -
    note r = creds_roundtrip [OF assms(1,2) ne(2,3) assms(11) [unfolded that], of net_boot]
    have "WifiStaConfig s p \<in> set (n_calls s1)" if "net_init E with_eth N v now = Some s1" for with_eth now s1
      using init_configures [OF _ ne that] r by blast
    then show ?thesis using r by blast
  qed
  have "fw_net ?w = n" "fw_nvs ?w = v" using reply by simp_all
  then show ?thesis
    using f con reply saved persist_failed [OF assms(11)] by (intro exI [of _ ?w]) simp
qed

lemma try_ex:
  "be_try_connect drv_ok s p (fw_be fw_ex) = (True, snd (be_try_connect drv_ok s p (fw_be fw_ex)))"
  by (simp add: be_try_connect_def fw_ex_def drv_ok_def backend_new_def drv_def Let_def)

lemma improv_provisions_witness:
  "\<exists>w'. feed_bytes (glue_cfg drv_ok nvs_ram) ([0x0A] @ improv_frame FrRpc (wifi_request (bytes ''home'') (bytes ''password''))) (improv_ex, fw_ex) =
    (improv_ex, w') \<and> improv_connected (glue_cfg drv_ok nvs_ram) w' \<and> n_ssid (fw_net w') = ''home''"
proof -
  obtain e n v where q: "net_persist_creds nvs_ram ''home'' (Some ''password'') (fw_net fw_ex, fw_nvs fw_ex) = (e, (n, v))"
    by (metis surj_pair)
  then have e: "e = ESP_OK" by (auto simp: net_persist_creds_def also_set_def nvs_ram_def Let_def)
  have "settings_ok (bytes ''home'') (bytes ''password'')" by (simp add: settings_ok_def bytes_def)
  moreover have "no_nul ''home''" "no_nul ''password''" by (simp_all add: byte_of_char_def)
  ultimately show ?thesis
    using improv_provisions [OF nvs_ram_laws, of env_ok "''home''" "''password''" improv_ex "[0x0A]" drv_ok fw_ex, OF _ _ _ _ _ _ _ _ try_ex]
      q e by (simp add: env_ok_def improv_ex_def improv_new_def kHeader_def) blast
qed

subsection \<open>What a failed attempt and a failed start leave\<close>

text \<open>
  A failed attempt leaves its pair in the driver; when the window closes, the network part asks the driver to connect
  without configuring it again, under the name of the stored network.
\<close>

lemma failed_attempt_stays:
  fixes N :: "'n nvs_api" and im :: improv
  assumes "be_base (fw_be w)" and "settings_ok s p" and "be_try_connect D (cstr s) (cstr p) (fw_be w) = (False, b)"
    and "\<not> n_connected (fw_net w)" and "\<not> n_ap (fw_net w)" and "n_ssid (fw_net w) \<noteq> []"
  defines "w' \<equiv> handle_wifi_settings (glue_cfg D N) im s p w"
  shows "last_config (be_calls (fw_be w')) = Some (sta_config D (cstr s) (cstr p)) \<and>
    n_calls (net_set_external_control False (fw_net w')) = n_calls (fw_net w) @ [WifiConnect] \<and>
    n_ssid (net_set_external_control False (fw_net w')) = n_ssid (fw_net w)"
proof -
  have "fw_be w' = b" "fw_net w' = fw_net w"
    unfolding w'_def settings_tried [OF assms(2,3)] by (simp_all add: emit_tx)
  then show ?thesis using attempt_config [OF assms(1,3)] assms(4-6)
    by (simp add: net_set_external_control_def emit_def Let_def)
qed

text \<open>
  A start whose task cannot be created keeps the reconnects of the network part off, and nothing will turn them on.
\<close>

lemma failed_start_strands:
  assumes "\<not> gl_inited g" and "improv_init E D N have_netif dev ESP_OK False now (g, w) = (e, (g', w'))"
  shows "e = ESP_FAIL" and "n_external (fw_net w')" and "sta_recovery_tick (fw_net w') = fw_net w'"
    and "on_disconnected E r t (fw_net w') = Some s \<Longrightarrow> n_calls s = n_calls (fw_net w')"
  using assms
  by (auto simp: improv_init_def net_set_external_control_def sta_recovery_tick_def on_disconnected_def disc_record_def Let_def
      split: if_splits option.splits prod.splits)

text \<open>A start arms the window for the idle time that fits the stored credentials; a second start changes nothing.\<close>

lemma started:
  assumes "\<not> gl_inited g" and "gl_inst g = None" and "improv_init E D N have_netif dev ESP_OK True now (g, w) = (e, (g', w'))"
  shows "e = ESP_OK" and "improv_is_armed g'" and "gl_inst g' = Some (improv_new dev)"
    and "improv_window_remaining_ms now g' = (if net_has_creds E N (fw_nvs w) then IDLE_MS_HASCREDS else IDLE_MS_FRESH)"
    and "improv_init E D N have_netif' dev' tr sp now' (g', w') = (ESP_OK, (g', w'))"
  using assms
  by (auto simp: improv_init_def improv_is_armed_def improv_new_def improv_window_remaining_ms_def on_be_def
      IDLE_MS_FRESH_def IDLE_MS_HASCREDS_def)

end
