(* ===== verification/SerialFilter.thy ===== *)
theory SerialFilter
  imports Improv
begin

text \<open>
  \<^verbatim>\<open>serial_filter.cpp\<close>: the filter for a line that the provisioning protocol shares with a console.  The
  part of \<^verbatim>\<open>hold_\<close> in use is the list \<open>sf_hold\<close>; the sinks are functions on a world, a null pointer is
  \<open>None\<close>.
\<close>

subsection \<open>The filter\<close>

datatype filter_phase = PhIdle | PhMagic | PhHeader | PhBody

record serial_filter =
  sf_phase :: filter_phase
  sf_hold :: "u8 list"
  sf_body_left :: u16

record 'w sinks =
  to_console :: "(u8 list \<Rightarrow> 'w \<Rightarrow> 'w) option"
  to_improv :: "(u8 list \<Rightarrow> 'w \<Rightarrow> 'w) option"

definition filter_reset :: "serial_filter" where
  "filter_reset = \<lparr>sf_phase = PhIdle, sf_hold = [], sf_body_left = 0\<rparr>"

definition sink :: "(u8 list \<Rightarrow> 'w \<Rightarrow> 'w) option \<Rightarrow> u8 list \<Rightarrow> 'w \<Rightarrow> 'w" where
  "sink f bs w = (case f of None \<Rightarrow> w | Some g \<Rightarrow> g bs w)"

definition filter_byte :: "'w sinks \<Rightarrow> u8 \<Rightarrow> serial_filter \<times> 'w \<Rightarrow> serial_filter \<times> 'w" where
  "filter_byte K b s =
     (let sf = fst s; w = snd s
      in case sf_phase sf of
           PhIdle \<Rightarrow>
             if b = kHeader ! 0 then (sf\<lparr>sf_hold := [b], sf_phase := PhMagic\<rparr>, w) else (sf, sink (to_console K) [b] w)
         | PhMagic \<Rightarrow>
             if b = kHeader ! length (sf_hold sf)
             then (let sf1 = sf\<lparr>sf_hold := sf_hold sf @ [b]\<rparr>
                   in if length (sf_hold sf1) = 6
                      then (sf1\<lparr>sf_phase := PhHeader, sf_hold := []\<rparr>, sink (to_improv K) kHeader w)
                      else (sf1, w))
             else (sf\<lparr>sf_hold := [], sf_phase := PhIdle\<rparr>, sink (to_console K) [b] (sink (to_console K) (sf_hold sf) w))
         | PhHeader \<Rightarrow>
             let w1 = sink (to_improv K) [b] w; sf1 = sf\<lparr>sf_hold := sf_hold sf @ [b]\<rparr>
             in if length (sf_hold sf1) = 3
                then (let bl = ucast (sf_hold sf1 ! 2) + 1
                      in (sf1\<lparr>sf_body_left := bl, sf_phase := (if bl = 0 then PhIdle else PhBody), sf_hold := []\<rparr>, w1))
                else (sf1, w1)
         | PhBody \<Rightarrow>
             let w1 = sink (to_improv K) [b] w; sf1 = sf\<lparr>sf_body_left := sf_body_left sf - 1\<rparr>
             in (if sf_body_left sf1 = 0 then sf1\<lparr>sf_phase := PhIdle\<rparr> else sf1, w1))"

definition filter_feed :: "'w sinks \<Rightarrow> u8 list \<Rightarrow> serial_filter \<times> 'w \<Rightarrow> serial_filter \<times> 'w" where
  "filter_feed K bs s = fold (filter_byte K) bs s"

subsection \<open>Nothing is lost\<close>

text \<open>Two sinks that keep what they are given, in one log, and what the filter holds back.\<close>

type_synonym sink_log = "(bool \<times> u8 list) list"

definition log_sinks :: "sink_log sinks" where
  "log_sinks = \<lparr>to_console = Some (\<lambda>bs w. w @ [(False, bs)]), to_improv = Some (\<lambda>bs w. w @ [(True, bs)])\<rparr>"

definition pending :: "serial_filter \<Rightarrow> u8 list" where
  "pending sf = (if sf_phase sf = PhMagic then sf_hold sf else [])"

definition passed :: "sink_log \<Rightarrow> u8 list" where
  "passed w = concat (map snd w)"

definition filter_ok :: "serial_filter \<Rightarrow> bool" where
  "filter_ok sf \<longleftrightarrow>
     (sf_phase sf = PhMagic \<longrightarrow> length (sf_hold sf) < 6 \<and> sf_hold sf = take (length (sf_hold sf)) kHeader) \<and>
     (sf_phase sf = PhHeader \<longrightarrow> length (sf_hold sf) < 3)"

lemma magic_snoc: "n < 6 \<Longrightarrow> take n kHeader @ [kHeader ! n] = take (Suc n) kHeader"
  by (simp add: take_Suc_conv_app_nth)

lemma filter_byte_ok: "filter_ok (fst s) \<Longrightarrow> filter_ok (fst (filter_byte K b s))"
proof (cases "sf_phase (fst s)")
  case PhMagic
  assume ok: "filter_ok (fst s)"
  then have l: "length (sf_hold (fst s)) < 6" "sf_hold (fst s) = take (length (sf_hold (fst s))) kHeader"
    using PhMagic by (simp_all add: filter_ok_def)
  have "sf_hold (fst s) @ [kHeader ! length (sf_hold (fst s))] = take (Suc (length (sf_hold (fst s)))) kHeader"
    using magic_snoc [OF l(1)] l(2) by simp
  then show ?thesis using PhMagic l(1) by (auto simp: filter_byte_def filter_ok_def Let_def)
qed (auto simp: filter_byte_def filter_ok_def Let_def kHeader_def)

lemma filter_byte_keeps:
  assumes "filter_ok (fst s)"
  shows "passed (snd (filter_byte log_sinks b s)) @ pending (fst (filter_byte log_sinks b s)) =
    passed (snd s) @ pending (fst s) @ [b]"
proof (cases "sf_phase (fst s)")
  case PhMagic
  then have l: "length (sf_hold (fst s)) < 6" "sf_hold (fst s) = take (length (sf_hold (fst s))) kHeader"
    using assms by (simp_all add: filter_ok_def)
  have t: "sf_hold (fst s) @ [kHeader ! length (sf_hold (fst s))] = take (Suc (length (sf_hold (fst s)))) kHeader"
    using magic_snoc [OF l(1)] l(2) by simp
  then have "length (sf_hold (fst s)) = 5 \<Longrightarrow> sf_hold (fst s) @ [kHeader ! 5] = kHeader" by simp
  then show ?thesis using PhMagic by (auto simp: filter_byte_def passed_def pending_def sink_def log_sinks_def Let_def)
qed (auto simp: filter_byte_def passed_def pending_def sink_def log_sinks_def Let_def)

lemma filter_keeps:
  assumes "filter_ok (fst s)"
  shows "passed (snd (filter_feed log_sinks bs s)) @ pending (fst (filter_feed log_sinks bs s)) =
    passed (snd s) @ pending (fst s) @ bs"
  using assms
proof (induction bs arbitrary: s)
  case (Cons b bs)
  show ?case using Cons.IH [OF filter_byte_ok [OF Cons.prems]] filter_byte_keeps [OF Cons.prems, of b]
    by (simp add: filter_feed_def)
qed (simp add: filter_feed_def)

subsection \<open>The two sides\<close>

definition side :: "bool \<Rightarrow> sink_log \<Rightarrow> u8 list" where
  "side i w = concat (map snd (filter (\<lambda>x. fst x = i) w))"

lemma side_simps [simp]: "side i [] = []" "side i (x # w) = (if fst x = i then snd x else []) @ side i w"
    "side i (v @ w) = side i v @ side i w"
  by (simp_all add: side_def)

definition idle_at :: "u16 \<Rightarrow> serial_filter" where
  "idle_at n = \<lparr>sf_phase = PhIdle, sf_hold = [], sf_body_left = n\<rparr>"

lemma feed_append: "filter_feed K (xs @ ys) s = filter_feed K ys (filter_feed K xs s)"
  by (simp add: filter_feed_def)

lemma feed_text:
  assumes "hd kHeader \<notin> set g"
  shows "\<exists>w'. filter_feed log_sinks g (idle_at n, w) = (idle_at n, w') \<and> side False w' = side False w @ g \<and> side True w' = side True w"
  using assms
proof (induction g arbitrary: w)
  case (Cons b g)
  have "filter_byte log_sinks b (idle_at n, w) = (idle_at n, w @ [(False, [b])])"
    using Cons.prems by (simp add: filter_byte_def idle_at_def sink_def log_sinks_def kHeader_def)
  then show ?case using Cons.IH [of "w @ [(False, [b])]"] Cons.prems by (simp add: filter_feed_def)
qed (simp add: filter_feed_def)

lemma feed_body:
  assumes "length xs = unat n" and "0 < unat n"
  shows "\<exists>w'. filter_feed log_sinks xs (\<lparr>sf_phase = PhBody, sf_hold = [], sf_body_left = n\<rparr>, w) = (idle_at 0, w') \<and>
    side True w' = side True w @ xs \<and> side False w' = side False w"
  using assms
proof (induction xs arbitrary: n w)
  case (Cons x xs)
  have "n \<noteq> 0" using Cons.prems(2) by auto
  then have l: "unat (n - 1) = length xs" using unat_minus_one [of n] Cons.prems(1) by simp
  then have "n - 1 = 0 \<longleftrightarrow> xs = []" by (metis length_0_conv unat_eq_zero)
  note n = l this
  have b: "filter_byte log_sinks x (\<lparr>sf_phase = PhBody, sf_hold = [], sf_body_left = n\<rparr>, w) =
    (if xs = [] then idle_at 0 else \<lparr>sf_phase = PhBody, sf_hold = [], sf_body_left = n - 1\<rparr>, w @ [(True, [x])])"
    using n(2) by (auto simp: filter_byte_def idle_at_def sink_def log_sinks_def Let_def)
  show ?case
  proof (cases "xs = []")
    case True
    then show ?thesis using b by (simp add: filter_feed_def)
  next
    case False
    then show ?thesis using b Cons.IH [of "n - 1" "w @ [(True, [x])]"] n by (simp add: filter_feed_def)
  qed
qed simp

lemma feed_frame:
  assumes "length p \<le> 255"
  shows "\<exists>w'. filter_feed log_sinks (improv_frame t p) (idle_at n, w) = (idle_at 0, w') \<and>
    side True w' = side True w @ improv_frame t p \<and> side False w' = side False w"
proof -
  let ?w = "w @ [(True, kHeader), (True, [IMPROV_VERSION]), (True, [t]), (True, [of_nat (length p)])]"
  let ?l = "ucast (of_nat (length p) :: u8) + 1 :: u16"
  have l: "unat ?l = length p + 1"
    using assms by (simp add: unat_word_ariths unsigned_ucast_eq unat_of_nat take_bit_eq_mod)
  then have nz: "?l \<noteq> 0" by (metis Suc_eq_plus1 nat.simps(3) unat_0)
  have h: "filter_feed log_sinks (kHeader @ [IMPROV_VERSION, t, of_nat (length p)]) (idle_at n, w) =
      (\<lparr>sf_phase = PhBody, sf_hold = [], sf_body_left = ?l\<rparr>, ?w)"
    using nz by (simp add: filter_feed_def filter_byte_def idle_at_def sink_def log_sinks_def kHeader_def Let_def)
  have f: "improv_frame t p = (kHeader @ [IMPROV_VERSION, t, of_nat (length p)]) @ (p @ [sum8 (frame_head t p)])"
    by (simp add: improv_frame_def frame_head_def)
  have "filter_feed log_sinks (improv_frame t p) (idle_at n, w) =
      filter_feed log_sinks (p @ [sum8 (frame_head t p)]) (\<lparr>sf_phase = PhBody, sf_hold = [], sf_body_left = ?l\<rparr>, ?w)"
    unfolding f feed_append [of log_sinks "kHeader @ [IMPROV_VERSION, t, of_nat (length p)]"] h ..
  then show ?thesis using feed_body [of "p @ [sum8 (frame_head t p)]" ?l ?w] l nz unfolding f by simp
qed

lemma feed_mixed:
  assumes "\<forall>(g, t, p) \<in> set xs. hd kHeader \<notin> set g \<and> length p \<le> 255"
  shows "\<exists>m w'. filter_feed log_sinks (concat (map (\<lambda>(g, t, p). g @ improv_frame t p) xs)) (idle_at n, w) = (idle_at m, w') \<and>
    side False w' = side False w @ concat (map fst xs) \<and>
    side True w' = side True w @ concat (map (\<lambda>(g, t, p). improv_frame t p) xs)"
  using assms
proof (induction xs arbitrary: n w)
  case (Cons x xs)
  obtain g t p where x: "x = (g, t, p)" by (cases x)
  obtain w1 where 1: "filter_feed log_sinks g (idle_at n, w) = (idle_at n, w1)" "side False w1 = side False w @ g"
    "side True w1 = side True w" using feed_text [of g n w] Cons.prems x by auto
  obtain w2 where 2: "filter_feed log_sinks (improv_frame t p) (idle_at n, w1) = (idle_at 0, w2)"
    "side True w2 = side True w1 @ improv_frame t p" "side False w2 = side False w1"
    using feed_frame [of p t n w1] Cons.prems x by auto
  show ?case using Cons.IH [of 0 w2] Cons.prems 1 2 x by (simp add: feed_append)
qed (auto simp: filter_feed_def)

text \<open>a line shared by a console and the provisioning protocol is taken apart exactly: on any stream, what the two
  sides are given is, in order, the stream itself up to a held-back piece of a header; and on frames between stretches of
  console bytes the provisioning side gets all frames and nothing else, the console all the rest.\<close>

theorem filter_separates:
  assumes "\<forall>(g, t, p) \<in> set xs. hd kHeader \<notin> set g \<and> length p \<le> 255"
  shows "(\<forall>bs. case filter_feed log_sinks bs (filter_reset, []) of (sf, w) \<Rightarrow> passed w @ pending sf = bs) \<and>
    (case filter_feed log_sinks (concat (map (\<lambda>(g, t, p). g @ improv_frame t p) xs)) (filter_reset, []) of (sf, w) \<Rightarrow>
       sf_phase sf = PhIdle \<and> side False w = concat (map fst xs) \<and>
       side True w = concat (map (\<lambda>(g, t, p). improv_frame t p) xs))"
proof -
  have r: "filter_reset = idle_at 0" "filter_ok filter_reset" "pending filter_reset = []"
    by (simp_all add: filter_reset_def idle_at_def filter_ok_def pending_def)
  have "case filter_feed log_sinks bs (filter_reset, []) of (sf, w) \<Rightarrow> passed w @ pending sf = bs" for bs
    using filter_keeps [of "(filter_reset, [])" bs] r by (simp add: passed_def case_prod_unfold)
  moreover have "case filter_feed log_sinks (concat (map (\<lambda>(g, t, p). g @ improv_frame t p) xs)) (filter_reset, []) of (sf, w) \<Rightarrow>
      sf_phase sf = PhIdle \<and> side False w = concat (map fst xs) \<and> side True w = concat (map (\<lambda>(g, t, p). improv_frame t p) xs)"
    using feed_mixed [OF assms, of 0 "[]"] unfolding r(1) by (auto simp: idle_at_def)
  ultimately show ?thesis by blast
qed

lemma filter_separates_witness:
  "case filter_feed log_sinks ([0x6F, 0x6B] @ improv_frame 3 [2, 0]) (filter_reset, []) of (sf, w) \<Rightarrow>
     side False w = [0x6F, 0x6B] \<and> side True w = improv_frame 3 [2, 0]"
  using filter_separates [of "[([0x6F, 0x6B], 3, [2, 0])]"] by (simp add: kHeader_def case_prod_unfold)

end
