(* ===== verification/Bringup.thy ===== *)
theory Bringup
  imports NetLife SinkTcp CulDfu CaptiveDns Glue AppWdt OtaUpload
begin

text \<open>
  How the components come up: the Ethernet chip (\<^verbatim>\<open>net_eth_init\<close>), the listening socket (the head of \<^verbatim>\<open>accept_task\<close>),
  the name server of the captive access point (\<^verbatim>\<open>captive_dns_task\<close>), the bootloader client (\<^verbatim>\<open>cul_dfu_start\<close>) and
  the announcement (\<^verbatim>\<open>mdns_task\<close>), each with what it holds when a step fails.  The results of the calls into
  drivers and sockets are parameters.
\<close>

subsection \<open>The Ethernet chip\<close>

datatype eth_call =
    SpiInit | IsrService | MacNew | PhyNew | DriverInstall | MacDel | PhyDel | SpiFree | ReadMac | SetMac
  | NetifNew | NetifAttach | RegEthEvent | RegGotIp | RegGotIp6

text \<open>The results of the calls; a constructor of the driver may return a null pointer.\<close>

record eth_env =
  eth_ret :: "eth_call \<Rightarrow> esp_err"
  mac_made :: bool
  phy_made :: bool
  ipv6_build :: bool

text \<open>What is held: the bus, the two objects, \<^verbatim>\<open>s_eth\<close> and \<^verbatim>\<open>s_eth_netif\<close>.\<close>

record eth_res =
  rs_bus :: bool
  rs_mac :: bool
  rs_phy :: bool
  rs_eth :: bool
  rs_netif :: bool
  rs_calls :: "eth_call list"

definition eth_none :: eth_res where
  "eth_none = \<lparr>rs_bus = False, rs_mac = False, rs_phy = False, rs_eth = False, rs_netif = False, rs_calls = []\<rparr>"

definition eth_do :: "eth_call \<Rightarrow> eth_res \<Rightarrow> eth_res" where
  "eth_do c r = r\<lparr>rs_calls := rs_calls r @ [c]\<rparr>"

text \<open>\<^verbatim>\<open>ESP_ERROR_CHECK\<close>: a failure resets the device.\<close>

definition eth_must :: "eth_env \<Rightarrow> eth_call \<Rightarrow> eth_res \<Rightarrow> eth_res option" where
  "eth_must X c r = (if eth_ret X c = ESP_OK then Some (eth_do c r) else None)"

definition eth_detach :: "eth_env \<Rightarrow> eth_res \<Rightarrow> eth_res" where
  "eth_detach X r =
     (let r1 = (if mac_made X then (eth_do MacDel r)\<lparr>rs_mac := False\<rparr> else r);
          r2 = (if phy_made X then (eth_do PhyDel r1)\<lparr>rs_phy := False\<rparr> else r1)
      in (eth_do SpiFree r2)\<lparr>rs_bus := False, rs_eth := False\<rparr>)"

definition eth_attach :: "eth_env \<Rightarrow> eth_res \<Rightarrow> eth_res option" where
  "eth_attach X r =
     (case eth_must X NetifAttach ((eth_do NetifNew (eth_do SetMac (eth_do ReadMac r)))\<lparr>rs_netif := True\<rparr>) of
        None \<Rightarrow> None
      | Some r1 \<Rightarrow>
          (case eth_must X RegEthEvent r1 of
             None \<Rightarrow> None
           | Some r2 \<Rightarrow>
               (case eth_must X RegGotIp r2 of
                  None \<Rightarrow> None
                | Some r3 \<Rightarrow> if ipv6_build X then eth_must X RegGotIp6 r3 else Some r3)))"

definition eth_chip :: "eth_env \<Rightarrow> eth_res \<Rightarrow> (esp_err \<times> eth_res) option" where
  "eth_chip X r =
     (let r0 = eth_do SpiInit r
      in if eth_ret X SpiInit \<noteq> ESP_OK then Some (eth_ret X SpiInit, r0)
         else
           let r1 = eth_do DriverInstall
                 ((eth_do PhyNew ((eth_do MacNew (eth_do IsrService (r0\<lparr>rs_bus := True\<rparr>)))\<lparr>rs_mac := mac_made X\<rparr>))\<lparr>rs_phy := phy_made X\<rparr>)
           in if eth_ret X DriverInstall \<noteq> ESP_OK then Some (eth_ret X DriverInstall, eth_detach X r1)
              else map_option (\<lambda>r2. (ESP_OK, r2)) (eth_attach X (r1\<lparr>rs_eth := True\<rparr>)))"

text \<open>The whole of \<^verbatim>\<open>net_eth_init\<close>, with the static address and the start as in \<open>Net\<close>.\<close>

definition eth_start :: "net_env \<Rightarrow> eth_env \<Rightarrow> 'w nvs_api \<Rightarrow> 'w \<Rightarrow> net \<times> eth_res \<Rightarrow> (esp_err \<times> (net \<times> eth_res)) option" where
  "eth_start E X N w sr =
     (case eth_chip X (snd sr) of
        None \<Rightarrow> None
      | Some (e, r) \<Rightarrow>
          if e \<noteq> ESP_OK then Some (e, (fst sr, r))
          else (case checked E EthStart (eth_static E (config_load N w) (fst sr)) of
                  None \<Rightarrow> None
                | Some s \<Rightarrow> Some (ESP_OK, (s, r))))"

text \<open>A failed start holds nothing, a successful one everything.\<close>

definition eth_held :: "eth_res \<Rightarrow> bool \<times> bool \<times> bool \<times> bool \<times> bool" where
  "eth_held r = (rs_bus r, rs_mac r, rs_phy r, rs_eth r, rs_netif r)"

lemma held_do [simp]: "eth_held (eth_do c r) = eth_held r"
  by (simp add: eth_held_def eth_do_def)

lemma must_held: "eth_must X c r = Some r' \<Longrightarrow> eth_held r' = eth_held r"
  by (simp add: eth_must_def split: if_splits) auto

lemma attach_held: "eth_attach X r = Some r' \<Longrightarrow> eth_held r' = (rs_bus r, rs_mac r, rs_phy r, rs_eth r, True)"
proof -
  assume a: "eth_attach X r = Some r'"
  let ?r = "(eth_do NetifNew (eth_do SetMac (eth_do ReadMac r)))\<lparr>rs_netif := True\<rparr>"
  have "eth_held r' = eth_held ?r"
    using a by (auto simp: eth_attach_def dest!: must_held split: option.splits if_splits)
  then show ?thesis by (simp add: eth_held_def eth_do_def)
qed

lemma detach_held:
  "eth_held (eth_detach X r) = (False, rs_mac r \<and> \<not> mac_made X, rs_phy r \<and> \<not> phy_made X, False, rs_netif r)"
  by (cases "mac_made X"; cases "phy_made X") (simp_all add: eth_detach_def eth_held_def eth_do_def Let_def)

lemma eth_chip_clean:
  assumes "eth_chip X eth_none = Some (e, r)"
  shows "eth_held r = (if e = ESP_OK then (True, mac_made X, phy_made X, True, True) else (False, False, False, False, False))"
proof -
  let ?r1 = "eth_do DriverInstall ((eth_do PhyNew ((eth_do MacNew (eth_do IsrService ((eth_do SpiInit eth_none)\<lparr>rs_bus := True\<rparr>)))
    \<lparr>rs_mac := mac_made X\<rparr>))\<lparr>rs_phy := phy_made X\<rparr>)"
  have 1: "rs_bus ?r1" "rs_mac ?r1 = mac_made X" "rs_phy ?r1 = phy_made X" "\<not> rs_netif ?r1"
    by (simp_all add: eth_do_def eth_none_def)
  consider "eth_ret X SpiInit \<noteq> ESP_OK" | "eth_ret X SpiInit = ESP_OK" "eth_ret X DriverInstall \<noteq> ESP_OK"
    | "eth_ret X SpiInit = ESP_OK" "eth_ret X DriverInstall = ESP_OK" by blast
  then show ?thesis
  proof cases
    case 1
    then show ?thesis using assms by (auto simp: eth_chip_def) (simp add: eth_held_def eth_none_def)
  next
    case 2
    then have "e \<noteq> ESP_OK" "r = eth_detach X ?r1" using assms by (auto simp: eth_chip_def Let_def)
    then show ?thesis using 1 by (simp add: detach_held)
  next
    case 3
    then have "e = ESP_OK" "eth_attach X (?r1\<lparr>rs_eth := True\<rparr>) = Some r" using assms by (auto simp: eth_chip_def Let_def)
    then show ?thesis using attach_held [of X "?r1\<lparr>rs_eth := True\<rparr>" r] 1 by simp
  qed
qed

text \<open>\<open>net_eth_init\<close> of \<open>Net\<close> is this function without the chip: its one call \<open>EthInit\<close> stands for the calls up to
  the installed driver.\<close>

lemma eth_start_refines:
  assumes "call_ok E EthInit \<longleftrightarrow> eth_ret X SpiInit = ESP_OK \<and> eth_ret X DriverInstall = ESP_OK"
    and "\<forall>c \<in> {NetifAttach, RegEthEvent, RegGotIp, RegGotIp6}. eth_ret X c = ESP_OK"
  shows "net_eth_init E N w s = map_option (fst \<circ> snd) (eth_start E X N w (emit EthInit s, r))"
proof -
  have a: "\<exists>r'. eth_attach X r = Some r'" for r using assms(2) by (simp add: eth_attach_def eth_must_def)
  obtain e r' where "eth_chip X r = Some (e, r')" "e = ESP_OK \<longleftrightarrow> call_ok E EthInit"
  proof (cases "eth_ret X SpiInit = ESP_OK \<and> eth_ret X DriverInstall = ESP_OK")
    case True
    obtain r' where "eth_chip X r = Some (ESP_OK, r')" using True a by (auto simp: eth_chip_def Let_def)
    then show ?thesis using that True assms(1) by blast
  next
    case False
    have "\<exists>e r'. eth_chip X r = Some (e, r') \<and> e \<noteq> ESP_OK" using False by (cases "eth_ret X SpiInit = ESP_OK") (simp_all add: eth_chip_def Let_def)
    then show ?thesis using that False assms(1) by blast
  qed
  then show ?thesis by (auto simp: net_eth_init_def eth_start_def split: option.split)
qed

subsection \<open>The listening socket\<close>

text \<open>\<open>sk_fd\<close> is what \<^verbatim>\<open>socket\<close> returns, the others whether the calls succeed.\<close>

record sock_env =
  sk_fd :: int
  sk_bind :: bool
  sk_listen :: bool

text \<open>The wait for a network: the states that are looked at, one every half second.\<close>

fun await_net :: "net list \<Rightarrow> bool" where
  "await_net [] = False"
| "await_net (s # ss) = (if \<not> net_is_connected s \<and> \<not> n_ap s then await_net ss else True)"

text \<open>The sockets that are open, and the sink; the result is whether the task goes on to accept.\<close>

definition open_listener :: "sock_env \<Rightarrow> int set \<times> Telnet.sink \<Rightarrow> bool \<times> (int set \<times> Telnet.sink)" where
  "open_listener K fs =
     (case fs of (fds, S) \<Rightarrow>
        if sk_fd K < 0 then (False, (fds, S))
        else
          let fds1 = insert (sk_fd K) fds
          in if \<not> sk_bind K then (False, (fds1 - {sk_fd K}, S))
             else if \<not> sk_listen K then (False, (fds1 - {sk_fd K}, S))
             else (True, (fds1, S\<lparr>listen_sock := sk_fd K\<rparr>)))"

definition accept_start :: "sock_env \<Rightarrow> net list \<Rightarrow> int set \<times> Telnet.sink \<Rightarrow> bool \<times> (int set \<times> Telnet.sink)" where
  "accept_start K ss fs = (if await_net ss then open_listener K fs else (False, fs))"

lemma await_net_iff: "await_net ss \<longleftrightarrow> (\<exists>s \<in> set ss. net_is_connected s \<or> n_ap s)"
  by (induction ss) auto

lemma listener_clean:
  assumes "sk_fd K \<notin> fds" and "accept_start K ss (fds, S) = (ok, (fds', S'))"
  shows "if ok then fds' = insert (sk_fd K) fds \<and> S' = S\<lparr>listen_sock := sk_fd K\<rparr> \<and> (\<exists>s \<in> set ss. net_is_connected s \<or> n_ap s)
    else fds' = fds \<and> S' = S"
  using assms by (auto simp: accept_start_def open_listener_def await_net_iff Let_def split: if_splits)

subsection \<open>The name server of the captive access point\<close>

text \<open>
  A round of the loop: whether the stop was seen at its head, and the datagram that was received, if any came in the
  second the receive waits.
\<close>

type_synonym dns_round = "bool \<times> u8 list option"

fun dns_loop :: "dns_round list \<Rightarrow> u8 list \<Rightarrow> u8 list list \<Rightarrow> bool \<times> u8 list list" where
  "dns_loop [] buf sent = (False, sent)"
| "dns_loop ((halt, d) # rs) buf sent =
     (if halt then (True, sent)
      else case d of
        None \<Rightarrow> dns_loop rs buf sent
      | Some q \<Rightarrow>
          (case dns_recv buf q of (b, n) \<Rightarrow>
             if n < 12 then dns_loop rs b sent
             else (case dns_answer b n of
                     None \<Rightarrow> dns_loop rs (dns_header b) sent
                   | Some a \<Rightarrow> dns_loop rs (a @ drop (length a) b) (sent @ [a]))))"

text \<open>The task: what it sent, the sockets open behind it, and the network state it leaves; it ends or still runs.\<close>

definition captive_dns_task ::
  "sock_env \<Rightarrow> dns_round list \<Rightarrow> int set \<times> net \<Rightarrow> bool \<times> u8 list list \<times> (int set \<times> net)" where
  "captive_dns_task K rs fs =
     (case fs of (fds, s) \<Rightarrow>
        if sk_fd K < 0 then (True, [], (fds, s\<lparr>n_dns := DnsNone\<rparr>))
        else if \<not> sk_bind K then (True, [], (insert (sk_fd K) fds - {sk_fd K}, s\<lparr>n_dns := DnsNone\<rparr>))
        else (case dns_loop rs (replicate DNS_BUF 0) [] of
                (ended, sent) \<Rightarrow>
                  if ended then (True, sent, (insert (sk_fd K) fds - {sk_fd K}, s\<lparr>n_dns := DnsNone, n_dns_stop := False\<rparr>))
                  else (False, sent, (insert (sk_fd K) fds, s\<lparr>n_dns := DnsRun\<rparr>))))"

lemma dns_loop_stops: "fst (dns_loop rs buf sent) \<longleftrightarrow> (\<exists>r \<in> set rs. fst r)"
  by (induction rs buf sent rule: dns_loop.induct) (auto split: option.splits prod.splits)

lemma dns_task_clean:
  assumes "sk_fd K \<notin> fds" and "captive_dns_task K rs (fds, s) = (True, sent, (fds', s'))"
  shows "fds' = fds" and "n_dns s' = DnsNone"
  using assms by (auto simp: captive_dns_task_def split: if_splits prod.splits)

text \<open>Its ends are the steps of the network model: a failure, or the stop behind a running server.\<close>

lemma dns_task_steps:
  assumes "n_dns s = DnsOpen" and "n_dns_stop s" and "captive_dns_task K rs (fds, s) = (True, sent, (fds', s'))"
  shows "net_step E N DnsFailed s s' \<or>
    (\<exists>s1 s2. net_step E N DnsBound s s1 \<and> net_step E N DnsLoopEnd s1 s2 \<and> net_step E N DnsExit s2 s')"
proof (cases "sk_fd K < 0 \<or> \<not> sk_bind K")
  case True
  then show ?thesis using assms net_step.step_dns_failed [OF assms(1), of E N] by (auto simp: captive_dns_task_def split: if_splits)
next
  case False
  then have s': "s' = s\<lparr>n_dns := DnsNone, n_dns_stop := False\<rparr>"
    using assms(3) by (auto simp: captive_dns_task_def split: prod.splits if_splits)
  let ?s1 = "s\<lparr>n_dns := DnsRun\<rparr>"
  have "net_step E N DnsBound s ?s1" by (rule net_step.step_dns_bound [OF assms(1)])
  moreover have "net_step E N DnsLoopEnd ?s1 (?s1\<lparr>n_dns := DnsClosing\<rparr>)"
    by (rule net_step.step_dns_end) (simp_all add: assms(2))
  moreover have "net_step E N DnsExit (?s1\<lparr>n_dns := DnsClosing\<rparr>) s'"
    using net_step.step_dns_exit [of "?s1\<lparr>n_dns := DnsClosing\<rparr>" E N] by (simp add: s')
  ultimately show ?thesis by blast
qed

subsection \<open>The bootloader client\<close>

record dfu_env =
  de_sems :: bool
  de_register :: esp_err
  de_alloc :: esp_err
  de_task :: bool

definition cul_dfu_start :: "dfu_env \<Rightarrow> dfu \<Rightarrow> esp_err \<times> dfu" where
  "cul_dfu_start X S =
     (if d_client S then (ESP_OK, S)
      else if \<not> de_sems X then (ESP_ERR_NO_MEM, S)
      else if de_register X \<noteq> ESP_OK then (de_register X, S)
      else
        let S1 = S\<lparr>d_client := True\<rparr>
        in if de_alloc X \<noteq> ESP_OK then (de_alloc X, S1)
           else
             let S2 = S1\<lparr>d_xfer := True\<rparr>
             in if \<not> de_task X then (ESP_ERR_NO_MEM, S2) else (ESP_OK, S2))"

lemma dfu_started:
  assumes "\<not> d_client S" and "cul_dfu_start X S = (ESP_OK, S')"
  shows "S' = S\<lparr>d_client := True, d_xfer := True\<rparr>" and "cul_dfu_start X' S' = (ESP_OK, S')"
  using assms by (auto simp: cul_dfu_start_def Let_def split: if_splits)

text \<open>
  A start that fails behind the registration keeps the client: the next call reports success without a transfer and
  without the task that would deliver the events.
\<close>

lemma dfu_half_started:
  assumes "\<not> d_client S" and "\<not> d_xfer S" and "de_sems X" and "de_register X = ESP_OK" and "de_alloc X \<noteq> ESP_OK"
  shows "\<exists>S'. cul_dfu_start X S = (de_alloc X, S') \<and> cul_dfu_start X' S' = (ESP_OK, S') \<and> \<not> d_xfer S'"
  using assms by (simp add: cul_dfu_start_def Let_def)

subsection \<open>The announcement\<close>

datatype mdns_call =
    MdnsInit | MdnsHostname string | MdnsInstance string | MdnsService string string string nat "(string \<times> string) list"

record mdns_state =
  md_initialized :: bool
  md_tasks :: nat
  md_calls :: "mdns_call list"

definition MDNS_TXT :: "(string \<times> string) list" where
  "MDNS_TXT = [(''fw'', FW_VERSION_STRING), (''dev'', ''cdc2net'')]"

text \<open>
  The task: \<open>ups\<close> are the looks at the network while it waits, \<open>infos\<close> the station's address at each refresh of the
  short name.
\<close>

fun await_up :: "bool list \<Rightarrow> bool" where
  "await_up [] = False"
| "await_up (u # us) = (if \<not> u then await_up us else True)"

definition mdns_task ::
  "'w mdns_api \<Rightarrow> esp_err \<Rightarrow> string \<Rightarrow> bool list \<Rightarrow> (esp_err \<times> u32) option list \<Rightarrow> mdns_state \<times> (short_alias \<times> 'w) \<Rightarrow>
   mdns_state \<times> (short_alias \<times> 'w)" where
  "mdns_task M err host ups infos md =
     (case md of (d, aw) \<Rightarrow>
        if \<not> await_up ups then (d, aw)
        else if err \<noteq> ESP_OK then (d\<lparr>md_calls := md_calls d @ [MdnsInit]\<rparr>, aw)
        else (d\<lparr>md_initialized := True,
                md_calls := md_calls d @ [MdnsInit, MdnsHostname host, MdnsInstance ''CDC2NET USB-CDC Bridge'',
                  MdnsService ''CDC2NET WebUI'' ''_http'' ''_tcp'' 80 MDNS_TXT]\<rparr>,
              fold (update_short_alias M) infos aw))"

definition mdns_glue_init :: "bool \<Rightarrow> mdns_state \<Rightarrow> esp_err \<times> mdns_state" where
  "mdns_glue_init created d =
     (if md_initialized d then (ESP_OK, d)
      else if created then (ESP_OK, d\<lparr>md_tasks := md_tasks d + 1\<rparr>)
      else (ESP_ERR_NO_MEM, d))"

text \<open>Nothing is announced before the network is up, and the stream port never is.\<close>

lemma await_up_iff: "await_up us \<longleftrightarrow> (\<exists>u \<in> set us. u)"
  by (induction us) auto

lemma mdns_quiet: "\<forall>u \<in> set ups. \<not> u \<Longrightarrow> mdns_task M err host ups infos md = md"
proof -
  assume "\<forall>u \<in> set ups. \<not> u"
  then have "await_up ups = False" unfolding await_up_iff by blast
  then show ?thesis by (cases md) (simp add: mdns_task_def)
qed

text \<open>The flag is set in the task: a second call before that starts a second task.\<close>

lemma mdns_twice:
  "\<not> md_initialized d \<Longrightarrow> md_tasks (snd (mdns_glue_init True (snd (mdns_glue_init True d)))) = md_tasks d + 2"
  by (simp add: mdns_glue_init_def)

subsection \<open>Restarts and uploads from the page\<close>

datatype web_task = TaskReboot | TaskEnterRecovery

definition rebooting_answer :: string where
  "rebooting_answer = ''{'' @ [CHR 0x22] @ ''rebooting'' @ [CHR 0x22] @ '':true}''"

text \<open>The answer and the task that is created behind it; the task restarts half a second later.\<close>

definition h_reboot :: "string \<times> web_task list" where
  "h_reboot = (take 18 rebooting_answer, [TaskReboot])"

definition h_recovery :: "string \<times> web_task list" where
  "h_recovery = (''{'' @ [CHR 0x22] @ ''ok'' @ [CHR 0x22] @ '':true}'', [TaskEnterRecovery])"

definition web_task_run :: "'w app_api \<Rightarrow> web_task \<Rightarrow> 'w \<Rightarrow> 'w" where
  "web_task_run A t w = (case t of TaskReboot \<Rightarrow> ap_restart A w | TaskEnterRecovery \<Rightarrow> tulx_enter_recovery A w)"

lemma reboot_answer_whole: "fst h_reboot = rebooting_answer"
  by (simp add: h_reboot_def rebooting_answer_def)

text \<open>The upload handler: a product with a recovery system refuses before a byte of the body is read.\<close>

definition h_ota ::
  "bool \<Rightarrow> 'v wdt_api \<Rightarrow> 'w slot_api option \<Rightarrow> recv_ev list \<Rightarrow> u8 list \<Rightarrow> nat \<Rightarrow> (guard \<times> 'v) \<times> 'w \<Rightarrow>
   upload_res \<times> ((guard \<times> 'v) \<times> 'w)" where
  "h_ota tulx A upd evs body len s =
     (case s of (g, w) \<Rightarrow>
        if tulx then (OtaRejected 409, (g, w))
        else (case paused_call A (\<lambda>g. (h_ota_body upd evs body len w, g)) g of
                ((res, w'), g') \<Rightarrow> (res, (g', w'))))"

lemma h_ota_body_result:
  "\<not> tulx \<Longrightarrow> fst (h_ota tulx A upd evs body len (g, w)) = fst (h_ota_body upd evs body len w)"
  by (simp add: h_ota_def paused_call_def split: prod.split)

lemma h_ota_unpaused: "\<not> g_paused (fst g) \<Longrightarrow> \<not> g_paused (fst (fst (snd (h_ota tulx A upd evs body len (g, w)))))"
  by (auto simp: h_ota_def paused_call_def app_wdt_resume_main_def split: prod.splits)

end
