(* ===== verification/Missions.thy ===== *)
theory Missions
  imports Cdc_Prelude
begin

text \<open>
  The two builds beside the gateway: the border router of \<^verbatim>\<open>mission_tbr.c\<close>, whose calls into OpenThread are
  recorded with the depth of its lock, and the probe of \<^verbatim>\<open>hubprobe.c\<close>, which lists the devices behind a hub
  and opens each of them.
\<close>

subsection \<open>The border router\<close>

datatype ot_call =
    OtEventFd | OtStart | OtSpawnBr | OtSpawnObs | OtLock | OtUnlock | OtBackbone | OtBrInit | OtGetTlvs | OtAutoStart bool
  | OtRole | OtChild nat | OtNeighbor nat

record ot_env =
  ot_ret :: "ot_call \<Rightarrow> esp_err"
  ot_tlvs :: bool
  ot_children :: nat
  ot_neighbors :: nat

text \<open>\<^verbatim>\<open>ot_br_init_task\<close>; \<open>backbone\<close> is whether the wired interface exists.\<close>

definition ot_br_init_task :: "bool \<Rightarrow> ot_call list" where
  "ot_br_init_task backbone = (if \<not> backbone then [] else [OtLock, OtBackbone, OtBrInit, OtUnlock])"

text \<open>A failure under \<^verbatim>\<open>ESP_ERROR_CHECK\<close> resets the device.\<close>

definition mission_tbr_start :: "ot_env \<Rightarrow> ot_call list option" where
  "mission_tbr_start X =
     (let e = ot_ret X OtEventFd
      in if e \<noteq> ESP_OK \<and> e \<noteq> ESP_ERR_INVALID_STATE then Some [OtEventFd]
         else if ot_ret X OtStart \<noteq> ESP_OK then None
         else if ot_ret X (OtAutoStart (ot_tlvs X)) \<noteq> ESP_OK then None
         else Some [OtEventFd, OtStart, OtSpawnBr, OtLock, OtGetTlvs, OtAutoStart (ot_tlvs X), OtUnlock, OtSpawnObs])"

text \<open>One period of the observer: the indices run until the first that is refused.\<close>

definition tbr_observe :: "ot_env \<Rightarrow> (nat \<times> nat) \<times> ot_call list" where
  "tbr_observe X =
     ((ot_children X, ot_neighbors X),
      [OtLock, OtRole] @ map OtChild [0..<ot_children X + 1] @ map OtNeighbor [0..<ot_neighbors X + 1] @ [OtUnlock])"

text \<open>Every call into OpenThread is made under its lock, which is given back.\<close>

fun ot_locked :: "bool \<Rightarrow> ot_call list \<Rightarrow> bool" where
  "ot_locked h [] = (\<not> h)"
| "ot_locked h (c # cs) =
     (case c of
        OtLock \<Rightarrow> \<not> h \<and> ot_locked True cs
      | OtUnlock \<Rightarrow> h \<and> ot_locked False cs
      | OtEventFd \<Rightarrow> ot_locked h cs
      | OtStart \<Rightarrow> ot_locked h cs
      | OtSpawnBr \<Rightarrow> ot_locked h cs
      | OtSpawnObs \<Rightarrow> ot_locked h cs
      | _ \<Rightarrow> h \<and> ot_locked h cs)"

lemma ot_locked_counts: "ot_locked True (map OtChild xs @ cs) = ot_locked True cs" "ot_locked True (map OtNeighbor xs @ cs) = ot_locked True cs"
  by (induction xs) simp_all

lemma tbr_locked:
  "ot_locked False (ot_br_init_task backbone)" "mission_tbr_start X = Some cs \<Longrightarrow> ot_locked False cs"
  "ot_locked False (snd (tbr_observe X))"
  by (auto simp: ot_br_init_task_def mission_tbr_start_def tbr_observe_def ot_locked_counts Let_def split: if_splits
      simp del: upt_Suc map_append)

subsection \<open>The probe\<close>

definition MAX_DEV :: nat where "MAX_DEV = 6"

definition PRODUCT_LEN :: nat where "PRODUCT_LEN = 40"

record probe_dev =
  pd_addr :: u8
  pd_cls :: u8
  pd_vid :: u16
  pd_pid :: u16
  pd_product :: string
  pd_opened :: bool
  pd_err :: esp_err

text \<open>\<^verbatim>\<open>str_ascii\<close>: \<open>bLength\<close> and the 16-bit characters of the descriptor.\<close>

fun ascii_chars :: "nat \<Rightarrow> u16 list \<Rightarrow> string" where
  "ascii_chars 0 cs = []"
| "ascii_chars (Suc k) [] = []"
| "ascii_chars (Suc k) (c # cs) =
     (if c = 0 then [] else (if 0x20 \<le> c \<and> c < 0x7F then char_of (unat c) else CHR ''?'') # ascii_chars k cs)"

definition str_ascii :: "nat \<Rightarrow> (u8 \<times> u16 list) option \<Rightarrow> string" where
  "str_ascii cap sd =
     (case sd of
        None \<Rightarrow> []
      | Some (len, cs) \<Rightarrow> if cap = 0 \<or> unat len < 2 then [] else ascii_chars (cap - 1) (take ((unat len - 2) div 2) cs))"

text \<open>What the host library tells of a new device: its descriptor and its information, each unless the call fails.\<close>

record new_dev =
  nd_desc :: "(u16 \<times> u16 \<times> u8) option"
  nd_info :: "(u8 \<times> (u8 \<times> u16 list) option) option"

definition new_dev_cb :: "new_dev \<Rightarrow> probe_dev list \<Rightarrow> probe_dev list" where
  "new_dev_cb d devs =
     (if MAX_DEV \<le> length devs then devs
      else
        let d0 = \<lparr>pd_addr = 0, pd_cls = 0, pd_vid = 0, pd_pid = 0, pd_product = [], pd_opened = False, pd_err = ESP_OK\<rparr>;
            d1 = (case nd_desc d of None \<Rightarrow> d0 | Some (v, p, c) \<Rightarrow> d0\<lparr>pd_vid := v, pd_pid := p, pd_cls := c\<rparr>);
            d2 = (case nd_info d of None \<Rightarrow> d1 | Some (a, s) \<Rightarrow> d1\<lparr>pd_addr := a, pd_product := str_ascii PRODUCT_LEN s\<rparr>)
        in devs @ [d2])"

text \<open>One pass over the devices; the opens are made in order and recorded by address.\<close>

fun try_open_all :: "(u8 \<Rightarrow> esp_err) \<Rightarrow> probe_dev list \<Rightarrow> probe_dev list \<times> u8 list" where
  "try_open_all op [] = ([], [])"
| "try_open_all op (d # ds) =
     (case try_open_all op ds of
        (ds', tried) \<Rightarrow>
          if pd_opened d then (d # ds', tried)
          else if pd_cls d = 0x09 then (d\<lparr>pd_opened := True\<rparr> # ds', tried)
          else (d\<lparr>pd_err := op (pd_addr d), pd_opened := op (pd_addr d) = ESP_OK\<rparr> # ds', pd_addr d # tried))"

definition open_summary :: "probe_dev list \<Rightarrow> nat \<times> nat" where
  "open_summary ds =
     (length (filter (\<lambda>d. pd_cls d \<noteq> 0x09) ds),
      length (filter (\<lambda>d. pd_cls d \<noteq> 0x09 \<and> pd_opened d \<and> pd_err d = ESP_OK) ds))"

text \<open>The wait: the number of devices after each half second; it ends after six quiet ones or forty at most.\<close>

fun settle :: "nat \<Rightarrow> int \<Rightarrow> nat \<Rightarrow> nat list \<Rightarrow> nat" where
  "settle 0 seen calm ns = 0"
| "settle (Suc t) seen calm [] = 0"
| "settle (Suc t) seen calm (n # ns) =
     (if int n = seen then (if 6 \<le> calm + 1 then 1 else 1 + settle t seen (calm + 1) ns)
      else 1 + settle t (int n) 0 ns)"

definition settle_rounds :: "nat list \<Rightarrow> nat" where
  "settle_rounds ns = settle 40 (- 1) 0 ns"

lemma ascii_chars_length: "length (ascii_chars k cs) \<le> k"
  by (induction k cs rule: ascii_chars.induct) auto

lemma str_ascii_fits:
  assumes "0 < cap"
  shows "length (str_ascii cap sd) < cap"
proof -
  have "length (ascii_chars (cap - 1) cs) < cap" for cs using ascii_chars_length [of "cap - 1" cs] assms by linarith
  then show ?thesis using assms by (simp add: str_ascii_def split: option.split prod.split)
qed

lemma devices_fit: "length devs \<le> MAX_DEV \<Longrightarrow> length (fold new_dev_cb ds devs) \<le> MAX_DEV"
proof (induction ds arbitrary: devs)
  case (Cons d ds)
  have "length (new_dev_cb d devs) \<le> MAX_DEV" using Cons.prems by (simp add: new_dev_cb_def Let_def)
  then show ?case using Cons.IH by simp
qed simp

text \<open>
  A pass tries exactly the devices that are neither hubs nor open, keeps what is open, and leaves untried only what
  failed, so that later passes try these again and no open handle twice.
\<close>

lemma open_pass:
  assumes "try_open_all op ds = (ds', tried)"
  shows "tried = map pd_addr (filter (\<lambda>d. \<not> pd_opened d \<and> pd_cls d \<noteq> 0x09) ds)"
    and "map pd_addr ds' = map pd_addr ds \<and> map pd_cls ds' = map pd_cls ds"
    and "map pd_opened ds' = map (\<lambda>d. pd_opened d \<or> pd_cls d = 0x09 \<or> op (pd_addr d) = ESP_OK) ds"
  using assms by (induction ds arbitrary: ds' tried) (auto split: prod.splits if_splits)

lemma settle_bound: "settle_rounds ns \<le> 40"
proof -
  have "settle t l s ns \<le> t" for t l s ns by (induction t l s ns rule: settle.induct) auto
  then show ?thesis by (simp add: settle_rounds_def)
qed

end
