(* ===== verification/VcpDrivers.thy ===== *)
theory VcpDrivers
  imports SourceUsb "HOL-Library.Log_Nat"
begin

text \<open>
  The drivers of the USB-serial chips that \<^verbatim>\<open>source_usb.c\<close> opens its devices with: \<^verbatim>\<open>usb_host_ftdi_vcp.c\<close>,
  \<^verbatim>\<open>usb_host_ch34x_vcp.c\<close> and \<^verbatim>\<open>usb_host_cp210x_vcp.c\<close>.  The control requests and the opening of the
  device are calls into the CDC host driver, a parameter.  The rate of an FTDI chip is computed in single precision,
  which is \<open>f32\<close> below; a read behind the end of a table is \<open>None\<close>.
\<close>

subsection \<open>Requests\<close>

text \<open>How a transfer ends, and what the host driver reports to its user.\<close>

datatype xfer_status =
  XCompleted | XError | XTimedOut | XCanceled | XStall | XOverflow | XSkipped | XNoDevice

datatype host_event = HostError xfer_status | SerialState u16 | NetworkConnection bool | DeviceDisconnected

text \<open>A request to the device: its number, \<^verbatim>\<open>wValue\<close>, \<^verbatim>\<open>wIndex\<close> and data.\<close>

datatype vcp_req = VcpReq u8 u16 u16 "u8 list"

record 'w vcp_host =
  vh_open :: "u16 \<Rightarrow> u16 \<Rightarrow> nat \<Rightarrow> nat \<Rightarrow> 'w \<Rightarrow> esp_err \<times> 'w"
  vh_out :: "vcp_req \<Rightarrow> 'w \<Rightarrow> esp_err \<times> 'w"
  vh_in :: "u8 \<Rightarrow> u16 \<Rightarrow> nat \<Rightarrow> 'w \<Rightarrow> (esp_err \<times> u8 list) \<times> 'w"
  vh_delay :: "nat \<Rightarrow> 'w \<Rightarrow> 'w"
  vh_close :: "'w \<Rightarrow> 'w"

text \<open>The products that are tried, in order, when none is named.\<close>

fun vcp_probe :: "'w vcp_host \<Rightarrow> u16 \<Rightarrow> u16 list \<Rightarrow> nat \<Rightarrow> nat \<Rightarrow> 'w \<Rightarrow> esp_err \<times> 'w" where
  "vcp_probe V vid [] intf buf w = (ESP_ERR_NOT_FOUND, w)"
| "vcp_probe V vid (p # ps) intf buf w =
     (case vh_open V vid p intf buf w of
        (e, w1) \<Rightarrow> if e = ESP_OK \<or> ps = [] then (e, w1) else vcp_probe V vid ps intf buf w1)"

definition vcp_open_pid :: "'w vcp_host \<Rightarrow> u16 \<Rightarrow> u16 list \<Rightarrow> u16 \<Rightarrow> nat \<Rightarrow> nat \<Rightarrow> 'w \<Rightarrow> esp_err \<times> 'w" where
  "vcp_open_pid V vid known pid intf buf w =
     (if pid = 0 then vcp_probe V vid known intf buf w else vh_open V vid pid intf buf w)"

subsection \<open>The functions of an open device\<close>

text \<open>The table of a device, the dispatch over it, and the functions of a device that follows the CDC class.\<close>

record 'w intf_func =
  if_lc_set :: "(lc \<Rightarrow> 'w \<Rightarrow> esp_err \<times> 'w) option"
  if_lc_get :: "(lc \<Rightarrow> 'w \<Rightarrow> (esp_err \<times> lc) \<times> 'w) option"
  if_lines :: "(bool \<Rightarrow> bool \<Rightarrow> 'w \<Rightarrow> esp_err \<times> 'w) option"
  if_break :: "(u16 \<Rightarrow> 'w \<Rightarrow> esp_err \<times> 'w) option"

definition cdc_acm_host_line_coding_set :: "'w intf_func option \<Rightarrow> lc option \<Rightarrow> 'w \<Rightarrow> esp_err \<times> 'w" where
  "cdc_acm_host_line_coding_set hdl l w =
     (case (hdl, l) of
        (Some F, Some c) \<Rightarrow> (case if_lc_set F of None \<Rightarrow> (ESP_ERR_NOT_SUPPORTED, w) | Some g \<Rightarrow> g c w)
      | _ \<Rightarrow> (ESP_ERR_INVALID_ARG, w))"

definition cdc_acm_host_line_coding_get :: "'w intf_func option \<Rightarrow> lc option \<Rightarrow> 'w \<Rightarrow> (esp_err \<times> lc option) \<times> 'w" where
  "cdc_acm_host_line_coding_get hdl l w =
     (case (hdl, l) of
        (Some F, Some c) \<Rightarrow>
          (case if_lc_get F of
             None \<Rightarrow> ((ESP_ERR_NOT_SUPPORTED, l), w)
           | Some g \<Rightarrow> (case g c w of ((e, c'), w1) \<Rightarrow> ((e, Some c'), w1)))
      | _ \<Rightarrow> ((ESP_ERR_INVALID_ARG, l), w))"

definition cdc_acm_host_set_control_line_state :: "'w intf_func option \<Rightarrow> bool \<Rightarrow> bool \<Rightarrow> 'w \<Rightarrow> esp_err \<times> 'w" where
  "cdc_acm_host_set_control_line_state hdl dtr rts w =
     (case hdl of
        None \<Rightarrow> (ESP_ERR_INVALID_ARG, w)
      | Some F \<Rightarrow> (case if_lines F of None \<Rightarrow> (ESP_ERR_NOT_SUPPORTED, w) | Some g \<Rightarrow> g dtr rts w))"

definition cdc_acm_host_send_break :: "'w intf_func option \<Rightarrow> u16 \<Rightarrow> 'w \<Rightarrow> esp_err \<times> 'w" where
  "cdc_acm_host_send_break hdl duration_ms w =
     (case hdl of
        None \<Rightarrow> (ESP_ERR_INVALID_ARG, w)
      | Some F \<Rightarrow> (case if_break F of None \<Rightarrow> (ESP_ERR_NOT_SUPPORTED, w) | Some g \<Rightarrow> g duration_ms w))"

text \<open>The interface of the notifications is \<open>None\<close> when the device has none; a coding travels as seven bytes.\<close>

definition send_cdc_request :: "'w vcp_host \<Rightarrow> u16 option \<Rightarrow> u8 \<Rightarrow> u8 list \<Rightarrow> u16 \<Rightarrow> 'w \<Rightarrow> esp_err \<times> 'w" where
  "send_cdc_request V intf req d v w =
     (case intf of None \<Rightarrow> (ESP_ERR_NOT_SUPPORTED, w) | Some i \<Rightarrow> vh_out V (VcpReq req v i d) w)"

definition of_le32 :: "u8 list \<Rightarrow> u32" where
  "of_le32 d = of_be32 (d ! 3) (d ! 2) (d ! 1) (d ! 0)"

definition lc_bytes :: "lc \<Rightarrow> u8 list" where
  "lc_bytes l = le32 (baud l) @ [stop l, parity l, bits l]"

definition lc_of_bytes :: "u8 list \<Rightarrow> lc" where
  "lc_of_bytes d = \<lparr>baud = of_le32 d, bits = d ! 6, parity = d ! 5, stop = d ! 4\<rparr>"

definition acm_compliant_line_coding_set :: "'w vcp_host \<Rightarrow> u16 option \<Rightarrow> lc \<Rightarrow> 'w \<Rightarrow> esp_err \<times> 'w" where
  "acm_compliant_line_coding_set V intf l w = send_cdc_request V intf 0x20 (lc_bytes l) 0 w"

definition acm_compliant_line_coding_get :: "'w vcp_host \<Rightarrow> u16 option \<Rightarrow> lc \<Rightarrow> 'w \<Rightarrow> (esp_err \<times> lc) \<times> 'w" where
  "acm_compliant_line_coding_get V intf l w =
     (case intf of
        None \<Rightarrow> ((ESP_ERR_NOT_SUPPORTED, l), w)
      | Some i \<Rightarrow> (case vh_in V 0x21 i 7 w of ((e, d), w1) \<Rightarrow> ((e, if e = ESP_OK then lc_of_bytes d else l), w1)))"

definition acm_compliant_set_control_line_state :: "'w vcp_host \<Rightarrow> u16 option \<Rightarrow> bool \<Rightarrow> bool \<Rightarrow> 'w \<Rightarrow> esp_err \<times> 'w" where
  "acm_compliant_set_control_line_state V intf dtr rts w =
     send_cdc_request V intf 0x22 [] (of_bool dtr OR push_bit 1 (of_bool rts)) w"

definition acm_compliant_send_break :: "'w vcp_host \<Rightarrow> u16 option \<Rightarrow> u16 \<Rightarrow> 'w \<Rightarrow> esp_err \<times> 'w" where
  "acm_compliant_send_break V intf duration_ms w =
     (case send_cdc_request V intf 0x23 [] duration_ms w of
        (e, w1) \<Rightarrow> if e \<noteq> ESP_OK then (e, w1) else (ESP_OK, vh_delay V (unat duration_ms + 1) w1))"

lemma lc_bytes_read: "lc_of_bytes (lc_bytes l) = l"
  by (simp add: lc_of_bytes_def lc_bytes_def of_le32_def le32_def of_be32_be32)

subsection \<open>CP210x\<close>

definition cp210x_line_coding_set :: "'w vcp_host \<Rightarrow> u16 \<Rightarrow> lc \<Rightarrow> 'w \<Rightarrow> esp_err \<times> 'w" where
  "cp210x_line_coding_set V intf l w =
     (case (if baud l \<noteq> 0 then vh_out V (VcpReq 0x1E 0 intf (le32 (baud l))) w else (ESP_OK, w)) of
        (e, w1) \<Rightarrow>
          if e \<noteq> ESP_OK then (e, w1)
          else if bits l \<noteq> 0
          then vh_out V (VcpReq 0x03 (ucast (stop l) OR push_bit 4 (ucast (parity l)) OR push_bit 8 (ucast (bits l))) intf []) w1
          else (ESP_OK, w1))"

definition cp210x_line_coding_get :: "'w vcp_host \<Rightarrow> u16 \<Rightarrow> lc \<Rightarrow> 'w \<Rightarrow> (esp_err \<times> lc) \<times> 'w" where
  "cp210x_line_coding_get V intf l w =
     (case vh_in V 0x1D intf 4 w of
        ((e, d), w1) \<Rightarrow>
          if e \<noteq> ESP_OK then ((e, l), w1)
          else (case vh_in V 0x04 intf 2 w1 of
            ((e2, t), w2) \<Rightarrow>
              if e2 \<noteq> ESP_OK then ((e2, l\<lparr>baud := of_le32 d\<rparr>), w2)
              else ((ESP_OK, \<lparr>baud = of_le32 d, bits = t ! 1, parity = drop_bit 4 (t ! 0 AND 0xF0), stop = t ! 0 AND 0x0F\<rparr>), w2)))"

definition cp210x_set_control_line_state :: "'w vcp_host \<Rightarrow> u16 \<Rightarrow> bool \<Rightarrow> bool \<Rightarrow> 'w \<Rightarrow> esp_err \<times> 'w" where
  "cp210x_set_control_line_state V intf dtr rts w =
     vh_out V (VcpReq 0x07 (of_bool dtr OR push_bit 1 (of_bool rts) OR 0x0300) intf []) w"

definition cp210x_send_break :: "'w vcp_host \<Rightarrow> u16 \<Rightarrow> u16 \<Rightarrow> 'w \<Rightarrow> esp_err \<times> 'w" where
  "cp210x_send_break V intf duration_ms w =
     (case vh_out V (VcpReq 0x05 1 intf []) w of
        (e, w1) \<Rightarrow> if e \<noteq> ESP_OK then (e, w1) else vh_out V (VcpReq 0x05 0 intf []) (vh_delay V (unat duration_ms) w1))"

definition cp210x_vcp_open :: "'w vcp_host \<Rightarrow> u16 \<Rightarrow> u16 \<Rightarrow> nat \<Rightarrow> nat \<Rightarrow> 'w \<Rightarrow> esp_err \<times> 'w" where
  "cp210x_vcp_open V intf pid idx buf w =
     (case vcp_open_pid V 0x10C4 [0xEA60, 0xEA70, 0xEA71] pid idx buf w of
        (e, w1) \<Rightarrow>
          if e \<noteq> ESP_OK then (e, w1)
          else (case vh_out V (VcpReq 0x00 1 intf []) w1 of
            (e2, w2) \<Rightarrow> if e2 \<noteq> ESP_OK then (e2, vh_close V w2) else (ESP_OK, w2)))"

definition cp210x_funcs :: "'w vcp_host \<Rightarrow> u16 \<Rightarrow> 'w intf_func \<Rightarrow> 'w intf_func" where
  "cp210x_funcs V intf F =
     F\<lparr>if_lc_set := Some (cp210x_line_coding_set V intf), if_lc_get := Some (cp210x_line_coding_get V intf),
       if_lines := Some (cp210x_set_control_line_state V intf), if_break := Some (cp210x_send_break V intf)\<rparr>"

subsection \<open>CH34x\<close>

definition ch34x_scale :: "nat \<Rightarrow> nat \<times> nat" where
  "ch34x_scale rate =
     (if 6000000 div 255 < rate then (3, 6000000)
      else if 750000 div 255 < rate then (2, 750000)
      else if 93750 div 255 < rate then (1, 93750)
      else (0, 11719))"

text \<open>The factor is an \<^verbatim>\<open>unsigned char\<close>; \<open>None\<close> is the result \<^verbatim>\<open>-1\<close>.\<close>

definition calculate_baud_divisor :: "u32 \<Rightarrow> (u8 \<times> u8) option" where
  "calculate_baud_divisor baud_rate =
     (if baud_rate = 921600 then Some (0xF3, 7)
      else if baud_rate = 307200 then Some (0xD9, 7)
      else
        let rate = unat baud_rate; (b, c) = ch34x_scale rate; a = c div rate mod 256
        in if a = 0 \<or> a = 0xFF then None
           else
             let delta_0 = int (c div a) - int rate; delta_1 = int rate - int (c div (a + 1));
                 a' = (if delta_0 > delta_1 then a + 1 else a)
             in Some (of_nat (256 - a'), of_nat b))"

definition ch34x_set_control_line_state :: "'w vcp_host \<Rightarrow> u16 \<Rightarrow> bool \<Rightarrow> bool \<Rightarrow> 'w \<Rightarrow> esp_err \<times> 'w" where
  "ch34x_set_control_line_state V intf dtr rts w =
     vh_out V (VcpReq 0xA4 ((if dtr then 0x20 else 0) OR (if rts then 0x40 else 0)) intf []) w"

text \<open>The line-control register.\<close>

definition ch34x_lcr :: "lc \<Rightarrow> u8 option" where
  "ch34x_lcr l =
     (let size = (if bits l = 5 then Some 0x00 else if bits l = 6 then Some 0x01 else if bits l = 7 then Some 0x02
                  else if bits l = 8 then Some 0x03 else None);
          par = (if parity l = 0 then Some 0x00 else if parity l = 1 then Some 0x08 else if parity l = 2 then Some 0x18
                 else if parity l = 3 \<or> parity l = 4 then Some 0x28 else None);
          stp = (if stop l = 0 then Some 0x00 else if stop l = 2 then Some 0x04 else None)
      in case (size, par, stp) of (Some a, Some b, Some c) \<Rightarrow> Some ((0x80 OR 0x40) OR a OR b OR c) | _ \<Rightarrow> None)"

definition ch34x_line_coding_set :: "'w vcp_host \<Rightarrow> lc \<Rightarrow> 'w \<Rightarrow> esp_err \<times> 'w" where
  "ch34x_line_coding_set V l w =
     (case (if baud l \<noteq> 0
            then (case calculate_baud_divisor (baud l) of
                    None \<Rightarrow> (ESP_ERR_INVALID_ARG, w)
                  | Some (factor, divisor) \<Rightarrow>
                      vh_out V (VcpReq 0x9A 0x1312 ((push_bit 8 (ucast factor) OR ucast divisor) OR 0x80) []) w)
            else (ESP_OK, w)) of
        (e, w1) \<Rightarrow>
          if e \<noteq> ESP_OK then (e, w1)
          else if bits l \<noteq> 0
          then (case ch34x_lcr l of
                  None \<Rightarrow> (ESP_ERR_INVALID_ARG, w1)
                | Some lcr \<Rightarrow> vh_out V (VcpReq 0x9A 0x2518 (ucast lcr) []) w1)
          else (ESP_OK, w1))"

definition ch34x_vcp_open :: "'w vcp_host \<Rightarrow> u16 \<Rightarrow> nat \<Rightarrow> nat \<Rightarrow> 'w \<Rightarrow> esp_err \<times> 'w" where
  "ch34x_vcp_open V pid idx buf w = vcp_open_pid V 0x1A86 [0x7522, 0x7523, 0x5523] pid idx buf w"

definition ch34x_funcs :: "'w vcp_host \<Rightarrow> u16 \<Rightarrow> 'w intf_func \<Rightarrow> 'w intf_func" where
  "ch34x_funcs V intf F =
     F\<lparr>if_lc_set := Some (ch34x_line_coding_set V), if_lines := Some (ch34x_set_control_line_state V intf)\<rparr>"

subsection \<open>FTDI\<close>

text \<open>The state word of the serial events, and the context of a device.\<close>

definition ftdi_state :: "u8 \<Rightarrow> u8 \<Rightarrow> u16" where
  "ftdi_state d0 d1 =
     (let flag = (\<lambda>d m n. if d AND m \<noteq> 0 then push_bit n 1 else 0)
      in flag d0 0x80 0 OR flag d0 0x20 1 OR flag d1 0x10 2 OR flag d0 0x40 3 OR flag d1 0x08 4 OR flag d1 0x04 5 OR
         flag d1 0x02 6 OR flag d0 0x10 15)"

record 'w ftdi_ctx =
  fx_intf :: nat
  fx_data_cb :: "(u8 list \<Rightarrow> 'w \<Rightarrow> bool \<times> 'w) option"
  fx_event_cb :: "(host_event \<Rightarrow> 'w \<Rightarrow> 'w) option"
  fx_uart_state :: u16

definition ftdi_rx :: "u8 list \<Rightarrow> 'w ftdi_ctx \<times> 'w \<Rightarrow> bool \<times> ('w ftdi_ctx \<times> 'w)" where
  "ftdi_rx d s =
     (let (ctx, w) = s;
          (ctx1, w1) =
            (case fx_event_cb ctx of
               None \<Rightarrow> (ctx, w)
             | Some ev \<Rightarrow>
                 if 2 \<le> length d \<and> fx_uart_state ctx \<noteq> ftdi_state (d ! 0) (d ! 1)
                 then (ctx\<lparr>fx_uart_state := ftdi_state (d ! 0) (d ! 1)\<rparr>, ev (SerialState (ftdi_state (d ! 0) (d ! 1))) w)
                 else (ctx, w))
      in case fx_data_cb ctx1 of
           None \<Rightarrow> (True, (ctx1, w1))
         | Some cb \<Rightarrow> if 2 < length d then (case cb (drop 2 d) w1 of (r, w2) \<Rightarrow> (r, (ctx1, w2))) else (True, (ctx1, w1)))"

definition ftdi_event :: "host_event \<Rightarrow> 'w ftdi_ctx \<times> 'w \<Rightarrow> 'w ftdi_ctx \<times> 'w" where
  "ftdi_event ev s = (case fx_event_cb (fst s) of None \<Rightarrow> s | Some f \<Rightarrow> (fst s, f ev (snd s)))"

text \<open>
  Single precision: a positive number is rounded to 24 significant bits, ties to even.  No number that occurs is
  large or small enough for the ends of the exponent.
\<close>

definition bin_exp :: "rat \<Rightarrow> int" where
  "bin_exp x =
     (case quotient_of x of (p, q) \<Rightarrow>
        let e = int (floorlog 2 (nat p)) - int (floorlog 2 (nat q))
        in if 2 powi e \<le> x then e else e - 1)"

definition round_even :: "rat \<Rightarrow> int" where
  "round_even x =
     (let n = \<lfloor>x\<rfloor>; r = x - of_int n
      in if r < 1 / 2 then n else if 1 / 2 < r then n + 1 else if even n then n else n + 1)"

definition f32 :: "rat \<Rightarrow> rat" where
  "f32 x =
     (if x = 0 then 0
      else let s = 2 powi (bin_exp \<bar>x\<bar> - 23); y = of_int (round_even (\<bar>x\<bar> / s)) * s in if x < 0 then - y else y)"

definition FTDI_BASE_CLK :: nat where "FTDI_BASE_CLK = 3000000"

definition ftdi_fractal :: "rat list" where
  "ftdi_fractal = map (\<lambda>k. of_nat k / 8) [0, 1, 2, 3, 4, 5, 6, 7, 8]"

definition ftdi_fractal_bits :: "u8 list" where
  "ftdi_fractal_bits = [0, 0x03, 0x02, 0x04, 0x01, 0x05, 0x06, 0x07]"

text \<open>The search for the next bigger fraction: \<open>None\<close> when it runs off the table.\<close>

fun bigger_fractal :: "rat \<Rightarrow> rat list \<Rightarrow> nat \<Rightarrow> nat option" where
  "bigger_fractal f [] i = None"
| "bigger_fractal f (x # xs) i = (if x \<le> f then bigger_fractal f xs (i + 1) else Some i)"

definition ftdi_rate :: "nat \<Rightarrow> nat \<Rightarrow> int" where
  "ftdi_rate n i = \<lfloor>f32 (of_nat FTDI_BASE_CLK / f32 (of_nat n + ftdi_fractal ! i))\<rfloor>"

definition nth_opt :: "'a list \<Rightarrow> nat \<Rightarrow> 'a option" where
  "nth_opt xs i = (if i < length xs then Some (xs ! i) else None)"

definition calculate_baudrate :: "u32 \<Rightarrow> (int \<times> u16 \<times> u16) option" where
  "calculate_baudrate baudrate =
     (if 3000000 \<le> baudrate then Some (3000000, 0, 0)
      else if 2000000 \<le> baudrate then Some (2000000, 1, 0)
      else
        let b = unat baudrate; n = FTDI_BASE_CLK div b mod 2 ^ 16;
            divider = f32 (of_nat FTDI_BASE_CLK / f32 (of_nat b)); fractal = f32 (divider - of_nat n)
        in case bigger_fractal fractal ftdi_fractal 0 of
             None \<Rightarrow> None
           | Some i \<Rightarrow>
               if i = 0 then None
               else
                 let diff1 = int b - ftdi_rate n i; diff2 = ftdi_rate n (i - 1) - int b;
                     (i', n') = (if diff2 < diff1 then (i - 1, n) else if i = 8 then (0, (n + 1) mod 2 ^ 16) else (i, n))
                 in case nth_opt ftdi_fractal_bits i' of
                      None \<Rightarrow> None
                    | Some k \<Rightarrow>
                        Some (ftdi_rate n' i', (0x3FFFF AND of_nat n') OR push_bit 14 (ucast k), ucast (drop_bit 2 k)))"

definition ftdi_line_coding_set :: "'w vcp_host \<Rightarrow> nat \<Rightarrow> lc \<Rightarrow> 'w \<Rightarrow> (esp_err \<times> 'w) option" where
  "ftdi_line_coding_set V intf l w =
     (case (if baud l \<noteq> 0
            then (case calculate_baudrate (baud l) of
                    None \<Rightarrow> None
                  | Some (rr, wv, wi) \<Rightarrow> Some (vh_out V (VcpReq 0x03 wv wi []) w))
            else Some (ESP_OK, w)) of
        None \<Rightarrow> None
      | Some (e, w1) \<Rightarrow>
          Some (if e \<noteq> ESP_OK then (e, w1)
                else if bits l \<noteq> 0
                then vh_out V (VcpReq 0x04 (ucast (bits l) OR push_bit 8 (ucast (parity l)) OR push_bit 11 (ucast (stop l)))
                       (of_nat intf) []) w1
                else (ESP_OK, w1)))"

definition ftdi_set_control_line_state :: "'w vcp_host \<Rightarrow> nat \<Rightarrow> bool \<Rightarrow> bool \<Rightarrow> 'w \<Rightarrow> esp_err \<times> 'w" where
  "ftdi_set_control_line_state V intf dtr rts w =
     (case vh_out V (VcpReq 0x02 (if dtr then 0x11 else 0x10) (of_nat intf) []) w of
        (e, w1) \<Rightarrow> if e \<noteq> ESP_OK then (e, w1) else vh_out V (VcpReq 0x02 (if rts then 0x21 else 0x20) (of_nat intf) []) w1)"

text \<open>
  The context is a new one, \<open>mem\<close> whether there was room for it; it is released with the device.  The receive
  buffer is set to 0, the packet size, so that every transfer starts with the two status bytes.
\<close>

definition ftdi_ctx_new ::
  "nat \<Rightarrow> (u8 list \<Rightarrow> 'w \<Rightarrow> bool \<times> 'w) option \<Rightarrow> (host_event \<Rightarrow> 'w \<Rightarrow> 'w) option \<Rightarrow> 'w ftdi_ctx" where
  "ftdi_ctx_new intf dcb ecb = \<lparr>fx_intf = intf, fx_data_cb = dcb, fx_event_cb = ecb, fx_uart_state = 0\<rparr>"

definition ftdi_vcp_open ::
  "'w vcp_host \<Rightarrow> bool \<Rightarrow> u16 \<Rightarrow> nat \<Rightarrow> (u8 list \<Rightarrow> 'w \<Rightarrow> bool \<times> 'w) option \<Rightarrow> (host_event \<Rightarrow> 'w \<Rightarrow> 'w) option \<Rightarrow> 'w \<Rightarrow>
    ((esp_err \<times> 'w ftdi_ctx option) \<times> 'w) option" where
  "ftdi_vcp_open V mem pid intf dcb ecb w =
     (if \<not> mem then Some ((ESP_ERR_NO_MEM, None), w)
      else case vcp_open_pid V 0x0403 [0x6001, 0x6015] pid intf 0 w of
        (e, w1) \<Rightarrow>
          if e \<noteq> ESP_OK then Some ((e, None), w1)
          else (case vh_out V (VcpReq 0x00 0 (of_nat (intf + 1)) []) w1 of
            (e2, w2) \<Rightarrow>
              if e2 \<noteq> ESP_OK then Some ((e2, None), vh_close V w2)
              else (case ftdi_line_coding_set V intf \<lparr>baud = 115200, bits = 8, parity = 0, stop = 0\<rparr> w2 of
                      None \<Rightarrow> None
                    | Some (e3, w3) \<Rightarrow>
                        Some (if e3 \<noteq> ESP_OK then ((e3, None), vh_close V w3)
                              else ((ESP_OK, Some (ftdi_ctx_new intf dcb ecb)), w3)))))"

text \<open>The rate of CH34x: the nearest of the rates a factor gives, with the prescaler of the band.\<close>

lemma ch34x_factor_range:
  assumes "46 \<le> rate" "rate \<le> 6000000"
  shows "snd (ch34x_scale rate) div rate \<in> {1..254}"
proof -
  have "c div rate \<in> {1..254}" if "lo \<le> rate" "rate \<le> c" "c < 255 * lo" for lo c :: nat
  proof -
    have "c < 255 * rate" using that by linarith
    then have "c div rate < 255" using assms(1) by (simp add: div_less_iff_less_mult)
    moreover have "1 \<le> c div rate" using that assms(1) by (metis One_nat_def Suc_leI div_greater_zero_iff gr0I not_numeral_le_zero)
    ultimately show ?thesis by simp
  qed
  from this[of 23530 6000000] this[of 2942 750000] this[of 368 93750] this[of 46 11719]
  show ?thesis using assms by (auto simp: ch34x_scale_def)
qed

lemma factor_nearest:
  fixes c rate :: nat
  defines "a \<equiv> c div rate"
  defines "a' \<equiv> (if int (c div a) - int rate > int rate - int (c div (a + 1)) then a + 1 else a)"
  assumes a: "1 \<le> a" and k: "1 \<le> k" and r: "0 < rate"
  shows "\<bar>int (c div a') - int rate\<bar> \<le> \<bar>int (c div k) - int rate\<bar>"
proof -
  have "rate * a \<le> c" by (simp add: a_def)
  then have hi: "rate \<le> c div a" using a by (simp add: less_eq_div_iff_mult_less_eq)
  have "c < rate * (a + 1)" using r by (metis a_def add.commute dividend_less_times_div mult.right_neutral distrib_left plus_nat.add_0 Suc_eq_plus1)
  then have lo: "c div (a + 1) < rate" using a by (simp add: div_less_iff_less_mult)
  consider "k \<le> a" | "a + 1 \<le> k" by linarith
  then show ?thesis
  proof cases
    case 1
    then have "c div a \<le> c div k" using k by (simp add: div_le_mono2)
    then show ?thesis using hi lo by (simp add: a'_def)
  next
    case 2
    then have "c div k \<le> c div (a + 1)" by (simp add: div_le_mono2)
    then show ?thesis using hi lo by (simp add: a'_def)
  qed
qed

lemma ch34x_set_rate:
  assumes r: "46 \<le> unat r" "unat r \<le> 6000000" "r \<noteq> 921600" "r \<noteq> 307200"
  defines "c \<equiv> snd (ch34x_scale (unat r))"
  defines "a \<equiv> c div unat r"
  defines "a' \<equiv> (if int (c div a) - int (unat r) > int (unat r) - int (c div (a + 1)) then a + 1 else a)"
  shows "calculate_baud_divisor r = Some (of_nat (256 - a'), of_nat (fst (ch34x_scale (unat r))))" "1 \<le> a" "a' \<in> {1..255}"
proof -
  have a: "1 \<le> a" "a \<le> 254" using ch34x_factor_range[OF r(1,2)] by (simp_all add: a_def c_def)
  then have m: "a mod 256 = a" by simp
  show "1 \<le> a" "a' \<in> {1..255}" using a by (simp_all add: a'_def)
  have "calculate_baud_divisor r =
    (if a mod 256 = 0 \<or> a mod 256 = 0xFF then None else
       let b = (if int (c div (a mod 256)) - int (unat r) > int (unat r) - int (c div (a mod 256 + 1)) then a mod 256 + 1 else a mod 256)
       in Some (of_nat (256 - b), of_nat (fst (ch34x_scale (unat r)))))"
    using r(3,4) by (simp add: calculate_baud_divisor_def a_def c_def Let_def split: prod.split)
  then show "calculate_baud_divisor r = Some (of_nat (256 - a'), of_nat (fst (ch34x_scale (unat r))))"
    using a unfolding m by (simp add: a'_def Let_def)
qed

lemma ch34x_too_fast:
  assumes "6000000 < unat r"
  shows "calculate_baud_divisor r = None"
proof -
  have "r \<noteq> 921600" "r \<noteq> 307200" using assms by auto
  then show ?thesis using assms by (simp add: calculate_baud_divisor_def ch34x_scale_def)
qed

text \<open>Rates from 46 to 6000000 baud are set as near as the chip can, the two rates with a setting of their own
  aside: the factor that is written is the complement of a divisor of the clock of the band, and no divisor comes
  nearer.  A higher rate is refused.\<close>
theorem ch34x_rate_nearest:
  assumes "46 \<le> unat r" "r \<noteq> 921600" "r \<noteq> 307200"
  shows "if 6000000 < unat r then calculate_baud_divisor r = None
         else \<exists>a. a \<in> {1..255} \<and>
           calculate_baud_divisor r = Some (of_nat (256 - a), of_nat (fst (ch34x_scale (unat r)))) \<and>
           (\<forall>k. 1 \<le> k \<longrightarrow> \<bar>int (snd (ch34x_scale (unat r)) div a) - int (unat r)\<bar> \<le>
                           \<bar>int (snd (ch34x_scale (unat r)) div k) - int (unat r)\<bar>)"
proof (cases "6000000 < unat r")
  case True
  then show ?thesis by (simp add: ch34x_too_fast)
next
  case False
  then have "unat r \<le> 6000000" by simp
  note set = ch34x_set_rate[OF assms(1) this assms(2,3)]
  have "0 < unat r" using assms(1) by simp
  note near = factor_nearest[OF set(2) _ this]
  show ?thesis unfolding if_not_P[OF False] using set(1,3) near by blast
qed

lemma ch34x_rate_nearest_witness:
  "\<exists>a. a \<in> {1..255} \<and> calculate_baud_divisor 115200 = Some (of_nat (256 - a), 3) \<and>
     (\<forall>k. 1 \<le> k \<longrightarrow> \<bar>int (6000000 div a) - 115200\<bar> \<le> \<bar>int (6000000 div k) - 115200\<bar>)"
  using ch34x_rate_nearest[of 115200] by (simp add: ch34x_scale_def)

text \<open>Below 46 baud the divisor does not fit its byte, and what is left of it is a divisor of another rate: 45 baud sets 2343.\<close>

lemma ch34x_slow_wraps: "calculate_baud_divisor 45 = Some (251, 0)" "snd (ch34x_scale 45) div (256 - unat (251 :: u8)) = 2343"
  by (simp_all add: calculate_baud_divisor_def ch34x_scale_def Let_def)

text \<open>Mark and space parity are one setting.\<close>

lemma ch34x_mark_is_space: "ch34x_lcr (l\<lparr>parity := 3\<rparr>) = ch34x_lcr (l\<lparr>parity := 4\<rparr>)"
  by (simp add: ch34x_lcr_def)

subsection \<open>Single precision\<close>

lemma bin_exp_bounds:
  assumes "0 < x"
  shows "2 powi bin_exp x \<le> x" "x < 2 powi (bin_exp x + 1)"
proof -
  obtain p q where pq: "quotient_of x = (p, q)" by fastforce
  have q: "0 < q" and x: "x = of_int p / of_int q"
    using pq quotient_of_denom_pos quotient_of_div by blast+
  have p: "0 < p" using assms q unfolding x by (simp add: zero_less_divide_iff)
  have log: "(2 :: rat) ^ (floorlog 2 (nat z) - 1) \<le> of_int z" "of_int z < (2 :: rat) ^ floorlog 2 (nat z)"
    "1 \<le> floorlog 2 (nat z)" if z: "0 < z" for z :: int
  proof -
    have b: "2 ^ (floorlog 2 (nat z) - 1) \<le> nat z" "nat z < 2 ^ floorlog 2 (nat z)"
      using floorlog_bounds[of "nat z" 2] z by simp_all
    then have "(2 ^ (floorlog 2 (nat z) - 1) :: rat) \<le> of_nat (nat z)" "of_nat (nat z) < (2 ^ floorlog 2 (nat z) :: rat)"
      by (metis of_nat_le_iff of_nat_numeral of_nat_power, metis b(2) of_nat_less_iff of_nat_numeral of_nat_power)
    then show "(2 :: rat) ^ (floorlog 2 (nat z) - 1) \<le> of_int z" "of_int z < (2 :: rat) ^ floorlog 2 (nat z)" using z by simp_all
    show "1 \<le> floorlog 2 (nat z)" using z by (simp add: floorlog_def)
  qed
  define k l where "k = floorlog 2 (nat p)" and "l = floorlog 2 (nat q)"
  note k = log[OF p, folded k_def] and l = log[OF q, folded l_def]
  have "int k - int l - 1 = int (k - 1) - int l" "int k - int l + 1 = int k - int (l - 1)" using k(3) l(3) by simp_all
  then have e: "2 powi (int k - int l - 1) = (2 :: rat) ^ (k - 1) / 2 ^ l" "2 powi (int k - int l + 1) = (2 :: rat) ^ k / 2 ^ (l - 1)"
    by (metis power_int_diff power_int_of_nat zero_neq_numeral)+
  have "2 powi (int k - int l - 1) \<le> x" unfolding e x using k l q p by (intro frac_le) simp_all
  moreover have "x < 2 powi (int k - int l + 1)" unfolding e x using k l q p by (intro frac_less) simp_all
  ultimately show "2 powi bin_exp x \<le> x" "x < 2 powi (bin_exp x + 1)"
    by (simp_all add: bin_exp_def pq k_def l_def Let_def)
qed

lemmas bin_exp_le = bin_exp_bounds(1)

lemma bin_exp_eq:
  assumes "2 powi e \<le> x" "x < 2 powi (e + 1)"
  shows "bin_exp x = e"
proof -
  have "0 < (2 :: rat) powi e" by simp
  then have x: "0 < x" using assms(1) by linarith
  have "\<not> e + 1 \<le> bin_exp x" "\<not> bin_exp x + 1 \<le> e"
    using bin_exp_bounds[OF x] assms power_int_increasing[of "e + 1" "bin_exp x" "2 :: rat"]
      power_int_increasing[of "bin_exp x + 1" e "2 :: rat"] by linarith+
  then show ?thesis by simp
qed

lemma round_even_near: "\<bar>of_int (round_even x) - x\<bar> \<le> 1 / 2"
proof -
  have "of_int \<lfloor>x\<rfloor> \<le> x" "x < of_int \<lfloor>x\<rfloor> + 1" by linarith+
  then show ?thesis by (simp add: round_even_def Let_def abs_le_iff)
qed

lemma round_even_int [simp]: "round_even (of_int n) = n"
  by (simp add: round_even_def)

lemma f32_error: "\<bar>f32 x - x\<bar> \<le> \<bar>x\<bar> / 2 ^ 24"
proof (cases "x = 0")
  case True
  then show ?thesis by (simp add: f32_def)
next
  case False
  define e s where "e = bin_exp \<bar>x\<bar>" and "s = (2 powi (bin_exp \<bar>x\<bar> - 23) :: rat)"
  have s0: "0 < s" by (simp add: s_def)
  have "2 powi e \<le> \<bar>x\<bar>" using False by (simp add: e_def bin_exp_le)
  moreover have "s = 2 powi e / 2 ^ 23" by (simp add: s_def e_def power_int_diff)
  ultimately have s: "s / 2 \<le> \<bar>x\<bar> / 2 ^ 24" by simp
  define y where "y = of_int (round_even (\<bar>x\<bar> / s)) * s"
  have "y - \<bar>x\<bar> = (of_int (round_even (\<bar>x\<bar> / s)) - \<bar>x\<bar> / s) * s" using s0 by (simp add: y_def field_simps)
  then have "\<bar>y - \<bar>x\<bar>\<bar> \<le> s / 2"
    using mult_right_mono[OF round_even_near[of "\<bar>x\<bar> / s"], of s] s0 by (simp add: abs_mult)
  moreover have "f32 x = (if x < 0 then - y else y)" using False by (simp add: f32_def s_def y_def Let_def)
  moreover from this have "\<bar>f32 x - x\<bar> = \<bar>y - \<bar>x\<bar>\<bar>" by (cases "x < 0") simp_all
  ultimately show ?thesis using s by linarith
qed

lemma f32_eval:
  assumes "2 powi e \<le> x" "x < 2 powi (e + 1)"
  shows "f32 x = of_int (round_even (x / 2 powi (e - 23))) * 2 powi (e - 23)"
proof -
  have "0 < (2 :: rat) powi e" by simp
  then have "0 < x" using assms(1) by linarith
  then show ?thesis by (simp add: f32_def bin_exp_eq[OF assms] Let_def)
qed

lemma round_even_is:
  assumes "\<bar>x - of_int n\<bar> < 1 / 2"
  shows "round_even x = n"
proof (cases "of_int n \<le> x")
  case True
  then have "\<lfloor>x\<rfloor> = n" using assms by (intro floor_unique) linarith+
  then show ?thesis using assms True by (simp add: round_even_def Let_def)
next
  case False
  then have "\<lfloor>x\<rfloor> = n - 1" using assms by (intro floor_unique) simp_all
  then show ?thesis using assms False by (simp add: round_even_def Let_def)
qed

lemma f32_is:
  assumes "2 powi e \<le> x" "x < 2 powi (e + 1)" "\<bar>x / 2 powi (e - 23) - of_int n\<bar> < 1 / 2"
  shows "f32 x = of_int n * 2 powi (e - 23)"
  unfolding f32_eval[OF assms(1,2)] round_even_is[OF assms(3)] by (rule refl)

lemma f32_nat:
  assumes "n < 2 ^ 24"
  shows "f32 (of_nat n) = of_nat n"
proof (cases "n = 0")
  case False
  define e where "e = bin_exp (of_nat n :: rat)"
  have "2 powi e \<le> (of_nat n :: rat)" using False by (simp add: e_def bin_exp_le)
  also have "\<dots> < 2 powi 24" using assms by (simp add: power_int_def)
  finally have "\<not> 24 \<le> e" using power_int_increasing[of 24 e "2 :: rat"] by linarith
  then have "e \<le> 23" by simp
  then have m: "(of_nat n :: rat) / 2 powi (e - 23) = of_int (int n * 2 ^ nat (23 - e))"
    by (simp add: power_int_def divide_simps)
  have "f32 (of_nat n) = of_int (round_even (of_nat n / 2 powi (e - 23))) * 2 powi (e - 23)"
    using False by (simp add: f32_def e_def Let_def)
  also have "\<dots> = of_nat n / 2 powi (e - 23) * 2 powi (e - 23)" unfolding m by (simp only: round_even_int)
  finally show ?thesis by simp
qed (simp add: f32_def)

lemma f32_values:
  "f32 (625 / 384) = 13653333 / 8388608" "f32 (5264725 / 8388608) = 5264725 / 8388608"
  "f32 (240001 / 8) = 240001 / 8" "f32 (24000000 / 240001) = 13107145 / 131072"
  "f32 (7 / 4) = 7 / 4" "f32 (12000000 / 7) = 6857143 / 4" "f32 (13 / 8) = 13 / 8" "f32 (24000000 / 13) = 14769231 / 8"
  using f32_is[of 0 "625 / 384" 13653333] f32_is[of "-1" "5264725 / 8388608" 10529450] f32_is[of 14 "240001 / 8" 15360064]
    f32_is[of 6 "24000000 / 240001" 13107145] f32_is[of 0 "7 / 4" 14680064] f32_is[of 20 "12000000 / 7" 13714286]
    f32_is[of 0 "13 / 8" 13631488] f32_is[of 20 "24000000 / 13" 14769231]
  by (simp_all add: power_int_minus)

lemma ftdi_rates: "ftdi_rate 30000 (Suc 0) = 99" "ftdi_rate 30000 0 = 100" 
  "ftdi_rate (Suc 0) (Suc (Suc (Suc (Suc (Suc (Suc 0)))))) = 1714285" "ftdi_rate (Suc 0) (Suc (Suc (Suc (Suc (Suc 0))))) = 1846153"
  using f32_nat[of 30000] f32_nat[of 100]
  by (simp_all add: ftdi_rate_def FTDI_BASE_CLK_def ftdi_fractal_def f32_values floor_eq_iff)


subsection \<open>The divisor of an FTDI chip\<close>

lemma bigger_fractal_Some:
  assumes "xs \<noteq> []" "f < xs ! (length xs - 1)"
  shows "\<exists>k<length xs. bigger_fractal f xs i = Some (i + k) \<and> f < xs ! k \<and> (\<forall>j<k. xs ! j \<le> f)"
  using assms
proof (induction xs arbitrary: i)
  case (Cons x xs)
  show ?case
  proof (cases "x \<le> f")
    case True
    then have "xs \<noteq> []" "f < xs ! (length xs - 1)" using Cons.prems by (cases xs; simp)+
    from Cons.IH[OF this, of "i + 1"] obtain k where k: "k < length xs" "bigger_fractal f xs (i + 1) = Some (i + 1 + k)"
      "f < xs ! k" "\<forall>j<k. xs ! j \<le> f" by blast
    then show ?thesis using True by (intro exI[of _ "Suc k"]) (auto simp: nth_Cons')
  qed (auto intro: exI[of _ 0])
qed simp

lemma fractal_found:
  assumes "0 \<le> f" "f < 1"
  obtains i where "i \<in> {1..8}" "bigger_fractal f ftdi_fractal 0 = Some i" "ftdi_fractal ! (i - 1) \<le> f" "f < ftdi_fractal ! i"
proof -
  have "f < ftdi_fractal ! (length ftdi_fractal - 1)" "ftdi_fractal \<noteq> []" using assms(2) by (simp_all add: ftdi_fractal_def)
  from bigger_fractal_Some[OF this(2,1), of 0] obtain k where k: "k < length ftdi_fractal"
    "bigger_fractal f ftdi_fractal 0 = Some k" "f < ftdi_fractal ! k" "\<forall>j<k. ftdi_fractal ! j \<le> f" by auto
  have "k \<noteq> 0"
  proof
    assume "k = 0"
    then show False using k(3) assms(1) by (simp add: ftdi_fractal_def)
  qed
  then have "k \<in> {1..8}" using k(1) by (simp add: ftdi_fractal_def)
  then show ?thesis using k \<open>k \<noteq> 0\<close> that by simp
qed

lemma divider_near:
  fixes b :: nat
  assumes b: "184 \<le> b" "b < 2000000"
  defines "x \<equiv> (3000000 / of_nat b :: rat)" and "n \<equiv> 3000000 div b"
  defines "f \<equiv> f32 (f32 x - of_nat n)"
  shows "0 \<le> f" "f < 1" "\<bar>of_nat n + f - x\<bar> \<le> 1 / 1000"
proof -
  define r where "r = 3000000 mod b"
  have r: "r < b" using b by (simp add: r_def)
  have "n \<le> 3000000 div 184" unfolding n_def using b by (intro div_le_mono2) simp_all
  then have n: "n \<le> 16304" by simp
  have "3000000 = b * n + r" by (simp add: n_def r_def)
  then have "(3000000 :: rat) = of_nat b * of_nat n + of_nat r" by (metis of_nat_add of_nat_mult of_nat_numeral)
  then have x: "x = of_nat n + of_nat r / of_nat b" using b by (simp add: x_def field_simps)
  have x0: "0 < x" using b by (simp add: x_def)
  have e1: "\<bar>f32 x - x\<bar> \<le> x / 2 ^ 24" using f32_error[of x] x0 by simp
  have e2: "\<bar>f - (f32 x - of_nat n)\<bar> \<le> \<bar>f32 x - of_nat n\<bar> / 2 ^ 24" unfolding f_def by (rule f32_error)
  have xb: "x / 2 ^ 24 \<le> 1 / (5 * of_nat b)" using b by (simp add: x_def field_simps)
  have small: "f = 0 \<and> x = of_nat n \<or> 0 \<le> f \<and> f < 1" 
  proof (cases "r = 0")
    case True
    then have "x = of_nat n" using x by simp
    then show ?thesis using n by (simp add: f_def f32_nat) (simp add: f32_def)
  next
    case False
    have g: "(1 :: rat) / of_nat b \<le> of_nat r / of_nat b" using False b by (simp add: divide_right_mono)
    have h: "(of_nat r :: rat) / of_nat b \<le> 1 - 1 / of_nat b" using r b by (simp add: field_simps)
    have b5: "(1 :: rat) / (5 * of_nat b) = 1 / of_nat b / 5" by simp
    have bb: "(1 :: rat) / 2000000 \<le> 1 / of_nat b" using b by (simp add: field_simps)
    define u d where "u = 1 / (of_nat b :: rat)" and "d = f32 x - of_nat n"
    have d: "0 \<le> d" "d \<le> 1 - 4 / 5 * u" using e1 xb x g h unfolding b5 u_def[symmetric] d_def by linarith+
    have "\<bar>f - d\<bar> \<le> d / 2 ^ 24" using e2 d(1) unfolding d_def[symmetric] by simp
    then have "f \<le> d + d / 2 ^ 24" "d - d / 2 ^ 24 \<le> f" by linarith+
    moreover have "d / 2 ^ 24 \<le> 1 / 2 ^ 24" "1 / 2 ^ 24 < 4 / 5 * u" using d bb unfolding u_def[symmetric] by simp_all
    ultimately show ?thesis using d by simp
  qed
  then show "0 \<le> f" "f < 1" by auto
  have "(of_nat n :: rat) \<le> 16304" using n by (metis of_nat_le_iff of_nat_numeral)
  moreover have rb: "(of_nat r :: rat) / of_nat b < 1" using r by simp
  ultimately have "x < 16305" using x by linarith
  then have "x / 2 ^ 24 \<le> 1 / 1025" by simp
  with e1 have d: "\<bar>f32 x - x\<bar> \<le> 1 / 1025" by linarith
  have "0 \<le> (of_nat r :: rat) / of_nat b" by simp
  then have "\<bar>f32 x - of_nat n\<bar> \<le> 2" using d x rb by linarith
  then have "\<bar>f32 x - of_nat n\<bar> / 2 ^ 24 \<le> 1 / 1000000" by simp
  with e2 d show "\<bar>of_nat n + f - x\<bar> \<le> 1 / 1000" by linarith
qed

text \<open>The divisor a chip reads from the two words of the request.\<close>

definition ftdi_fraction :: "u8 \<Rightarrow> rat" where
  "ftdi_fraction k =
     (if k = 0 then 0 else if k = 3 then 1 / 8 else if k = 2 then 2 / 8 else if k = 4 then 3 / 8 else if k = 1 then 4 / 8
      else if k = 5 then 5 / 8 else if k = 6 then 6 / 8 else 7 / 8)"

definition ftdi_divisor :: "u16 \<Rightarrow> u16 \<Rightarrow> rat" where
  "ftdi_divisor wv wi = of_nat (unat (wv AND 0x3FFF)) + ftdi_fraction (ucast (drop_bit 14 wv OR push_bit 2 (wi AND 1)))"

lemma low_bits:
  fixes n :: nat
  assumes "n < 2 ^ 14" "bit n j"
  shows "j < 14"
proof -
  have "bit (take_bit 14 n) j" using assms by (simp add: take_bit_nat_eq_self)
  then show ?thesis by (simp add: bit_take_bit_iff)
qed

lemma words_read:
  assumes "n < 2 ^ 14"
  shows "((0x3FFFF AND (of_nat n :: u16)) OR push_bit 14 k) AND 0x3FFF = of_nat n"
    and "drop_bit 14 ((0x3FFFF AND (of_nat n :: u16)) OR push_bit 14 k) = take_bit 2 k"
proof -
  have m: "(0x3FFFF :: u16) = -1" "(0x3FFF :: u16) = mask 14" by (simp_all add: mask_eq_exp_minus_1)
  show "((0x3FFFF AND (of_nat n :: u16)) OR push_bit 14 k) AND 0x3FFF = of_nat n"
    unfolding m by (rule bit_word_eqI) (auto simp: bit_simps dest: low_bits[OF assms])
  show "drop_bit 14 ((0x3FFFF AND (of_nat n :: u16)) OR push_bit 14 k) = take_bit 2 k"
    unfolding m by (rule bit_word_eqI) (use low_bits[OF assms] in \<open>auto simp: bit_simps\<close>)
qed

lemma ftdi_divisor_read:
  assumes "n < 2 ^ 14" "i < 8"
  shows "ftdi_divisor ((0x3FFFF AND of_nat n) OR push_bit 14 (ucast (ftdi_fractal_bits ! i))) (ucast (drop_bit 2 (ftdi_fractal_bits ! i)))
           = of_nat n + ftdi_fractal ! i"
proof -
  have n: "unat (of_nat n :: u16) = n" using assms(1) by (simp add: unat_of_nat)
  have "i \<in> {0, 1, 2, 3, 4, 5, 6, 7}" using assms(2) by auto
  then show ?thesis unfolding ftdi_divisor_def words_read[OF assms(1)] n
    by (auto simp: ftdi_fractal_bits_def ftdi_fractal_def ftdi_fraction_def)
qed

lemma u32_round: "unat r < 2000000 \<Longrightarrow> f32 (of_nat (unat r)) = of_nat (unat r)"
  by (rule f32_nat) simp

lemma calculate_baudrate_inner:
  assumes r: "184 \<le> unat r" "unat r < 2000000"
  obtains n' i' rr where "calculate_baudrate r = Some (rr, (0x3FFFF AND of_nat n') OR push_bit 14 (ucast (ftdi_fractal_bits ! i')),
      ucast (drop_bit 2 (ftdi_fractal_bits ! i')))"
    "n' < 2 ^ 14" "i' < 8" "3000000 div unat r \<le> n'"
    "\<bar>of_nat n' + ftdi_fractal ! i' - 3000000 / of_nat (unat r)\<bar> \<le> 1 / 8 + 1 / 1000"
proof -
  define b n where "b = unat r" and "n = 3000000 div b"
  define f where "f = f32 (f32 (3000000 / of_nat b) - of_nat n)"
  note near = divider_near[OF r, folded b_def, folded n_def, folded f_def]
  have "n \<le> 3000000 div 184" unfolding n_def using r by (intro div_le_mono2) (simp_all add: b_def)
  then have n: "n \<le> 16304" by simp
  obtain i where i: "i \<in> {1..8}" "bigger_fractal f ftdi_fractal 0 = Some i" "ftdi_fractal ! (i - 1) \<le> f" "f < ftdi_fractal ! i"
    using fractal_found near(1,2) by blast
  have "i \<in> {1, 2, 3, 4, 5, 6, 7, 8}" using i(1) by auto
  then have step: "ftdi_fractal ! i = ftdi_fractal ! (i - 1) + 1 / 8" and top: "i = 8 \<Longrightarrow> ftdi_fractal ! i = 1"
    by (auto simp: ftdi_fractal_def)
  define pick where "pick =
    (if ftdi_rate n (i - 1) - int b < int b - ftdi_rate n i then (i - 1, n) else if i = 8 then (0, (n + 1) mod 2 ^ 16) else (i, n))"
  obtain i' n' where p: "pick = (i', n')" by fastforce
  have pc: "(i', n') \<in> {(i - 1, n)} \<or> i = 8 \<and> (i', n') = (0, n + 1) \<or> i < 8 \<and> (i', n') = (i, n)"
    using p n i(1) by (auto simp: pick_def split: if_splits)
  then have b: "n' < 2 ^ 14" "i' < 8" "n \<le> n'" using n i(1) by auto
  have near': "\<bar>of_nat n' + ftdi_fractal ! i' - 3000000 / of_nat b\<bar> \<le> 1 / 8 + 1 / 1000"
  proof -
    consider "of_nat n' + ftdi_fractal ! i' = of_nat n + ftdi_fractal ! (i - 1)" | "of_nat n' + ftdi_fractal ! i' = of_nat n + ftdi_fractal ! i"
      using pc top by (auto simp: ftdi_fractal_def)
    then show ?thesis by cases (use near(3) i(3,4) step in linarith)+
  qed
  have "calculate_baudrate r = Some (ftdi_rate n' i', (0x3FFFF AND of_nat n') OR push_bit 14 (ucast (ftdi_fractal_bits ! i')),
      ucast (drop_bit 2 (ftdi_fractal_bits ! i')))"
  proof -
    have w: "\<not> 3000000 \<le> r" "\<not> 2000000 \<le> r" using r(2) by (simp_all add: word_le_nat_alt)
    have n2: "3000000 div b mod 2 ^ 16 = n" using n by (simp add: n_def)
    have fb: "f32 (of_nat b) = of_nat b" unfolding b_def by (rule u32_round[OF r(2)])
    have f: "f32 (f32 (of_nat FTDI_BASE_CLK / f32 (of_nat b)) - of_nat n) = f" by (simp add: f_def FTDI_BASE_CLK_def fb)
    have k: "nth_opt ftdi_fractal_bits i' = Some (ftdi_fractal_bits ! i')" using b(2) by (simp add: nth_opt_def ftdi_fractal_bits_def)
    have "calculate_baudrate r = (case pick of (i', n') \<Rightarrow>
        case nth_opt ftdi_fractal_bits i' of None \<Rightarrow> None
        | Some k \<Rightarrow> Some (ftdi_rate n' i', (0x3FFFF AND of_nat n') OR push_bit 14 (ucast k), ucast (drop_bit 2 k)))"
      unfolding calculate_baudrate_def Let_def b_def[symmetric] FTDI_BASE_CLK_def[symmetric] pick_def
      using w i(1,2) f n2 by (simp add: FTDI_BASE_CLK_def)
    then show ?thesis by (simp add: p k)
  qed
  then show ?thesis using that b near' unfolding b_def n_def by blast
qed

text \<open>C38: For every rate from 184 to 1500000 baud the search for the fraction ends inside its table, and the request carries
  a divisor the chip allows, of at least 2 and below 16384, that is within an eighth, and a rounding error of a
  thousandth, of the exact quotient of the clock of 3 MHz and the rate.\<close>
theorem ftdi_divisor_near:
  assumes "184 \<le> unat r" "unat r \<le> 1500000"
  shows "\<exists>rr wv wi. calculate_baudrate r = Some (rr, wv, wi) \<and> 2 \<le> ftdi_divisor wv wi \<and> ftdi_divisor wv wi < 16384 \<and>
    \<bar>ftdi_divisor wv wi - 3000000 / of_nat (unat r)\<bar> \<le> 1 / 8 + 1 / 1000"
proof -
  have r: "unat r < 2000000" using assms(2) by simp
  obtain n i rr where c: "calculate_baudrate r = Some (rr, (0x3FFFF AND of_nat n) OR push_bit 14 (ucast (ftdi_fractal_bits ! i)),
      ucast (drop_bit 2 (ftdi_fractal_bits ! i)))"
    and n: "n < 2 ^ 14" "i < 8" "3000000 div unat r \<le> n" "\<bar>of_nat n + ftdi_fractal ! i - 3000000 / of_nat (unat r)\<bar> \<le> 1 / 8 + 1 / 1000"
    by (rule calculate_baudrate_inner[OF assms(1) r])
  have "3000000 div 1500000 \<le> 3000000 div unat r" using assms by (intro div_le_mono2) simp_all
  then have "2 \<le> n" "n \<le> 16383" using n(1,3) by simp_all
  then have "(2 :: rat) \<le> of_nat n" "(of_nat n :: rat) \<le> 16383" by (metis of_nat_le_iff of_nat_numeral)+
  moreover have "i \<in> {0, 1, 2, 3, 4, 5, 6, 7}" using n(2) by auto
  then have "0 \<le> ftdi_fractal ! i" "ftdi_fractal ! i < 1" by (auto simp: ftdi_fractal_def)
  ultimately have "2 \<le> of_nat n + ftdi_fractal ! i" "of_nat n + ftdi_fractal ! i < 16384" by linarith+
  with c n(4) show ?thesis unfolding ftdi_divisor_read[OF n(1,2), symmetric] by blast
qed

lemma ftdi_divisor_near_witness:
  "\<exists>rr wv wi. calculate_baudrate 9600 = Some (rr, wv, wi) \<and> 2 \<le> ftdi_divisor wv wi \<and> \<bar>ftdi_divisor wv wi - 625 / 2\<bar> \<le> 1 / 8 + 1 / 1000"
  using ftdi_divisor_near[of 9600] by auto

text \<open>Below 46 baud the integer part is cut to 16 bits, so that the rest is no fraction and the search leaves the table.\<close>

lemma bigger_fractal_off: "\<forall>x\<in>set xs. x \<le> f \<Longrightarrow> bigger_fractal f xs i = None"
  by (induction xs arbitrary: i) auto

lemma ftdi_slow_overruns:
  assumes "0 < unat r" "unat r < 46"
  shows "calculate_baudrate r = None"
proof -
  define b q where "b = unat r" and "q = 3000000 div b"
  define n where "n = q mod 2 ^ 16"
  define x where "x = (3000000 / of_nat b :: rat)"
  define f where "f = f32 (f32 x - of_nat n)"
  have b: "0 < b" "b < 46" using assms by (simp_all add: b_def)
  have "3000000 div 45 \<le> q" unfolding q_def using b by (intro div_le_mono2) simp_all
  then have "1 \<le> q div 2 ^ 16" using div_le_mono[of "2 ^ 16" q "2 ^ 16"] by simp
  moreover have "q = 65536 * (q div 2 ^ 16) + n" by (simp add: n_def)
  ultimately have "n + 65536 \<le> q" by linarith
  then have nq: "of_nat n + 65536 \<le> (of_nat q :: rat)" by (metis of_nat_add of_nat_le_iff of_nat_numeral)
  have "q * b \<le> 3000000" by (simp add: q_def)
  then have "of_nat q * of_nat b \<le> (3000000 :: rat)" by (metis of_nat_le_iff of_nat_mult of_nat_numeral)
  then have qx: "of_nat q \<le> x" using b by (simp add: x_def field_simps)
  have "x \<le> 3000000" "0 < x" using b by (simp_all add: x_def field_simps)
  then have "\<bar>f32 x - x\<bar> \<le> 1" using f32_error[of x] by simp
  moreover define d where "d = f32 x - of_nat n"
  ultimately have d: "65535 \<le> d" using nq qx by linarith
  have "\<bar>f - d\<bar> \<le> d / 2 ^ 24" using f32_error[of d] d by (simp add: f_def d_def)
  moreover have "d / 2 ^ 24 \<le> d / 2" using d by simp
  ultimately have "1 \<le> f" using d by linarith
  then have "bigger_fractal f ftdi_fractal 0 = None" by (intro bigger_fractal_off) (simp add: ftdi_fractal_def)
  moreover have "\<not> 3000000 \<le> r" "\<not> 2000000 \<le> r" using assms(2) by (simp_all add: word_le_nat_alt)
  moreover have "f32 (of_nat (unat r)) = of_nat (unat r)" using assms(2) by (intro u32_round) simp
  then have "f32 (f32 (of_nat FTDI_BASE_CLK / f32 (of_nat (unat r))) - of_nat (FTDI_BASE_CLK div unat r mod 2 ^ 16)) = f"
    by (simp add: f_def x_def n_def q_def b_def FTDI_BASE_CLK_def)
  ultimately show ?thesis unfolding calculate_baudrate_def Let_def by simp
qed

text \<open>
  From 46 to 183 baud the integer part needs more than its fourteen bits, and its upper bits are merged with the code
  of the fraction; between 1.5 and 2 MBaud the divisor has an integer part of one and a fraction, which the comment of
  the function excludes.
\<close>

lemma ftdi_divisor_merged: "calculate_baudrate 100 = Some (100, 30000, 0)" "ftdi_divisor 30000 0 = 27233 / 2"
  using f32_nat[of 30000] f32_nat[of 100] f32_nat[of 0]
  by (simp_all add: ftdi_divisor_def ftdi_fraction_def calculate_baudrate_def FTDI_BASE_CLK_def Let_def
      ftdi_fractal_def ftdi_rates nth_opt_def ftdi_fractal_bits_def)

lemma ftdi_divisor_between: "calculate_baudrate 1843200 = Some (1846153, 0x4001, 1)"
  using f32_nat[of 1843200]
  by (simp add: calculate_baudrate_def FTDI_BASE_CLK_def Let_def ftdi_fractal_def ftdi_rates f32_values nth_opt_def ftdi_fractal_bits_def)

subsection \<open>What the drivers pass on\<close>

text \<open>An FTDI chip's data reaches the reader without the two status bytes, and a change of the status is reported once.\<close>

lemma ftdi_rx_payload:
  assumes "fx_data_cb ctx = Some cb" "fx_event_cb ctx = None \<or> ftdi_state a b = fx_uart_state ctx"
  shows "ftdi_rx (a # b # d) (ctx, w) = (if d = [] then (True, (ctx, w)) else (fst (cb d w), (ctx, snd (cb d w))))"
  using assms by (auto simp: ftdi_rx_def Let_def split: option.split prod.split)

lemma ftdi_rx_event:
  assumes "fx_event_cb ctx = Some ev" "fx_data_cb ctx = None" "ftdi_state a b \<noteq> fx_uart_state ctx"
  shows "ftdi_rx (a # b # d) (ctx, w) = (True, (ctx\<lparr>fx_uart_state := ftdi_state a b\<rparr>, ev (SerialState (ftdi_state a b)) w))"
  using assms by (simp add: ftdi_rx_def)

text \<open>A CP210x reads back the three fields of the word that was written.\<close>

lemma low_nibble:
  assumes "unat x < 16" "bit (x :: u8) n"
  shows "n < 4"
proof -
  have "bit (unat x) n" using assms(2) by (simp add: bit_unsigned_iff bit_imp_le_length)
  moreover have "take_bit 4 (unat x) = unat x" using assms(1) by (simp add: take_bit_nat_eq_self)
  ultimately have "bit (take_bit 4 (unat x)) n" by simp
  then show ?thesis by (simp add: bit_take_bit_iff)
qed

lemma cp210x_word_read:
  fixes s p b :: u8
  assumes "unat s < 16" "unat p < 16"
  defines "v \<equiv> (ucast s :: u16) OR push_bit 4 (ucast p) OR push_bit 8 (ucast b)"
  shows "(ucast v :: u8) AND 0x0F = s" "drop_bit 4 ((ucast v :: u8) AND 0xF0) = p" "(ucast (drop_bit 8 v) :: u8) = b"
proof -
  note low = low_nibble[OF assms(1)] low_nibble[OF assms(2)]
  have m: "(0x0F :: u8) = mask 4" "(0xF0 :: u8) = push_bit 4 (mask 4)" by (simp_all add: mask_eq_exp_minus_1)
  show "(ucast v :: u8) AND 0x0F = s" unfolding m v_def
    by (rule bit_word_eqI) (auto simp: bit_simps dest: low)
  show "drop_bit 4 ((ucast v :: u8) AND 0xF0) = p" unfolding m v_def
    by (rule bit_word_eqI) (auto simp: bit_simps dest: low)
  show "(ucast (drop_bit 8 v) :: u8) = b" unfolding v_def
    by (rule bit_word_eqI) (auto simp: bit_simps dest: low)
qed

text \<open>
  One and a half stop bits are refused by a CH34x after the new rate has gone out: the source keeps reporting the old
  coding while the line already runs at the new rate.
\<close>

lemma ch34x_half_applied:
  assumes h: "us_cdc S = Some h" "us_is_vcp S"
    and D: "\<And>l w. cdc_lc_set D h l w = cdc_acm_host_line_coding_set (Some (ch34x_funcs V intf F)) (Some l) w"
    and l: "stop l = 1" "bits l \<noteq> 0" "baud l \<noteq> 0" "calculate_baud_divisor (baud l) = Some (f, d)"
    and out: "vh_out V (VcpReq 0x9A 0x1312 ((push_bit 8 (ucast f) OR ucast d) OR 0x80) []) w = (ESP_OK, w1)"
  shows "usb_apply_lc D l src (S, w) = (ESP_ERR_INVALID_ARG, (S, w1))"
proof -
  have "ch34x_lcr l = None" using l(1) by (simp add: ch34x_lcr_def Let_def split: option.split)
  then have "ch34x_line_coding_set V l w = (ESP_ERR_INVALID_ARG, w1)"
    using l out by (simp add: ch34x_line_coding_set_def)
  then show ?thesis using h by (simp add: usb_apply_lc_def D cdc_acm_host_line_coding_set_def ch34x_funcs_def)
qed

end
