(* ===== verification/CdcHost.thy ===== *)
theory CdcHost
  imports VcpDrivers
begin

text \<open>
  The CDC host driver under the USB source, \<^verbatim>\<open>cdc_acm_host.c\<close>: the polling of the IN and of the notification endpoint,
  the transmissions and control requests, the opening of a device and its closing.  The USB host library below is a
  parameter.  A transfer is described by its buffer: the size, the offset at which the next packet is written and
  the room that is handed to the controller.
\<close>

subsection \<open>The device\<close>

record 'w cdc_dev =
  cd_size :: nat
  cd_mps :: nat
  cd_off :: nat
  cd_num :: nat
  cd_polling :: bool
  cd_notif_polling :: bool
  cd_in_cb :: "(u8 list \<Rightarrow> 'w \<Rightarrow> bool \<times> 'w) option"
  cd_notif_cb :: "(host_event \<Rightarrow> 'w \<Rightarrow> 'w) option"
  cd_serial :: u16

definition cd_notify :: "'w cdc_dev \<Rightarrow> host_event \<Rightarrow> 'w \<Rightarrow> 'w" where
  "cd_notify c ev w = (case cd_notif_cb c of None \<Rightarrow> w | Some f \<Rightarrow> f ev w)"

definition cdc_acm_reset_in_transfer :: "'w cdc_dev \<Rightarrow> 'w cdc_dev" where
  "cdc_acm_reset_in_transfer c = c\<lparr>cd_off := 0, cd_num := cd_size c - cd_size c mod cd_mps c\<rparr>"

definition cdc_acm_is_transfer_completed :: "'w cdc_dev \<Rightarrow> xfer_status \<Rightarrow> 'w \<Rightarrow> bool \<times> 'w" where
  "cdc_acm_is_transfer_completed c st w =
     (case st of
        XCompleted \<Rightarrow> (True, w)
      | XNoDevice \<Rightarrow> (False, w)
      | XCanceled \<Rightarrow> (False, w)
      | _ \<Rightarrow> (False, cd_notify c (HostError st) w))"

subsection \<open>The IN endpoint\<close>

text \<open>The transfer ends with a status and the bytes \<open>d\<close>; \<open>sub\<close> is whether the next one is accepted.\<close>

definition overrun_bit :: u16 where "overrun_bit = 0x40"

definition in_append :: "u8 list \<Rightarrow> 'w cdc_dev \<times> 'w \<Rightarrow> 'w cdc_dev \<times> 'w" where
  "in_append d s =
     (let (c, w) = s; off = cd_off c + length d; num = (cd_size c - off) div cd_mps c * cd_mps c; c1 = c\<lparr>cd_off := off, cd_num := num\<rparr>
      in if num = 0
         then let c2 = c1\<lparr>cd_serial := cd_serial c1 OR overrun_bit\<rparr>; w2 = cd_notify c2 (SerialState (cd_serial c2)) w
              in ((cdc_acm_reset_in_transfer c2)\<lparr>cd_serial := cd_serial c2 AND NOT overrun_bit\<rparr>, w2)
         else (c1, w))"

definition in_xfer_cb :: "xfer_status \<Rightarrow> u8 list \<Rightarrow> bool \<Rightarrow> 'w cdc_dev \<times> 'w \<Rightarrow> 'w cdc_dev \<times> 'w" where
  "in_xfer_cb st d sub s =
     (let (c, w) = s in
      case cdc_acm_is_transfer_completed c st w of
        (False, w1) \<Rightarrow> (c\<lparr>cd_polling := False\<rparr>, w1)
      | (True, w1) \<Rightarrow>
          (case (case cd_in_cb c of
                   None \<Rightarrow> (c, w1)
                 | Some cb \<Rightarrow>
                     (case cb d w1 of
                        (True, w2) \<Rightarrow> (cdc_acm_reset_in_transfer c, w2)
                      | (False, w2) \<Rightarrow> in_append d (c, w2))) of
             (c3, w3) \<Rightarrow> (c3\<lparr>cd_polling := sub\<rparr>, w3)))"

subsection \<open>The notification endpoint\<close>

text \<open>\<open>buf\<close> is the buffer of the transfer, of the size of the endpoint's packets; \<open>None\<close> is a read behind it.\<close>

definition notif_word :: "u8 list \<Rightarrow> nat \<Rightarrow> u16 option" where
  "notif_word buf i =
     (case (nth_opt buf i, nth_opt buf (i + 1)) of
        (Some lo, Some hi) \<Rightarrow> Some (ucast lo OR push_bit 8 (ucast hi)) | _ \<Rightarrow> None)"

definition notif_dispatch :: "u8 list \<Rightarrow> 'w cdc_dev \<times> 'w \<Rightarrow> ('w cdc_dev \<times> 'w) option" where
  "notif_dispatch buf s =
     (let (c, w) = s in
      case nth_opt buf 1 of
        None \<Rightarrow> None
      | Some code \<Rightarrow>
          if code = 0x00
          then (if cd_notif_cb c = None then Some (c, w)
                else map_option (\<lambda>v. (c, cd_notify c (NetworkConnection (v \<noteq> 0)) w)) (notif_word buf 2))
          else if code = 0x20
          then map_option (\<lambda>v. (c\<lparr>cd_serial := v\<rparr>, cd_notify c (SerialState v) w)) (notif_word buf 8)
          else Some (c, w))"

definition notif_xfer_cb :: "xfer_status \<Rightarrow> u8 list \<Rightarrow> bool \<Rightarrow> 'w cdc_dev \<times> 'w \<Rightarrow> ('w cdc_dev \<times> 'w) option" where
  "notif_xfer_cb st buf sub s =
     (let (c, w) = s in
      case cdc_acm_is_transfer_completed c st w of
        (False, w1) \<Rightarrow> Some (c\<lparr>cd_notif_polling := False\<rparr>, w1)
      | (True, w1) \<Rightarrow> map_option (\<lambda>(c2, w2). (c2\<lparr>cd_notif_polling := sub\<rparr>, w2)) (notif_dispatch buf (c, w1)))"

subsection \<open>The room of the IN buffer\<close>

text \<open>
  What happens to an open device: a transfer ends, which puts at most as much into the buffer as was handed out, and
  the rest of the world goes on.  Suspending and resuming the bus, which the driver offers too, is used nowhere in the
  firmware.
\<close>

inductive pipe_step :: "'w cdc_dev \<times> 'w \<Rightarrow> 'w cdc_dev \<times> 'w \<Rightarrow> bool" where
  in_done: "cd_polling c \<Longrightarrow> length d \<le> cd_num c \<Longrightarrow> pipe_step (c, w) (in_xfer_cb st d sub (c, w))"
| notif_done: "cd_notif_polling c \<Longrightarrow> notif_xfer_cb st buf sub (c, w) = Some s \<Longrightarrow> pipe_step (c, w) s"
| others: "pipe_step (c, w) (c, w')"

definition pipe_inv :: "'w cdc_dev \<Rightarrow> bool" where
  "pipe_inv c \<longleftrightarrow> 0 < cd_mps c \<and> cd_mps c \<le> cd_size c \<and> 0 < cd_num c \<and> cd_off c + cd_num c \<le> cd_size c"

lemma reset_in_inv:
  assumes "0 < cd_mps c" "cd_mps c \<le> cd_size c"
  shows "pipe_inv (cdc_acm_reset_in_transfer c)"
proof -
  have "cd_size c mod cd_mps c < cd_mps c" using assms(1) by simp
  then have "cd_size c mod cd_mps c < cd_size c" using assms(2) by linarith
  then show ?thesis using assms by (simp add: pipe_inv_def cdc_acm_reset_in_transfer_def)
qed

lemma pipe_inv_flags [simp]:
  "pipe_inv (c\<lparr>cd_polling := b\<rparr>) = pipe_inv c" "pipe_inv (c\<lparr>cd_notif_polling := b\<rparr>) = pipe_inv c"
  "pipe_inv (c\<lparr>cd_serial := v\<rparr>) = pipe_inv c"
  by (simp_all add: pipe_inv_def)

lemma in_append_inv:
  assumes "pipe_inv c" "length d \<le> cd_num c"
  shows "pipe_inv (fst (in_append d (c, w)))"
proof -
  define off num where "off = cd_off c + length d" and "num = (cd_size c - off) div cd_mps c * cd_mps c"
  have inv: "0 < cd_mps c" "cd_mps c \<le> cd_size c" "cd_off c + cd_num c \<le> cd_size c" using assms(1) by (simp_all add: pipe_inv_def)
  have "off \<le> cd_size c" using inv(3) assms(2) by (simp add: off_def)
  moreover have "num \<le> cd_size c - off" by (simp add: num_def)
  ultimately have room: "off + num \<le> cd_size c" by linarith
  define c1 where "c1 = c\<lparr>cd_off := off, cd_num := num\<rparr>"
  have e: "fst (in_append d (c, w)) =
    (if num = 0 then (cdc_acm_reset_in_transfer (c1\<lparr>cd_serial := cd_serial c1 OR overrun_bit\<rparr>))
         \<lparr>cd_serial := (cd_serial c1 OR overrun_bit) AND NOT overrun_bit\<rparr> else c1)"
    unfolding in_append_def Let_def c1_def num_def off_def by simp
  have "pipe_inv (cdc_acm_reset_in_transfer (c1\<lparr>cd_serial := cd_serial c1 OR overrun_bit\<rparr>))"
    using inv by (intro reset_in_inv) (simp_all add: c1_def)
  moreover have "num \<noteq> 0 \<Longrightarrow> pipe_inv c1" using inv room by (simp add: pipe_inv_def c1_def)
  ultimately show ?thesis unfolding e by simp
qed

lemma in_xfer_inv:
  assumes "pipe_inv c" "length d \<le> cd_num c"
  shows "pipe_inv (fst (in_xfer_cb st d sub (c, w)))"
proof -
  have r: "pipe_inv (cdc_acm_reset_in_transfer c)" using assms(1) by (intro reset_in_inv) (simp_all add: pipe_inv_def)
  show ?thesis using assms r in_append_inv[OF assms]
    by (auto simp: in_xfer_cb_def split: prod.split option.split bool.split) (metis fst_conv)
qed

lemma notif_inv:
  assumes "notif_xfer_cb st buf sub (c, w) = Some s"
  shows "pipe_inv (fst s) = pipe_inv c" "cd_polling (fst s) = cd_polling c" "cd_size (fst s) = cd_size c"
  using assms by (auto simp: notif_xfer_cb_def notif_dispatch_def Let_def split: prod.splits bool.splits option.splits if_splits)

lemma in_xfer_size [simp]: "cd_size (fst (in_xfer_cb st d sub (c, w))) = cd_size c"
  by (simp add: in_xfer_cb_def in_append_def cdc_acm_reset_in_transfer_def Let_def split: prod.split option.split bool.split)

lemma pipe_step_inv: "pipe_step s s' \<Longrightarrow> pipe_inv (fst s) \<Longrightarrow> pipe_inv (fst s') \<and> cd_size (fst s') = cd_size (fst s)"
  by (induction rule: pipe_step.induct) (auto simp: in_xfer_inv notif_inv)

lemma pipe_steps_inv:
  "pipe_step\<^sup>*\<^sup>* s s' \<Longrightarrow> pipe_inv (fst s) \<Longrightarrow> pipe_inv (fst s') \<and> cd_size (fst s') = cd_size (fst s)"
  by (induction rule: rtranclp_induct) (auto dest: pipe_step_inv)

text \<open>Whatever the reader answers and however the transfers end, every transfer that is handed to the controller
  has room for a packet, and the room it is given lies inside the receive buffer.\<close>
theorem in_pipe_room:
  assumes "pipe_step\<^sup>*\<^sup>* (c, w) (c', w')" "0 < cd_mps c" "cd_mps c \<le> cd_size c" "0 < cd_num c" "cd_off c + cd_num c \<le> cd_size c"
  shows "0 < cd_num c' \<and> cd_off c' + cd_num c' \<le> cd_size c"
  using pipe_steps_inv[OF assms(1)] assms(2-) by (simp add: pipe_inv_def)

text \<open>A device as it is opened for the source: the buffer and the packet size of the reader, everything polled.\<close>

definition cdc_opened ::
  "nat \<Rightarrow> nat \<Rightarrow> (u8 list \<Rightarrow> 'w \<Rightarrow> bool \<times> 'w) option \<Rightarrow> (host_event \<Rightarrow> 'w \<Rightarrow> 'w) option \<Rightarrow> bool \<Rightarrow> 'w cdc_dev" where
  "cdc_opened len mps dcb ecb notif =
     \<lparr>cd_size = len, cd_mps = mps, cd_off = 0, cd_num = len, cd_polling = True, cd_notif_polling = notif,
      cd_in_cb = dcb, cd_notif_cb = ecb, cd_serial = 0\<rparr>"

lemma in_pipe_room_witness:
  "let c = cdc_opened 512 64 (Some (\<lambda>d w. (False, w))) None False; c' = fst (in_xfer_cb XCompleted (replicate 100 7) True (c, ()))
   in cd_off c' = 100 \<and> 0 < cd_num c' \<and> cd_off c' + cd_num c' \<le> 512"
proof -
  let ?c = "cdc_opened 512 64 (Some (\<lambda>d w. (False, w))) None False :: unit cdc_dev"
  let ?s = "in_xfer_cb XCompleted (replicate 100 7) True (?c, ())"
  have "pipe_step (?c, ()) ?s" by (rule pipe_step.in_done) (simp_all add: cdc_opened_def)
  then have "pipe_step\<^sup>*\<^sup>* (?c, ()) (fst ?s, snd ?s)" unfolding prod.collapse by (rule r_into_rtranclp)
  from in_pipe_room[OF this] have "0 < cd_num (fst ?s) \<and> cd_off (fst ?s) + cd_num (fst ?s) \<le> 512" by (simp add: cdc_opened_def)
  moreover have "cd_off (fst ?s) = 100"
    by (simp add: in_xfer_cb_def in_append_def cdc_acm_is_transfer_completed_def cdc_opened_def Let_def)
  ultimately show ?thesis unfolding Let_def by blast
qed

subsection \<open>A transfer that fails\<close>

definition source_event :: "host_event \<Rightarrow> cdc_event option" where
  "source_event ev =
     (case ev of
        HostError st \<Rightarrow> Some CDC_ACM_HOST_ERROR
      | SerialState v \<Rightarrow> Some CDC_ACM_HOST_SERIAL_STATE
      | DeviceDisconnected \<Rightarrow> Some CDC_ACM_HOST_DEVICE_DISCONNECTED
      | NetworkConnection b \<Rightarrow> None)"

definition source_event_cb :: "host_event \<Rightarrow> usb_state \<times> 'w \<Rightarrow> usb_state \<times> 'w" where
  "source_event_cb ev sw =
     (case source_event ev of None \<Rightarrow> sw | Some e \<Rightarrow> (usb_event_cb e (fst sw), snd sw))"

lemma not_polling_step: "pipe_step s s' \<Longrightarrow> \<not> cd_polling (fst s) \<Longrightarrow> \<not> cd_polling (fst s')"
  by (induction rule: pipe_step.induct) (auto simp: notif_inv)

lemma not_polling_steps: "pipe_step\<^sup>*\<^sup>* s s' \<Longrightarrow> \<not> cd_polling (fst s) \<Longrightarrow> \<not> cd_polling (fst s')"
  by (induction rule: rtranclp_induct) (auto dest: not_polling_step)

text \<open>A receive transfer that ends with an error is the last one of the open device: nothing starts another, and
  the source, which is told of the error, stays ready.\<close>
theorem rx_error_final:
  assumes "st \<in> {XError, XTimedOut, XStall, XOverflow, XSkipped}" "cd_notif_cb c = Some source_event_cb"
    and "pipe_step\<^sup>*\<^sup>* (in_xfer_cb st d sub (c, sw)) (c', sw')"
  shows "snd (in_xfer_cb st d sub (c, sw)) = sw \<and> \<not> cd_polling c'"
proof -
  have "in_xfer_cb st d sub (c, sw) = (c\<lparr>cd_polling := False\<rparr>, sw)"
    using assms(1,2) by (auto simp: in_xfer_cb_def cdc_acm_is_transfer_completed_def cd_notify_def source_event_cb_def
        source_event_def usb_event_cb_def)
  then show ?thesis using not_polling_steps[OF assms(3)] by simp
qed

definition ready_source :: "usb_state \<times> unit" where
  "ready_source = ((y_S (source_usb_init ()))\<lparr>us_ready := True\<rparr>, ())"

lemma rx_error_final_witness:
  "let c = cdc_opened 512 64 None (Some source_event_cb) False; s = in_xfer_cb XStall [] True (c, ready_source)
   in us_ready (fst (snd s)) \<and> \<not> cd_polling (fst s)"
proof -
  let ?c = "cdc_opened 512 64 None (Some source_event_cb) False :: (usb_state \<times> unit) cdc_dev"
  let ?s = "in_xfer_cb XStall [] True (?c, ready_source)"
  have "pipe_step\<^sup>*\<^sup>* ?s (fst ?s, snd ?s)" by simp
  from rx_error_final[OF _ _ this] have "snd ?s = ready_source \<and> \<not> cd_polling (fst ?s)" by (simp add: cdc_opened_def)
  then show ?thesis by (simp add: ready_source_def Let_def)
qed

subsection \<open>A stream through an FTDI driver\<close>

text \<open>The source over an FTDI chip: the driver's receive function in front of the source's, which always takes the data.\<close>

definition source_data_cb :: "u8 list \<Rightarrow> usb_state \<times> u8 list \<Rightarrow> bool \<times> (usb_state \<times> u8 list)" where
  "source_data_cb d sw = (True, usb_data_cb (Some (\<lambda>x w. w @ x)) d sw)"

fun ftdi_packet :: "u8 \<times> u8 \<times> u8 list \<Rightarrow> u8 list" where
  "ftdi_packet (a, b, d) = a # b # d"

type_synonym ftdi_world = "(usb_state \<times> u8 list) ftdi_ctx \<times> (usb_state \<times> u8 list)"

definition packets_arrive :: "(u8 \<times> u8 \<times> u8 list) list \<Rightarrow> ftdi_world cdc_dev \<times> ftdi_world \<Rightarrow> ftdi_world cdc_dev \<times> ftdi_world" where
  "packets_arrive ps s = fold (\<lambda>p. in_xfer_cb XCompleted (ftdi_packet p) True) ps s"

definition ftdi_opened :: "ftdi_world cdc_dev \<Rightarrow> ftdi_world \<Rightarrow> bool" where
  "ftdi_opened c w \<longleftrightarrow> cd_in_cb c = Some ftdi_rx \<and> fx_data_cb (fst w) = Some source_data_cb \<and>
     fx_event_cb (fst w) = Some source_event_cb"

lemma ftdi_rx_source:
  assumes "ftdi_opened c (ctx, S, h)"
  obtains ctx' S' where "ftdi_rx (a # b # d) (ctx, S, h) = (True, (ctx', S', h @ d))"
    "us_rx_bytes S' = us_rx_bytes S + of_nat (length d)" "ftdi_opened c (ctx', S', h @ d)"
  using that assms
  by (cases "d = []"; cases "fx_uart_state ctx = ftdi_state a b")
    (simp_all add: ftdi_opened_def ftdi_rx_def source_data_cb_def usb_data_cb_def source_event_cb_def source_event_def
      usb_event_cb_def)

lemma ftdi_packet_step:
  assumes "ftdi_opened c (ctx, S, h)"
  obtains c' ctx' S' where "in_xfer_cb XCompleted (a # b # d) True (c, ctx, S, h) = (c', ctx', S', h @ d)"
    "us_rx_bytes S' = us_rx_bytes S + of_nat (length d)" "ftdi_opened c' (ctx', S', h @ d)"
proof (rule ftdi_rx_source[OF assms, of a b d])
  fix ctx' S'
  assume r: "ftdi_rx (a # b # d) (ctx, S, h) = (True, (ctx', S', h @ d))" and o: "ftdi_opened c (ctx', S', h @ d)"
    and n: "us_rx_bytes S' = us_rx_bytes S + of_nat (length d)"
  have "cd_in_cb c = Some ftdi_rx" using assms by (simp add: ftdi_opened_def)
  then have "in_xfer_cb XCompleted (a # b # d) True (c, ctx, S, h) =
    ((cdc_acm_reset_in_transfer c)\<lparr>cd_polling := True\<rparr>, ctx', S', h @ d)"
    by (simp add: in_xfer_cb_def cdc_acm_is_transfer_completed_def r)
  then show ?thesis using that o n by (simp add: ftdi_opened_def cdc_acm_reset_in_transfer_def)
qed

text \<open>Behind an FTDI chip the bridge receives exactly the bytes of the line: the status bytes of every packet are
  taken off, no packet's data is lost or doubled, and the counter of the source counts what was passed on.\<close>
theorem ftdi_stream:
  assumes "ftdi_opened c (ctx, S, h)"
  shows "\<exists>c' ctx' S'. packets_arrive ps (c, ctx, S, h) = (c', ctx', S', h @ concat (map (snd \<circ> snd) ps)) \<and>
    us_rx_bytes S' = us_rx_bytes S + of_nat (length (concat (map (snd \<circ> snd) ps)))"
  using assms
proof (induction ps arbitrary: c ctx S h)
  case Nil
  then show ?case by (simp add: packets_arrive_def)
next
  case (Cons p ps)
  obtain a b d where p: "p = (a, b, d)" by (cases p) auto
  obtain c' ctx' S' where s: "in_xfer_cb XCompleted (a # b # d) True (c, ctx, S, h) = (c', ctx', S', h @ d)"
    "us_rx_bytes S' = us_rx_bytes S + of_nat (length d)" "ftdi_opened c' (ctx', S', h @ d)"
    by (rule ftdi_packet_step[OF Cons.prems])
  from Cons.IH[OF s(3)] s(1,2) show ?case by (auto simp: packets_arrive_def p add.assoc)
qed

lemma ftdi_stream_witness:
  "let c = cdc_opened 64 64 (Some ftdi_rx) None False; w = (ftdi_ctx_new 0 (Some source_data_cb) (Some source_event_cb), fst ready_source, [])
   in \<exists>c' ctx' S'. packets_arrive [(1, 0x60, [65, 66]), (1, 0x60, []), (1, 0, [67])] (c, w) = (c', ctx', S', [65, 66, 67])"
proof -
  let ?c = "cdc_opened 64 64 (Some ftdi_rx) None False"
  have "ftdi_opened ?c (ftdi_ctx_new 0 (Some source_data_cb) (Some source_event_cb), fst ready_source, [])"
    by (simp add: ftdi_opened_def cdc_opened_def ftdi_ctx_new_def)
  from ftdi_stream[OF this, of "[(1, 0x60, [65, 66]), (1, 0x60, []), (1, 0, [67])]"] show ?thesis
    by (simp add: Let_def) blast
qed

subsection \<open>Transmissions\<close>

text \<open>
  The environment of a transmission: the tick counter, its rate, the mutex, the transfer and its semaphore.  The wait
  is in ticks, the time-out of a transfer in milliseconds.
\<close>

record 'w tx_env =
  te_hz :: nat
  te_ticks :: "'w \<Rightarrow> u32"
  te_take :: "int \<Rightarrow> 'w \<Rightarrow> bool \<times> 'w"
  te_give :: "'w \<Rightarrow> 'w"
  te_drain :: "'w \<Rightarrow> 'w"
  te_submit :: "u8 list \<Rightarrow> nat \<Rightarrow> 'w \<Rightarrow> esp_err \<times> 'w"
  te_wait :: "int \<Rightarrow> 'w \<Rightarrow> bool \<times> 'w"
  te_result :: "'w \<Rightarrow> xfer_status \<times> nat"
  te_reset :: "'w \<Rightarrow> 'w"

definition ESP_ERR_INVALID_RESPONSE :: esp_err where "ESP_ERR_INVALID_RESPONSE = ESP_ERR_OTHER 0x108"

text \<open>A buffer of size 0 would be filled for ever, which is \<open>None\<close>; the transfer of an open device has a larger one.\<close>

function tx_loop :: "'w tx_env \<Rightarrow> nat \<Rightarrow> u32 \<Rightarrow> u32 \<Rightarrow> u8 list \<Rightarrow> int \<Rightarrow> 'w \<Rightarrow> (esp_err \<times> 'w) option" where
  "tx_loop E buf start timeout data left w =
     (if data = [] then Some (ESP_OK, w)
      else if buf = 0 then None
      else
        case te_submit E (take buf data) (nat left * 1000 div te_hz E) (te_drain E w) of
          (e, w1) \<Rightarrow>
            if e \<noteq> ESP_OK then Some (e, w1)
            else
              case te_wait E left w1 of
                (taken, w2) \<Rightarrow>
                  let left' = sint (timeout - (te_ticks E w2 - start)) in
                  if \<not> taken \<or> left' < 0 then Some (ESP_ERR_TIMEOUT, te_reset E w2)
                  else if fst (te_result E w2) \<noteq> XCompleted then Some (ESP_ERR_INVALID_RESPONSE, w2)
                  else if snd (te_result E w2) \<noteq> length (take buf data) then Some (ESP_ERR_INVALID_RESPONSE, w2)
                  else tx_loop E buf start timeout (drop buf data) left' w2)"
  by auto
termination
  by (relation "measure (\<lambda>(E, buf, start, timeout, data, left, w). length data)") auto

declare tx_loop.simps [simp del]

text \<open>\<open>out\<close> is the size of the transmit buffer, \<open>None\<close> on a device that is opened for reading only.\<close>

definition cdc_acm_host_data_tx_blocking ::
  "'w tx_env \<Rightarrow> bool \<Rightarrow> nat option \<Rightarrow> u8 list \<Rightarrow> nat \<Rightarrow> 'w \<Rightarrow> (esp_err \<times> 'w) option" where
  "cdc_acm_host_data_tx_blocking E hdl out data timeout_ms w =
     (if \<not> hdl \<or> data = [] then Some (ESP_ERR_INVALID_ARG, w)
      else case out of
        None \<Rightarrow> Some (ESP_ERR_NOT_SUPPORTED, w)
      | Some buf \<Rightarrow>
          let start = te_ticks E w; timeout = of_nat (timeout_ms * te_hz E div 1000) in
          case te_take E (sint (timeout :: u32)) w of
            (taken, w1) \<Rightarrow>
              if \<not> taken then Some (ESP_ERR_TIMEOUT, w1)
              else map_option (\<lambda>(e, w2). (e, te_give E w2)) (tx_loop E buf start timeout data (sint timeout) w1))"

text \<open>
  The same environment with a log of what was taken, handed to the controller, finished there (with its status and
  its number of bytes) and given back.
\<close>

datatype tx_ev = Took | Chunk "u8 list" | Ended xfer_status nat | Gave

definition tx_logged :: "'w tx_env \<Rightarrow> ('w \<times> tx_ev list) tx_env" where
  "tx_logged E =
     \<lparr>te_hz = te_hz E, te_ticks = (\<lambda>(w, l). te_ticks E w),
      te_take = (\<lambda>t (w, l). case te_take E t w of (b, w1) \<Rightarrow> (b, w1, if b then l @ [Took] else l)),
      te_give = (\<lambda>(w, l). (te_give E w, l @ [Gave])),
      te_drain = (\<lambda>(w, l). (te_drain E w, l)),
      te_submit = (\<lambda>d t (w, l). case te_submit E d t w of (e, w1) \<Rightarrow> (e, w1, if e = ESP_OK then l @ [Chunk d] else l)),
      te_wait = (\<lambda>t (w, l). case te_wait E t w of
        (b, w1) \<Rightarrow> (b, w1, if b then l @ [Ended (fst (te_result E w1)) (snd (te_result E w1))] else l)),
      te_result = (\<lambda>(w, l). te_result E w),
      te_reset = (\<lambda>(w, l). (te_reset E w, l))\<rparr>"

text \<open>The log of pieces that went out completely.\<close>

definition sent_whole :: "u8 list list \<Rightarrow> tx_ev list" where
  "sent_whole cs = concat (map (\<lambda>c. [Chunk c, Ended XCompleted (length c)]) cs)"

text \<open>What a transmission may have done: whole pieces, and behind them at most one whose end is not a success.\<close>

definition tx_run :: "nat \<Rightarrow> u8 list \<Rightarrow> esp_err \<Rightarrow> tx_ev list \<Rightarrow> bool" where
  "tx_run buf data e l \<longleftrightarrow>
     (\<exists>cs k. l = sent_whole cs @ k \<and> (\<forall>x\<in>set cs. length x \<le> buf) \<and>
        (if e = ESP_OK then k = [] \<and> concat cs = data
         else (\<exists>c rest. data = concat cs @ c @ rest \<and> length c \<le> buf \<and>
           (k = [] \<or> k = [Chunk c] \<or> (\<exists>st n. k = [Chunk c, Ended st n])))))"

lemma tx_run_more:
  assumes "tx_run buf (drop buf data) e l"
  shows "tx_run buf data e (sent_whole [take buf data] @ l)"
proof -
  obtain cs k where l: "l = sent_whole cs @ k" and cs: "\<forall>x\<in>set cs. length x \<le> buf"
    and e: "if e = ESP_OK then k = [] \<and> concat cs = drop buf data
      else (\<exists>c rest. drop buf data = concat cs @ c @ rest \<and> length c \<le> buf \<and>
           (k = [] \<or> k = [Chunk c] \<or> (\<exists>st n. k = [Chunk c, Ended st n])))"
    using assms unfolding tx_run_def by blast
  have "if e = ESP_OK then k = [] \<and> concat (take buf data # cs) = data
      else (\<exists>c rest. data = concat (take buf data # cs) @ c @ rest \<and> length c \<le> buf \<and>
           (k = [] \<or> k = [Chunk c] \<or> (\<exists>st n. k = [Chunk c, Ended st n])))"
    using e by (cases "e = ESP_OK") (simp, metis append_take_drop_id append.assoc concat.simps(2))
  then show ?thesis unfolding tx_run_def
    by (intro exI [of _ "take buf data # cs"] exI [of _ k]) (use cs in \<open>simp add: sent_whole_def l\<close>)
qed

lemma tx_run_stop:
  assumes "e \<noteq> ESP_OK" "k = [] \<or> k = [Chunk (take buf data)] \<or> (\<exists>st n. k = [Chunk (take buf data), Ended st n])"
  shows "tx_run buf data e k"
proof -
  have "data = concat [] @ take buf data @ drop buf data" "length (take buf data) \<le> buf" by simp_all
  then have "\<exists>c rest. data = concat [] @ c @ rest \<and> length c \<le> buf \<and> (k = [] \<or> k = [Chunk c] \<or> (\<exists>st n. k = [Chunk c, Ended st n]))"
    using assms(2) by blast
  then show ?thesis unfolding tx_run_def
    by (intro exI [of _ "[]"] exI [of _ k]) (use assms(1) in \<open>simp add: sent_whole_def\<close>)
qed

lemma tx_loop_log:
  assumes "0 < buf"
  shows "\<exists>e w' k. tx_loop (tx_logged E) buf start timeout data left (w, l) = Some (e, w', l @ k) \<and> tx_run buf data e k"
proof (induction "length data" arbitrary: data left w l rule: less_induct)
  case less
  show ?case
  proof (cases "data = []")
    case True
    then show ?thesis by (intro exI[of _ ESP_OK] exI[of _ w] exI[of _ "[]"]) (simp add: tx_loop.simps tx_run_def sent_whole_def)
  next
    case False
    obtain e w1 where s: "te_submit E (take buf data) (nat left * 1000 div te_hz E) (te_drain E w) = (e, w1)" by fastforce
    obtain taken w2 where t: "te_wait E left w1 = (taken, w2)" by fastforce
    obtain st n where r: "te_result E w2 = (st, n)" by fastforce
    define left' where "left' = sint (timeout - (te_ticks E w2 - start))"
    let ?c = "take buf data"
    let ?k = "if taken then [Chunk ?c, Ended st n] else [Chunk ?c]"
    define bad where "bad \<longleftrightarrow> st \<noteq> XCompleted \<or> n \<noteq> length ?c"
    have u: "tx_loop (tx_logged E) buf start timeout data left (w, l) =
      (if e \<noteq> ESP_OK then Some (e, w1, l @ [])
       else if \<not> taken \<or> left' < 0 then Some (ESP_ERR_TIMEOUT, te_reset E w2, l @ ?k)
       else if bad then Some (ESP_ERR_INVALID_RESPONSE, w2, l @ ?k)
       else tx_loop (tx_logged E) buf start timeout (drop buf data) left' (w2, l @ ?k))"
      by (subst tx_loop.simps) (use False assms in \<open>simp add: tx_logged_def s t r left'_def bad_def Let_def\<close>)
    have k: "?k = [] \<or> ?k = [Chunk ?c] \<or> (\<exists>st n. ?k = [Chunk ?c, Ended st n])" by simp
    have other: "ESP_ERR_TIMEOUT \<noteq> ESP_OK" "ESP_ERR_INVALID_RESPONSE \<noteq> ESP_OK" by (simp_all add: ESP_ERR_INVALID_RESPONSE_def)
    consider "e \<noteq> ESP_OK" | "e = ESP_OK" "\<not> taken \<or> left' < 0" | "e = ESP_OK" "taken" "\<not> left' < 0" bad
      | "e = ESP_OK" "taken" "\<not> left' < 0" "\<not> bad" by blast
    then show ?thesis
    proof cases
      case 1
      have "tx_run buf data e []" by (rule tx_run_stop) (use 1 in simp_all)
      then show ?thesis using 1 unfolding u by auto
    next
      case 2
      then show ?thesis using tx_run_stop[OF other(1) k] unfolding u by auto
    next
      case 3
      then show ?thesis using tx_run_stop[OF other(2) k] unfolding u by auto
    next
      case 4
      have w: "?k = sent_whole [?c]" using 4 by (simp add: sent_whole_def bad_def)
      have "length (drop buf data) < length data" using False assms by simp
      from less[OF this, of left' w2 "l @ ?k"] obtain e' w' m where
        "tx_loop (tx_logged E) buf start timeout (drop buf data) left' (w2, l @ ?k) = Some (e', w', (l @ ?k) @ m)"
        "tx_run buf (drop buf data) e' m" by blast
      then show ?thesis using 4 tx_run_more [of buf data e' m] unfolding u w
        by (intro exI [of _ e'] exI [of _ w'] exI [of _ "sent_whole [?c] @ m"]) simp
    qed
  qed
qed

text \<open>C28: A transmission over an open device always comes back.  Either it did not get the mutex in time and touched
  nothing, or it gave the mutex back at the end.  In between it handed pieces of the data, in order and each no longer
  than the buffer, to the controller, the next one only when the last one had ended as complete and at its full length.
  It reports success only if all pieces did so and together are the data; otherwise at most one further piece was handed
  out.\<close>
theorem tx_delivers:
  assumes "0 < buf" "data \<noteq> []"
  shows "\<exists>e w' l. cdc_acm_host_data_tx_blocking (tx_logged E) True (Some buf) data ms (w, []) = Some (e, w', l) \<and>
    (l = [] \<and> e = ESP_ERR_TIMEOUT \<or> (\<exists>k. l = [Took] @ k @ [Gave] \<and> tx_run buf data e k))"
proof -
  let ?t = "of_nat (ms * te_hz E div 1000) :: u32"
  obtain b w1 where t: "te_take E (sint ?t) w = (b, w1)" by fastforce
  show ?thesis
  proof (cases b)
    case False
    then show ?thesis using assms by (simp add: cdc_acm_host_data_tx_blocking_def tx_logged_def t Let_def)
  next
    case True
    obtain e w' k where r: "tx_loop (tx_logged E) buf (te_ticks E w) ?t data (sint ?t) (w1, [Took]) = Some (e, w', [Took] @ k)"
      and k: "tx_run buf data e k"
      using tx_loop_log[OF assms(1), of E "te_ticks E w" ?t data "sint ?t" w1 "[Took]"] by blast
    have "te_hz (tx_logged E) = te_hz E" "te_ticks (tx_logged E) (w, []) = te_ticks E w"
      "te_take (tx_logged E) (sint ?t) (w, []) = (True, w1, [Took])" "te_give (tx_logged E) (w', x) = (te_give E w', x @ [Gave])" for x
      using True t by (simp_all add: tx_logged_def)
    then have "cdc_acm_host_data_tx_blocking (tx_logged E) True (Some buf) data ms (w, []) =
        Some (e, te_give E w', [Took] @ k @ [Gave])"
      using assms(2) r by (simp add: cdc_acm_host_data_tx_blocking_def Let_def)
    then show ?thesis using k by blast
  qed
qed

text \<open>An environment for the witness: a controller that takes every piece and a clock that stands still.\<close>

definition tx_still :: "nat tx_env" where
  "tx_still =
     \<lparr>te_hz = 100, te_ticks = (\<lambda>w. 0), te_take = (\<lambda>t w. (True, w)), te_give = (\<lambda>w. w), te_drain = (\<lambda>w. w),
      te_submit = (\<lambda>d t w. (ESP_OK, length d)), te_wait = (\<lambda>t w. (True, w)), te_result = (\<lambda>w. (XCompleted, w)), te_reset = (\<lambda>w. w)\<rparr>"

lemma tx_delivers_witness:
  "\<exists>e w' l. cdc_acm_host_data_tx_blocking (tx_logged tx_still) True (Some 2) [1, 2, 3] 500 (0, []) = Some (e, w', l) \<and>
    (l = [] \<and> e = ESP_ERR_TIMEOUT \<or> (\<exists>k. l = [Took] @ k @ [Gave] \<and> tx_run 2 [1, 2, 3] e k)) \<and>
    l = [Took] @ sent_whole [[1, 2], [3]] @ [Gave]"
proof -
  let ?r = "cdc_acm_host_data_tx_blocking (tx_logged tx_still) True (Some 2) [1, 2, 3] 500 (0, [])"
  have "?r = Some (ESP_OK, 1, [Took] @ sent_whole [[1, 2], [3]] @ [Gave])"
    by (simp add: cdc_acm_host_data_tx_blocking_def tx_logged_def tx_still_def tx_loop.simps sent_whole_def Let_def)
  then show ?thesis using tx_delivers [of 2 "[1, 2, 3]" tx_still 500 0] by simp
qed

text \<open>A transmission that waited for the mutex is reported as timed out although every byte of it went out.\<close>

definition tx_waited :: "(nat \<times> nat) tx_env" where
  "tx_waited =
     \<lparr>te_hz = 100, te_ticks = (\<lambda>w. of_nat (snd w)), te_take = (\<lambda>t w. (True, fst w, 45)), te_give = (\<lambda>w. w), te_drain = (\<lambda>w. w),
      te_submit = (\<lambda>d t w. (ESP_OK, length d, snd w)), te_wait = (\<lambda>t w. (True, fst w, snd w + 10)),
      te_result = (\<lambda>w. (XCompleted, fst w)), te_reset = (\<lambda>w. w)\<rparr>"

lemma tx_late_success:
  "\<exists>w'. cdc_acm_host_data_tx_blocking (tx_logged tx_waited) True (Some 512) [1, 2, 3] 500 ((0, 0), []) =
     Some (ESP_ERR_TIMEOUT, w', [Took, Chunk [1, 2, 3], Ended XCompleted 3, Gave])"
  by (simp add: cdc_acm_host_data_tx_blocking_def tx_logged_def tx_waited_def tx_loop.simps Let_def)

end
