(* ===== verification/CdcOpen.thy ===== *)
theory CdcOpen
  imports CdcHost
begin

text \<open>
  \<^verbatim>\<open>cdc_acm_host.c\<close>: control requests, the search for a device, its opening and its closing, and the events of
  devices that come and go; \<^verbatim>\<open>cdc_host_descriptor_parsing.c\<close>: the choice of the endpoints.  Of the calls into the USB
  host library the model keeps the sequence, and \<open>ans\<close> is what each of them answers; an answer that
  \<^verbatim>\<open>ESP_ERROR_CHECK\<close> does not accept stops the device, which is the result \<open>None\<close>.
\<close>

subsection \<open>Control requests\<close>

record 'w ctrl_env =
  ce_take :: "'w \<Rightarrow> bool \<times> 'w"
  ce_submit :: "u8 list \<Rightarrow> nat \<Rightarrow> 'w \<Rightarrow> esp_err \<times> 'w"
  ce_wait :: "'w \<Rightarrow> bool \<times> 'w"
  ce_result :: "'w \<Rightarrow> xfer_status \<times> nat"
  ce_buffer :: "'w \<Rightarrow> u8 list"
  ce_give :: "'w \<Rightarrow> 'w"

definition le16 :: "u16 \<Rightarrow> u8 list" where "le16 v = [ucast v, ucast (drop_bit 8 v)]"

text \<open>
  \<open>ce_submit\<close> gets the bytes the driver wrote, the set-up packet and the data of an OUT request, and the number of
  bytes of the transfer; \<open>room\<close> is the size of the buffer.  The second result is what an IN request returns.
\<close>

definition ctrl_transfer ::
  "'w ctrl_env \<Rightarrow> u8 \<Rightarrow> u8 \<Rightarrow> u16 \<Rightarrow> u16 \<Rightarrow> u16 \<Rightarrow> u8 list \<Rightarrow> 'w \<Rightarrow> (esp_err \<times> u8 list option) \<times> 'w" where
  "ctrl_transfer E typ req v i len data w =
     (let inp = (typ AND 0x80 \<noteq> 0); num = unat len + 8;
          msg = [typ, req] @ le16 v @ le16 i @ le16 len @ (if inp then [] else take (unat len) data)
      in case ce_submit E msg num w of
        (e, w1) \<Rightarrow>
          if e \<noteq> ESP_OK then ((e, None), w1)
          else (case ce_wait E w1 of
            (taken, w2) \<Rightarrow>
              if \<not> taken then ((ESP_ERR_TIMEOUT, None), w2)
              else if fst (ce_result E w2) \<noteq> XCompleted \<or> snd (ce_result E w2) \<noteq> num
              then ((ESP_ERR_INVALID_RESPONSE, None), w2)
              else ((ESP_OK, if inp then Some (take (unat len) (drop 8 (ce_buffer E w2))) else None), w2)))"

definition cdc_acm_host_send_custom_request ::
  "'w ctrl_env \<Rightarrow> bool \<Rightarrow> nat \<Rightarrow> u8 \<Rightarrow> u8 \<Rightarrow> u16 \<Rightarrow> u16 \<Rightarrow> u16 \<Rightarrow> u8 list option \<Rightarrow> 'w \<Rightarrow> (esp_err \<times> u8 list option) \<times> 'w" where
  "cdc_acm_host_send_custom_request E hdl room typ req v i len data w =
     (if \<not> hdl \<or> 0 < len \<and> data = None then ((ESP_ERR_INVALID_ARG, None), w)
      else if room < unat len + 8 then ((ESP_ERR_INVALID_SIZE, None), w)
      else case ce_take E w of
        (taken, w1) \<Rightarrow>
          if \<not> taken then ((ESP_ERR_TIMEOUT, None), w1)
          else (case ctrl_transfer E typ req v i len (case data of None \<Rightarrow> [] | Some d \<Rightarrow> d) w1 of
            (r, w2) \<Rightarrow> (r, ce_give E w2)))"

subsection \<open>The search for a device\<close>

record usb_dev =
  ud_hdl :: nat
  ud_addr :: u8
  ud_vid :: u16
  ud_pid :: u16
  ud_class :: u8

definition dev_wanted :: "u8 \<Rightarrow> u16 \<Rightarrow> u16 \<Rightarrow> usb_dev \<Rightarrow> bool" where
  "dev_wanted addr vid pid d \<longleftrightarrow> (vid = ud_vid d \<or> vid = 0) \<and> (pid = ud_pid d \<or> pid = 0) \<and> (addr = ud_addr d \<or> addr = 0)"

text \<open>One look at the connected devices, each with whether it can be opened; the second result lists the devices
  that were opened and the third those that were closed again.\<close>

fun look_at :: "u8 \<Rightarrow> u16 \<Rightarrow> u16 \<Rightarrow> (usb_dev \<times> bool) list \<Rightarrow> nat option \<times> nat list \<times> nat list" where
  "look_at addr vid pid [] = (None, [], [])"
| "look_at addr vid pid ((d, opens) # ds) =
     (if \<not> opens then look_at addr vid pid ds
      else if ud_class d \<noteq> 9 \<and> dev_wanted addr vid pid d then (Some (ud_hdl d), [ud_hdl d], [])
      else case look_at addr vid pid ds of (r, os, cs) \<Rightarrow> (r, ud_hdl d # os, ud_hdl d # cs))"

text \<open>The looks until the time is over; there is always one.\<close>

fun look_again :: "u8 \<Rightarrow> u16 \<Rightarrow> u16 \<Rightarrow> (usb_dev \<times> bool) list \<Rightarrow> (usb_dev \<times> bool) list list \<Rightarrow> nat option \<times> nat list \<times> nat list" where
  "look_again addr vid pid ds rest =
     (case look_at addr vid pid ds of
        (Some h, os, cs) \<Rightarrow> (Some h, os, cs)
      | (None, os, cs) \<Rightarrow>
          (case rest of
             [] \<Rightarrow> (None, os, cs)
           | ds2 # rest2 \<Rightarrow> (case look_again addr vid pid ds2 rest2 of (r, os2, cs2) \<Rightarrow> (r, os @ os2, cs @ cs2))))"

text \<open>\<open>known\<close> are the devices already open, which are shared, \<open>mem\<close> whether there is room for a new entry.\<close>

definition cdc_acm_find_and_open_usb_device ::
  "bool \<Rightarrow> usb_dev list \<Rightarrow> u8 \<Rightarrow> u16 \<Rightarrow> u16 \<Rightarrow> (usb_dev \<times> bool) list \<Rightarrow> (usb_dev \<times> bool) list list \<Rightarrow>
    (esp_err \<times> nat option) \<times> nat list \<times> nat list" where
  "cdc_acm_find_and_open_usb_device mem known addr vid pid ds rest =
     (if \<not> mem then ((ESP_ERR_NO_MEM, None), [], [])
      else case find (dev_wanted addr vid pid) known of
        Some d \<Rightarrow> ((ESP_OK, Some (ud_hdl d)), [], [])
      | None \<Rightarrow>
          (case look_again addr vid pid ds rest of
             (Some h, os, cs) \<Rightarrow> ((ESP_OK, Some h), os, cs)
           | (None, os, cs) \<Rightarrow> ((ESP_ERR_NOT_FOUND, None), os, cs)))"

lemma look_at_balance: "look_at addr vid pid ds = (r, os, cs) \<Longrightarrow> os = cs @ (case r of None \<Rightarrow> [] | Some h \<Rightarrow> [h])"
  by (induction ds arbitrary: r os cs) (auto split: if_splits prod.splits option.splits)

lemma look_again_balance:
  "look_again addr vid pid ds rest = (r, os, cs) \<Longrightarrow> os = cs @ (case r of None \<Rightarrow> [] | Some h \<Rightarrow> [h])"
proof (induction addr vid pid ds rest arbitrary: r os cs rule: look_again.induct)
  case (1 addr vid pid ds rest)
  obtain r1 os1 cs1 where l: "look_at addr vid pid ds = (r1, os1, cs1)" by (metis prod_cases3)
  note b = look_at_balance[OF l]
  show ?case
  proof (cases "r1 = None \<and> rest \<noteq> []")
    case True
    then obtain ds2 rest2 where rest: "rest = ds2 # rest2" by (cases rest) auto
    obtain r2 os2 cs2 where a: "look_again addr vid pid ds2 rest2 = (r2, os2, cs2)" by (metis prod_cases3)
    have "os2 = cs2 @ (case r2 of None \<Rightarrow> [] | Some h \<Rightarrow> [h])"
      using "1.IH"[OF l[symmetric] _ refl rest a] True by simp
    then show ?thesis using "1.prems" True rest a l b by (auto simp del: look_again.simps simp: look_again.simps[of addr vid pid ds])
  next
    case False
    then show ?thesis using "1.prems" l b by (cases r1; cases rest) auto
  qed
qed

text \<open>The search keeps no device open but the one it returns.\<close>

lemma search_keeps_one:
  assumes "cdc_acm_find_and_open_usb_device mem known addr vid pid ds rest = ((e, r), os, cs)" "os \<noteq> []"
  shows "os = cs @ (case r of None \<Rightarrow> [] | Some h \<Rightarrow> [h])"
  using assms look_again_balance[of addr vid pid ds rest]
  by (auto simp: cdc_acm_find_and_open_usb_device_def simp del: look_again.simps split: if_splits option.splits prod.splits)

text \<open>What is written for a request fits the buffer.\<close>

lemma ctrl_message_fits:
  assumes "\<not> room < unat len + 8"
  shows "length ([typ, req] @ le16 v @ le16 i @ le16 len @ (if inp then [] else take (unat len) data)) \<le> room"
  using assms by (cases inp) (auto simp: le16_def min_def)

subsection \<open>Opening\<close>

datatype host_call =
  Halt nat | Flush nat | Clear nat | Claim nat | Release nat | SubmitIn | SubmitNotif
  | Deleted | FreeTransfers | CloseDevice

text \<open>The endpoints that are polled and the interfaces; \<open>None\<close> is a notification element the device does not have.\<close>

record dev_res =
  dr_in_ep :: "nat option"
  dr_notif_ep :: "nat option"
  dr_data_intf :: nat
  dr_notif_intf :: "nat option"
  dr_has_del :: bool

definition cdc_acm_device_remove :: "dev_res \<Rightarrow> host_call list" where
  "cdc_acm_device_remove r = (if dr_has_del r then [Deleted] else []) @ [FreeTransfers, CloseDevice]"

definition release_notif :: "dev_res \<Rightarrow> host_call list" where
  "release_notif r = (case dr_notif_intf r of Some n \<Rightarrow> if n \<noteq> dr_data_intf r then [Release n] else [] | None \<Rightarrow> [])"

definition start_undo :: "dev_res \<Rightarrow> host_call list" where
  "start_undo r = Release (dr_data_intf r) # (if dr_notif_ep r = None then [] else release_notif r)"

definition start_notif :: "(host_call \<Rightarrow> esp_err) \<Rightarrow> dev_res \<Rightarrow> esp_err option \<times> host_call list" where
  "start_notif ans r =
     (case (dr_notif_ep r, dr_notif_intf r) of
        (Some ep, Some n) \<Rightarrow>
          if n \<noteq> dr_data_intf r \<and> ans (Claim n) \<noteq> ESP_OK then (Some (ans (Claim n)), Claim n # start_undo r)
          else ((if ans SubmitNotif = ESP_OK then Some ESP_OK else None),
            (if n \<noteq> dr_data_intf r then [Claim n] else []) @ [SubmitNotif])
      | _ \<Rightarrow> (Some ESP_OK, []))"

definition cdc_acm_start :: "(host_call \<Rightarrow> esp_err) \<Rightarrow> dev_res \<Rightarrow> esp_err option \<times> host_call list" where
  "cdc_acm_start ans r =
     (if ans (Claim (dr_data_intf r)) \<noteq> ESP_OK
      then (Some (ans (Claim (dr_data_intf r))), Claim (dr_data_intf r) # start_undo r)
      else if dr_in_ep r \<noteq> None \<and> ans SubmitIn \<noteq> ESP_OK then (None, [Claim (dr_data_intf r), SubmitIn])
      else case start_notif ans r of
        (e, l) \<Rightarrow> (e, [Claim (dr_data_intf r)] @ (if dr_in_ep r = None then [] else [SubmitIn]) @ l))"

text \<open>
  Opening, behind the search, whose error it passes on: \<open>parse\<close> and \<open>alloc\<close> are the answers of the choice of the
  endpoints and of the allocation.  The second result is whether the device is in the list of the open ones.
\<close>

definition cdc_acm_host_open_v2 ::
  "(host_call \<Rightarrow> esp_err) \<Rightarrow> bool \<Rightarrow> esp_err \<Rightarrow> esp_err \<Rightarrow> esp_err \<Rightarrow> dev_res \<Rightarrow> (esp_err option \<times> bool) \<times> host_call list" where
  "cdc_acm_host_open_v2 ans inst found parse alloc r =
     (if \<not> inst then ((Some ESP_ERR_INVALID_STATE, False), [])
      else if found \<noteq> ESP_OK then ((Some found, False), [])
      else if parse \<noteq> ESP_OK then ((Some parse, False), cdc_acm_device_remove r)
      else if alloc \<noteq> ESP_OK then ((Some alloc, False), cdc_acm_device_remove r)
      else case cdc_acm_start ans r of
        (None, l) \<Rightarrow> ((None, False), l)
      | (Some e, l) \<Rightarrow> if e = ESP_OK then ((Some e, True), l) else ((Some e, False), l @ cdc_acm_device_remove r))"

text \<open>The table of functions starts with those of the CDC class exactly when the device describes itself as one.\<close>

definition default_funcs :: "'w vcp_host \<Rightarrow> u16 option \<Rightarrow> nat \<Rightarrow> 'w intf_func" where
  "default_funcs V intf func_cnt =
     (if 1 < func_cnt
      then \<lparr>if_lc_set = Some (acm_compliant_line_coding_set V intf), if_lc_get = Some (acm_compliant_line_coding_get V intf),
        if_lines = Some (acm_compliant_set_control_line_state V intf), if_break = Some (acm_compliant_send_break V intf)\<rparr>
      else \<lparr>if_lc_set = None, if_lc_get = None, if_lines = None, if_break = None\<rparr>)"

subsection \<open>Closing\<close>

definition cdc_acm_reset_transfer_endpoint :: "(host_call \<Rightarrow> esp_err) \<Rightarrow> nat \<Rightarrow> esp_err \<times> host_call list" where
  "cdc_acm_reset_transfer_endpoint ans ep =
     (if ans (Halt ep) \<noteq> ESP_OK then (ans (Halt ep), [Halt ep])
      else if ans (Flush ep) \<noteq> ESP_OK then (ans (Flush ep), [Halt ep, Flush ep])
      else (ESP_OK, [Halt ep, Flush ep, Clear ep]))"

fun must_reset :: "(host_call \<Rightarrow> esp_err) \<Rightarrow> nat option list \<Rightarrow> bool \<times> host_call list" where
  "must_reset ans [] = (True, [])"
| "must_reset ans (None # eps) = must_reset ans eps"
| "must_reset ans (Some ep # eps) =
     (case cdc_acm_reset_transfer_endpoint ans ep of
        (e, l) \<Rightarrow> if e \<noteq> ESP_OK then (False, l) else (case must_reset ans eps of (b, l2) \<Rightarrow> (b, l @ l2)))"

fun must_release :: "(host_call \<Rightarrow> esp_err) \<Rightarrow> host_call list \<Rightarrow> bool \<times> host_call list" where
  "must_release ans [] = (True, [])"
| "must_release ans (c # cs) = (if ans c \<noteq> ESP_OK then (False, [c]) else (case must_release ans cs of (b, l) \<Rightarrow> (b, c # l)))"

definition cdc_acm_host_close ::
  "(host_call \<Rightarrow> esp_err) \<Rightarrow> bool \<Rightarrow> nat option \<Rightarrow> (nat \<times> dev_res) list \<Rightarrow> (esp_err option \<times> (nat \<times> dev_res) list) \<times> host_call list" where
  "cdc_acm_host_close ans inst hdl devs =
     (if \<not> inst then ((Some ESP_ERR_INVALID_STATE, devs), [])
      else case hdl of
        None \<Rightarrow> ((Some ESP_ERR_INVALID_ARG, devs), [])
      | Some h \<Rightarrow>
          (case map_of devs h of
             None \<Rightarrow> ((Some ESP_OK, devs), [])
           | Some r \<Rightarrow>
               (case must_reset ans [dr_in_ep r, dr_notif_ep r] of
                  (b, l) \<Rightarrow>
                    if \<not> b then ((None, devs), l)
                    else (case must_release ans (Release (dr_data_intf r) # release_notif r) of
                      (b2, l2) \<Rightarrow>
                        if \<not> b2 then ((None, devs), l @ l2)
                        else ((Some ESP_OK, remove1 (h, r) devs), l @ l2 @ cdc_acm_device_remove r)))))"

text \<open>A device that could not be opened is released, a second closing does nothing.\<close>

lemma failed_open_releases:
  assumes "cdc_acm_host_open_v2 ans True ESP_OK parse alloc r = ((Some e, b), l)" "e \<noteq> ESP_OK"
  shows "\<not> b \<and> (\<exists>l0. l = l0 @ cdc_acm_device_remove r)"
  using assms by (auto simp: cdc_acm_host_open_v2_def split: if_splits prod.splits option.splits)

lemma close_twice:
  assumes "cdc_acm_host_close ans True (Some h) devs = ((Some ESP_OK, devs'), l)" "distinct (map fst devs)"
  shows "cdc_acm_host_close ans2 True (Some h) devs' = ((Some ESP_OK, devs'), [])"
proof -
  have "map_of devs' h = None"
  proof (cases "map_of devs h")
    case None
    then show ?thesis using assms(1) by (simp add: cdc_acm_host_close_def)
  next
    case (Some r)
    then have "devs' = remove1 (h, r) devs"
      using assms(1) by (auto simp: cdc_acm_host_close_def simp del: must_reset.simps must_release.simps split: prod.splits if_splits)
    moreover have "(h, r) \<in> set devs" using Some by (rule map_of_SomeD)
    then obtain a b where "devs = a @ (h, r) # b" "(h, r) \<notin> set a" by (metis split_list_first)
    ultimately show ?thesis using assms(2) by (auto simp: remove1_append map_of_eq_None_iff)
  qed
  then show ?thesis by (simp add: cdc_acm_host_close_def)
qed

text \<open>
  When the interface of the notifications cannot be claimed, the receive transfer has already been submitted: it is
  freed without having been stopped, against the note on \<^verbatim>\<open>cdc_acm_transfers_free\<close>.
\<close>

lemma failed_start_frees_inflight:
  assumes "dr_in_ep r = Some ep" "dr_notif_ep r = Some nep" "dr_notif_intf r = Some n" "n \<noteq> dr_data_intf r" "\<not> dr_has_del r"
    and "ans (Claim (dr_data_intf r)) = ESP_OK" "ans SubmitIn = ESP_OK" "ans (Claim n) = e" "e \<noteq> ESP_OK"
  shows "cdc_acm_host_open_v2 ans True ESP_OK ESP_OK ESP_OK r =
    ((Some e, False), [Claim (dr_data_intf r), SubmitIn, Claim n, Release (dr_data_intf r), Release n, FreeTransfers, CloseDevice])"
  using assms by (simp add: cdc_acm_host_open_v2_def cdc_acm_start_def start_notif_def start_undo_def release_notif_def
      cdc_acm_device_remove_def)

subsection \<open>Devices that come and go\<close>

text \<open>A new device is opened for the callback only; a lost one is reported to every entry opened on it.\<close>

definition host_new_dev :: "(nat \<Rightarrow> 'w \<Rightarrow> 'w) option \<Rightarrow> (nat \<Rightarrow> 'w \<Rightarrow> nat option \<times> 'w) \<Rightarrow> (nat \<Rightarrow> 'w \<Rightarrow> 'w) \<Rightarrow> nat \<Rightarrow> 'w \<Rightarrow> 'w" where
  "host_new_dev cb opn cls addr w =
     (case cb of
        None \<Rightarrow> w
      | Some f \<Rightarrow> (case opn addr w of (None, w1) \<Rightarrow> w1 | (Some h, w1) \<Rightarrow> cls h (f h w1)))"

fun host_dev_gone :: "nat \<Rightarrow> (nat \<times> 'w cdc_dev) list \<Rightarrow> 'w \<Rightarrow> 'w" where
  "host_dev_gone h [] w = w"
| "host_dev_gone h ((k, c) # ds) w = host_dev_gone h ds (if k = h then cd_notify c DeviceDisconnected w else w)"

text \<open>The source learns of the loss of its device once, whatever else is open.\<close>

lemma source_hears_loss:
  assumes "cd_notif_cb c = Some source_event_cb" "\<forall>(k, x)\<in>set (a @ b). k \<noteq> h"
  shows "host_dev_gone h (a @ (h, c) # b) (S, w) = (usb_event_cb CDC_ACM_HOST_DEVICE_DISCONNECTED S, w)"
proof -
  have skip: "host_dev_gone h (xs @ ys) v = host_dev_gone h ys v" if "\<forall>(k, x)\<in>set xs. k \<noteq> h" for xs ys v
    using that by (induction xs arbitrary: v) auto
  from skip[of a] skip[of b "[]"] assms show ?thesis
    by (auto simp: cd_notify_def source_event_cb_def source_event_def)
qed

end
