(* ===== verification/CdcParse.thy ===== *)
theory CdcParse
  imports CdcOpen
begin

text \<open>
  \<^verbatim>\<open>cdc_host_descriptor_parsing.c\<close>: which endpoints of a device the driver uses.  The walk over the bytes of the
  descriptors is done by the USB host library, whose functions are the parameter \<open>P\<close>; an assertion that fails is the
  result \<open>None\<close>.
\<close>

subsection \<open>Descriptors\<close>

record intf_desc =
  id_number :: u8
  id_alt :: u8
  id_class :: u8
  id_endpoints :: nat

record ep_desc =
  ep_address :: u8
  ep_attributes :: u8
  ep_mps :: nat

record dev_class =
  dc_class :: u8
  dc_subclass :: u8
  dc_protocol :: u8

record iad_desc =
  ia_first :: u8
  ia_count :: u8
  ia_class :: u8

text \<open>
  The library: an interface with its offset, an endpoint of an interface, the associations, the types of the descriptors
  that follow an interface, and the number of alternate settings, which
  is negative when there is no such interface.
\<close>

record desc_api =
  pd_intf :: "u8 \<Rightarrow> nat \<Rightarrow> (intf_desc \<times> nat) option"
  pd_ep :: "intf_desc \<Rightarrow> nat \<Rightarrow> nat \<Rightarrow> ep_desc option"
  pd_iads :: "iad_desc list"
  pd_after :: "intf_desc \<Rightarrow> nat \<Rightarrow> u8 list"
  pd_alts :: "u8 \<Rightarrow> int"

definition ep_bulk :: "ep_desc \<Rightarrow> bool" where "ep_bulk e \<longleftrightarrow> ep_attributes e AND 0x03 = 2"
definition ep_intr :: "ep_desc \<Rightarrow> bool" where "ep_intr e \<longleftrightarrow> ep_attributes e AND 0x03 = 3"
definition ep_in :: "ep_desc \<Rightarrow> bool" where "ep_in e \<longleftrightarrow> ep_address e AND 0x80 \<noteq> 0"

record cdc_parsed_info =
  pi_notif_ep :: "ep_desc option"
  pi_in_ep :: "ep_desc option"
  pi_out_ep :: "ep_desc option"
  pi_notif_intf :: "intf_desc option"
  pi_data_intf :: "intf_desc option"
  pi_func_cnt :: nat

definition no_info :: cdc_parsed_info where
  "no_info = \<lparr>pi_notif_ep = None, pi_in_ep = None, pi_out_ep = None, pi_notif_intf = None, pi_data_intf = None, pi_func_cnt = 0\<rparr>"

subsection \<open>The choice\<close>

definition cdc_parse_is_cdc_compliant :: "desc_api \<Rightarrow> dev_class \<Rightarrow> u8 \<Rightarrow> bool" where
  "cdc_parse_is_cdc_compliant P d idx \<longleftrightarrow>
     (dc_class d = 0x00 \<or> dc_class d = 0x02) \<and> (case pd_intf P idx 0 of Some (i, off) \<Rightarrow> id_class i = 0x02 | None \<Rightarrow> False) \<or>
     (dc_class d = 0xEF \<and> dc_subclass d = 0x02 \<and> dc_protocol d = 0x01 \<or>
      dc_class d = 0x00 \<and> dc_subclass d = 0x00 \<and> dc_protocol d = 0x00) \<and>
     list_ex (\<lambda>a. ia_first a = idx \<and> ia_count a = 2 \<and> ia_class a = 0x02) (pd_iads P)"

text \<open>The functional descriptors right behind the interface: their number, and whether their list exists.\<close>

definition cdc_parse_functional_descriptors :: "bool \<Rightarrow> u8 list \<Rightarrow> bool \<times> nat" where
  "cdc_parse_functional_descriptors mem types =
     (let n = length (takeWhile (\<lambda>t. t = 0x24) types) in if n = 0 \<and> types \<noteq> [] then (False, 0) else (mem, n))"

definition take_data_ep :: "intf_desc \<Rightarrow> ep_desc \<Rightarrow> cdc_parsed_info \<Rightarrow> cdc_parsed_info" where
  "take_data_ep i e info =
     (if ep_bulk e
      then (if ep_in e then info\<lparr>pi_data_intf := Some i, pi_in_ep := Some e\<rparr> else info\<lparr>pi_data_intf := Some i, pi_out_ep := Some e\<rparr>)
      else info)"

definition take_ep :: "intf_desc \<Rightarrow> ep_desc \<Rightarrow> cdc_parsed_info \<Rightarrow> cdc_parsed_info" where
  "take_ep i e info =
     (if ep_intr e then info\<lparr>pi_notif_intf := Some i, pi_notif_ep := Some e\<rparr> else take_data_ep i e info)"

fun scan_eps ::
  "desc_api \<Rightarrow> (intf_desc \<Rightarrow> ep_desc \<Rightarrow> cdc_parsed_info \<Rightarrow> cdc_parsed_info) \<Rightarrow> intf_desc \<Rightarrow> nat \<Rightarrow> nat list \<Rightarrow>
    cdc_parsed_info \<Rightarrow> cdc_parsed_info option" where
  "scan_eps P f i off [] info = Some info"
| "scan_eps P f i off (k # ks) info =
     (case pd_ep P i k off of None \<Rightarrow> None | Some e \<Rightarrow> scan_eps P f i off ks (f i e info))"

text \<open>The first alternate setting with two endpoints.\<close>

fun second_intf :: "desc_api \<Rightarrow> u8 \<Rightarrow> nat list \<Rightarrow> cdc_parsed_info \<Rightarrow> cdc_parsed_info option" where
  "second_intf P idx [] info = Some info"
| "second_intf P idx (k # ks) info =
     (case pd_intf P idx k of
        Some (i, off) \<Rightarrow>
          if id_endpoints i = 2 then scan_eps P take_data_ep i off [0, 1] info else second_intf P idx ks info
      | None \<Rightarrow> second_intf P idx ks info)"

definition data_found :: "cdc_parsed_info \<Rightarrow> esp_err" where
  "data_found info = (if pi_in_ep info \<noteq> None \<and> pi_out_ep info \<noteq> None then ESP_OK else ESP_ERR_NOT_FOUND)"

definition cdc_parse_interface_descriptor :: "desc_api \<Rightarrow> bool \<Rightarrow> dev_class \<Rightarrow> u8 \<Rightarrow> (esp_err \<times> cdc_parsed_info) option" where
  "cdc_parse_interface_descriptor P mem d idx =
     (case pd_intf P idx 0 of
        None \<Rightarrow> Some (ESP_ERR_NOT_FOUND, no_info)
      | Some (i, off) \<Rightarrow>
          (case scan_eps P take_ep i off [0..<id_endpoints i] no_info of
             None \<Rightarrow> None
           | Some info \<Rightarrow>
               if \<not> cdc_parse_is_cdc_compliant P d idx then Some (data_found info, info)
               else (case cdc_parse_functional_descriptors mem (pd_after P i off) of
                 (ok, n) \<Rightarrow>
                   let info2 = info\<lparr>pi_notif_intf := Some i, pi_func_cnt := n\<rparr> in
                   if \<not> ok \<and> 0 < n then Some (ESP_ERR_NO_MEM, info2)
                   else if pi_data_intf info2 \<noteq> None then Some (data_found info2, info2)
                   else map_option (\<lambda>info3. (data_found info3, info3)) (second_intf P (idx + 1) [0..<nat (pd_alts P (idx + 1) + 1)] info2))))"

subsection \<open>What is chosen\<close>

definition info_ok :: "cdc_parsed_info \<Rightarrow> bool" where
  "info_ok info \<longleftrightarrow>
     (\<forall>e. pi_in_ep info = Some e \<longrightarrow> ep_bulk e \<and> ep_in e \<and> pi_data_intf info \<noteq> None) \<and>
     (\<forall>e. pi_out_ep info = Some e \<longrightarrow> ep_bulk e \<and> \<not> ep_in e \<and> pi_data_intf info \<noteq> None) \<and>
     (\<forall>e. pi_notif_ep info = Some e \<longrightarrow> ep_intr e \<and> pi_notif_intf info \<noteq> None)"

lemma take_ep_ok: "info_ok info \<Longrightarrow> info_ok (take_data_ep i e info)" "info_ok info \<Longrightarrow> info_ok (take_ep i e info)"
  by (auto simp: info_ok_def take_ep_def take_data_ep_def)

lemma scan_eps_ok:
  assumes "\<And>e x. info_ok x \<Longrightarrow> info_ok (f i e x)" "info_ok info" "scan_eps P f i off ks info = Some r"
  shows "info_ok r"
  using assms(2,3) by (induction ks arbitrary: info) (auto split: option.splits dest: assms(1))

lemma second_intf_ok: "second_intf P idx ks info = Some r \<Longrightarrow> info_ok info \<Longrightarrow> info_ok r"
proof (induction ks)
  case (Cons k ks)
  then show ?case
    by (auto simp del: scan_eps.simps split: option.splits prod.splits if_splits intro: scan_eps_ok[of take_data_ep, OF take_ep_ok(1)])
qed simp

lemma parsed_ok:
  assumes "cdc_parse_interface_descriptor P mem d idx = Some (e, info)"
  shows "info_ok info \<and> (e = ESP_OK \<longrightarrow> pi_in_ep info \<noteq> None \<and> pi_out_ep info \<noteq> None)"
proof (cases "pd_intf P idx 0")
  case None
  then show ?thesis using assms by (auto simp: cdc_parse_interface_descriptor_def info_ok_def no_info_def)
next
  case (Some io)
  obtain i off where io: "io = (i, off)" by fastforce
  obtain x where x: "scan_eps P take_ep i off [0..<id_endpoints i] no_info = Some x"
    using assms Some io by (cases "scan_eps P take_ep i off [0..<id_endpoints i] no_info") (auto simp: cdc_parse_interface_descriptor_def)
  have "info_ok no_info" by (simp add: info_ok_def no_info_def)
  then have ok: "info_ok x" using scan_eps_ok[of take_ep, OF take_ep_ok(2) _ x] by blast
  then have ok2: "info_ok (x\<lparr>pi_notif_intf := Some i, pi_func_cnt := n\<rparr>)" for n by (simp add: info_ok_def)
  obtain b n where f: "cdc_parse_functional_descriptors mem (pd_after P i off) = (b, n)" by fastforce
  let ?y = "x\<lparr>pi_notif_intf := Some i, pi_func_cnt := n\<rparr>"
  define s where "s = second_intf P (idx + 1) [0..<nat (pd_alts P (idx + 1) + 1)] ?y"
  have "Some (e, info) = (if \<not> cdc_parse_is_cdc_compliant P d idx then Some (data_found x, x)
      else if \<not> b \<and> 0 < n then Some (ESP_ERR_NO_MEM, ?y)
      else if pi_data_intf ?y \<noteq> None then Some (data_found ?y, ?y) else map_option (\<lambda>z. (data_found z, z)) s)"
    unfolding s_def assms[symmetric] cdc_parse_interface_descriptor_def Some io option.case prod.case x f Let_def by (rule refl)
  then consider "e = data_found x" "info = x" | "e = ESP_ERR_NO_MEM" "info = ?y" | "e = data_found ?y" "info = ?y"
    | z where "e = data_found z" "info = z" "s = Some z"
    by (cases "cdc_parse_is_cdc_compliant P d idx"; cases "\<not> b \<and> 0 < n"; cases "pi_data_intf ?y \<noteq> None"; cases s)
      (simp_all only: if_True if_False not_True_eq_False not_False_eq_True option.map prod.inject option.inject, auto)
  then show ?thesis
  proof cases
    case (4 z)
    then show ?thesis using second_intf_ok[OF 4(3)[unfolded s_def] ok2] by (auto simp: data_found_def split: if_split_asm)
  qed (use ok ok2[of n] in \<open>auto simp: data_found_def split: if_split_asm\<close>)
qed

text \<open>A device that is accepted is used over two bulk endpoints, one for each direction, of an interface that is
  known, and notifications are read from an interrupt endpoint only.\<close>
theorem accepted_endpoints:
  assumes "cdc_parse_interface_descriptor P mem d idx = Some (ESP_OK, info)"
  shows "\<exists>a b. pi_in_ep info = Some a \<and> pi_out_ep info = Some b \<and> ep_bulk a \<and> ep_in a \<and> ep_bulk b \<and> \<not> ep_in b \<and>
    pi_data_intf info \<noteq> None \<and> (\<forall>n. pi_notif_ep info = Some n \<longrightarrow> ep_intr n \<and> pi_notif_intf info \<noteq> None)"
  using parsed_ok[OF assms] by (auto simp: info_ok_def)

text \<open>A stick as they are: an interface of its own for the notifications, the data endpoints in the second one.\<close>

definition stick_desc :: desc_api where
  "stick_desc =
     \<lparr>pd_intf = (\<lambda>n a. if n = 0 then Some (\<lparr>id_number = 0, id_alt = 0, id_class = 2, id_endpoints = 1\<rparr>, 9)
        else if n = 1 then Some (\<lparr>id_number = 1, id_alt = 0, id_class = 10, id_endpoints = 2\<rparr>, 44) else None),
      pd_ep = (\<lambda>i k off. if id_number i = 0 then Some \<lparr>ep_address = 0x83, ep_attributes = 3, ep_mps = 8\<rparr>
        else if k = 0 then Some \<lparr>ep_address = 0x02, ep_attributes = 2, ep_mps = 64\<rparr>
        else Some \<lparr>ep_address = 0x81, ep_attributes = 2, ep_mps = 64\<rparr>),
      pd_iads = [], pd_after = (\<lambda>i off. [0x24, 0x24, 0x24, 0x24, 5, 4]), pd_alts = (\<lambda>i. 0)\<rparr>"

lemma accepted_endpoints_witness:
  "\<exists>info. cdc_parse_interface_descriptor stick_desc True \<lparr>dc_class = 2, dc_subclass = 0, dc_protocol = 0\<rparr> 0 = Some (ESP_OK, info) \<and>
    (\<exists>a b. pi_in_ep info = Some a \<and> pi_out_ep info = Some b \<and> ep_bulk a \<and> ep_in a \<and> ep_bulk b \<and> \<not> ep_in b \<and>
      pi_data_intf info \<noteq> None \<and> (\<forall>n. pi_notif_ep info = Some n \<longrightarrow> ep_intr n \<and> pi_notif_intf info \<noteq> None))"
proof -
  have "\<exists>info. cdc_parse_interface_descriptor stick_desc True \<lparr>dc_class = 2, dc_subclass = 0, dc_protocol = 0\<rparr> 0 = Some (ESP_OK, info)"
    by (simp add: cdc_parse_interface_descriptor_def stick_desc_def take_ep_def take_data_ep_def ep_intr_def ep_bulk_def ep_in_def
        no_info_def cdc_parse_is_cdc_compliant_def cdc_parse_functional_descriptors_def data_found_def)
  then show ?thesis using accepted_endpoints by blast
qed

text \<open>
  The notifications of such a stick are ten bytes long and come in two packets of eight and two: the first is read behind
  the end of its buffer.
\<close>

lemma notification_read_behind: "notif_xfer_cb XCompleted [0xA1, 0x20, 0, 0, 0, 0, 2, 0] True (c, w) = None"
  by (simp add: notif_xfer_cb_def cdc_acm_is_transfer_completed_def notif_dispatch_def notif_word_def nth_opt_def)

end
