(* ===== verification/Spec2Isabelle.thy ===== *)
theory Spec2Isabelle
  imports SerialCfg Bridge SinkTcp SourceUart SourceUsb Radio CulDfu OtaCheck OtaUpload LogBuffer
    Config Json WebForms Health Net NetRun NetLife CaptiveDns SourceCherry
    WebActions WebPages StatusPage Eeprom AppWdt Glue Pipe
    Improv ImprovBackend ImprovGlue SerialFilter Bringup Missions
    VcpDrivers CdcHost CdcOpen CdcParse
begin

text \<open>
  \<^bold>\<open>The cdc2net bridge firmware\<close>

  The program under \<^verbatim>\<open>src/firmware/main\<close> runs on an ESP32 and puts a serial device on the network: a
  \<^emph>\<open>source\<close> (a USB stick or an onboard radio on a UART) is fanned out by the \<^emph>\<open>bridge\<close> to its \<^emph>\<open>sinks\<close>, in
  practice one TCP server with telnet and RFC 2217.  Around this pipe stand the network with its open
  access point for onboarding, the web server with its forms and uploads, the updates of the firmware, of
  the radio and of a stick, the settings in NVS, and the diagnostics.  This library follows the C
  functions one by one, in the order of the code, and proves what the parts promise and how they fit.

  \<^bold>\<open>How the code is modelled\<close>

  A C struct or the static variables of a file are a record, an enum a datatype, \<^verbatim>\<open>uint8_t\<close>, \<^verbatim>\<open>uint16_t\<close> and
  \<^verbatim>\<open>uint32_t\<close> are words that wrap, an error code is a value of \<open>esp_err\<close>, a character buffer of fixed size is a
  string cut by \<open>fmt_s\<close> where the code uses \<^verbatim>\<open>snprintf\<close>.  A function takes the state and returns it
  updated; where several tasks meet, the pieces between two blocking calls, or under one mutex, are the
  steps of an inductive relation, and invariants are proved by rule induction over all interleavings.
  What is not in the repository (ESP-IDF, FreeRTOS, lwIP, the USB stacks, the HTTP, JSON and OTA libraries,
  the flash) is a parameter: a record of functions over a world \<open>'w\<close>.  Documented behaviour of such a
  library that a theorem needs is a named hypothesis or a locale, and a closed instance shows that it
  can hold.  The clock is an argument.  Log lines are left out, except in the log ring itself.

  \<^bold>\<open>The theories\<close>

  \<^item> \<open>Cdc_Prelude\<close>: error codes, words, bytes and strings, \<^verbatim>\<open>snprintf\<close>, decimal and hexadecimal texts.
  \<^item> \<open>Nvs\<close>: the key-value store as a parameter, with its laws and an example store.
  \<^item> \<open>SerialCfg\<close> (\<^verbatim>\<open>serialcfg.c\<close>): the table of line codings per device.  An abstract eight-slot table is refined
    by the four operations; the contract of the store is the locale \<open>lc_store\<close>.
  \<^item> \<open>Source\<close> (\<^verbatim>\<open>source.h\<close>): the operation tables and their null-safe wrappers; the locale \<open>line_port\<close> is the
    contract of the line-coding operations.
  \<^item> \<open>Bridge\<close> (\<^verbatim>\<open>bridge.c\<close>): fan-out, transmit lock, attach and detach, statistics.  \<open>attached_port\<close> extends
    \<open>line_port\<close> to a source behind the bridge, which again is a \<open>line_port\<close>.
  \<^item> \<open>Telnet\<close> and \<open>SinkTcp\<close> (\<^verbatim>\<open>sink_tcp.c\<close>): the per-client byte machine against a reference decoder of the
    stream, then slots, accepting, clean-up, fan-out, replay.
  \<^item> \<open>SourceUart\<close>, \<open>SourceUsb\<close>, \<open>SourceCherry\<close> (\<^verbatim>\<open>source_uart.c\<close>, \<^verbatim>\<open>source_usb.c\<close>, \<^verbatim>\<open>source_usb_cherry.c\<close>): the three
    sources, each an interpretation of \<open>line_port\<close>; the two USB ones with their tasks and callbacks as
    interleaved steps.
  \<^item> \<open>Radio\<close> (\<^verbatim>\<open>radio_flash.c\<close>, \<^verbatim>\<open>radio_md5.c\<close>, \<^verbatim>\<open>h_radio_body\<close>): staging an image for the radio with a commit marker,
    and bringing the radio in sync at the start.
  \<^item> \<open>CulDfu\<close> (\<^verbatim>\<open>cul_dfu.c\<close>): reflashing a stick through its bootloader.
  \<^item> \<open>OtaCheck\<close> (\<^verbatim>\<open>ota_check.c\<close>), \<open>OtaUpload\<close> (\<^verbatim>\<open>h_ota_body\<close>): looking for, pulling and receiving firmware.
  \<^item> \<open>Net\<close>, \<open>NetRun\<close>, \<open>NetLife\<close>, \<open>CaptiveDns\<close> (\<^verbatim>\<open>net.c\<close>, \<^verbatim>\<open>net_eth.c\<close>): state and handlers, the step relation with its
    invariants, the behaviour over time, and the name server of the access point.
  \<^item> \<open>Config\<close> (\<^verbatim>\<open>config.c\<close>), \<open>Health\<close> (\<^verbatim>\<open>health.c\<close>), \<open>LogBuffer\<close> (\<^verbatim>\<open>log_buffer.c\<close>), \<open>Eeprom\<close> (\<^verbatim>\<open>eeprom_m24c32.c\<close>): settings,
    counters, log ring, EEPROM self-test.
  \<^item> \<open>Json\<close>, \<open>WebForms\<close>, \<open>WebActions\<close>, \<open>WebPages\<close>, \<open>StatusPage\<close> (\<^verbatim>\<open>webui.c\<close>): the text helpers, the forms, the handlers
    that act on another component, the pages, the status page over all components, and the routes.
  \<^item> \<open>AppWdt\<close>, \<open>Glue\<close> (\<^verbatim>\<open>main.c\<close>, \<^verbatim>\<open>tulx_glue.c\<close>, \<^verbatim>\<open>mdns_glue.c\<close>): the watchdog of the main task, the storage bring-up,
    probation and recovery, the short host name.
  \<^item> \<open>Improv\<close>, \<open>ImprovBackend\<close>, \<open>ImprovGlue\<close>, \<open>SerialFilter\<close> (\<^verbatim>\<open>components/improv_wifi_busware\<close>, \<^verbatim>\<open>improv_glue.cpp\<close>): onboarding
    over the console.  The core takes the Wi-Fi side as a record of functions with the contract \<open>wifi_link\<close>; the
    backend over the driver provides it; the glue is the window, its task and what a joined network stores.
  \<^item> \<open>Bringup\<close>: the start of the Ethernet chip, of the listener, of the name server, of the bootloader client and of the
    announcement, with what each holds when a step fails.
  \<^item> \<open>VcpDrivers\<close>, \<open>CdcHost\<close>, \<open>CdcOpen\<close>, \<open>CdcParse\<close> (\<^verbatim>\<open>components/usb_host_*\<close>): what the USB source stands on, the drivers of the
    serial chips and the CDC host: rates and line codings, the callbacks of the endpoints, transmissions, opening and
    closing, and the choice of the endpoints.  A theorem about the source alone takes these as a parameter.
  \<^item> \<open>Missions\<close> (\<^verbatim>\<open>mission_tbr.c\<close>, \<^verbatim>\<open>hubprobe.c\<close>): the two builds beside the gateway.
  \<^item> \<open>Pipe\<close>: the composition \<^verbatim>\<open>app_main\<close> builds of codec, bridge, source and sink, with the locale \<open>codec_world\<close> for
    what the codec keeps of the world below it; this theory adds the line coding end to end.

  \<^bold>\<open>What is shown\<close>

  \<^item> The data path: the source is given nothing but what the clients send, and all of it while it takes what it is
    given (\<open>uplink_exact\<close>); a client gets nothing but what the source sends, and all of it while its socket
    takes what it is given (\<open>downlink_exact\<close>); the codec decodes the byte stream however it is cut into chunks
    (\<open>telnet_stream\<close>), the tables stay coherent
    (\<open>tcp_invariant\<close>, \<open>bridge_invariant\<close>), a sink that has transmitted keeps the others out, for calls that overlap (\<open>tx_step\<close>)
    as well (\<open>bridge_tx_exclusive\<close>), and a line-coding request is answered with what is in force at the source, end
    to end (\<open>rfc2217_truthful\<close>).
  \<^item> The sources: the handshakes between callbacks, stick task and senders (\<open>usb_invariant\<close>,
    \<open>cherry_no_use_after_free\<close>, \<open>cherry_teardown_bound\<close>) and the scanner on the stream (\<open>uart_rx_stream\<close>).
    Below them, a transmission comes back and reports the truth (\<open>tx_delivers\<close>), the receive buffer is never
    overrun (\<open>in_pipe_room\<close>), a failed receive transfer is the last (\<open>rx_error_final\<close>), and the rates are near
    (\<open>ftdi_divisor_near\<close>, \<open>ch34x_rate_nearest\<close>).
  \<^item> Updates: nothing partial is ever committed or flashed, with the result of every write, close, finish and
    switch in the logs the theorems speak of (\<open>ota_upload_commits\<close>, \<open>radio_interrupted_upload_safe\<close>,
    \<open>dfu_upload_whole\<close>), the order of the commands on the wire (\<open>cul_dfu_flash_log\<close>, \<open>radio_sync_log\<close>), the guards
    of the pulled update and its end (\<open>ota_install_guard\<close>, \<open>ota_install_ends\<close>).
  \<^item> The network: an open access point is retired (\<open>open_ap_retired\<close>), the supervisor and the watchdog
    (\<open>supervisor_reconnects\<close>, \<open>wdt_restart_exact\<close>), the history (\<open>disc_history_complete\<close>).
  \<^item> Onboarding: from the form (\<open>wifi_provisioned\<close>) and from the console (\<open>improv_provisions\<close>) to the next boot; the
    console parser acts on frames only and on all of them (\<open>only_frames_handled\<close>, \<open>frames_roundtrip\<close>), credentials
    change only by a joined attempt (\<open>feed_only_provisions\<close>, \<open>attempt_forgives\<close>), the scan answer
    (\<open>scan_reported\<close>) and the end of the window (\<open>improv_window_closes\<close>).
  \<^item> Settings and pages: round trips of the settings through flash and form (\<open>config_roundtrip\<close>, \<open>config_get_post\<close>),
    effects and refusals (\<open>config_post_effect\<close>), types (\<open>config_typed\<close>), and that each page fits its buffer and
    is complete (\<open>status_page_complete\<close>, \<open>serial_page_complete\<close>, \<open>log_page_whole\<close>).
  \<^item> The watchdog of the main task over the statements of its feeds and pauses (\<open>wdt_guard\<close>) and the EEPROM (\<open>eeprom_selftest\<close>).

  Where the code falls short of what it says, a lemma shows the run: \<open>bridge_auto_overlap\<close>, \<open>cherry_claim_gap\<close>,
  \<open>captive_stale\<close>, \<open>pause_race\<close>, \<open>selftest_destroys\<close>, \<open>routes_lost\<close>, \<open>failed_attempt_stays\<close>, \<open>failed_start_strands\<close> and others beside the theorems they limit.

  \<^bold>\<open>Loops\<close>

  Loops over data are recursive functions that are proved to terminate, with a measure where the recursion is
  not structural.  The download of an update may wait for its peer for ever: \<open>download\<close> has no value then, and
  \<open>ota_install_ends\<close> shows when it has one.  The send loop of the codec and the poll loop of the bootloader count
  their retries as the code does.  No fuel is used that the code does not have: the counters in
  the models are its poll limits, buffer sizes and deadlines.

  \<^bold>\<open>Not modelled\<close>

  Starting the Wi-Fi driver, the USB host and the web server, and IPv6, which are calls into libraries without
  state of their own; the status line that the main loop logs; the compressed page in \<^verbatim>\<open>web_assets.h\<close>; under
  \<^verbatim>\<open>src/firmware/components\<close> everything but the onboarding library and the USB host drivers: mDNS and CherryUSB
  are third-party code that the firmware only calls.

  Some steps are coarser than the code.  The hook of the log is one step, although two tasks that lose a line at the
  same time may count it once.  A stick that is unplugged ends a reflash at its next transfer; one that is plugged in
  again during the run is not modelled.  The chip of the EEPROM example needs no time to write, so the waits after a
  write are kept in the model but nothing depends on them.  \<open>bridge_tx_to_source\<close> is the whole call; \<open>tx_step\<close> is its
  interleaving, with the sections under the mutex as steps and the transfer between them.
\<close>

subsection \<open>The gateway\<close>

text \<open>
  The line coding, end to end: \<open>gate_env\<close> of \<open>Pipe\<close> puts the codec on the bridge, and the bridge has one of the
  three sources.
\<close>

definition usb_gateway :: "'w cdc_api \<Rightarrow> 'w nvs_api \<Rightarrow> (usb_state \<times> 'w) br_env" where
  "usb_gateway D N = \<lparr>env_source = (\<lambda>a. if a = 0 then Some (usb_ops D N) else None), env_sink = (\<lambda>s. None)\<rparr>"

definition uart_gateway :: "'w uart_api \<Rightarrow> 'w nvs_api \<Rightarrow> uart_profile \<Rightarrow> (uart_state \<times> 'w) br_env" where
  "uart_gateway U N P =
     \<lparr>env_source = (\<lambda>a. if a = 0 then Some (uart_ops U N P) else None), env_sink = (\<lambda>s. None)\<rparr>"

interpretation usb_port: attached_port "usb_op_set_line_coding D" usb_op_get_line_coding "\<lambda>_. True"
    "usb_gateway D N" "bridge_attach_source (Some 0) b0" 0 "usb_ops D N"
  for D :: "'w cdc_api" and N :: "'w nvs_api" and b0
  by unfold_locales (simp_all add: bridge_attach_source_def usb_gateway_def usb_ops_def)

interpretation uart_port: attached_port "uart_op_set_line_coding U" uart_op_get_line_coding "\<lambda>_. True"
    "uart_gateway U N P" "bridge_attach_source (Some 0) b0" 0 "uart_ops U N P"
  for U :: "'w uart_api" and N :: "'w nvs_api" and P and b0
  by unfold_locales (simp_all add: bridge_attach_source_def uart_gateway_def uart_ops_def)

definition cherry_gateway :: "'w host_api \<Rightarrow> 'w nvs_api \<Rightarrow> (cherry \<times> 'w) br_env" where
  "cherry_gateway H N = \<lparr>env_source = (\<lambda>a. if a = 0 then Some (ch_ops H N) else None), env_sink = (\<lambda>s. None)\<rparr>"

interpretation cherry_port: attached_port "ch_op_set_line_coding H" ch_op_get_line_coding "\<lambda>_. True"
    "cherry_gateway H N" "bridge_attach_source (Some 0) b0" 0 "ch_ops H N"
  for H :: "'w host_api" and N :: "'w nvs_api" and b0
  by unfold_locales (simp_all add: bridge_attach_source_def cherry_gateway_def ch_ops_def)

lemma gate_send: "tn_send_loop (gate_env K B now who) fd bs n (v, k) = (v, tn_send_loop K fd bs n k)"
proof (induction K fd bs n k rule: tn_send_loop.induct)
  case (1 K fd bs n k)
  show ?case
  proof (cases "bs = []")
    case True
    then show ?thesis by (simp add: tn_send_loop.simps)
  next
    case False
    obtain r k1 where s: "sk_send K fd bs k = (r, k1)" by (metis surj_pair)
    have sg: "sk_send (gate_env K B now who) fd bs (v, k) = (r, (v, k1))" by (simp add: gate_env_def s)
    have dg: "sk_delay (gate_env K B now who) (v, k1) = (v, sk_delay K k1)"
      "sk_shutdown (gate_env K B now who) fd (v, k1) = (v, sk_shutdown K fd k1)" by (simp_all add: gate_env_def)
    show ?thesis
    proof (cases r)
      case (Sent m)
      then show ?thesis using 1(1) [OF False s [symmetric] Sent] False s sg dg
        by (simp add: tn_send_loop.simps [of _ fd bs n])
    next
      case SendAgain
      then show ?thesis using 1(2) [OF False s [symmetric] SendAgain] False s sg dg
        by (simp add: tn_send_loop.simps [of _ fd bs n])
    next
      case SendErr
      then show ?thesis using False s sg dg by (simp add: tn_send_loop.simps [of _ fd bs n])
    qed
  qed
qed

lemma gate_reply: "cpo_reply (gate_env K B now who) c r v (x, k) = (x, cpo_reply K c r v k)"
  by (simp add: cpo_reply_def tn_send_def gate_send)

lemma gate_get:
  "br_get (gate_env K (usb_gateway D N) now who) zero_lc ((bridge_attach_source (Some 0) b0, u), k) =
     usb_op_get_line_coding u"
  using fun_cong [OF usb_port.via_get_eq [of D N b0], of u] by (simp add: gate_env_def usb_port.via_get_def)

lemma gate_apply:
  "br_apply (gate_env K (usb_gateway D N) now who) l ((bridge_attach_source (Some 0) b0, u), k) =
     (fst (usb_op_set_line_coding D l u),
      ((bridge_attach_source (Some 0) b0, snd (usb_op_set_line_coding D l u)), k))"
  by (cases "usb_op_set_line_coding D l u")
    (simp add: gate_env_def bridge_apply_line_coding_def bridge_attach_source_def usb_gateway_def
      source_set_line_coding_def src_op_def usb_ops_def)

text \<open>C1: End to end over codec, bridge and USB source: a COM-PORT request of the controller is in force at the source if
  the driver accepts it and changes nothing otherwise; other clients change nothing; and the reply on
  the socket always reports the coding the source then has.\<close>
theorem rfc2217_truthful:
  assumes "sb (clients S i) = TOPT_COMPORT # cmd # val"
    and "tn_subneg (gate_env K (usb_gateway D N) now who) i (S, ((bridge_attach_source (Some 0) b0, u), k)) =
       (S', ((b', u'), k'))"
  shows "S' = S \<and> b' = bridge_attach_source (Some 0) b0 \<and> (\<not> is_controller (clients S i) \<longrightarrow> u' = u) \<and>
    usb_op_get_line_coding u' =
      (case cpo_request cmd val (usb_op_get_line_coding u) of
         Some l \<Rightarrow> if is_controller (clients S i) \<and> fst (usb_op_set_line_coding D l u) = ESP_OK then l
           else usb_op_get_line_coding u
       | None \<Rightarrow> usb_op_get_line_coding u) \<and>
    k' = (case cpo_answer cmd val (usb_op_get_line_coding u') of
       None \<Rightarrow> k | Some v \<Rightarrow> cpo_reply K (clients S i) (CPO_SERVER_BASE + cmd) v k)"
proof -
  let ?b = "bridge_attach_source (Some 0) b0" and ?cur = "usb_op_get_line_coding u"
  let ?E = "gate_env K (usb_gateway D N) now who"
  have after: "usb_op_get_line_coding (snd (usb_op_set_line_coding D l u)) =
      (if fst (usb_op_set_line_coding D l u) = ESP_OK then l else ?cur)" for l
    by (rule usb.get_after_set) simp
  let ?req = "cpo_request cmd val ?cur"
  obtain l u1 where set: "cpo_set ?E (is_controller (clients S i)) ?cur ?req ((?b, u), k) = (l, ((?b, u1), k))"
    and l: "l = usb_op_get_line_coding u1"
    and u1: "\<not> is_controller (clients S i) \<longrightarrow> u1 = u"
    and req: "usb_op_get_line_coding u1 = (case ?req of
         Some l \<Rightarrow> if is_controller (clients S i) \<and> fst (usb_op_set_line_coding D l u) = ESP_OK then l else ?cur
       | None \<Rightarrow> ?cur)"
  proof (cases ?req)
    case None
    then show ?thesis using that [of ?cur u] by (simp add: cpo_set_def)
  next
    case (Some r)
    show ?thesis
    proof (cases "is_controller (clients S i)")
      case False
      then show ?thesis using that [of ?cur u] Some by (simp add: cpo_set_def)
    next
      case True
      then show ?thesis
        using that [of "usb_op_get_line_coding (snd (usb_op_set_line_coding D r u))" "snd (usb_op_set_line_coding D r u)"]
          Some after [of r] by (simp add: cpo_set_def gate_apply)
    qed
  qed
  have "tn_subneg ?E i (S, ((?b, u), k)) = (S, (case cpo_answer cmd val l of
        None \<Rightarrow> ((?b, u1), k) | Some v \<Rightarrow> ((?b, u1), cpo_reply K (clients S i) (CPO_SERVER_BASE + cmd) v k)))"
    using assms(1) set by (simp add: tn_subneg_def gate_get Let_def gate_reply split: option.split)
  then show ?thesis using assms(2) u1 req l by (auto split: option.splits)
qed

text \<open>A controller that asks for 9600 baud.\<close>

definition asking :: sink where
  "asking = upd_client 0 (\<lambda>c. c\<lparr>is_controller := True, sb := TOPT_COMPORT # 1 # be32 9600\<rparr>) (sink_tcp_init 0)"

lemma rfc2217_truthful_witness:
  "\<exists>b' u' k'. tn_subneg (gate_env echo_env (usb_gateway cdc_null nvs_none) 0 (Some 0)) 0
      (asking, ((bridge_attach_source (Some 0) bridge_init, (y_S (source_usb_init ()), ())), ())) =
        (asking, ((b', u'), k')) \<and> baud (usb_op_get_line_coding u') = 9600"
proof -
  let ?u = "(y_S (source_usb_init ()), ())"
  let ?E = "gate_env echo_env (usb_gateway cdc_null nvs_none) 0 (Some 0)"
  let ?w = "((bridge_attach_source (Some 0) bridge_init, ?u), ())"
  obtain S' b' u' k' where r: "tn_subneg ?E 0 (asking, ?w) = (S', ((b', u'), k'))" by (metis surj_pair)
  have a: "sb (clients asking 0) = TOPT_COMPORT # 1 # be32 9600" "is_controller (clients asking 0)"
    by (simp_all add: asking_def upd_client_def)
  have "cpo_request 1 (be32 x) l = Some (l\<lparr>baud := x\<rparr>)" if "x \<noteq> 0" for x l
    using that by (simp add: cpo_request_def be32_def of_be32_be32)
  then have q: "cpo_request 1 (be32 9600) l = Some (l\<lparr>baud := 9600\<rparr>)" for l by simp
  have "fst (usb_op_set_line_coding cdc_null l ?u) = ESP_OK" for l
    by (simp add: usb_op_set_line_coding_def usb_apply_lc_def source_usb_init_def)
  with rfc2217_truthful [OF a(1) r] a(2) q show ?thesis using r by auto
qed

end
